(* ===== verification/Prelude.thy ===== *)
theory Prelude
  imports Main "HOL-Library.Word" "HOL-Library.Monad_Syntax" "HOL-Library.Signed_Division"
begin

text \<open>
  Shared vocabulary of the development: the machine integers of the kernel, checked array
  access, the two loop shapes the C code uses, and the generic lemmas about them.

  Conventions.  A C function that may panic, fault or spin forever is a function into
  \<open>option\<close>; \<open>None\<close> means that control does not come back to the caller.
  Do-notation is the option monad of \<open>Monad_Syntax\<close>, with the state threaded by hand.
  C \<open>uint\<close> is \<open>32 word\<close> (wraps around), C \<open>int\<close> is \<open>int\<close>, and C's \<open>%\<close> on
  \<open>int\<close>, which rounds towards zero, is \<open>smod\<close> of \<open>Signed_Division\<close>.
\<close>

unbundle bit_operations_syntax

named_theorems loop_rules \<open>invariant rules of the loop combinators\<close>
named_theorems array_simps \<open>checked array access evaluated in range\<close>

section \<open>Types\<close>

type_synonym uint = "32 word"

section \<open>Checked arrays\<close>

text \<open>A read or write outside an array is undefined behaviour in C: the model stops.\<close>

definition nth_opt :: "'a list \<Rightarrow> nat \<Rightarrow> 'a option" where
  "nth_opt xs i = (if i < length xs then Some (xs ! i) else None)"

definition upd_opt :: "'a list \<Rightarrow> nat \<Rightarrow> 'a \<Rightarrow> 'a list option" where
  "upd_opt xs i v = (if i < length xs then Some (xs[i := v]) else None)"

text \<open>The same with a C \<open>int\<close> as the index.\<close>

definition ith_opt :: "'a list \<Rightarrow> int \<Rightarrow> 'a option" where
  "ith_opt xs i = (if 0 \<le> i \<and> i < int (length xs) then Some (xs ! nat i) else None)"

definition iupd_opt :: "'a list \<Rightarrow> int \<Rightarrow> 'a \<Rightarrow> 'a list option" where
  "iupd_opt xs i v = (if 0 \<le> i \<and> i < int (length xs) then Some (xs[nat i := v]) else None)"

section \<open>Loops\<close>

text \<open>
  \<open>for (i = lo; i < lo + n; i++) body\<close> where the body has no early exit: \<open>for_from n lo\<close>.
\<close>

primrec for_from :: "nat \<Rightarrow> nat \<Rightarrow> (nat \<Rightarrow> 's \<Rightarrow> 's option) \<Rightarrow> 's \<Rightarrow> 's option" where
  "for_from 0 i f s = Some s"
| "for_from (Suc n) i f s = Option.bind (f i s) (for_from n (Suc i) f)"

text \<open>
  The same with a body that may return from the function: it yields \<open>Some r\<close> to return
  \<open>r\<close> and \<open>None\<close> to go on.
\<close>

primrec for_ret :: "nat \<Rightarrow> nat \<Rightarrow> (nat \<Rightarrow> 's \<Rightarrow> ('r option \<times> 's) option) \<Rightarrow> 's \<Rightarrow> ('r option \<times> 's) option" where
  "for_ret 0 i f s = Some (None, s)"
| "for_ret (Suc n) i f s = Option.bind (f i s)
     (\<lambda>(r, s). case r of Some r \<Rightarrow> Some (Some r, s) | None \<Rightarrow> for_ret n (Suc i) f s)"

text \<open>
  A table scan that stops at the first entry satisfying a test: \<open>first_ix\<close> is the index
  at which it stops, \<open>None\<close> when the scan falls off the end.
\<close>

fun first_ix :: "('a \<Rightarrow> bool) \<Rightarrow> 'a list \<Rightarrow> nat option" where
  "first_ix P [] = None"
| "first_ix P (x # xs) = (if P x then Some 0 else map_option Suc (first_ix P xs))"

section \<open>Lemmas\<close>

lemma nth_opt_in [simp, array_simps]: "i < length xs \<Longrightarrow> nth_opt xs i = Some (xs ! i)"
  by (simp add: nth_opt_def)

lemma upd_opt_in [simp, array_simps]: "i < length xs \<Longrightarrow> upd_opt xs i v = Some (xs[i := v])"
  by (simp add: upd_opt_def)

lemma nth_opt_eq_Some: "nth_opt xs i = Some x \<longleftrightarrow> i < length xs \<and> xs ! i = x"
  by (auto simp: nth_opt_def)

lemma nth_opt_eq_None: "nth_opt xs i = None \<longleftrightarrow> length xs \<le> i"
  by (auto simp: nth_opt_def)

lemma upd_opt_eq_Some: "upd_opt xs i v = Some ys \<longleftrightarrow> i < length xs \<and> ys = xs[i := v]"
  by (auto simp: upd_opt_def)

lemma ith_opt_in [simp, array_simps]:
  "0 \<le> i \<Longrightarrow> i < int (length xs) \<Longrightarrow> ith_opt xs i = Some (xs ! nat i)"
  by (simp add: ith_opt_def)

lemma iupd_opt_in [simp, array_simps]:
  "0 \<le> i \<Longrightarrow> i < int (length xs) \<Longrightarrow> iupd_opt xs i v = Some (xs[nat i := v])"
  by (simp add: iupd_opt_def)

lemma ith_opt_eq_Some:
  "ith_opt xs i = Some x \<longleftrightarrow> 0 \<le> i \<and> i < int (length xs) \<and> xs ! nat i = x"
  by (auto simp: ith_opt_def)

lemma ith_opt_eq_None: "ith_opt xs i = None \<longleftrightarrow> i < 0 \<or> int (length xs) \<le> i"
  by (auto simp: ith_opt_def)

lemma iupd_opt_eq_Some:
  "iupd_opt xs i v = Some ys \<longleftrightarrow> 0 \<le> i \<and> i < int (length xs) \<and> ys = xs[nat i := v]"
  by (auto simp: iupd_opt_def)

lemma first_ix_eq_Some:
  "first_ix P xs = Some i \<longleftrightarrow> i < length xs \<and> P (xs ! i) \<and> (\<forall>j < i. \<not> P (xs ! j))"
proof (induction xs arbitrary: i)
  case Nil
  then show ?case by simp
next
  case (Cons x xs)
  show ?case
  proof (cases i)
    case 0
    then show ?thesis by simp
  next
    case (Suc k)
    then show ?thesis
      using Cons.IH [of k] by (auto simp: less_Suc_eq_0_disj)
  qed
qed

lemma first_ix_eq_None: "first_ix P xs = None \<longleftrightarrow> (\<forall>x \<in> set xs. \<not> P x)"
  by (induction xs) auto

lemma first_ix_eq_None_nth: "first_ix P xs = None \<longleftrightarrow> (\<forall>i < length xs. \<not> P (xs ! i))"
  by (metis first_ix_eq_None in_set_conv_nth)

lemma first_ix_SomeD:
  assumes "first_ix P xs = Some i"
  shows "i < length xs" and "P (xs ! i)" and "\<And>j. j < i \<Longrightarrow> \<not> P (xs ! j)"
  using assms by (auto simp: first_ix_eq_Some)

lemma first_ix_cong_nth:
  "length xs = length ys \<Longrightarrow> (\<And>i. i < length xs \<Longrightarrow> P (xs ! i) = Q (ys ! i)) \<Longrightarrow> first_ix P xs = first_ix Q ys"
proof (induction xs ys rule: list_induct2)
  case (Cons x xs y ys)
  have "P x = Q y" using Cons.prems [of 0] by simp
  moreover have "first_ix P xs = first_ix Q ys" using Cons.prems [of "Suc i" for i] by (intro Cons.IH) simp
  ultimately show ?case by simp
qed simp

lemma first_ix_replicate [simp]:
  "first_ix P (replicate n x) = (if 0 < n \<and> P x then Some 0 else None)"
  by (cases n) (auto simp: first_ix_eq_None)

text \<open>
  Total correctness of a counted loop: if the invariant holds at the start and every
  iteration returns and keeps it, then the loop returns and it holds at the end.
\<close>

lemma for_from_total [loop_rules]:
  assumes "I i s"
    and "\<And>j t. i \<le> j \<Longrightarrow> j < i + n \<Longrightarrow> I j t \<Longrightarrow> \<exists>t'. f j t = Some t' \<and> I (Suc j) t'"
  shows "\<exists>s'. for_from n i f s = Some s' \<and> I (i + n) s'"
  using assms
proof (induction n arbitrary: i s)
  case 0
  then show ?case by simp
next
  case (Suc n)
  obtain t where t: "f i s = Some t" "I (Suc i) t"
    using Suc.prems(2) [of i s] Suc.prems(1) by auto
  obtain s' where "for_from n (Suc i) f t = Some s'" "I (Suc i + n) s'"
    using Suc.IH [of "Suc i" t] t Suc.prems(2) by auto
  then show ?case using t by simp
qed

text \<open>Partial correctness: what a loop that returned has established.\<close>

lemma for_from_partial [loop_rules]:
  assumes "for_from n i f s = Some s'"
    and "I i s"
    and "\<And>j t t'. i \<le> j \<Longrightarrow> j < i + n \<Longrightarrow> I j t \<Longrightarrow> f j t = Some t' \<Longrightarrow> I (Suc j) t'"
  shows "I (i + n) s'"
  using assms
proof (induction n arbitrary: i s)
  case 0
  then show ?case by simp
next
  case (Suc n)
  from Suc.prems(1) obtain t where t: "f i s = Some t" "for_from n (Suc i) f t = Some s'"
    by (auto simp: bind_eq_Some_conv)
  have "I (Suc i) t" using Suc.prems(2,3) t by auto
  then have "I (Suc i + n) s'"
    by (rule Suc.IH [OF t(2)]) (use Suc.prems(3) in auto)
  then show ?case by simp
qed

lemma for_from_pure:
  "for_from n i (\<lambda>j s. Some (g j s)) s = Some (fold g [i..<i + n] s)"
  by (induction n arbitrary: i s) (simp_all add: upt_conv_Cons del: upt_Suc)

section \<open>Signed reading of words\<close>

lemma sint_small:
  fixes w :: uint
  assumes "unat w < 2 ^ 31"
  shows "sint w = int (unat w)"
proof -
  have "uint w < 2 ^ 31" using assms unfolding uint_nat by (simp only: of_nat_less_numeral_power_cancel_iff)
  moreover have "- (2 ^ 31) \<le> uint w" by (rule order_trans [of _ 0]) simp_all
  ultimately have "signed_take_bit 31 (uint w) = uint w" by (rule signed_take_bit_int_eq_self [rotated])
  then show ?thesis by (simp add: sint_uint)
qed

lemma sint_big:
  fixes w :: uint
  assumes "2 ^ 31 \<le> unat w"
  shows "sint w = int (unat w) - 2 ^ 32"
proof -
  have "sint w = (uint w + 2 ^ 31) mod 2 ^ 32 - 2 ^ 31"
    by (simp add: sint_uint signed_take_bit_eq_take_bit_shift take_bit_eq_mod)
  also have "(uint w + 2 ^ 31) mod 2 ^ 32 = uint w + 2 ^ 31 - 2 ^ 32"
  proof -
    have "2 ^ 31 \<le> uint w" "uint w < 2 ^ 32" using assms unsigned_less [of w] by (simp_all add: uint_nat del: of_nat_unat)
    then show ?thesis by (subst mod_pos_geq) simp_all
  qed
  finally show ?thesis by simp
qed

lemma sint_of_nat_small: "n < 2 ^ 31 \<Longrightarrow> sint (of_nat n :: uint) = int n"
  by (simp add: sint_small unat_of_nat)

end
