(* ===== verification/Spinlock.thy ===== *)
theory Spinlock
  imports Prelude
begin

text \<open>
  Spin locks and interrupt nesting (\<open>spinlock.c\<close>, \<open>mycpu\<close> of \<open>proc.c\<close>).

  A \<open>machine\<close> is what one processor sees while it runs kernel code: the table of CPUs, the
  id its local APIC reports, its interrupt flag and page table register, and all spin locks.
  A \<open>spinlock\<close> keeps \<open>locked\<close>, \<open>cpu\<close> and \<open>name\<close>; the debugging call stack \<open>pcs\<close> is left
  out.  \<open>acquire\<close> of a lock that another processor holds spins until that processor lets go,
  which this processor alone cannot bring about: the model gives \<open>None\<close>, as for a panic.
\<close>

section \<open>State\<close>

datatype lockid =
    PtableLk | KmemLk | MutexTableLk | MutexLk nat | CvLk nat | IcacheLk | FtableLk
  | BcacheLk | LogLk | TicksLk | ConsLk | IdeLk | PipeLk uint | InodeSlk nat | BufSlk nat

record spinlock =
  sl_locked :: uint
  sl_name :: string
  sl_cpu :: "nat option"

record cpu =
  c_apicid :: int
  c_ncli :: int
  c_intena :: bool
  c_proc :: "nat option"
  c_esp0 :: uint

record machine =
  m_cpus :: "cpu list"
  m_lapicid :: int
  m_IF :: bool
  m_cr3 :: uint
  m_locks :: "lockid \<Rightarrow> spinlock"

section \<open>Operations\<close>

definition initlock_m :: "lockid \<Rightarrow> string \<Rightarrow> machine \<Rightarrow> machine" where
  "initlock_m lk nm m =
     m\<lparr>m_locks := (m_locks m)(lk := \<lparr>sl_locked = 0, sl_name = nm, sl_cpu = None\<rparr>)\<rparr>"

definition mycpu :: "machine \<Rightarrow> nat option" where
  "mycpu m =
     (if m_IF m then None
      else first_ix (\<lambda>c. c_apicid c = m_lapicid m) (m_cpus m))"

definition upd_cpu :: "nat \<Rightarrow> (cpu \<Rightarrow> cpu) \<Rightarrow> machine \<Rightarrow> machine" where
  "upd_cpu c f m = m\<lparr>m_cpus := (m_cpus m)[c := f (m_cpus m ! c)]\<rparr>"

definition pushcli :: "machine \<Rightarrow> machine option" where
  "pushcli m = do {
     let eflags = m_IF m;
     let m = m\<lparr>m_IF := False\<rparr>;
     c \<leftarrow> mycpu m;
     let m = (if c_ncli (m_cpus m ! c) = 0 then upd_cpu c (\<lambda>cp. cp\<lparr>c_intena := eflags\<rparr>) m else m);
     Some (upd_cpu c (\<lambda>cp. cp\<lparr>c_ncli := c_ncli cp + 1\<rparr>) m)
   }"

definition popcli :: "machine \<Rightarrow> machine option" where
  "popcli m =
     (if m_IF m then None
      else do {
        c \<leftarrow> mycpu m;
        let m = upd_cpu c (\<lambda>cp. cp\<lparr>c_ncli := c_ncli cp - 1\<rparr>) m;
        if c_ncli (m_cpus m ! c) < 0 then None
        else if c_ncli (m_cpus m ! c) = 0 \<and> c_intena (m_cpus m ! c) then Some (m\<lparr>m_IF := True\<rparr>)
        else Some m
      })"

definition holding_m :: "lockid \<Rightarrow> machine \<Rightarrow> bool option" where
  "holding_m lk m =
     (if sl_locked (m_locks m lk) = 0 then Some False
      else do {
        c \<leftarrow> mycpu m;
        Some (sl_cpu (m_locks m lk) = Some c)
      })"

definition acquire_m :: "lockid \<Rightarrow> machine \<Rightarrow> machine option" where
  "acquire_m lk m = do {
     m \<leftarrow> pushcli m;
     h \<leftarrow> holding_m lk m;
     if h then None
     else if sl_locked (m_locks m lk) \<noteq> 0 then None
     else do {
       let m = m\<lparr>m_locks := (m_locks m)(lk := (m_locks m lk)\<lparr>sl_locked := 1\<rparr>)\<rparr>;
       c \<leftarrow> mycpu m;
       Some (m\<lparr>m_locks := (m_locks m)(lk := (m_locks m lk)\<lparr>sl_cpu := Some c\<rparr>)\<rparr>)
     }
   }"

definition release_m :: "lockid \<Rightarrow> machine \<Rightarrow> machine option" where
  "release_m lk m = do {
     h \<leftarrow> holding_m lk m;
     if \<not> h then None
     else popcli (m\<lparr>m_locks := (m_locks m)(lk := (m_locks m lk)\<lparr>sl_cpu := None, sl_locked := 0\<rparr>)\<rparr>)
   }"

section \<open>Invariant and vocabulary of the proofs\<close>

text \<open>
  \<open>here m\<close> is the entry of \<open>cpus\<close> the code runs on.  \<open>wf_machine m\<close>: there is one, its
  nesting count is not negative, and while the count is positive interrupts are off.
\<close>

definition here :: "machine \<Rightarrow> nat" where
  "here m = the (first_ix (\<lambda>cp. c_apicid cp = m_lapicid m) (m_cpus m))"

abbreviation here_cpu :: "machine \<Rightarrow> cpu" where
  "here_cpu m \<equiv> m_cpus m ! here m"

definition wf_machine :: "machine \<Rightarrow> bool" where
  "wf_machine m \<longleftrightarrow>
     first_ix (\<lambda>cp. c_apicid cp = m_lapicid m) (m_cpus m) \<noteq> None \<and>
     0 \<le> c_ncli (here_cpu m) \<and>
     (0 < c_ncli (here_cpu m) \<longrightarrow> \<not> m_IF m)"

definition lock_free :: "lockid \<Rightarrow> machine \<Rightarrow> bool" where
  "lock_free lk m \<longleftrightarrow> sl_locked (m_locks m lk) = 0 \<and> sl_cpu (m_locks m lk) = None"

definition lock_held :: "lockid \<Rightarrow> machine \<Rightarrow> bool" where
  "lock_held lk m \<longleftrightarrow> sl_locked (m_locks m lk) = 1 \<and> sl_cpu (m_locks m lk) = Some (here m)"

text \<open>
  The effect of a matched \<open>pushcli\<close>/\<open>popcli\<close> pair: the outermost pair leaves the saved
  interrupt flag behind in \<open>intena\<close>, everything else is as before.
\<close>

definition settle :: "machine \<Rightarrow> machine" where
  "settle m =
     (if c_ncli (here_cpu m) = 0 then upd_cpu (here m) (\<lambda>cp. cp\<lparr>c_intena := m_IF m\<rparr>) m else m)"

definition pushed :: "machine \<Rightarrow> machine" where
  "pushed m = upd_cpu (here m) (\<lambda>cp. cp\<lparr>c_ncli := c_ncli cp + 1\<rparr>) ((settle m)\<lparr>m_IF := False\<rparr>)"

definition acq :: "lockid \<Rightarrow> machine \<Rightarrow> machine" where
  "acq lk m =
     (pushed m)\<lparr>m_locks := (m_locks m)(lk := (m_locks m lk)\<lparr>sl_locked := 1, sl_cpu := Some (here m)\<rparr>)\<rparr>"

section \<open>Lemmas\<close>

lemma here_lt: "wf_machine m \<Longrightarrow> here m < length (m_cpus m)"
  by (auto simp: wf_machine_def here_def dest: first_ix_SomeD)

lemma first_ix_apicid_upd:
  assumes "\<And>cp. c_apicid (f cp) = c_apicid cp"
  shows "first_ix (\<lambda>cp. c_apicid cp = k) (xs[c := f (xs ! c)]) = first_ix (\<lambda>cp. c_apicid cp = k) xs"
  using assms
proof (induction xs arbitrary: c)
  case (Cons x xs)
  then show ?case by (cases c) auto
qed simp

lemma here_upd_cpu [simp]:
  "(\<And>cp. c_apicid (f cp) = c_apicid cp) \<Longrightarrow> here (upd_cpu c f m) = here m"
  by (simp add: here_def upd_cpu_def first_ix_apicid_upd)

lemma here_update [simp]:
  "here (m\<lparr>m_IF := b\<rparr>) = here m"
  "here (m\<lparr>m_locks := L\<rparr>) = here m"
  "here (m\<lparr>m_cr3 := w\<rparr>) = here m"
  by (simp_all add: here_def)

lemma upd_cpu_simps [simp]:
  "m_IF (upd_cpu c f m) = m_IF m"
  "m_locks (upd_cpu c f m) = m_locks m"
  "m_lapicid (upd_cpu c f m) = m_lapicid m"
  "m_cr3 (upd_cpu c f m) = m_cr3 m"
  "length (m_cpus (upd_cpu c f m)) = length (m_cpus m)"
  by (simp_all add: upd_cpu_def)

lemma upd_cpu_nth [simp]:
  "c < length (m_cpus m) \<Longrightarrow> m_cpus (upd_cpu c f m) ! c = f (m_cpus m ! c)"
  by (simp add: upd_cpu_def)

lemma upd_cpu_twice:
  "c < length (m_cpus m) \<Longrightarrow> upd_cpu c f (upd_cpu c g m) = upd_cpu c (\<lambda>cp. f (g cp)) m"
  by (simp add: upd_cpu_def)

lemma upd_cpu_same [simp]: "upd_cpu c (\<lambda>cp. cp) m = m"
  by (simp add: upd_cpu_def)

lemma first_ix_upd_cpu [simp]:
  "(\<And>cp. c_apicid (f cp) = c_apicid cp) \<Longrightarrow>
     first_ix (\<lambda>cp. c_apicid cp = k) (m_cpus (upd_cpu c f m)) = first_ix (\<lambda>cp. c_apicid cp = k) (m_cpus m)"
  by (simp add: upd_cpu_def first_ix_apicid_upd)

lemma here_settle [simp]: "here (settle m) = here m"
  by (simp add: settle_def)

lemma here_pushed [simp]: "here (pushed m) = here m"
  by (simp add: pushed_def)

lemma here_acq [simp]: "here (acq lk m) = here m"
  by (simp add: acq_def)

lemma settle_simps [simp]:
  "m_IF (settle m) = m_IF m"
  "m_locks (settle m) = m_locks m"
  "m_lapicid (settle m) = m_lapicid m"
  "m_cr3 (settle m) = m_cr3 m"
  "length (m_cpus (settle m)) = length (m_cpus m)"
  by (simp_all add: settle_def)

lemma settle_cpu [simp]:
  "c_ncli (m_cpus (settle m) ! here m) = c_ncli (here_cpu m)"
  "c_proc (m_cpus (settle m) ! here m) = c_proc (here_cpu m)"
  by (cases "here m < length (m_cpus m)"; simp add: settle_def upd_cpu_def list_update_beyond)+

lemma wf_settle [simp]: "wf_machine (settle m) = wf_machine m"
  unfolding wf_machine_def by simp (simp add: settle_def)

lemma settle_idem [simp]: "settle (settle m) = settle m"
  unfolding settle_def [of "settle m"] by simp
    (cases "here m < length (m_cpus m)"; simp add: settle_def upd_cpu_def list_update_beyond)

lemma lock_free_settle [simp]: "lock_free lk (settle m) = lock_free lk m"
  by (simp add: lock_free_def)

lemma lock_held_settle [simp]: "lock_held lk (settle m) = lock_held lk m"
  by (simp add: lock_held_def)

lemma mycpu_wf: "wf_machine m \<Longrightarrow> \<not> m_IF m \<Longrightarrow> mycpu m = Some (here m)"
  by (auto simp: wf_machine_def mycpu_def here_def)

lemma pushcli_wf:
  assumes "wf_machine m"
  shows "pushcli m = Some (pushed m)"
proof -
  have c: "here m < length (m_cpus m)" using assms by (rule here_lt)
  have "mycpu (m\<lparr>m_IF := False\<rparr>) = Some (here m)"
    using assms by (auto simp: wf_machine_def mycpu_def here_def)
  then show ?thesis
    using c by (simp add: pushcli_def pushed_def settle_def upd_cpu_def Let_def)
qed

lemma pushed_simps [simp]:
  "m_IF (pushed m) = False"
  "m_locks (pushed m) = m_locks m"
  "m_lapicid (pushed m) = m_lapicid m"
  "m_cr3 (pushed m) = m_cr3 m"
  "length (m_cpus (pushed m)) = length (m_cpus m)"
  by (simp_all add: pushed_def)

lemma pushed_same_locks: "(pushed m)\<lparr>m_locks := m_locks m\<rparr> = pushed m"
  by (rule machine.equality) simp_all

lemma pushed_cpu [simp]:
  assumes "wf_machine m"
  shows "c_ncli (m_cpus (pushed m) ! here m) = c_ncli (here_cpu m) + 1"
    and "c_proc (m_cpus (pushed m) ! here m) = c_proc (here_cpu m)"
    and "c_intena (m_cpus (pushed m) ! here m) =
           (if c_ncli (here_cpu m) = 0 then m_IF m else c_intena (here_cpu m))"
  using here_lt [OF assms] by (simp_all add: pushed_def upd_cpu_def settle_def)

lemma wf_pushed [simp]: "wf_machine m \<Longrightarrow> wf_machine (pushed m)"
  by (simp add: wf_machine_def [of "pushed m"]) (auto simp: wf_machine_def pushed_def settle_def)

lemma settle_pushed [simp]: "wf_machine m \<Longrightarrow> settle (pushed m) = pushed m"
  unfolding settle_def [of "pushed m"] by (simp add: wf_machine_def [of m])

lemma popcli_wf:
  assumes "wf_machine m" "\<not> m_IF m" "0 < c_ncli (here_cpu m)"
  shows "popcli m = Some
    (let m' = upd_cpu (here m) (\<lambda>cp. cp\<lparr>c_ncli := c_ncli cp - 1\<rparr>) m
     in if c_ncli (here_cpu m) = 1 \<and> c_intena (here_cpu m) then m'\<lparr>m_IF := True\<rparr> else m')"
  using assms here_lt [OF assms(1)]
  by (auto simp: popcli_def mycpu_wf Let_def)

lemma wf_ncli_nonneg: "wf_machine m \<Longrightarrow> 0 \<le> c_ncli (here_cpu m)"
  by (simp add: wf_machine_def)

lemma wf_ncli_IF: "wf_machine m \<Longrightarrow> m_IF m \<Longrightarrow> c_ncli (here_cpu m) = 0"
  by (force simp: wf_machine_def)

lemma popcli_pushed:
  assumes "wf_machine m"
  shows "popcli (pushed m) = Some (settle m)"
proof -
  have c: "here m < length (m_cpus m)" using assms by (rule here_lt)
  have dec: "upd_cpu (here m) (\<lambda>cp. cp\<lparr>c_ncli := c_ncli cp - 1\<rparr>) (pushed m) = (settle m)\<lparr>m_IF := False\<rparr>"
    using c by (simp add: pushed_def upd_cpu_twice)
  show ?thesis
    using assms wf_ncli_nonneg [OF assms] wf_ncli_IF [OF assms]
    by (auto simp: popcli_wf Let_def dec) (auto simp: settle_def upd_cpu_def intro: machine.equality)
qed

lemma pushed_locks: "pushed (m\<lparr>m_locks := L\<rparr>) = (pushed m)\<lparr>m_locks := L\<rparr>"
proof -
  have "settle (m\<lparr>m_locks := L\<rparr>) = (settle m)\<lparr>m_locks := L\<rparr>"
    by (simp add: settle_def upd_cpu_def)
  then show ?thesis by (simp add: pushed_def upd_cpu_def)
qed

lemma popcli_locks:
  "popcli (m\<lparr>m_locks := L\<rparr>) = map_option (\<lambda>m. m\<lparr>m_locks := L\<rparr>) (popcli m)"
proof -
  have "mycpu (m\<lparr>m_locks := L\<rparr>) = mycpu m" by (simp add: mycpu_def)
  then show ?thesis by (cases "mycpu m") (simp_all add: popcli_def upd_cpu_def Let_def)
qed

lemma acq_simps [simp]:
  "m_IF (acq lk m) = False"
  "m_lapicid (acq lk m) = m_lapicid m"
  "m_cr3 (acq lk m) = m_cr3 m"
  "m_cpus (acq lk m) = m_cpus (pushed m)"
  "m_locks (acq lk m) = (m_locks m)(lk := (m_locks m lk)\<lparr>sl_locked := 1, sl_cpu := Some (here m)\<rparr>)"
  by (simp_all add: acq_def)

lemma wf_acq [simp]: "wf_machine m \<Longrightarrow> wf_machine (acq lk m)"
  using wf_pushed [of m] by (simp add: wf_machine_def)

lemma settle_acq [simp]: "wf_machine m \<Longrightarrow> settle (acq lk m) = acq lk m"
  unfolding settle_def [of "acq lk m"] by (simp add: wf_machine_def [of m])

lemma acq_settle [simp]: "acq lk (settle m) = acq lk m"
  unfolding acq_def pushed_def by simp

lemma lock_free_acq [simp]: "lock_free lk' (acq lk m) \<longleftrightarrow> lk' \<noteq> lk \<and> lock_free lk' m"
  by (auto simp: lock_free_def)

lemma lock_held_acq [simp]: "lock_held lk' (acq lk m) \<longleftrightarrow> lk' = lk \<or> lock_held lk' m"
  by (auto simp: lock_held_def)

lemma acquire_m_free [simp]:
  assumes "wf_machine m" "lock_free lk m"
  shows "acquire_m lk m = Some (acq lk m)"
proof -
  have "mycpu ((pushed m)\<lparr>m_locks := L\<rparr>) = Some (here m)" for L
    using wf_pushed [OF assms(1)] mycpu_wf [of "pushed m"] by (simp add: mycpu_def)
  then show ?thesis
    using assms by (simp add: acquire_m_def pushcli_wf holding_m_def lock_free_def acq_def)
qed

lemma release_m_held:
  assumes "wf_machine m" "lock_held lk m" "\<not> m_IF m"
  shows "release_m lk m =
    popcli (m\<lparr>m_locks := (m_locks m)(lk := (m_locks m lk)\<lparr>sl_cpu := None, sl_locked := 0\<rparr>)\<rparr>)"
  using assms by (simp add: release_m_def holding_m_def lock_held_def mycpu_wf)

lemma release_m_acq [simp]:
  assumes "wf_machine m" "lock_free lk m"
  shows "release_m lk (acq lk m) = Some (settle m)"
proof -
  have "release_m lk (acq lk m) = popcli (pushed m)"
    using assms by (simp add: release_m_held)
      (simp add: acq_def lock_free_def fun_upd_idem pushed_same_locks)
  then show ?thesis using assms by (simp add: popcli_pushed)
qed

text \<open>Locks need not be released in the order they were taken.\<close>

lemma release_m_acq_acq [simp]:
  assumes "wf_machine m" "lock_free lk m" "lk \<noteq> lk'"
  shows "release_m lk (acq lk' (acq lk m)) = Some (acq lk' m)"
proof -
  have c: "here m < length (m_cpus m)" using assms(1) by (rule here_lt)
  let ?m2 = "acq lk' (acq lk m)"
  let ?m1 = "?m2\<lparr>m_locks := (m_locks ?m2)(lk := (m_locks ?m2 lk)\<lparr>sl_cpu := None, sl_locked := 0\<rparr>)\<rparr>"
  have p2: "pushed (acq lk m) = (pushed (pushed m))\<lparr>m_locks := m_locks (acq lk m)\<rparr>"
    by (simp add: acq_def pushed_locks)
  have "m_cpus ?m1 = m_cpus (pushed (pushed m))" using p2 by simp
  moreover have "m_locks ?m1 = m_locks (acq lk' m)"
    using assms by (auto simp: lock_free_def fun_eq_iff)
  ultimately have m1: "?m1 = (pushed (pushed m))\<lparr>m_locks := m_locks (acq lk' m)\<rparr>"
    by (intro machine.equality) simp_all
  have "release_m lk ?m2 = popcli ?m1"
    using assms by (simp add: release_m_held)
  also have "\<dots> = Some ((settle (pushed m))\<lparr>m_locks := m_locks (acq lk' m)\<rparr>)"
    unfolding m1 using popcli_pushed [of "pushed m"] assms(1) by (simp add: popcli_locks)
  also have "\<dots> = Some (acq lk' m)"
    using assms(1) by (simp add: acq_def)
  finally show ?thesis .
qed

text \<open>Taking a lock this processor already holds, or releasing one it does not hold, panics.\<close>

lemma acquire_m_held: "wf_machine m \<Longrightarrow> lock_held lk m \<Longrightarrow> acquire_m lk m = None"
  by (simp add: acquire_m_def pushcli_wf holding_m_def lock_held_def mycpu_wf)

lemma release_m_free: "lock_free lk m \<Longrightarrow> release_m lk m = None"
  by (simp add: release_m_def holding_m_def lock_free_def)

end
