(* ===== verification/FsState.thy ===== *)
theory FsState
  imports Prelude
begin

text \<open>
  The state of the file system, the pipes and the console: one record per C struct
  (\<open>buf.h\<close>, \<open>sleeplock.h\<close>, \<open>fs.h\<close>, \<open>file.h\<close> and the structs declared in \<open>bio.c\<close>,
  \<open>log.c\<close>, \<open>fs.c\<close>, \<open>file.c\<close>, \<open>pipe.c\<close>, \<open>console.c\<close>), and the access to the integers
  that the C code finds in a block by casting a pointer to its bytes.

  A pointer to a buffer, an inode or a file is an index into its table.  The spin lock inside
  each struct is kept with the other spin locks of the machine.  A disk block is the list of
  its \<open>BSIZE\<close> bytes.
\<close>

abbreviation (input) BSIZE :: nat where "BSIZE \<equiv> 1024"
abbreviation (input) NBUF :: nat where "NBUF \<equiv> 30"
abbreviation (input) LOGSIZE :: nat where "LOGSIZE \<equiv> 30"
abbreviation (input) MAXOPBLOCKS :: int where "MAXOPBLOCKS \<equiv> 10"
abbreviation (input) NINODE :: nat where "NINODE \<equiv> 50"
abbreviation (input) NFILE :: nat where "NFILE \<equiv> 100"
abbreviation (input) NDEV :: nat where "NDEV \<equiv> 10"
abbreviation (input) NDIRECT :: nat where "NDIRECT \<equiv> 12"
abbreviation (input) NINDIRECT :: nat where "NINDIRECT \<equiv> 256"
abbreviation (input) DIRSIZ :: nat where "DIRSIZ \<equiv> 14"
abbreviation (input) ROOTDEV :: uint where "ROOTDEV \<equiv> 1"
abbreviation (input) ROOTINO :: uint where "ROOTINO \<equiv> 1"
abbreviation (input) T_DIR :: "16 word" where "T_DIR \<equiv> 1"
abbreviation (input) T_FILE :: "16 word" where "T_FILE \<equiv> 2"
abbreviation (input) T_DEV :: "16 word" where "T_DEV \<equiv> 3"
abbreviation (input) B_VALID :: uint where "B_VALID \<equiv> 2"
abbreviation (input) B_DIRTY :: uint where "B_DIRTY \<equiv> 4"
abbreviation (input) PIPESIZE :: nat where "PIPESIZE \<equiv> 512"
abbreviation (input) INPUT_BUF :: nat where "INPUT_BUF \<equiv> 128"

type_synonym byte = "8 word"
type_synonym block = "byte list"

section \<open>Records\<close>

record sleeplock =
  slk_locked :: uint
  slk_name :: string
  slk_pid :: int

record buf =
  b_flags :: uint
  b_dev :: uint
  b_blockno :: uint
  b_lock :: sleeplock
  b_refcnt :: uint
  b_data :: block

text \<open>
  \<open>bc_list\<close> is the doubly linked list through \<open>prev\<close> and \<open>next\<close>, from \<open>head.next\<close> (most
  recently used) to \<open>head.prev\<close>.
\<close>

record bcache =
  bc_buf :: "buf list"
  bc_list :: "nat list"

record logheader =
  lh_n :: int
  lh_block :: "int list"

record log =
  lg_start :: int
  lg_size :: int
  lg_outstanding :: int
  lg_committing :: int
  lg_dev :: int
  lg_lh :: logheader

record superblock =
  sb_size :: uint
  sb_nblocks :: uint
  sb_ninodes :: uint
  sb_nlog :: uint
  sb_logstart :: uint
  sb_inodestart :: uint
  sb_bmapstart :: uint

record dinode =
  di_type :: "16 word"
  di_major :: "16 word"
  di_minor :: "16 word"
  di_nlink :: "16 word"
  di_size :: uint
  di_addrs :: "uint list"

record inode =
  i_dev :: uint
  i_inum :: uint
  i_ref :: int
  i_lock :: sleeplock
  i_valid :: int
  i_type :: "16 word"
  i_major :: "16 word"
  i_minor :: "16 word"
  i_nlink :: "16 word"
  i_size :: uint
  i_addrs :: "uint list"

record dirent =
  de_inum :: "16 word"
  de_name :: "byte list"

record stat =
  st_type :: "16 word"
  st_dev :: uint
  st_ino :: uint
  st_nlink :: "16 word"
  st_size :: uint

datatype filetype = FD_NONE | FD_PIPE | FD_INODE

record kfile =
  f_type :: filetype
  f_ref :: int
  f_readable :: bool
  f_writable :: bool
  f_pipe :: uint
  f_ip :: "nat option"
  f_off :: uint

text \<open>The only device functions of the system.\<close>

datatype devfn = Consoleread | Consolewrite

record devsw =
  dv_read :: "devfn option"
  dv_write :: "devfn option"

record pipe =
  pi_data :: "byte list"
  pi_nread :: uint
  pi_nwrite :: uint
  pi_readopen :: int
  pi_writeopen :: int

record input =
  in_buf :: "byte list"
  in_r :: uint
  in_w :: uint
  in_e :: uint

text \<open>
  \<open>memdisk\<close> is the disk image of \<open>memide.c\<close>; \<open>writes\<close> is a history variable: the block
  writes the driver has performed, in order.  \<open>consout\<close> is what \<open>consputc\<close> has sent to the
  serial port, \<open>crt\<close> and \<open>crtpos\<close> are the memory and the cursor register of the screen.  A pipe lives in a page of the page allocator, so \<open>pipes\<close> is indexed by the
  page's address.
\<close>

record fsys =
  memdisk :: "nat \<Rightarrow> block"
  disksize :: nat
  writes :: "(nat \<times> block) list"
  bcache :: bcache
  log :: log
  sb :: superblock
  icache :: "inode list"
  ftable :: "kfile list"
  devsw :: "devsw list"
  pipes :: "uint \<Rightarrow> pipe"
  cons_locking :: int
  input :: input
  consout :: "byte list"
  crt :: "nat \<Rightarrow> 16 word"
  crtpos :: nat

section \<open>Integers inside a block\<close>

text \<open>Little-endian integers at a byte offset.\<close>

definition get_u16 :: "byte list \<Rightarrow> nat \<Rightarrow> 16 word" where
  "get_u16 bs k = ucast (bs ! k) OR push_bit 8 (ucast (bs ! (k + 1)))"

definition get_u32 :: "byte list \<Rightarrow> nat \<Rightarrow> uint" where
  "get_u32 bs k = ucast (bs ! k) OR push_bit 8 (ucast (bs ! (k + 1))) OR
     push_bit 16 (ucast (bs ! (k + 2))) OR push_bit 24 (ucast (bs ! (k + 3)))"

definition bytes16 :: "16 word \<Rightarrow> byte list" where
  "bytes16 w = [ucast w, ucast (drop_bit 8 w)]"

definition bytes32 :: "uint \<Rightarrow> byte list" where
  "bytes32 w = [ucast w, ucast (drop_bit 8 w), ucast (drop_bit 16 w), ucast (drop_bit 24 w)]"

text \<open>\<open>memmove(data + o, src, length src)\<close> inside a block.\<close>

definition put_at :: "byte list \<Rightarrow> nat \<Rightarrow> byte list \<Rightarrow> byte list" where
  "put_at bs k src = take k bs @ src @ drop (k + length src) bs"

definition put_u16 :: "byte list \<Rightarrow> nat \<Rightarrow> 16 word \<Rightarrow> byte list" where
  "put_u16 bs k w = put_at bs k (bytes16 w)"

definition put_u32 :: "byte list \<Rightarrow> nat \<Rightarrow> uint \<Rightarrow> byte list" where
  "put_u32 bs k w = put_at bs k (bytes32 w)"

section \<open>Zero-initialised state\<close>

definition sleeplock0 :: sleeplock where
  "sleeplock0 = \<lparr>slk_locked = 0, slk_name = [], slk_pid = 0\<rparr>"

definition buf0 :: buf where
  "buf0 = \<lparr>b_flags = 0, b_dev = 0, b_blockno = 0, b_lock = sleeplock0, b_refcnt = 0, b_data = replicate BSIZE 0\<rparr>"

definition inode0 :: inode where
  "inode0 = \<lparr>i_dev = 0, i_inum = 0, i_ref = 0, i_lock = sleeplock0, i_valid = 0, i_type = 0, i_major = 0,
     i_minor = 0, i_nlink = 0, i_size = 0, i_addrs = replicate (NDIRECT + 1) 0\<rparr>"

definition file0 :: kfile where
  "file0 = \<lparr>f_type = FD_NONE, f_ref = 0, f_readable = False, f_writable = False, f_pipe = 0, f_ip = None, f_off = 0\<rparr>"

definition log0 :: log where
  "log0 = \<lparr>lg_start = 0, lg_size = 0, lg_outstanding = 0, lg_committing = 0, lg_dev = 0,
     lg_lh = \<lparr>lh_n = 0, lh_block = replicate LOGSIZE 0\<rparr>\<rparr>"

definition fsys0 :: fsys where
  "fsys0 = \<lparr>memdisk = (\<lambda>_. replicate BSIZE 0), disksize = 0, writes = [],
     bcache = \<lparr>bc_buf = replicate NBUF buf0, bc_list = []\<rparr>, log = log0,
     sb = \<lparr>sb_size = 0, sb_nblocks = 0, sb_ninodes = 0, sb_nlog = 0, sb_logstart = 0, sb_inodestart = 0, sb_bmapstart = 0\<rparr>,
     icache = replicate NINODE inode0, ftable = replicate NFILE file0,
     devsw = replicate NDEV \<lparr>dv_read = None, dv_write = None\<rparr>,
     pipes = (\<lambda>_. \<lparr>pi_data = replicate PIPESIZE 0, pi_nread = 0, pi_nwrite = 0, pi_readopen = 0, pi_writeopen = 0\<rparr>),
     cons_locking = 0, input = \<lparr>in_buf = replicate INPUT_BUF 0, in_r = 0, in_w = 0, in_e = 0\<rparr>, consout = [],
     crt = (\<lambda>_. 0), crtpos = 0\<rparr>"

section \<open>Lemmas\<close>

lemma length_put_at [simp]: "k + length src \<le> length bs \<Longrightarrow> length (put_at bs k src) = length bs"
  by (simp add: put_at_def)

lemma length_bytes [simp]: "length (bytes16 w) = 2" "length (bytes32 v) = 4"
  by (simp_all add: bytes16_def bytes32_def)

lemma nth_put_at:
  assumes "k + length src \<le> length bs"
  shows "put_at bs k src ! i = (if k \<le> i \<and> i < k + length src then src ! (i - k) else bs ! i)"
proof (cases "i < k + length src")
  case True
  then show ?thesis using assms by (auto simp: put_at_def nth_append)
next
  case False
  then show ?thesis using assms by (auto simp: put_at_def nth_append)
qed

lemma join_bytes: "ucast (ucast w :: byte) OR push_bit 8 (ucast (ucast (drop_bit 8 w) :: byte)) OR
    push_bit 16 (ucast (ucast (drop_bit 16 w) :: byte)) OR push_bit 24 (ucast (ucast (drop_bit 24 w) :: byte)) = w"
    (is "?l = w") for w :: uint
proof (rule bit_word_eqI)
  fix n assume "n < LENGTH(32)"
  then consider "n < 8" | "8 \<le> n" "n < 16" | "16 \<le> n" "n < 24" | "24 \<le> n" "n < 32" by force
  then show "bit ?l n = bit w n"
    by cases (auto simp: bit_simps)
qed

lemma get_bytes32: "get_u32 (pre @ bytes32 w @ post) (length pre) = w"
  using join_bytes [of w] by (simp add: get_u32_def bytes32_def nth_append)

lemma get_bytes16: "get_u16 (pre @ bytes16 w @ post) (length pre) = w"
  by (simp add: get_u16_def bytes16_def nth_append)
    (rule bit_word_eqI, auto simp: bit_simps)

lemma get_put_u32:
  assumes "k + 4 \<le> length bs"
  shows "get_u32 (put_u32 bs k w) k = w"
  using get_bytes32 [of "take k bs" w "drop (k + 4) bs"] assms by (simp add: put_u32_def put_at_def)

lemma get_put_u32_other:
  assumes "k + 4 \<le> length bs" "p + 4 \<le> k \<or> k + 4 \<le> p"
  shows "get_u32 (put_u32 bs k w) p = get_u32 bs p"
  using assms by (auto simp: get_u32_def put_u32_def nth_put_at)

lemma get_put_u16:
  assumes "k + 2 \<le> length bs"
  shows "get_u16 (put_u16 bs k w) k = w"
  using get_bytes16 [of "take k bs" w "drop (k + 2) bs"] assms by (simp add: put_u16_def put_at_def)

end
