(* ===== verification/Kernel.thy ===== *)
theory Kernel
  imports Spinlock FsState
begin

text \<open>
  The state of the kernel: one record per C struct (\<open>proc.h\<close>, \<open>shm.h\<close>, \<open>x86.h\<close> and the
  structs declared in \<open>proc.c\<close> and \<open>kalloc.c\<close>), and the record \<open>kernel\<close> of the global
  variables.

  A \<open>struct proc *\<close> is an index into \<open>ptable.proc\<close>, with \<open>None\<close> for the null pointer.
  \<open>proc.h\<close> defines \<open>NULL\<close> as the pointer \<open>-1\<close>, so the run queues use \<open>procptr\<close>, which tells
  \<open>0\<close>, \<open>-1\<close> and a table entry apart.  A wait channel is the address of some kernel object:
  \<open>chan\<close> has one constructor per object the code sleeps on.  Physical memory is \<open>mem\<close>: the
  page at kernel address \<open>v\<close> is the function \<open>mem v\<close> from word index (below 1024) to word.
  The kernel stack of a process is seen only through the trap frame and the saved context
  that \<open>tf\<close> and \<open>context\<close> point to.  \<open>link\<close> holds the addresses the linker fixes, \<open>fsys\<close> the
  file system, the pipes and the console.
\<close>

section \<open>Constants\<close>

text \<open>\<open>param.h\<close>, \<open>proc.h\<close>, \<open>shm.h\<close>, \<open>mmu.h\<close>, \<open>memlayout.h\<close>.\<close>

abbreviation (input) NPROC :: nat where "NPROC \<equiv> 64"
abbreviation (input) NOFILE :: nat where "NOFILE \<equiv> 16"
abbreviation (input) QUEUESIZE :: nat where "QUEUESIZE \<equiv> 50"
abbreviation (input) PRIO_MAX :: nat where "PRIO_MAX \<equiv> 10"
abbreviation (input) HFS_PRIO_MAX :: int where "HFS_PRIO_MAX \<equiv> 10"
abbreviation (input) MUX_MAXNUM :: nat where "MUX_MAXNUM \<equiv> 16"
abbreviation (input) SHM_MAXNUM :: nat where "SHM_MAXNUM \<equiv> 16"
abbreviation (input) SHM_NAME_LEN :: nat where "SHM_NAME_LEN \<equiv> 16"
abbreviation (input) MAXPATH :: int where "MAXPATH \<equiv> 256"
abbreviation (input) FP_POLICY :: int where "FP_POLICY \<equiv> 0"
abbreviation (input) HFS_POLICY :: int where "HFS_POLICY \<equiv> 1"
abbreviation (input) PGSIZE :: uint where "PGSIZE \<equiv> 4096"
abbreviation (input) KSTACKSIZE :: uint where "KSTACKSIZE \<equiv> 4096"
abbreviation (input) KERNBASE :: uint where "KERNBASE \<equiv> 0x80000000"
abbreviation (input) EXTMEM :: uint where "EXTMEM \<equiv> 0x100000"
abbreviation (input) PHYSTOP :: uint where "PHYSTOP \<equiv> 0xE000000"
abbreviation (input) DEVSPACE :: uint where "DEVSPACE \<equiv> 0xFE000000"

section \<open>Processes\<close>

datatype procstate = UNUSED | EMBRYO | SLEEPING | RUNNABLE | RUNNING | ZOMBIE

datatype procptr = PNull | PMinusOne | PProc nat

datatype chan =
    ChProc nat | ChMutex nat | ChTicks | ChLog | ChInode nat | ChBuf nat | ChIde nat
  | ChPipeR uint | ChPipeW uint | ChInput

record trapframe =
  tf_edi :: uint
  tf_esi :: uint
  tf_ebp :: uint
  tf_oesp :: uint
  tf_ebx :: uint
  tf_edx :: uint
  tf_ecx :: uint
  tf_eax :: uint
  tf_gs :: "16 word"
  tf_fs :: "16 word"
  tf_es :: "16 word"
  tf_ds :: "16 word"
  tf_trapno :: uint
  tf_err :: uint
  tf_eip :: uint
  tf_cs :: "16 word"
  tf_eflags :: uint
  tf_esp :: uint
  tf_ss :: "16 word"

text \<open>\<open>ctx_ret\<close> is the word above the context on the kernel stack, where \<open>forkret\<close> returns to.\<close>

record ctx =
  ctx_edi :: uint
  ctx_esi :: uint
  ctx_ebx :: uint
  ctx_ebp :: uint
  ctx_eip :: uint
  ctx_ret :: uint

record shm_mapping =
  sm_name :: "byte list"
  sm_va :: uint

record proc =
  p_sz :: uint
  p_pgdir :: uint
  p_kstack :: uint
  p_state :: procstate
  p_pid :: int
  p_parent :: "nat option"
  p_tf :: trapframe
  p_context :: ctx
  p_chan :: "chan option"
  p_killed :: int
  p_ofile :: "nat option list"
  p_cwd :: "nat option"
  p_name :: "byte list"
  p_maxproc :: int
  p_maxprocset :: int
  p_newroot_inode :: "nat option"
  p_in_newroot :: int
  p_in_container :: int
  p_namespace :: int
  p_proc_mutexes :: "uint list"
  p_shm :: "shm_mapping list"
  p_fp_priority :: int
  p_hfs_priority :: int
  p_queueType :: int

record ptable =
  proc :: "proc list"
  htindex :: "(int \<times> int) list"
  pqueues :: "procptr list list"

section \<open>Mutexes, shared memory, page allocator\<close>

record cv =
  cv_waiters :: "int list"
  cv_num_waiters :: int

text \<open>\<open>mx_name\<close> is the pointer \<open>char *name\<close>; \<open>mx_pid\<close> is unsigned, so \<open>-1\<close> is its largest value.\<close>

record mutex =
  mx_muxid :: uint
  mx_name :: uint
  mx_locked :: uint
  mx_used :: uint
  mx_cv :: cv
  mx_pid :: uint
  mx_nameSpace :: int

record shm_block =
  sb_name :: "byte list"
  sb_pa :: uint
  sb_ref :: int
  sb_mutex_index :: int

record shared_memory =
  shm_num :: int
  shm_mems :: "shm_block list"

record kmem =
  km_use_lock :: bool
  km_freelist :: uint

record linksyms =
  ls_end :: uint
  ls_data :: uint
  ls_forkret :: uint
  ls_trapret :: uint

section \<open>The kernel\<close>

record kernel =
  mach :: machine
  link :: linksyms
  mem :: "uint \<Rightarrow> nat \<Rightarrow> uint"
  kmem :: kmem
  kpgdir :: uint
  ptable :: ptable
  nextpid :: int
  initproc :: "nat option"
  namespace_id :: int
  mutex_table :: "mutex list"
  shared_memory :: shared_memory
  ticks :: uint
  fsys :: fsys

definition acquire :: "lockid \<Rightarrow> kernel \<Rightarrow> kernel option" where
  "acquire lk s = do { m \<leftarrow> acquire_m lk (mach s); Some (s\<lparr>mach := m\<rparr>) }"

definition release :: "lockid \<Rightarrow> kernel \<Rightarrow> kernel option" where
  "release lk s = do { m \<leftarrow> release_m lk (mach s); Some (s\<lparr>mach := m\<rparr>) }"

definition holding :: "lockid \<Rightarrow> kernel \<Rightarrow> bool option" where
  "holding lk s = holding_m lk (mach s)"

definition initlock :: "lockid \<Rightarrow> string \<Rightarrow> kernel \<Rightarrow> kernel" where
  "initlock lk nm s = s\<lparr>mach := initlock_m lk nm (mach s)\<rparr>"

definition myproc :: "kernel \<Rightarrow> (nat option \<times> kernel) option" where
  "myproc s = do {
     m \<leftarrow> pushcli (mach s);
     c \<leftarrow> mycpu m;
     let p = c_proc (m_cpus m ! c);
     m \<leftarrow> popcli m;
     Some (p, s\<lparr>mach := m\<rparr>)
   }"

text \<open>Reading and writing \<open>p->...\<close>; a null or wild pointer faults.\<close>

definition getp :: "nat option \<Rightarrow> kernel \<Rightarrow> proc option" where
  "getp p s = (case p of None \<Rightarrow> None | Some i \<Rightarrow> nth_opt (proc (ptable s)) i)"

definition upd_proc :: "nat \<Rightarrow> (proc \<Rightarrow> proc) \<Rightarrow> ptable \<Rightarrow> ptable" where
  "upd_proc i f pt = pt\<lparr>proc := (proc pt)[i := f (proc pt ! i)]\<rparr>"

definition setp :: "nat \<Rightarrow> (proc \<Rightarrow> proc) \<Rightarrow> kernel \<Rightarrow> kernel" where
  "setp i f s = s\<lparr>ptable := upd_proc i f (ptable s)\<rparr>"

section \<open>The zero-initialised state\<close>

text \<open>
  The kernel's globals before any code runs: C clears them.  Only the processor table (one
  CPU with APIC id 0) and the linker's addresses are given.
\<close>

definition trapframe0 :: trapframe where
  "trapframe0 = \<lparr>tf_edi = 0, tf_esi = 0, tf_ebp = 0, tf_oesp = 0, tf_ebx = 0, tf_edx = 0,
     tf_ecx = 0, tf_eax = 0, tf_gs = 0, tf_fs = 0, tf_es = 0, tf_ds = 0, tf_trapno = 0,
     tf_err = 0, tf_eip = 0, tf_cs = 0, tf_eflags = 0, tf_esp = 0, tf_ss = 0\<rparr>"

definition ctx0 :: ctx where
  "ctx0 = \<lparr>ctx_edi = 0, ctx_esi = 0, ctx_ebx = 0, ctx_ebp = 0, ctx_eip = 0, ctx_ret = 0\<rparr>"

definition proc0 :: proc where
  "proc0 = \<lparr>p_sz = 0, p_pgdir = 0, p_kstack = 0, p_state = UNUSED, p_pid = 0, p_parent = None,
     p_tf = trapframe0, p_context = ctx0, p_chan = None, p_killed = 0,
     p_ofile = replicate NOFILE None, p_cwd = None, p_name = replicate 16 0,
     p_maxproc = 0, p_maxprocset = 0, p_newroot_inode = None, p_in_newroot = 0,
     p_in_container = 0, p_namespace = 0, p_proc_mutexes = replicate MUX_MAXNUM 0,
     p_shm = replicate SHM_MAXNUM \<lparr>sm_name = replicate 16 0, sm_va = 0\<rparr>,
     p_fp_priority = 0, p_hfs_priority = 0, p_queueType = 0\<rparr>"

definition ptable0 :: ptable where
  "ptable0 = \<lparr>proc = replicate NPROC proc0, htindex = replicate PRIO_MAX (0, 0),
     pqueues = replicate PRIO_MAX (replicate QUEUESIZE PNull)\<rparr>"

definition mutex0 :: mutex where
  "mutex0 = \<lparr>mx_muxid = 0, mx_name = 0, mx_locked = 0, mx_used = 0,
     mx_cv = \<lparr>cv_waiters = replicate MUX_MAXNUM 0, cv_num_waiters = 0\<rparr>, mx_pid = 0, mx_nameSpace = 0\<rparr>"

definition shared_memory0 :: shared_memory where
  "shared_memory0 = \<lparr>shm_num = 0, shm_mems = replicate SHM_MAXNUM
     \<lparr>sb_name = replicate 16 0, sb_pa = 0, sb_ref = 0, sb_mutex_index = 0\<rparr>\<rparr>"

definition machine0 :: machine where
  "machine0 = \<lparr>m_cpus = [\<lparr>c_apicid = 0, c_ncli = 0, c_intena = False, c_proc = None, c_esp0 = 0\<rparr>],
     m_lapicid = 0, m_IF = False, m_cr3 = 0,
     m_locks = (\<lambda>_. \<lparr>sl_locked = 0, sl_name = [], sl_cpu = None\<rparr>)\<rparr>"

definition kernel0 :: kernel where
  "kernel0 = \<lparr>mach = machine0,
     link = \<lparr>ls_end = 0x80115000, ls_data = 0x80109000, ls_forkret = 0x80103000, ls_trapret = 0x80105000\<rparr>,
     mem = (\<lambda>_ _. 0), kmem = \<lparr>km_use_lock = False, km_freelist = 0\<rparr>, kpgdir = 0,
     ptable = ptable0, nextpid = 1, initproc = None, namespace_id = 1,
     mutex_table = replicate MUX_MAXNUM mutex0, shared_memory = shared_memory0, ticks = 0, fsys = fsys0\<rparr>"

section \<open>Well-formedness\<close>

text \<open>The arrays have their declared lengths.\<close>

definition wf_proc :: "proc \<Rightarrow> bool" where
  "wf_proc p \<longleftrightarrow> length (p_ofile p) = NOFILE \<and> length (p_name p) = 16 \<and>
     length (p_proc_mutexes p) = MUX_MAXNUM \<and> length (p_shm p) = SHM_MAXNUM \<and>
     (\<forall>e \<in> set (p_shm p). length (sm_name e) = SHM_NAME_LEN)"

definition wf_ptable :: "ptable \<Rightarrow> bool" where
  "wf_ptable pt \<longleftrightarrow> length (proc pt) = NPROC \<and> length (htindex pt) = PRIO_MAX \<and>
     length (pqueues pt) = PRIO_MAX \<and> (\<forall>q \<in> set (pqueues pt). length q = QUEUESIZE) \<and>
     (\<forall>p \<in> set (proc pt). wf_proc p)"

text \<open>\<open>runs s i\<close>: the processor executing kernel code runs process \<open>i\<close>.\<close>

definition runs :: "kernel \<Rightarrow> nat \<Rightarrow> bool" where
  "runs s i \<longleftrightarrow> wf_machine (mach s) \<and> c_proc (here_cpu (mach s)) = Some i \<and> i < length (proc (ptable s))"

section \<open>Lemmas\<close>

lemma acquire_free [simp]:
  "wf_machine (mach s) \<Longrightarrow> lock_free lk (mach s) \<Longrightarrow> acquire lk s = Some (s\<lparr>mach := acq lk (mach s)\<rparr>)"
  by (simp add: acquire_def)

lemma release_acq [simp]:
  "mach s = acq lk m \<Longrightarrow> wf_machine m \<Longrightarrow> lock_free lk m \<Longrightarrow> release lk s = Some (s\<lparr>mach := settle m\<rparr>)"
  by (simp add: release_def)

lemma acquire_again: "wf_machine (mach s) \<Longrightarrow> lock_held lk (mach s) \<Longrightarrow> acquire lk s = None"
  by (simp add: acquire_def acquire_m_held)

lemma holding_acq [simp]: "wf_machine (mach s) \<Longrightarrow> lock_held lk (mach s) \<Longrightarrow> \<not> m_IF (mach s) \<Longrightarrow> holding lk s = Some True"
  by (simp add: holding_def holding_m_def lock_held_def mycpu_wf)

lemma myproc_wf [simp]:
  assumes "wf_machine (mach s)"
  shows "myproc s = Some (c_proc (here_cpu (mach s)), s\<lparr>mach := settle (mach s)\<rparr>)"
  using assms by (simp add: myproc_def pushcli_wf mycpu_wf popcli_pushed)

lemma getp_Some [simp]: "i < length (proc (ptable s)) \<Longrightarrow> getp (Some i) s = Some (proc (ptable s) ! i)"
  by (simp add: getp_def)

lemma getp_None [simp]: "getp None s = None"
  by (simp add: getp_def)

lemma upd_proc_simps [simp]:
  "htindex (upd_proc i f pt) = htindex pt"
  "pqueues (upd_proc i f pt) = pqueues pt"
  "length (proc (upd_proc i f pt)) = length (proc pt)"
  by (simp_all add: upd_proc_def)

lemma upd_proc_nth [simp]:
  "j < length (proc pt) \<Longrightarrow> proc (upd_proc i f pt) ! j = (if j = i then f (proc pt ! i) else proc pt ! j)"
  by (simp add: upd_proc_def)

lemma setp_simps [simp]:
  "mach (setp i f s) = mach s"
  "link (setp i f s) = link s"
  "mem (setp i f s) = mem s"
  "kmem (setp i f s) = kmem s"
  "kpgdir (setp i f s) = kpgdir s"
  "ptable (setp i f s) = upd_proc i f (ptable s)"
  "nextpid (setp i f s) = nextpid s"
  "initproc (setp i f s) = initproc s"
  "namespace_id (setp i f s) = namespace_id s"
  "mutex_table (setp i f s) = mutex_table s"
  "shared_memory (setp i f s) = shared_memory s"
  "ticks (setp i f s) = ticks s"
  "fsys (setp i f s) = fsys s"
  by (simp_all add: setp_def)

text \<open>Updates of the machine are moved outwards, so that states have one form.\<close>

lemma mach_outermost [simp]:
  "s\<lparr>mach := m, mem := a\<rparr> = s\<lparr>mem := a, mach := m\<rparr>"
  "s\<lparr>mach := m, kmem := b\<rparr> = s\<lparr>kmem := b, mach := m\<rparr>"
  "s\<lparr>mach := m, kpgdir := c\<rparr> = s\<lparr>kpgdir := c, mach := m\<rparr>"
  "s\<lparr>mach := m, ptable := d\<rparr> = s\<lparr>ptable := d, mach := m\<rparr>"
  "s\<lparr>mach := m, nextpid := e\<rparr> = s\<lparr>nextpid := e, mach := m\<rparr>"
  "s\<lparr>mach := m, initproc := g\<rparr> = s\<lparr>initproc := g, mach := m\<rparr>"
  "s\<lparr>mach := m, namespace_id := h\<rparr> = s\<lparr>namespace_id := h, mach := m\<rparr>"
  "s\<lparr>mach := m, mutex_table := j\<rparr> = s\<lparr>mutex_table := j, mach := m\<rparr>"
  "s\<lparr>mach := m, shared_memory := k\<rparr> = s\<lparr>shared_memory := k, mach := m\<rparr>"
  "s\<lparr>mach := m, ticks := l\<rparr> = s\<lparr>ticks := l, mach := m\<rparr>"
  "s\<lparr>mach := m, fsys := n\<rparr> = s\<lparr>fsys := n, mach := m\<rparr>"
  "setp i f (s\<lparr>mach := m\<rparr>) = (setp i f s)\<lparr>mach := m\<rparr>"
  by (simp_all add: setp_def)

lemma wf_upd_proc:
  assumes "wf_ptable pt" "\<And>p. wf_proc p \<Longrightarrow> wf_proc (f p)"
  shows "wf_ptable (upd_proc i f pt)"
proof (cases "i < length (proc pt)")
  case True
  then have "set (proc (upd_proc i f pt)) \<subseteq> insert (f (proc pt ! i)) (set (proc pt))"
    by (simp add: upd_proc_def set_update_subset_insert)
  then show ?thesis
    using assms True by (auto simp: wf_ptable_def)
next
  case False
  then have "upd_proc i f pt = pt"
    by (simp add: upd_proc_def list_update_beyond)
  then show ?thesis using assms by simp
qed

lemma wf_machine0 [simp]: "wf_machine machine0"
  by (simp add: wf_machine_def here_def machine0_def)

lemma lock_free_machine0 [simp]: "lock_free lk machine0"
  by (simp add: lock_free_def machine0_def)

lemma wf_proc0 [simp]: "wf_proc proc0"
  by (simp add: wf_proc_def proc0_def)

lemma wf_ptable0 [simp]: "wf_ptable ptable0"
  by (simp add: wf_ptable_def ptable0_def)

end
