(* ===== verification/Kalloc.thy ===== *)
theory Kalloc
  imports Kernel
begin

text \<open>
  The physical page allocator (\<open>kalloc.c\<close>) and the address arithmetic of \<open>mmu.h\<close> and
  \<open>memlayout.h\<close>.

  Free pages form a linked list threaded through the pages themselves: word 0 of a free page
  is the address of the next one, \<open>kmem.freelist\<close> the address of the first, 0 ends the
  list.  \<open>kmem_ok s fl\<close> says that \<open>fl\<close> is that list, without repetition, and that all its
  members are pages the allocator may hand out.
\<close>

section \<open>Addresses\<close>

definition V2P :: "uint \<Rightarrow> uint" where
  "V2P a = a - KERNBASE"

definition P2V :: "uint \<Rightarrow> uint" where
  "P2V a = a + KERNBASE"

definition PGROUNDUP :: "uint \<Rightarrow> uint" where
  "PGROUNDUP sz = (sz + PGSIZE - 1) AND NOT (PGSIZE - 1)"

definition PGROUNDDOWN :: "uint \<Rightarrow> uint" where
  "PGROUNDDOWN a = a AND NOT (PGSIZE - 1)"

section \<open>Pages\<close>

text \<open>\<open>memset(v, c, PGSIZE)\<close>: every word of the page becomes \<open>c\<close> repeated four times.\<close>

definition memset_page :: "uint \<Rightarrow> 8 word \<Rightarrow> kernel \<Rightarrow> kernel" where
  "memset_page v c s = s\<lparr>mem := (mem s)(v := \<lambda>_. ucast c * 0x01010101)\<rparr>"

text \<open>\<open>memmove(dst, src, PGSIZE)\<close> between two pages.\<close>

definition memmove_page :: "uint \<Rightarrow> uint \<Rightarrow> kernel \<Rightarrow> kernel" where
  "memmove_page dst src s = s\<lparr>mem := (mem s)(dst := mem s src)\<rparr>"

definition set_word :: "uint \<Rightarrow> nat \<Rightarrow> uint \<Rightarrow> kernel \<Rightarrow> kernel" where
  "set_word pg i w s = s\<lparr>mem := (mem s)(pg := (mem s pg)(i := w))\<rparr>"

section \<open>Operations\<close>

definition kmem_lock :: "kernel \<Rightarrow> kernel option" where
  "kmem_lock s = (if km_use_lock (kmem s) then acquire KmemLk s else Some s)"

definition kmem_unlock :: "kernel \<Rightarrow> kernel option" where
  "kmem_unlock s = (if km_use_lock (kmem s) then release KmemLk s else Some s)"

definition kfree :: "uint \<Rightarrow> kernel \<Rightarrow> kernel option" where
  "kfree v s =
     (if v mod PGSIZE \<noteq> 0 \<or> v < ls_end (link s) \<or> V2P v \<ge> PHYSTOP then None
      else do {
        let s = memset_page v 1 s;
        s \<leftarrow> kmem_lock s;
        let s = set_word v 0 (km_freelist (kmem s)) s;
        let s = s\<lparr>kmem := (kmem s)\<lparr>km_freelist := v\<rparr>\<rparr>;
        kmem_unlock s
      })"

definition kalloc :: "kernel \<Rightarrow> (uint \<times> kernel) option" where
  "kalloc s = do {
     s \<leftarrow> kmem_lock s;
     let r = km_freelist (kmem s);
     let s = (if r \<noteq> 0 then s\<lparr>kmem := (kmem s)\<lparr>km_freelist := mem s r 0\<rparr>\<rparr> else s);
     s \<leftarrow> kmem_unlock s;
     Some (r, s)
   }"

text \<open>The loop of \<open>freerange\<close>; the comparison is one of unsigned addresses.\<close>

partial_function (option) freerange_loop :: "uint \<Rightarrow> uint \<Rightarrow> kernel \<Rightarrow> kernel option" where
  "freerange_loop p vend s =
     (if p + PGSIZE \<le> vend then do { s \<leftarrow> kfree p s; freerange_loop (p + PGSIZE) vend s }
      else Some s)"

definition freerange :: "uint \<Rightarrow> uint \<Rightarrow> kernel \<Rightarrow> kernel option" where
  "freerange vstart vend s = freerange_loop (PGROUNDUP vstart) vend s"

definition kinit1 :: "uint \<Rightarrow> uint \<Rightarrow> kernel \<Rightarrow> kernel option" where
  "kinit1 vstart vend s = do {
     let s = initlock KmemLk ''kmem'' s;
     let s = s\<lparr>kmem := (kmem s)\<lparr>km_use_lock := False\<rparr>\<rparr>;
     freerange vstart vend s
   }"

definition kinit2 :: "uint \<Rightarrow> uint \<Rightarrow> kernel \<Rightarrow> kernel option" where
  "kinit2 vstart vend s = do {
     s \<leftarrow> freerange vstart vend s;
     Some (s\<lparr>kmem := (kmem s)\<lparr>km_use_lock := True\<rparr>\<rparr>)
   }"

section \<open>The free list\<close>

text \<open>\<open>free_page l v\<close>: the guard of \<open>kfree\<close> lets \<open>v\<close> through.\<close>

definition free_page :: "linksyms \<Rightarrow> uint \<Rightarrow> bool" where
  "free_page l v \<longleftrightarrow> v mod 4096 = 0 \<and> ls_end l \<le> v \<and> V2P v < PHYSTOP"

fun run_list :: "(uint \<Rightarrow> nat \<Rightarrow> uint) \<Rightarrow> uint \<Rightarrow> uint list \<Rightarrow> bool" where
  "run_list m p [] \<longleftrightarrow> p = 0"
| "run_list m p (v # vs) \<longleftrightarrow> p = v \<and> run_list m (m v 0) vs"

definition kmem_ok :: "kernel \<Rightarrow> uint list \<Rightarrow> bool" where
  "kmem_ok s fl \<longleftrightarrow> wf_machine (mach s) \<and> lock_free KmemLk (mach s) \<and> KERNBASE < ls_end (link s) \<and>
     run_list (mem s) (km_freelist (kmem s)) fl \<and> distinct fl \<and> (\<forall>v \<in> set fl. free_page (link s) v)"

text \<open>The machine after a pass through \<open>kmem.lock\<close>, if the allocator is locking yet.\<close>

definition kmem_settle :: "kernel \<Rightarrow> machine" where
  "kmem_settle s = (if km_use_lock (kmem s) then settle (mach s) else mach s)"

lemma kmem_settle_simps [simp]:
  "wf_machine (kmem_settle s) = wf_machine (mach s)"
  "lock_free lk (kmem_settle s) = lock_free lk (mach s)"
  "lock_held lk (kmem_settle s) = lock_held lk (mach s)"
  "here (kmem_settle s) = here (mach s)"
  "m_locks (kmem_settle s) = m_locks (mach s)"
  "m_cr3 (kmem_settle s) = m_cr3 (mach s)"
  "m_IF (kmem_settle s) = m_IF (mach s)"
  by (simp_all add: kmem_settle_def)

lemma kmem_okD:
  assumes "kmem_ok s fl"
  shows "wf_machine (mach s)" "lock_free KmemLk (mach s)" "run_list (mem s) (km_freelist (kmem s)) fl"
    "distinct fl" "\<And>v. v \<in> set fl \<Longrightarrow> free_page (link s) v" "KERNBASE < ls_end (link s)"
  using assms by (simp_all add: kmem_ok_def)

lemma free_page_nonzero: "free_page l v \<Longrightarrow> KERNBASE < ls_end l \<Longrightarrow> v \<noteq> 0"
  by (auto simp: free_page_def)

lemma run_list_upd:
  "v \<notin> set vs \<Longrightarrow> run_list (m(v := f)) p vs = run_list m p vs"
  by (induction vs arbitrary: p) auto

lemma kmem_eq_collapse [simp]: "s\<lparr>kmem := kmem s\<rparr> = s" by simp

lemma kalloc_empty:
  assumes "kmem_ok s []"
  shows "kalloc s = Some (0, s\<lparr>mach := kmem_settle s\<rparr>)"
  using kmem_okD [OF assms] by (simp add: kalloc_def kmem_lock_def kmem_unlock_def kmem_settle_def)

lemma kalloc_Cons:
  assumes "kmem_ok s (v # fl)"
  shows "kalloc s = Some (v, s\<lparr>kmem := (kmem s)\<lparr>km_freelist := mem s v 0\<rparr>, mach := kmem_settle s\<rparr>)"
  using kmem_okD [OF assms] free_page_nonzero [of "link s" v]
  by (simp add: kalloc_def kmem_lock_def kmem_unlock_def kmem_settle_def Let_def)

lemma kmem_ok_alloc:
  assumes "kmem_ok s (v # fl)"
  shows "kmem_ok (s\<lparr>kmem := (kmem s)\<lparr>km_freelist := mem s v 0\<rparr>, mach := kmem_settle s\<rparr>) fl"
  using assms by (simp add: kmem_ok_def)

text \<open>The state after \<open>kfree(v)\<close>.\<close>

definition freed :: "uint \<Rightarrow> kernel \<Rightarrow> kernel" where
  "freed v s = s\<lparr>mem := (mem s)(v := (\<lambda>_. 0x01010101)(0 := km_freelist (kmem s))),
     kmem := (kmem s)\<lparr>km_freelist := v\<rparr>, mach := kmem_settle s\<rparr>"

lemma kfree_eq:
  assumes "kmem_ok s fl" "free_page (link s) v"
  shows "kfree v s = Some (freed v s)"
  using kmem_okD [OF assms(1)] assms(2)
  by (auto simp: kfree_def kmem_lock_def kmem_unlock_def kmem_settle_def memset_page_def set_word_def
      Let_def free_page_def freed_def not_le)

lemma kfree_bad: "\<not> free_page (link s) v \<Longrightarrow> kfree v s = None"
  by (auto simp: kfree_def free_page_def not_le not_less)

lemma kmem_ok_freed:
  assumes "kmem_ok s fl" "free_page (link s) v" "v \<notin> set fl"
  shows "kmem_ok (freed v s) (v # fl)"
  using assms by (auto simp: kmem_ok_def freed_def run_list_upd)

lemma freed_simps [simp]:
  "link (freed v s) = link s"
  "kpgdir (freed v s) = kpgdir s"
  "ptable (freed v s) = ptable s"
  "nextpid (freed v s) = nextpid s"
  "mutex_table (freed v s) = mutex_table s"
  "shared_memory (freed v s) = shared_memory s"
  "mem (freed v s) = (mem s)(v := (\<lambda>_. 0x01010101)(0 := km_freelist (kmem s)))"
  "mach (freed v s) = kmem_settle s"
  by (simp_all add: freed_def)

section \<open>The interface of the allocator\<close>

text \<open>
  What the users of the allocator rely on: the state stands for a list of free pages,
  \<open>alloc\<close> takes the first or reports that there is none, \<open>free\<close> puts a page back.
\<close>

primrec allocs :: "('s \<Rightarrow> ('p option \<times> 's) option) \<Rightarrow> nat \<Rightarrow> 's \<Rightarrow> ('p list \<times> 's) option" where
  "allocs alloc 0 s = Some ([], s)"
| "allocs alloc (Suc n) s = do {
     (p, s) \<leftarrow> alloc s;
     (ps, s) \<leftarrow> allocs alloc n s;
     Some (case p of None \<Rightarrow> ps | Some p \<Rightarrow> p # ps, s)
   }"

locale page_pool =
  fixes repr :: "'s \<Rightarrow> 'p list \<Rightarrow> bool"
    and valid :: "'s \<Rightarrow> 'p \<Rightarrow> bool"
    and alloc :: "'s \<Rightarrow> ('p option \<times> 's) option"
    and free :: "'p \<Rightarrow> 's \<Rightarrow> 's option"
  assumes repr_distinct: "repr s ps \<Longrightarrow> distinct ps \<and> (\<forall>p \<in> set ps. valid s p)"
    and alloc_none: "repr s [] \<Longrightarrow> \<exists>s'. alloc s = Some (None, s') \<and> repr s' []"
    and alloc_some: "repr s (p # ps) \<Longrightarrow> \<exists>s'. alloc s = Some (Some p, s') \<and> repr s' ps \<and> valid s' = valid s"
    and free_ok: "repr s ps \<Longrightarrow> valid s p \<Longrightarrow> p \<notin> set ps \<Longrightarrow> \<exists>s'. free p s = Some s' \<and> repr s' (p # ps)"
begin

lemma allocs_prefix:
  "repr s ps \<Longrightarrow> \<exists>s'. allocs alloc n s = Some (take n ps, s') \<and> repr s' (drop n ps)"
proof (induction n arbitrary: s ps)
  case 0
  then show ?case by simp
next
  case (Suc n)
  show ?case
  proof (cases ps)
    case Nil
    then obtain s1 where "alloc s = Some (None, s1)" "repr s1 []" using alloc_none Suc.prems by blast
    then show ?thesis using Suc.IH [of s1 "[]"] Nil by auto
  next
    case (Cons p qs)
    then obtain s1 where "alloc s = Some (Some p, s1)" "repr s1 qs" using alloc_some Suc.prems by blast
    then show ?thesis using Suc.IH [of s1 qs] Cons by auto
  qed
qed

text \<open>\<open>n\<close> allocations hand out pairwise distinct pages, as many as there are.\<close>

lemma allocs_distinct:
  assumes "repr s ps" "allocs alloc n s = Some (qs, s')"
  shows "distinct qs \<and> set qs \<subseteq> set ps \<and> length qs = min n (length ps)"
proof -
  have "qs = take n ps" using allocs_prefix [OF assms(1), of n] assms(2) by auto
  then show ?thesis using repr_distinct [OF assms(1)] by (auto dest: in_set_takeD simp: min_def)
qed

lemma alloc_free:
  assumes "repr s (p # ps)"
  shows "\<exists>s1 s2. alloc s = Some (Some p, s1) \<and> free p s1 = Some s2 \<and> repr s2 (p # ps)"
proof -
  obtain s1 where s1: "alloc s = Some (Some p, s1)" "repr s1 ps" "valid s1 = valid s"
    using alloc_some [OF assms] by blast
  then show ?thesis using free_ok [of s1 ps p] repr_distinct [OF assms] by auto
qed

end

text \<open>\<open>kalloc\<close> with its null result read as "none".\<close>

definition kalloc_page :: "kernel \<Rightarrow> (uint option \<times> kernel) option" where
  "kalloc_page s = map_option (\<lambda>(r, s). (if r = 0 then None else Some r, s)) (kalloc s)"

interpretation kpool: page_pool kmem_ok "\<lambda>s. free_page (link s)" kalloc_page kfree
proof (unfold_locales, goal_cases)
  case (1 s ps)
  then show ?case by (simp add: kmem_ok_def)
next
  case (2 s)
  then show ?case by (simp add: kalloc_page_def kalloc_empty) (simp add: kmem_ok_def)
next
  case (3 s p ps)
  then have "p \<noteq> 0" using kmem_okD [OF 3] free_page_nonzero by auto
  then show ?case using 3 by (simp add: kalloc_page_def kalloc_Cons kmem_ok_alloc)
next
  case (4 s ps p)
  then show ?case by (simp add: kfree_eq kmem_ok_freed)
qed

section \<open>Rounding\<close>

lemma and_not_page: "(a::uint) AND - 4096 = a - a mod 4096"
proof -
  have m: "(- 4096::uint) = NOT (mask 12)" by (simp add: mask_eq_exp_minus_1)
  have "(a AND mask 12) + (a AND NOT (mask 12)) = (a AND mask 12) OR (a AND NOT (mask 12))"
    by (rule disjunctive_add) (auto simp: bit_simps)
  also have "\<dots> = a" by (rule bit_eqI) (auto simp: bit_simps)
  finally have "a AND NOT (mask 12) = a - (a AND mask 12)" by (simp add: algebra_simps)
  moreover have "a AND mask 12 = a mod 4096" by (simp add: take_bit_eq_mask [symmetric] take_bit_eq_mod)
  ultimately show ?thesis by (simp add: m)
qed

lemma unat_rounddown: "unat (PGROUNDDOWN a) = unat a div 4096 * 4096"
proof -
  have u: "unat (a mod 4096) = unat a mod 4096" by (simp add: unat_mod_distrib)
  then have "a mod 4096 \<le> a" by (simp add: word_le_nat_alt)
  then have "unat (a - a mod 4096) = unat a - unat a mod 4096" by (simp add: unat_sub u)
  moreover have "PGROUNDDOWN a = a - a mod 4096" unfolding and_not_page [symmetric] by (simp add: PGROUNDDOWN_def)
  ultimately show ?thesis by (metis minus_mod_eq_div_mult)
qed

lemma PGROUNDUP_eq: "PGROUNDUP a = PGROUNDDOWN (a + 4095)"
  by (simp add: PGROUNDUP_def PGROUNDDOWN_def add.commute)

lemma unat_roundup:
  assumes "unat a \<le> 0xFFFFF000"
  shows "unat (PGROUNDUP a) = (unat a + 4095) div 4096 * 4096"
proof -
  have "unat (a + 4095) = unat a + 4095" using assms unat_add_lem [of a 4095] by simp
  then show ?thesis by (simp add: PGROUNDUP_eq unat_rounddown)
qed

section \<open>Building the pool\<close>

lemma unat_mod_page: "(v::uint) mod 4096 = 0 \<longleftrightarrow> unat v mod 4096 = 0"
proof -
  have "v mod 4096 = 0 \<longleftrightarrow> unat (v mod 4096) = 0" by (simp add: unat_eq_0)
  also have "unat (v mod 4096) = unat v mod 4096" by (simp add: unat_mod_distrib)
  finally show ?thesis .
qed

text \<open>The \<open>n\<close> pages from \<open>p\<close> upwards.\<close>

definition pages_from :: "uint \<Rightarrow> nat \<Rightarrow> uint list" where
  "pages_from p n = map (\<lambda>i. p + of_nat (4096 * i)) [0..<n]"

lemma pages_from_Suc: "pages_from p (Suc n) = p # pages_from (p + 4096) n"
proof -
  have "[0..<Suc n] = 0 # map Suc [0..<n]" by (simp add: map_Suc_upt upt_conv_Cons del: upt_Suc)
  then show ?thesis by (simp add: pages_from_def o_def add.assoc del: upt_Suc)
qed

lemma set_pages_from:
  assumes "unat p + 4096 * n < 2 ^ 32"
  shows "v \<in> set (pages_from p n) \<longleftrightarrow> (\<exists>i < n. unat v = unat p + 4096 * i)"
proof -
  have "unat (p + of_nat (4096 * i)) = unat p + 4096 * i" if "i < n" for i
  proof -
    have "unat p + 4096 * i < 2 ^ 32" using assms that by linarith
    moreover from this have "unat (of_nat (4096 * i) :: uint) = 4096 * i"
      by (simp add: unsigned_of_nat take_bit_eq_mod del: of_nat_mult)
    ultimately show ?thesis using unat_add_lem [of p "of_nat (4096 * i)"] by (simp del: of_nat_mult)
  qed
  then have "v = p + of_nat (4096 * i) \<longleftrightarrow> unat v = unat p + 4096 * i" if "i < n" for i
    using that word_eq_iff_unsigned [of v "p + of_nat (4096 * i)", where ?'a = nat] by (simp del: of_nat_mult)
  moreover have "v \<in> set (pages_from p n) \<longleftrightarrow> (\<exists>i < n. v = p + of_nat (4096 * i))"
    by (auto simp: pages_from_def simp del: of_nat_mult)
  ultimately show ?thesis by auto
qed

lemma aligned_ge: "v mod 4096 = 0 \<Longrightarrow> a \<le> v \<Longrightarrow> (a + 4095) div 4096 * 4096 \<le> (v::nat)"
proof -
  assume v: "v mod 4096 = 0" "a \<le> v"
  then obtain k where k: "v = 4096 * k" by (auto simp: mod_eq_0_iff_dvd)
  then have "(a + 4095) div 4096 \<le> (4096 * k + 4095) div 4096" using v(2) by (intro div_le_mono) simp
  also have "\<dots> = k" by simp
  finally show ?thesis using k by simp
qed

lemma freerange_loop_eq:
  assumes "kmem_ok s fl" "unat p mod 4096 = 0" "ls_end (link s) \<le> p" "0x80000000 \<le> unat p"
    and "unat p + 4096 * n \<le> unat vend" "unat vend < unat p + 4096 * Suc n" "unat vend \<le> 0x8E000000"
    and "\<And>v. v \<in> set fl \<Longrightarrow> unat v < unat p"
  shows "\<exists>s'. freerange_loop p vend s = Some s' \<and> kmem_ok s' (rev (pages_from p n) @ fl) \<and>
    km_use_lock (kmem s') = km_use_lock (kmem s) \<and> link s' = link s"
  using assms
proof (induction n arbitrary: p s fl)
  case 0
  have "unat (p + 4096) = unat p + 4096"
    using 0 unat_add_lem [of p 4096] by simp
  then have "\<not> p + 4096 \<le> vend" using 0 by (simp add: word_le_nat_alt)
  then show ?case using 0 by (simp add: freerange_loop.simps [of p] pages_from_def)
next
  case (Suc n)
  have up: "unat (p + 4096) = unat p + 4096"
    using Suc.prems unat_add_lem [of p 4096] by simp
  have le: "p + 4096 \<le> vend" using up Suc.prems by (simp add: word_le_nat_alt)
  have "unat (V2P p) = unat p - 0x80000000"
    using Suc.prems(4) unat_sub_if_size [of p "0x80000000"] by (simp add: V2P_def word_le_nat_alt)
  then have fp: "free_page (link s) p"
    using Suc.prems by (simp add: free_page_def unat_mod_page word_less_nat_alt)
  have "p \<notin> set fl" using Suc.prems(8) by auto
  then have ok: "kmem_ok (freed p s) (p # fl)" using Suc.prems(1) fp by (simp add: kmem_ok_freed)
  have ge: "ls_end (link (freed p s)) \<le> p + 4096"
    using Suc.prems(3) up by (simp add: word_le_nat_alt)
  have "\<exists>s'. freerange_loop (p + 4096) vend (freed p s) = Some s' \<and>
      kmem_ok s' (rev (pages_from (p + 4096) n) @ p # fl) \<and>
      km_use_lock (kmem s') = km_use_lock (kmem (freed p s)) \<and> link s' = link (freed p s)"
    by (rule Suc.IH [OF ok _ ge]) (use Suc.prems up in \<open>auto simp: less_Suc_eq_le dest: Suc.prems(8)\<close>)
  then show ?case
    using le kfree_eq [OF Suc.prems(1) fp]
    by (simp add: freerange_loop.simps [of p] pages_from_Suc) (simp add: freed_def)
qed

lemma freerange_eq:
  assumes "kmem_ok s fl" "ls_end (link s) \<le> vstart" "0x80000000 \<le> unat vstart"
    and "unat vstart \<le> unat vend" "unat vend \<le> 0x8E000000"
    and "\<And>v. v \<in> set fl \<Longrightarrow> v < vstart"
  shows "\<exists>s' ps. freerange vstart vend s = Some s' \<and> kmem_ok s' (ps @ fl) \<and>
    set ps = {v. v mod 4096 = 0 \<and> vstart \<le> v \<and> unat v + 4096 \<le> unat vend} \<and>
    km_use_lock (kmem s') = km_use_lock (kmem s)"
proof -
  define p where "p = PGROUNDUP vstart"
  have p: "unat p = (unat vstart + 4095) div 4096 * 4096"
    using assms(4,5) by (simp add: p_def unat_roundup)
  then have pm: "unat p mod 4096 = 0" "unat vstart \<le> unat p" "unat p < unat vstart + 4096" by simp_all
  define n where "n = (unat vend - unat p) div 4096"
  show ?thesis
  proof (cases "unat p \<le> unat vend")
    case True
    then have n: "unat p + 4096 * n \<le> unat vend" "unat vend < unat p + 4096 * Suc n"
      using mult_div_mod_eq [of 4096 "unat vend - unat p"] mod_less_divisor [of 4096 "unat vend - unat p"]
      unfolding n_def by simp_all
    have "\<exists>s'. freerange_loop p vend s = Some s' \<and> kmem_ok s' (rev (pages_from p n) @ fl) \<and>
        km_use_lock (kmem s') = km_use_lock (kmem s) \<and> link s' = link s"
      by (rule freerange_loop_eq [OF assms(1) pm(1) _ _ n])
        (use assms pm in \<open>auto simp: word_le_nat_alt word_less_nat_alt dest!: assms(6)\<close>)
    moreover have "set (rev (pages_from p n)) = {v. v mod 4096 = 0 \<and> vstart \<le> v \<and> unat v + 4096 \<le> unat vend}"
    proof -
      have "v \<in> set (pages_from p n) \<longleftrightarrow> v mod 4096 = 0 \<and> vstart \<le> v \<and> unat v + 4096 \<le> unat vend" for v
      proof -
        have "v \<in> set (pages_from p n) \<longleftrightarrow> (\<exists>i < n. unat v = unat p + 4096 * i)"
          by (rule set_pages_from) (use n assms(5) in simp)
        also have "\<dots> \<longleftrightarrow> unat v mod 4096 = 0 \<and> unat vstart \<le> unat v \<and> unat v + 4096 \<le> unat vend"
        proof
          assume "\<exists>i < n. unat v = unat p + 4096 * i"
          then obtain i where i: "Suc i \<le> n" "unat v = unat p + 4096 * i" by (auto simp: Suc_le_eq)
          then have "4096 * Suc i \<le> 4096 * n" by simp
          then show "unat v mod 4096 = 0 \<and> unat vstart \<le> unat v \<and> unat v + 4096 \<le> unat vend"
            using i(2) n pm by simp
        next
          assume v: "unat v mod 4096 = 0 \<and> unat vstart \<le> unat v \<and> unat v + 4096 \<le> unat vend"
          then have "unat p \<le> unat v" using aligned_ge [of "unat v" "unat vstart"] p by simp
          moreover have "4096 dvd unat v - unat p"
            using v pm(1) by (intro dvd_diff_nat) (simp_all add: mod_eq_0_iff_dvd)
          ultimately have "unat v = unat p + 4096 * ((unat v - unat p) div 4096)" by simp
          moreover from this have "(unat v - unat p) div 4096 < n" using v n(2) by simp
          ultimately show "\<exists>i < n. unat v = unat p + 4096 * i" by blast
        qed
        finally show ?thesis by (simp add: unat_mod_page word_le_nat_alt)
      qed
      then show ?thesis by (simp add: set_eq_iff)
    qed
    ultimately show ?thesis unfolding freerange_def p_def [symmetric] by blast
  next
    case False
    have "unat (p + 4096) = unat p + 4096" using pm assms(4,5) unat_add_lem [of p 4096] by simp
    then have "freerange_loop p vend s = Some s"
      using False by (simp add: freerange_loop.simps [of p] word_le_nat_alt)
    moreover have "\<not> (v mod 4096 = 0 \<and> vstart \<le> v \<and> unat v + 4096 \<le> unat vend)" for v
      using False p aligned_ge [of "unat v" "unat vstart"] by (auto simp: unat_mod_page word_le_nat_alt)
    ultimately show ?thesis
      using assms(1) unfolding freerange_def p_def [symmetric]
      by (intro exI [of _ s] exI [of _ "[]"]) auto
  qed
qed

section \<open>Properties\<close>

text \<open>
  \<open>kinit1(vstart, vend)\<close> on the zeroed allocator returns, and the free list
  then holds exactly the whole pages between \<open>vstart\<close> and \<open>vend\<close>, each once.
\<close>

theorem kinit1_frees_range:
  assumes "wf_machine (mach s)" "0x80000000 < ls_end (link s)" "km_freelist (kmem s) = 0"
    and "ls_end (link s) \<le> vstart" "0x80000000 \<le> vstart" "vstart \<le> vend" "vend \<le> 0x8E000000"
  shows "\<exists>s' fl. kinit1 vstart vend s = Some s' \<and> kmem_ok s' fl \<and>
    set fl = {v. v mod 4096 = 0 \<and> vstart \<le> v \<and> unat v + 4096 \<le> unat vend}"
proof -
  let ?s = "(initlock KmemLk ''kmem'' s)\<lparr>kmem := (kmem s)\<lparr>km_use_lock := False\<rparr>\<rparr>"
  have "wf_machine (initlock_m lk nm (mach s))" for lk nm
    using assms(1) by (simp add: initlock_m_def wf_machine_def)
  then have "kmem_ok ?s []"
    using assms by (simp add: kmem_ok_def initlock_def) (simp add: lock_free_def initlock_m_def)
  then have "\<exists>s' ps. freerange vstart vend ?s = Some s' \<and> kmem_ok s' (ps @ []) \<and>
      set ps = {v. v mod 4096 = 0 \<and> vstart \<le> v \<and> unat v + 4096 \<le> unat vend} \<and>
      km_use_lock (kmem s') = km_use_lock (kmem ?s)"
    by (rule freerange_eq) (use assms in \<open>auto simp: word_le_nat_alt initlock_def\<close>)
  then show ?thesis by (auto simp: kinit1_def initlock_def)
qed

theorem kinit1_frees_range_witness:
  "\<exists>s' fl. kinit1 0x80115000 0x80400000 kernel0 = Some s' \<and> kmem_ok s' fl \<and> 0x80200000 \<in> set fl"
proof -
  have "\<exists>s' fl. kinit1 0x80115000 0x80400000 kernel0 = Some s' \<and> kmem_ok s' fl \<and>
      set fl = {v. v mod 4096 = 0 \<and> 0x80115000 \<le> v \<and> unat v + 4096 \<le> unat (0x80400000 :: uint)}"
    by (rule kinit1_frees_range) (simp_all add: kernel0_def)
  then obtain s' fl where s: "kinit1 0x80115000 0x80400000 kernel0 = Some s'" "kmem_ok s' fl"
    and fl: "set fl = {v. v mod 4096 = 0 \<and> 0x80115000 \<le> v \<and> unat v + 4096 \<le> unat (0x80400000 :: uint)}"
    by blast
  have "(0x80200000 :: uint) \<in> set fl" unfolding fl by simp
  then show ?thesis using s by blast
qed

text \<open>
  Property C22.  \<open>n\<close> calls of \<open>kalloc\<close> hand out pairwise different pages, all from the
  free list and none of them in it afterwards, and fail only once the list is used up.
\<close>

theorem kalloc_never_hands_out_twice:
  assumes "kmem_ok s fl"
  shows "\<exists>s'. allocs kalloc_page n s = Some (take n fl, s') \<and> kmem_ok s' (drop n fl) \<and>
    distinct (take n fl) \<and> set (take n fl) \<inter> set (drop n fl) = {}"
  using kpool.allocs_prefix [OF assms, of n] kpool.repr_distinct [OF assms] set_take_disj_set_drop_if_distinct [of fl n n]
  by (auto intro: distinct_take)

text \<open>A state with three free pages, for witnesses.\<close>

definition three_free :: kernel where
  "three_free = kernel0\<lparr>kmem := \<lparr>km_use_lock = True, km_freelist = 0x80200000\<rparr>,
     mem := (\<lambda>_ _. 0)(0x80200000 := (\<lambda>_. 0)(0 := 0x80201000), 0x80201000 := (\<lambda>_. 0)(0 := 0x80202000))\<rparr>"

lemma three_free_ok: "kmem_ok three_free [0x80200000, 0x80201000, 0x80202000]"
  by (simp add: kmem_ok_def three_free_def kernel0_def free_page_def V2P_def)

theorem kalloc_never_hands_out_twice_witness:
  "\<exists>s'. allocs kalloc_page 2 three_free = Some ([0x80200000, 0x80201000], s') \<and> kmem_ok s' [0x80202000]"
  using kalloc_never_hands_out_twice [OF three_free_ok, of 2] by simp

text \<open>
  \<open>kfree\<close> panics for an address that is not page aligned, lies below \<open>end\<close> or
  is not below \<open>PHYSTOP\<close>; for any other page that is not already free it returns with that
  page at the front of the free list and every other page of memory untouched, and the next
  \<open>kalloc\<close> returns it.
\<close>

theorem kfree_then_kalloc:
  assumes "kmem_ok s fl" "v \<notin> set fl"
  shows "if free_page (link s) v
    then \<exists>s1 s2. kfree v s = Some s1 \<and> kmem_ok s1 (v # fl) \<and> (\<forall>w. w \<noteq> v \<longrightarrow> mem s1 w = mem s w) \<and>
      kalloc s1 = Some (v, s2) \<and> kmem_ok s2 fl
    else kfree v s = None"
proof (cases "free_page (link s) v")
  case True
  then have "kmem_ok (freed v s) (v # fl)" using assms by (simp add: kmem_ok_freed)
  then show ?thesis
    using True assms(1) kalloc_Cons [of "freed v s" v fl] kmem_ok_alloc [of "freed v s" v fl]
    by (simp add: kfree_eq)
next
  case False
  then show ?thesis by (simp add: kfree_bad)
qed

theorem kfree_then_kalloc_witness:
  "(\<exists>s1 s2. kfree 0x80300000 three_free = Some s1 \<and> kalloc s1 = Some (0x80300000, s2)) \<and>
   kfree 0x80300010 three_free = None"
proof -
  have "free_page (link three_free) 0x80300000" "\<not> free_page (link three_free) 0x80300010"
    by (simp_all add: three_free_def kernel0_def free_page_def V2P_def)
  then show ?thesis
    using kfree_then_kalloc [OF three_free_ok, of "0x80300000"] kfree_then_kalloc [OF three_free_ok, of "0x80300010"]
    by auto
qed

end
