(* ===== verification/Fifo.thy ===== *)
theory Fifo
  imports Prelude
begin

text \<open>
  The interface of the kernel's first-in first-out structures: the per-priority run queues,
  the wait sequence of a condition variable, the ring of a pipe.  A provider gives the list
  its state stands for; clients rely on the order alone.
\<close>

text \<open>Dequeue \<open>n\<close> times, collecting what comes out.\<close>

primrec deqs :: "('q \<Rightarrow> ('a \<times> 'q) option) \<Rightarrow> nat \<Rightarrow> 'q \<Rightarrow> ('a list \<times> 'q) option" where
  "deqs deq 0 q = Some ([], q)"
| "deqs deq (Suc n) q = do {
     (x, q) \<leftarrow> deq q;
     (xs, q) \<leftarrow> deqs deq n q;
     Some (x # xs, q)
   }"

text \<open>
  \<open>elem x\<close> is the stored form of \<open>x\<close>; \<open>room x q\<close> says that \<open>x\<close> may be added; \<open>ready q\<close>
  that \<open>deq\<close> serves this queue.
\<close>

locale bounded_fifo =
  fixes contents :: "'q \<Rightarrow> 'a list"
    and invar :: "'q \<Rightarrow> bool"
    and room :: "'x \<Rightarrow> 'q \<Rightarrow> bool"
    and ready :: "'q \<Rightarrow> bool"
    and elem :: "'x \<Rightarrow> 'a"
    and enq :: "'x \<Rightarrow> 'q \<Rightarrow> 'q option"
    and deq :: "'q \<Rightarrow> ('a \<times> 'q) option"
  assumes enq_ok: "invar q \<Longrightarrow> room x q \<Longrightarrow>
      \<exists>q'. enq x q = Some q' \<and> invar q' \<and> contents q' = contents q @ [elem x] \<and> (ready q \<longrightarrow> ready q')"
    and deq_ok: "invar q \<Longrightarrow> ready q \<Longrightarrow> contents q = y # ys \<Longrightarrow>
      \<exists>q'. deq q = Some (y, q') \<and> invar q' \<and> ready q' \<and> contents q' = ys"
begin

lemma deqs_prefix:
  "invar q \<Longrightarrow> ready q \<Longrightarrow> contents q = xs @ ys \<Longrightarrow>
     \<exists>q'. deqs deq (length xs) q = Some (xs, q') \<and> invar q' \<and> ready q' \<and> contents q' = ys"
proof (induction xs arbitrary: q)
  case Nil
  then show ?case by simp
next
  case (Cons x xs)
  then obtain q1 where q1: "deq q = Some (x, q1)" "invar q1" "ready q1" "contents q1 = xs @ ys"
    using deq_ok [of q x "xs @ ys"] by auto
  from Cons.IH [OF q1(2-4)] obtain q' where
    "deqs deq (length xs) q1 = Some (xs, q')" "invar q'" "ready q'" "contents q' = ys"
    by blast
  then show ?case using q1 by simp
qed

text \<open>What is enqueued comes out after exactly what was ahead of it.\<close>

lemma fifo_order:
  assumes "invar q" "ready q" "room x q"
  obtains q1 q2 q3 where "enq x q = Some q1"
    and "deqs deq (length (contents q)) q1 = Some (contents q, q2)"
    and "deq q2 = Some (elem x, q3)"
    and "contents q3 = []"
proof -
  from enq_ok [OF assms(1,3)] assms(2) obtain q1 where
    q1: "enq x q = Some q1" "invar q1" "ready q1" "contents q1 = contents q @ [elem x]"
    by blast
  from deqs_prefix [OF q1(2-4)] obtain q2 where
    q2: "deqs deq (length (contents q)) q1 = Some (contents q, q2)" "invar q2" "ready q2"
      "contents q2 = [elem x]"
    by blast
  from deq_ok [OF q2(2-4)] obtain q3 where "deq q2 = Some (elem x, q3)" "contents q3 = []"
    by blast
  then show thesis using that q1(1) q2(1) by blast
qed

end

end
