(* ===== verification/RunQueue.thy ===== *)
theory RunQueue
  imports Kernel Fifo
begin

text \<open>
  The run queues of \<open>proc.c\<close>: for each priority an array \<open>pqueues[priority]\<close> of
  \<open>QUEUESIZE\<close> process pointers used as a ring, with its head and tail in
  \<open>htindex[priority]\<close>.  \<open>fp_enqueue\<close> and \<open>hfs_enqueue\<close> add at the tail,
  \<open>fp_dequeue\<close> and \<open>hfs_dequeue\<close> take from the head of the first ring that is not empty.

  The abstraction \<open>rq k\<close> is the list of pointers queued at priority \<open>k\<close>, oldest first.
\<close>

section \<open>Operations\<close>

definition fp_enqueue :: "nat \<Rightarrow> ptable \<Rightarrow> (int \<times> ptable) option" where
  "fp_enqueue p pt = do {
     pr \<leftarrow> nth_opt (proc pt) p;
     if p_state pr \<noteq> RUNNABLE then Some (-1, pt)
     else do {
       let priority = p_fp_priority pr;
       (head, tail) \<leftarrow> ith_opt (htindex pt) priority;
       if tail = (head - 1) smod int QUEUESIZE then Some (-1, pt)
       else do {
         q \<leftarrow> ith_opt (pqueues pt) priority;
         q \<leftarrow> iupd_opt q tail (PProc p);
         qs \<leftarrow> iupd_opt (pqueues pt) priority q;
         hs \<leftarrow> iupd_opt (htindex pt) priority (head, (tail + 1) smod int QUEUESIZE);
         Some (1, pt\<lparr>pqueues := qs, htindex := hs\<rparr>)
       }
     }
   }"

definition fp_dequeue :: "ptable \<Rightarrow> (procptr \<times> ptable) option" where
  "fp_dequeue pt =
     (case first_ix (\<lambda>(head, tail). head \<noteq> tail) (htindex pt) of
        None \<Rightarrow> Some (PMinusOne, pt)
      | Some priority \<Rightarrow> do {
          (head, tail) \<leftarrow> nth_opt (htindex pt) priority;
          q \<leftarrow> nth_opt (pqueues pt) priority;
          p \<leftarrow> ith_opt q head;
          hs \<leftarrow> upd_opt (htindex pt) priority ((head + 1) smod int QUEUESIZE, tail);
          Some (p, pt\<lparr>htindex := hs\<rparr>)
        })"

definition hfs_enqueue :: "nat \<Rightarrow> ptable \<Rightarrow> (int \<times> ptable) option" where
  "hfs_enqueue p pt = do {
     pr \<leftarrow> nth_opt (proc pt) p;
     if p_state pr \<noteq> RUNNABLE then Some (-1, pt)
     else do {
       let pt = (if p_hfs_priority pr > HFS_PRIO_MAX
                 then upd_proc p (\<lambda>pr. pr\<lparr>p_hfs_priority := HFS_PRIO_MAX\<rparr>) pt else pt);
       pr \<leftarrow> nth_opt (proc pt) p;
       let priority = p_hfs_priority pr;
       (head, tail) \<leftarrow> ith_opt (htindex pt) priority;
       if tail = (head - 1) smod int QUEUESIZE then Some (-1, pt)
       else do {
         q \<leftarrow> ith_opt (pqueues pt) priority;
         q \<leftarrow> iupd_opt q tail (PProc p);
         qs \<leftarrow> iupd_opt (pqueues pt) priority q;
         hs \<leftarrow> iupd_opt (htindex pt) priority (head, (tail + 1) smod int QUEUESIZE);
         Some (1, pt\<lparr>pqueues := qs, htindex := hs\<rparr>)
       }
     }
   }"

definition hfs_dequeue :: "ptable \<Rightarrow> (procptr \<times> ptable) option" where
  "hfs_dequeue pt =
     (case first_ix (\<lambda>(head, tail). head \<noteq> tail) (htindex pt) of
        None \<Rightarrow> Some (PMinusOne, pt)
      | Some priority \<Rightarrow> do {
          (head, tail) \<leftarrow> nth_opt (htindex pt) priority;
          q \<leftarrow> nth_opt (pqueues pt) priority;
          p \<leftarrow> ith_opt q head;
          hs \<leftarrow> upd_opt (htindex pt) priority ((head + 1) smod int QUEUESIZE, tail);
          Some (p, pt\<lparr>htindex := hs\<rparr>)
        })"

section \<open>Abstraction\<close>

text \<open>The entries of a ring with head \<open>h\<close> and tail \<open>t\<close>, oldest first.\<close>

definition ring :: "procptr list \<Rightarrow> int \<Rightarrow> int \<Rightarrow> procptr list" where
  "ring q h t = map (\<lambda>i. q ! nat ((h + int i) mod 50)) [0..<nat ((t - h) mod 50)]"

definition rq_head :: "nat \<Rightarrow> ptable \<Rightarrow> int" where
  "rq_head k pt = fst (htindex pt ! k)"

definition rq_tail :: "nat \<Rightarrow> ptable \<Rightarrow> int" where
  "rq_tail k pt = snd (htindex pt ! k)"

definition rq :: "nat \<Rightarrow> ptable \<Rightarrow> procptr list" where
  "rq k pt = ring (pqueues pt ! k) (rq_head k pt) (rq_tail k pt)"

definition wf_rings :: "ptable \<Rightarrow> bool" where
  "wf_rings pt \<longleftrightarrow> wf_ptable pt \<and>
     (\<forall>k < PRIO_MAX. 0 \<le> rq_head k pt \<and> rq_head k pt < 50 \<and> 0 \<le> rq_tail k pt \<and> rq_tail k pt < 50)"

text \<open>
  The ring at priority \<open>k\<close> has one free slot left (49 entries).  Past this point the index
  arithmetic of the code matters: with the head at \<open>0\<close> the fullness test compares the tail
  with \<open>-1\<close> and never succeeds.
\<close>

definition rq_full :: "nat \<Rightarrow> ptable \<Rightarrow> bool" where
  "rq_full k pt \<longleftrightarrow> length (rq k pt) = 49"

section \<open>Rings\<close>

lemma smod_nonneg: "0 \<le> a \<Longrightarrow> 0 < b \<Longrightarrow> a smod b = a mod (b::int)"
  by (cases "a = 0") (auto simp: signed_modulo_int_def sgn_1_pos)

lemma mod50_diff:
  assumes "0 \<le> h" "h < 50" "0 \<le> t" "t < (50::int)"
  shows "(t - h) mod 50 = (if h \<le> t then t - h else t - h + 50)"
proof (cases "h \<le> t")
  case True
  then show ?thesis using assms by simp
next
  case False
  then have "(t - h + 50) mod 50 = t - h + 50" using assms by (intro mod_pos_pos_trivial) auto
  then show ?thesis using False by simp
qed

lemma mod50_sum:
  assumes "0 \<le> a" "a < (100::int)"
  shows "a mod 50 = (if a < 50 then a else a - 50)"
proof (cases "a < 50")
  case True
  then show ?thesis using assms by simp
next
  case False
  then have "(a - 50) mod 50 = a - 50" using assms by (intro mod_pos_pos_trivial) auto
  then show ?thesis using False by (simp add: mod_diff_right_eq)
qed

lemma length_ring [simp]: "length (ring q h t) = nat ((t - h) mod 50)"
  by (simp add: ring_def)

lemma ring_empty_iff:
  assumes "0 \<le> h" "h < 50" "0 \<le> t" "t < 50"
  shows "ring q h t = [] \<longleftrightarrow> h = t"
  using assms by (auto simp: ring_def mod50_diff split: if_splits)

lemma ring_snoc:
  assumes "0 \<le> h" "h < 50" "0 \<le> t" "t < 50" "length q = 50" "(t + 1) mod 50 \<noteq> h"
  shows "ring (q[nat t := x]) h ((t + 1) mod 50) = ring q h t @ [x]"
proof -
  define n where "n = nat ((t - h) mod 50)"
  have n: "(t - h) mod 50 = int n" by (simp add: n_def)
  then have nd: "int n = (if h \<le> t then t - h else t - h + 50)"
    using mod50_diff [OF assms(1-4)] by simp
  have S: "((t + 1) mod 50 - h) mod 50 = int (Suc n)"
    using assms nd mod50_sum [of "t + 1"] mod50_diff [of h "(t + 1) mod 50"]
    by (auto split: if_splits)
  have ix: "(h + int i) mod 50 = (if h + int i < 50 then h + int i else h + int i - 50)" if "i \<le> n" for i
    using that nd assms by (intro mod50_sum) (auto split: if_splits)
  have last: "nat ((h + int n) mod 50) = nat t"
    using assms nd ix [of n] by (auto split: if_splits)
  have other: "nat ((h + int i) mod 50) \<noteq> nat t" if "i < n" for i
    using assms nd that ix [of i] by (auto split: if_splits)
  have ln: "nat t < length q" using assms by simp
  have "q[nat t := x] ! nat ((h + int i) mod 50) = q ! nat ((h + int i) mod 50)" if "i < n" for i
    using other [OF that] by simp
  then show ?thesis
    unfolding ring_def S n nat_int using last ln by simp
qed

lemma ring_Cons:
  assumes "0 \<le> h" "h < 50" "0 \<le> t" "t < 50" "h \<noteq> t"
  shows "ring q h t = q ! nat h # ring q ((h + 1) mod 50) t"
proof -
  define n where "n = nat ((t - (h + 1) mod 50) mod 50)"
  have n: "(t - (h + 1) mod 50) mod 50 = int n" by (simp add: n_def)
  have S: "(t - h) mod 50 = int (Suc n)"
    using assms n mod50_sum [of "h + 1"] mod50_diff [of "(h + 1) mod 50" t] mod50_diff [of h t]
    by (auto split: if_splits)
  have shift: "((h + 1) mod 50 + int i) mod 50 = (h + int (Suc i)) mod 50" for i
    by (simp add: mod_simps algebra_simps)
  have "[0..<Suc n] = 0 # map Suc [0..<n]"
    by (simp add: map_Suc_upt upt_conv_Cons del: upt_Suc)
  then show ?thesis
    unfolding ring_def S n nat_int shift using assms by (simp add: o_def del: upt_Suc)
qed


section \<open>Enqueue and dequeue on the abstraction\<close>

text \<open>The state after writing \<open>x\<close> at the tail of ring \<open>k\<close>.\<close>

definition rq_put :: "nat \<Rightarrow> procptr \<Rightarrow> ptable \<Rightarrow> ptable" where
  "rq_put k x pt = pt\<lparr>pqueues := (pqueues pt)[k := (pqueues pt ! k)[nat (rq_tail k pt) := x]],
     htindex := (htindex pt)[k := (rq_head k pt, (rq_tail k pt + 1) mod 50)]\<rparr>"

text \<open>The state after stepping over the head of ring \<open>k\<close>.\<close>

definition rq_drop :: "nat \<Rightarrow> ptable \<Rightarrow> ptable" where
  "rq_drop k pt = pt\<lparr>htindex := (htindex pt)[k := ((rq_head k pt + 1) mod 50, rq_tail k pt)]\<rparr>"

lemma rq_bounds:
  assumes "wf_rings pt" "k < PRIO_MAX"
  shows "0 \<le> rq_head k pt" "rq_head k pt < 50" "0 \<le> rq_tail k pt" "rq_tail k pt < 50"
    "k < length (htindex pt)" "k < length (pqueues pt)" "length (pqueues pt ! k) = 50"
  using assms by (auto simp: wf_rings_def wf_ptable_def)

lemma wf_rings_ptable: "wf_rings pt \<Longrightarrow> wf_ptable pt"
  by (simp add: wf_rings_def)

lemma rq_put_simps [simp]: "proc (rq_put k x pt) = proc pt"
  by (simp add: rq_put_def)

lemma rq_drop_simps [simp]: "proc (rq_drop k pt) = proc pt" "pqueues (rq_drop k pt) = pqueues pt"
  by (simp_all add: rq_drop_def)

lemma rq_put_other: "k' \<noteq> k \<Longrightarrow> rq k' (rq_put k x pt) = rq k' pt"
  by (simp add: rq_def rq_put_def rq_head_def rq_tail_def)

lemma rq_drop_other: "k' \<noteq> k \<Longrightarrow> rq k' (rq_drop k pt) = rq k' pt"
  by (simp add: rq_def rq_drop_def rq_head_def rq_tail_def)

lemma wf_rings_put [intro]:
  assumes "wf_rings pt" "k < PRIO_MAX"
  shows "wf_rings (rq_put k x pt)"
proof -
  have "set (pqueues (rq_put k x pt)) \<subseteq> insert ((pqueues pt ! k)[nat (rq_tail k pt) := x]) (set (pqueues pt))"
    by (simp add: rq_put_def set_update_subset_insert)
  then have "wf_ptable (rq_put k x pt)"
    using assms rq_bounds [OF assms] by (auto simp: wf_rings_def wf_ptable_def rq_put_def)
  moreover have "0 \<le> rq_head j (rq_put k x pt) \<and> rq_head j (rq_put k x pt) < 50 \<and>
      0 \<le> rq_tail j (rq_put k x pt) \<and> rq_tail j (rq_put k x pt) < 50" if "j < PRIO_MAX" for j
    using rq_bounds [OF assms] rq_bounds [OF assms(1) that]
    by (cases "j = k") (auto simp: rq_put_def rq_head_def rq_tail_def)
  ultimately show ?thesis by (simp add: wf_rings_def)
qed

lemma wf_rings_drop [intro]:
  assumes "wf_rings pt" "k < PRIO_MAX"
  shows "wf_rings (rq_drop k pt)"
proof -
  have "wf_ptable (rq_drop k pt)"
    using assms by (auto simp: wf_rings_def wf_ptable_def rq_drop_def)
  moreover have "0 \<le> rq_head j (rq_drop k pt) \<and> rq_head j (rq_drop k pt) < 50 \<and>
      0 \<le> rq_tail j (rq_drop k pt) \<and> rq_tail j (rq_drop k pt) < 50" if "j < PRIO_MAX" for j
    using rq_bounds [OF assms] rq_bounds [OF assms(1) that]
    by (cases "j = k") (auto simp: rq_drop_def rq_head_def rq_tail_def)
  ultimately show ?thesis by (simp add: wf_rings_def)
qed

text \<open>Room is left unless the ring holds 49 entries.\<close>

lemma rq_full_iff:
  assumes "wf_rings pt" "k < PRIO_MAX"
  shows "rq_full k pt \<longleftrightarrow> (rq_tail k pt + 1) mod 50 = rq_head k pt"
proof -
  note b = rq_bounds [OF assms]
  show ?thesis
    using b mod50_sum [of "rq_tail k pt + 1"] mod50_diff [OF b(1-4)]
    by (auto simp: rq_full_def rq_def split: if_splits)
qed

lemma rq_put_list:
  assumes "wf_rings pt" "k < PRIO_MAX" "\<not> rq_full k pt"
  shows "rq k (rq_put k x pt) = rq k pt @ [x]"
  using ring_snoc [of "rq_head k pt" "rq_tail k pt" "pqueues pt ! k"]
    rq_bounds [OF assms(1,2)] assms rq_full_iff [OF assms(1,2)]
  by (simp add: rq_def rq_put_def rq_head_def rq_tail_def)

lemma rq_put_full:
  assumes "wf_rings pt" "k < PRIO_MAX" "rq_full k pt"
  shows "rq k (rq_put k x pt) = []"
  using rq_bounds [OF assms(1,2)] assms rq_full_iff [OF assms(1,2)]
  by (simp add: rq_def rq_put_def rq_head_def rq_tail_def ring_def)

lemma rq_empty_iff:
  assumes "wf_rings pt" "k < PRIO_MAX"
  shows "rq k pt = [] \<longleftrightarrow> rq_head k pt = rq_tail k pt"
  using ring_empty_iff rq_bounds [OF assms] by (simp add: rq_def)

lemma rq_drop_list:
  assumes "wf_rings pt" "k < PRIO_MAX" "rq k pt \<noteq> []"
  shows "rq k pt = pqueues pt ! k ! nat (rq_head k pt) # rq k (rq_drop k pt)"
  using ring_Cons [of "rq_head k pt" "rq_tail k pt" "pqueues pt ! k"] rq_bounds [OF assms(1,2)]
    assms(3) rq_empty_iff [OF assms(1,2)]
  by (simp add: rq_def rq_drop_def rq_head_def rq_tail_def)

text \<open>The fullness test of the code: it never fires while the head is at \<open>0\<close>.\<close>

lemma full_test:
  assumes "wf_rings pt" "k < PRIO_MAX"
  shows "rq_tail k pt = (rq_head k pt - 1) smod 50 \<longleftrightarrow> rq_full k pt \<and> rq_head k pt \<noteq> 0"
proof (cases "rq_head k pt = 0")
  case True
  then show ?thesis using rq_bounds [OF assms] by (simp add: smod_nonneg)
next
  case False
  then have "(rq_head k pt - 1) smod 50 = rq_head k pt - 1"
    using rq_bounds [OF assms] by (simp add: smod_nonneg)
  then show ?thesis
    using False rq_bounds [OF assms] mod50_sum [of "rq_tail k pt + 1"]
    by (auto simp: rq_full_iff [OF assms] split: if_splits)
qed

lemma fp_enqueue_eq:
  assumes "wf_rings pt" "p < NPROC" "p_state (proc pt ! p) = RUNNABLE"
    and "p_fp_priority (proc pt ! p) = int k" "k < PRIO_MAX"
  shows "fp_enqueue p pt =
    (if rq_full k pt \<and> rq_head k pt \<noteq> 0 then Some (-1, pt) else Some (1, rq_put k (PProc p) pt))"
proof -
  note b = rq_bounds [OF assms(1,5)]
  have "length (proc pt) = NPROC" using assms(1) by (simp add: wf_rings_def wf_ptable_def)
  moreover have "htindex pt ! k = (rq_head k pt, rq_tail k pt)"
    by (simp add: rq_head_def rq_tail_def)
  ultimately show ?thesis
    using assms b full_test [OF assms(1,5)]
    by (simp add: fp_enqueue_def rq_put_def smod_nonneg Let_def)
qed

lemma fp_enqueue_not_runnable:
  "p < length (proc pt) \<Longrightarrow> p_state (proc pt ! p) \<noteq> RUNNABLE \<Longrightarrow> fp_enqueue p pt = Some (-1, pt)"
  by (simp add: fp_enqueue_def)

text \<open>Outside \<open>0 .. PRIO_MAX - 1\<close> the index tables are read out of bounds.\<close>

lemma fp_enqueue_bad_priority:
  assumes "wf_ptable pt" "p < NPROC" "p_state (proc pt ! p) = RUNNABLE"
    and "p_fp_priority (proc pt ! p) < 0 \<or> int PRIO_MAX \<le> p_fp_priority (proc pt ! p)"
  shows "fp_enqueue p pt = None"
proof -
  have "ith_opt (htindex pt) (p_fp_priority (proc pt ! p)) = None"
    using assms by (auto simp: ith_opt_eq_None wf_ptable_def)
  then show ?thesis using assms by (simp add: fp_enqueue_def wf_ptable_def)
qed

lemma first_nonempty:
  assumes "wf_rings pt"
  shows "first_ix (\<lambda>(h, t). h \<noteq> t) (htindex pt) = Some k \<longleftrightarrow>
    k < PRIO_MAX \<and> rq k pt \<noteq> [] \<and> (\<forall>j < k. rq j pt = [])"
proof -
  have len: "length (htindex pt) = PRIO_MAX" using assms by (simp add: wf_rings_def wf_ptable_def)
  have "(case htindex pt ! j of (h, t) \<Rightarrow> h \<noteq> t) \<longleftrightarrow> rq j pt \<noteq> []" if "j < PRIO_MAX" for j
    using rq_empty_iff [OF assms that] by (simp add: rq_head_def rq_tail_def case_prod_beta)
  then show ?thesis
    unfolding first_ix_eq_Some len by (metis less_trans)
qed

lemma fp_dequeue_eq:
  assumes "wf_rings pt" "k < PRIO_MAX" "rq k pt \<noteq> []" "\<And>j. j < k \<Longrightarrow> rq j pt = []"
  shows "fp_dequeue pt = Some (hd (rq k pt), rq_drop k pt)"
proof -
  note b = rq_bounds [OF assms(1,2)]
  have "first_ix (\<lambda>(h, t). h \<noteq> t) (htindex pt) = Some k"
    using assms by (simp add: first_nonempty)
  moreover have "htindex pt ! k = (rq_head k pt, rq_tail k pt)"
    by (simp add: rq_head_def rq_tail_def)
  moreover have "hd (rq k pt) = pqueues pt ! k ! nat (rq_head k pt)"
    using rq_drop_list [OF assms(1-3)] by (metis list.sel(1))
  ultimately show ?thesis
    using b by (simp add: fp_dequeue_def rq_drop_def smod_nonneg)
qed

lemma fp_dequeue_empty:
  assumes "wf_rings pt" "\<And>j. j < PRIO_MAX \<Longrightarrow> rq j pt = []"
  shows "fp_dequeue pt = Some (PMinusOne, pt)"
proof -
  have "first_ix (\<lambda>(h, t). h \<noteq> t) (htindex pt) = None"
    using assms first_nonempty [OF assms(1)] by (metis not_None_eq)
  then show ?thesis by (simp add: fp_dequeue_def)
qed

lemma fp_dequeue_cases [consumes 1, case_names found empty]:
  assumes "wf_rings pt"
  obtains k where "k < PRIO_MAX" "rq k pt \<noteq> []" "\<And>j. j < k \<Longrightarrow> rq j pt = []"
    "fp_dequeue pt = Some (hd (rq k pt), rq_drop k pt)" "rq k pt = hd (rq k pt) # rq k (rq_drop k pt)"
  | "\<And>j. j < PRIO_MAX \<Longrightarrow> rq j pt = []" "fp_dequeue pt = Some (PMinusOne, pt)"
proof (cases "\<exists>k < PRIO_MAX. rq k pt \<noteq> []")
  case True
  define k where "k = (LEAST k. rq k pt \<noteq> [])"
  have k: "rq k pt \<noteq> []" "\<And>j. j < k \<Longrightarrow> rq j pt = []"
    unfolding k_def using True LeastI [of "\<lambda>k. rq k pt \<noteq> []"] not_less_Least [of _ "\<lambda>k. rq k pt \<noteq> []"]
    by blast+
  then have lt: "k < PRIO_MAX" using True by (metis linorder_cases order.strict_trans)
  show thesis
  proof (rule that(1) [OF lt k])
    show "fp_dequeue pt = Some (hd (rq k pt), rq_drop k pt)"
      using assms k lt by (simp add: fp_dequeue_eq)
    show "rq k pt = hd (rq k pt) # rq k (rq_drop k pt)"
      using rq_drop_list [OF assms lt k(1)] by (metis list.sel(1))
  qed
next
  case False
  then show thesis using assms by (intro that(2)) (auto simp: fp_dequeue_empty)
qed

lemma hfs_dequeue_eq_fp: "hfs_dequeue = fp_dequeue"
  by (simp add: hfs_dequeue_def fp_dequeue_def fun_eq_iff)

section \<open>The run queue at one priority is a bounded FIFO\<close>

definition rq_room :: "nat \<Rightarrow> nat \<Rightarrow> ptable \<Rightarrow> bool" where
  "rq_room k p pt \<longleftrightarrow> p < NPROC \<and> p_state (proc pt ! p) = RUNNABLE \<and>
     p_fp_priority (proc pt ! p) = int k \<and> \<not> rq_full k pt"

definition rq_ready :: "nat \<Rightarrow> ptable \<Rightarrow> bool" where
  "rq_ready k pt \<longleftrightarrow> (\<forall>j < k. rq j pt = [])"

lemma fp_enqueue_room:
  assumes "wf_rings pt" "k < PRIO_MAX" "rq_room k p pt"
  shows "fp_enqueue p pt = Some (1, rq_put k (PProc p) pt)"
  using assms by (simp add: fp_enqueue_eq rq_room_def)

lemma rq_ready_put: "rq_ready k pt \<Longrightarrow> rq_ready k (rq_put k x pt)"
  by (simp add: rq_ready_def rq_put_other)

lemma rq_ready_drop: "rq_ready k pt \<Longrightarrow> rq_ready k (rq_drop k pt)"
  by (simp add: rq_ready_def rq_drop_other)

interpretation rq_fifo: bounded_fifo "rq k" "\<lambda>pt. wf_rings pt \<and> k < PRIO_MAX" "rq_room k" "rq_ready k"
    PProc "\<lambda>p pt. map_option snd (fp_enqueue p pt)" fp_dequeue for k
proof (unfold_locales, goal_cases)
  case (1 pt p)
  then show ?case
    by (auto simp: fp_enqueue_room rq_put_list rq_room_def intro: rq_ready_put)
next
  case (2 pt y ys)
  then show ?case
    using rq_drop_list [of pt k] fp_dequeue_eq [of pt k]
    by (auto simp: rq_ready_def rq_drop_other)
qed

section \<open>Properties\<close>

text \<open>
  Property C23.  While the ring of its priority has room, \<open>fp_enqueue\<close> appends a RUNNABLE
  process to the queue of that priority and touches neither the other queues nor the process
  table.
\<close>

theorem fp_enqueue_refines:
  assumes "wf_rings pt" "p < NPROC" "p_state (proc pt ! p) = RUNNABLE"
    and "p_fp_priority (proc pt ! p) = int k" "k < PRIO_MAX" "\<not> rq_full k pt"
  shows "\<exists>pt'. fp_enqueue p pt = Some (1, pt') \<and> rq k pt' = rq k pt @ [PProc p] \<and>
    (\<forall>j. j \<noteq> k \<longrightarrow> rq j pt' = rq j pt) \<and> proc pt' = proc pt \<and> wf_rings pt'"
  using assms by (auto simp: fp_enqueue_eq rq_put_list rq_put_other)

text \<open>A table with one RUNNABLE process at priority 3, for witnesses.\<close>

definition one_runnable :: ptable where
  "one_runnable = upd_proc 0 (\<lambda>p. p\<lparr>p_state := RUNNABLE, p_pid := 1, p_fp_priority := 3\<rparr>) ptable0"

lemma one_runnable_facts:
  "wf_rings one_runnable" "p_state (proc one_runnable ! 0) = RUNNABLE"
  "p_fp_priority (proc one_runnable ! 0) = int 3" "rq k one_runnable = []" if "k < PRIO_MAX"
proof -
  have h: "htindex one_runnable ! j = (0, 0)" if "j < PRIO_MAX" for j
    using that by (simp add: one_runnable_def ptable0_def)
  have "wf_ptable one_runnable"
    unfolding one_runnable_def by (rule wf_upd_proc) (simp_all add: wf_proc_def)
  then show "wf_rings one_runnable"
    using h by (simp add: wf_rings_def rq_head_def rq_tail_def)
  show "p_state (proc one_runnable ! 0) = RUNNABLE" "p_fp_priority (proc one_runnable ! 0) = int 3"
    by (simp_all add: one_runnable_def ptable0_def)
  show "rq k one_runnable = []"
    using h [OF that] by (simp add: rq_def rq_head_def rq_tail_def ring_def)
qed

theorem fp_enqueue_refines_witness:
  "\<exists>pt'. fp_enqueue 0 one_runnable = Some (1, pt') \<and> rq 3 pt' = [PProc 0] \<and> rq 4 pt' = []"
proof -
  have "\<not> rq_full 3 one_runnable" by (simp add: rq_full_def one_runnable_facts)
  then obtain pt' where "fp_enqueue 0 one_runnable = Some (1, pt')"
    "rq 3 pt' = rq 3 one_runnable @ [PProc 0]" "\<forall>j. j \<noteq> 3 \<longrightarrow> rq j pt' = rq j one_runnable"
    using fp_enqueue_refines [of one_runnable 0 3] one_runnable_facts [of 3] by auto
  then show ?thesis by (auto simp: one_runnable_facts)
qed

text \<open>All queues, most urgent first.\<close>

definition all_queued :: "ptable \<Rightarrow> procptr list" where
  "all_queued pt = concat (map (\<lambda>k. rq k pt) [0..<PRIO_MAX])"

lemma all_queued_split:
  assumes "k < PRIO_MAX" "\<And>j. j < k \<Longrightarrow> rq j pt = []"
  shows "all_queued pt = rq k pt @ concat (map (\<lambda>j. rq j pt) [Suc k..<PRIO_MAX])"
proof -
  have "[0..<PRIO_MAX] = [0..<k] @ k # [Suc k..<PRIO_MAX]"
    using assms(1) upt_add_eq_append [of 0 k "PRIO_MAX - k"] by (simp add: upt_conv_Cons)
  then show ?thesis using assms(2) by (simp add: all_queued_def)
qed

lemma rq_upd_proc [simp]: "rq k (upd_proc i f pt) = rq k pt"
  by (simp add: rq_def rq_head_def rq_tail_def)

text \<open>
  Property C24.  \<open>fp_dequeue\<close> serves the queues in the order of their priority and each
  queue in the order of arrival: it takes the first element of the concatenated queues, and
  returns \<open>NULL\<close> exactly when all of them are empty.
\<close>

theorem fp_dequeue_serves_first:
  assumes "wf_rings pt"
  shows "\<exists>r pt'. fp_dequeue pt = Some (r, pt') \<and> wf_rings pt' \<and> proc pt' = proc pt \<and>
    (if all_queued pt = [] then r = PMinusOne \<and> pt' = pt
     else all_queued pt = r # all_queued pt')"
using assms
proof (cases rule: fp_dequeue_cases)
  case (found k)
  have "concat (map (\<lambda>j. rq j (rq_drop k pt)) [Suc k..<PRIO_MAX]) = concat (map (\<lambda>j. rq j pt) [Suc k..<PRIO_MAX])"
    by (rule arg_cong [where f = concat], rule map_cong) (auto simp: rq_drop_other)
  then have "all_queued (rq_drop k pt) = rq k (rq_drop k pt) @ concat (map (\<lambda>j. rq j pt) [Suc k..<PRIO_MAX])"
    using found(1,3) by (simp add: all_queued_split [of k] rq_drop_other)
  then have "all_queued pt = hd (rq k pt) # all_queued (rq_drop k pt)"
    using found(5) all_queued_split [OF found(1,3)] by simp
  then show ?thesis
    using found(1,4) assms by auto
next
  case empty
  then have "all_queued pt = []" by (simp add: all_queued_def)
  then show ?thesis using assms empty(2) by auto
qed

theorem fp_dequeue_serves_first_witness:
  "wf_rings one_runnable \<and> fp_dequeue one_runnable = Some (PMinusOne, one_runnable)"
  using fp_dequeue_serves_first [of one_runnable] one_runnable_facts [of 0]
  by (auto simp: all_queued_def one_runnable_facts)

text \<open>
  First in, first out: a process enqueued at the most urgent non-empty priority
  is handed out by \<open>fp_dequeue\<close> after exactly the processes that were ahead of it.
\<close>

theorem fp_queue_fifo:
  assumes "wf_rings pt" "k < PRIO_MAX" "rq_ready k pt" "rq_room k p pt"
  shows "\<exists>pt1 pt2 pt3. fp_enqueue p pt = Some (1, pt1) \<and>
    deqs fp_dequeue (length (rq k pt)) pt1 = Some (rq k pt, pt2) \<and>
    fp_dequeue pt2 = Some (PProc p, pt3) \<and> rq k pt3 = []"
proof -
  from assms obtain pt1 pt2 pt3 where
    "map_option snd (fp_enqueue p pt) = Some pt1"
    "deqs fp_dequeue (length (rq k pt)) pt1 = Some (rq k pt, pt2)"
    "fp_dequeue pt2 = Some (PProc p, pt3)" "rq k pt3 = []"
    by (blast intro: rq_fifo.fifo_order [of pt k p])
  then show ?thesis using fp_enqueue_room [OF assms(1,2,4)] by simp
qed

theorem fp_queue_fifo_witness:
  "\<exists>pt1 pt3. fp_enqueue 0 one_runnable = Some (1, pt1) \<and> fp_dequeue pt1 = Some (PProc 0, pt3)"
  using fp_queue_fifo [of one_runnable 3 0] one_runnable_facts [of 3]
  by (auto simp: rq_ready_def rq_room_def rq_full_def one_runnable_facts)

text \<open>
  Property C27.  With the head index at \<open>0\<close> the test \<open>tail == (head-1)%QUEUESIZE\<close> compares
  the tail with \<open>-1\<close>, so a ring with 49 entries accepts a 50th: \<open>fp_enqueue\<close> reports
  success and the queue of that priority is then empty, all its entries lost.
\<close>

theorem fp_enqueue_overflow_loses_queue:
  assumes "wf_rings pt" "p < NPROC" "p_state (proc pt ! p) = RUNNABLE"
    and "p_fp_priority (proc pt ! p) = int k" "k < PRIO_MAX"
    and "length (rq k pt) = 49" "rq_head k pt = 0"
  shows "\<exists>pt'. fp_enqueue p pt = Some (1, pt') \<and> rq k pt' = []"
  using assms by (simp add: fp_enqueue_eq rq_put_full rq_full_def)

definition full_at_zero :: ptable where
  "full_at_zero = one_runnable\<lparr>htindex := (htindex one_runnable)[3 := (0, 49)]\<rparr>"

theorem fp_enqueue_overflow_loses_queue_witness:
  "length (rq 3 full_at_zero) = 49 \<and>
   (\<exists>pt'. fp_enqueue 0 full_at_zero = Some (1, pt') \<and> rq 3 pt' = [])"
proof -
  have h: "rq_head 3 full_at_zero = 0" "rq_tail 3 full_at_zero = 49"
    by (simp_all add: full_at_zero_def one_runnable_def ptable0_def rq_head_def rq_tail_def)
  have wf: "wf_rings full_at_zero"
    using one_runnable_facts(1) [of 0]
    by (auto simp: wf_rings_def wf_ptable_def full_at_zero_def rq_head_def rq_tail_def nth_list_update)
  have len: "length (rq 3 full_at_zero) = 49" by (simp add: rq_def h)
  then show ?thesis
    using fp_enqueue_overflow_loses_queue [of full_at_zero 0 3] wf h one_runnable_facts [of 3]
    by (simp add: full_at_zero_def)
qed

end
