(* ===== verification/Sched.thy ===== *)
theory Sched
  imports RunQueue
begin

text \<open>
  Scheduling (\<open>proc.c\<close>: \<open>scheduler\<close>, \<open>sched\<close>, \<open>yield\<close>, \<open>sleep\<close>, \<open>wakeup1\<close>,
  \<open>wakeup\<close>, \<open>kill\<close>, \<open>prio_set\<close>; \<open>vm.c\<close>: \<open>switchuvm\<close>, \<open>switchkvm\<close>).

  \<open>swtch\<close> hands the processor to another thread and returns when this one is chosen again.
  A function that calls it is therefore split there: \<open>f_enter\<close> is the code up to the
  switch and returns the local variable \<open>intena\<close> that \<open>sched\<close> keeps on its stack,
  \<open>f_exit\<close> is the code after it, run from whatever state the processor comes back in.
\<close>

section \<open>Address space switches\<close>

definition switchkvm :: "kernel \<Rightarrow> kernel" where
  "switchkvm s = s\<lparr>mach := (mach s)\<lparr>m_cr3 := kpgdir s - KERNBASE\<rparr>\<rparr>"

text \<open>The descriptor of the task segment, its \<open>ss0\<close> and \<open>iomb\<close> are constants of the hardware set-up.\<close>

definition switchuvm :: "nat option \<Rightarrow> kernel \<Rightarrow> kernel option" where
  "switchuvm p s = do {
     pr \<leftarrow> getp p s;
     if p_kstack pr = 0 then None
     else if p_pgdir pr = 0 then None
     else do {
       m \<leftarrow> pushcli (mach s);
       c \<leftarrow> mycpu m;
       let m = upd_cpu c (\<lambda>cp. cp\<lparr>c_esp0 := p_kstack pr + KSTACKSIZE\<rparr>) m;
       let m = m\<lparr>m_cr3 := p_pgdir pr - KERNBASE\<rparr>;
       m \<leftarrow> popcli m;
       Some (s\<lparr>mach := m\<rparr>)
     }
   }"

section \<open>Wakeup, kill, priorities\<close>

definition wakeup_one :: "chan option \<Rightarrow> nat \<Rightarrow> ptable \<Rightarrow> ptable option" where
  "wakeup_one chan p pt = do {
     pr \<leftarrow> nth_opt (proc pt) p;
     let pt = (if p_state pr = SLEEPING \<and> p_chan pr = chan
               then upd_proc p (\<lambda>pr. pr\<lparr>p_state := RUNNABLE\<rparr>) pt else pt);
     if p_queueType pr = FP_POLICY then do {
       (_, pt) \<leftarrow> fp_enqueue p pt;
       Some pt
     } else if p_queueType pr = HFS_POLICY then do {
       let pt = upd_proc p (\<lambda>pr. pr\<lparr>p_hfs_priority := 0\<rparr>) pt;
       (_, pt) \<leftarrow> hfs_enqueue p pt;
       Some pt
     } else Some pt
   }"

definition wakeup1 :: "chan option \<Rightarrow> ptable \<Rightarrow> ptable option" where
  "wakeup1 chan pt = for_from NPROC 0 (wakeup_one chan) pt"

definition wakeup :: "chan option \<Rightarrow> kernel \<Rightarrow> kernel option" where
  "wakeup chan s = do {
     s \<leftarrow> acquire PtableLk s;
     pt \<leftarrow> wakeup1 chan (ptable s);
     release PtableLk (s\<lparr>ptable := pt\<rparr>)
   }"

definition kill :: "int \<Rightarrow> kernel \<Rightarrow> (int \<times> kernel) option" where
  "kill pid s = do {
     s \<leftarrow> acquire PtableLk s;
     case first_ix (\<lambda>p. p_pid p = pid) (proc (ptable s)) of
       Some p \<Rightarrow> do {
         let pt = upd_proc p (\<lambda>pr. pr\<lparr>p_killed := 1\<rparr>) (ptable s);
         let pt = (if p_state (proc pt ! p) = SLEEPING
                   then upd_proc p (\<lambda>pr. pr\<lparr>p_state := RUNNABLE\<rparr>) pt else pt);
         pt \<leftarrow> (if p_queueType (proc pt ! p) = FP_POLICY then map_option snd (fp_enqueue p pt)
               else if p_queueType (proc pt ! p) = HFS_POLICY then
                 map_option snd (hfs_enqueue p (upd_proc p (\<lambda>pr. pr\<lparr>p_hfs_priority := 0\<rparr>) pt))
               else Some pt);
         s \<leftarrow> release PtableLk (s\<lparr>ptable := pt\<rparr>);
         Some (0, s)
       }
     | None \<Rightarrow> do {
         s \<leftarrow> release PtableLk s;
         Some (-1, s)
       }
   }"

definition prio_set :: "int \<Rightarrow> int \<Rightarrow> kernel \<Rightarrow> (int \<times> kernel) option" where
  "prio_set pid priority s =
     (if priority > int PRIO_MAX \<or> priority < 0 then Some (-1, s)
      else do {
        s \<leftarrow> acquire PtableLk s;
        (currproc, s) \<leftarrow> myproc s;
        c \<leftarrow> currproc;
        cur \<leftarrow> getp (Some c) s;
        let s = setp c (\<lambda>pr. pr\<lparr>p_queueType := FP_POLICY\<rparr>) s;
        if p_fp_priority cur > priority then do {
          s \<leftarrow> release PtableLk s;
          Some (-1, s)
        } else if p_pid cur = pid then do {
          s \<leftarrow> release PtableLk (setp c (\<lambda>pr. pr\<lparr>p_fp_priority := priority\<rparr>) s);
          Some (0, s)
        } else
          (case first_ix (\<lambda>p. p_pid p = pid) (proc (ptable s)) of
             Some i \<Rightarrow> do {
               pr \<leftarrow> nth_opt (proc (ptable s)) i;
               par \<leftarrow> getp (p_parent pr) s;
               if p_pid par = p_pid cur then do {
                 s \<leftarrow> release PtableLk (setp i (\<lambda>pr. pr\<lparr>p_fp_priority := priority\<rparr>) s);
                 Some (0, s)
               } else do {
                 s \<leftarrow> release PtableLk s;
                 Some (-1, s)
               }
             }
           | None \<Rightarrow> do {
               s \<leftarrow> release PtableLk s;
               Some (0, s)
             })
      })"

section \<open>Giving up the processor\<close>

text \<open>\<open>sched\<close> up to \<open>swtch\<close>, with its four sanity checks; the result is \<open>intena\<close>.\<close>

definition sched_enter :: "kernel \<Rightarrow> (bool \<times> kernel) option" where
  "sched_enter s = do {
     (p, s) \<leftarrow> myproc s;
     h \<leftarrow> holding PtableLk s;
     if \<not> h then None
     else do {
       c \<leftarrow> mycpu (mach s);
       if c_ncli (m_cpus (mach s) ! c) \<noteq> 1 then None
       else do {
         pr \<leftarrow> getp p s;
         if p_state pr = RUNNING then None
         else if m_IF (mach s) then None
         else Some (c_intena (m_cpus (mach s) ! c), s)
       }
     }
   }"

definition sched_exit :: "bool \<Rightarrow> kernel \<Rightarrow> kernel option" where
  "sched_exit intena s = do {
     c \<leftarrow> mycpu (mach s);
     Some (s\<lparr>mach := upd_cpu c (\<lambda>cp. cp\<lparr>c_intena := intena\<rparr>) (mach s)\<rparr>)
   }"

definition yield_enter :: "kernel \<Rightarrow> (bool \<times> kernel) option" where
  "yield_enter s = do {
     s \<leftarrow> acquire PtableLk s;
     (p, s) \<leftarrow> myproc s;
     i \<leftarrow> p;
     let s = setp i (\<lambda>pr. pr\<lparr>p_state := RUNNABLE\<rparr>) s;
     pr \<leftarrow> getp (Some i) s;
     pt \<leftarrow> (if p_queueType pr = 1 \<and> p_hfs_priority pr > int PRIO_MAX then
             map_option snd (hfs_enqueue i
               (upd_proc i (\<lambda>pr. pr\<lparr>p_hfs_priority := p_hfs_priority pr + 1\<rparr>) (ptable s)))
           else if p_queueType pr = 0 then map_option snd (fp_enqueue i (ptable s))
           else Some (ptable s));
     sched_enter (s\<lparr>ptable := pt\<rparr>)
   }"

definition yield_exit :: "bool \<Rightarrow> kernel \<Rightarrow> kernel option" where
  "yield_exit intena s = do {
     s \<leftarrow> sched_exit intena s;
     release PtableLk s
   }"

definition sleep_enter :: "chan \<Rightarrow> lockid option \<Rightarrow> kernel \<Rightarrow> (bool \<times> kernel) option" where
  "sleep_enter chan lk s = do {
     (p, s) \<leftarrow> myproc s;
     i \<leftarrow> p;
     lk \<leftarrow> lk;
     s \<leftarrow> (if lk \<noteq> PtableLk then do {
              s \<leftarrow> acquire PtableLk s;
              release lk s
            } else Some s);
     pr \<leftarrow> getp (Some i) s;
     sched_enter (setp i (\<lambda>pr. pr\<lparr>p_chan := Some chan, p_state := SLEEPING\<rparr>) s)
   }"

text \<open>\<open>i\<close> is the local variable \<open>p\<close> of \<open>sleep\<close>.\<close>

definition sleep_exit :: "nat \<Rightarrow> lockid \<Rightarrow> bool \<Rightarrow> kernel \<Rightarrow> kernel option" where
  "sleep_exit i lk intena s = do {
     s \<leftarrow> sched_exit intena s;
     let s = setp i (\<lambda>pr. pr\<lparr>p_chan := None\<rparr>) s;
     if lk \<noteq> PtableLk then do {
       s \<leftarrow> release PtableLk s;
       acquire lk s
     } else Some s
   }"

text \<open>
  What a function that may block comes to: it returns a value, or it has given up the
  processor inside \<open>sched\<close>, whose local variable \<open>intena\<close> it keeps.
\<close>

datatype outcome = Done int | Asleep bool

section \<open>The scheduler thread\<close>

text \<open>
  Where the scheduler of a processor stands: at the top of its endless loop, about to look
  at entry \<open>i\<close> of the table, or inside \<open>swtch\<close> while process \<open>p\<close> runs, to go on at entry
  \<open>i\<close> afterwards.
\<close>

datatype sched_pc = SchedTop | SchedScan nat | SchedIn nat nat

definition set_cpu_proc :: "nat option \<Rightarrow> kernel \<Rightarrow> kernel option" where
  "set_cpu_proc p s = do {
     c \<leftarrow> mycpu (mach s);
     Some (s\<lparr>mach := upd_cpu c (\<lambda>cp. cp\<lparr>c_proc := p\<rparr>) (mach s)\<rparr>)
   }"

definition dispatch :: "nat \<Rightarrow> kernel \<Rightarrow> kernel option" where
  "dispatch p s = do {
     s \<leftarrow> set_cpu_proc (Some p) s;
     s \<leftarrow> switchuvm (Some p) s;
     Some (setp p (\<lambda>pr. pr\<lparr>p_state := RUNNING\<rparr>) s)
   }"

definition scheduler_enter :: "kernel \<Rightarrow> (sched_pc \<times> kernel) option" where
  "scheduler_enter s = do {
     s \<leftarrow> set_cpu_proc None s;
     Some (SchedTop, s)
   }"

definition scheduler_step :: "sched_pc \<Rightarrow> kernel \<Rightarrow> (sched_pc \<times> kernel) option" where
  "scheduler_step pc s =
     (case pc of
        SchedTop \<Rightarrow> do {
          let s = s\<lparr>mach := (mach s)\<lparr>m_IF := True\<rparr>\<rparr>;
          s \<leftarrow> acquire PtableLk s;
          (p, pt) \<leftarrow> fp_dequeue (ptable s);
          let s = s\<lparr>ptable := pt\<rparr>;
          case p of
            PMinusOne \<Rightarrow> Some (SchedScan 0, s)
          | PNull \<Rightarrow> None
          | PProc i \<Rightarrow> do {
              pr \<leftarrow> getp (Some i) s;
              if p_state pr = RUNNABLE then do {
                s \<leftarrow> dispatch i s;
                Some (SchedIn i 0, s)
              } else Some (SchedScan 0, s)
            }
        }
      | SchedScan i \<Rightarrow>
          if i < NPROC then do {
            pr \<leftarrow> getp (Some i) s;
            if p_state pr \<noteq> RUNNABLE then Some (SchedScan (Suc i), s)
            else do {
              s \<leftarrow> dispatch i s;
              Some (SchedIn i (Suc i), s)
            }
          } else do {
            s \<leftarrow> release PtableLk s;
            Some (SchedTop, s)
          }
      | SchedIn p i \<Rightarrow> do {
          s \<leftarrow> set_cpu_proc None (switchkvm s);
          Some (SchedScan i, s)
        })"

section \<open>Enqueueing returns\<close>

text \<open>Priorities within the index tables; \<open>prio_set\<close> can leave this range (see below).\<close>

definition prio_ok :: "ptable \<Rightarrow> bool" where
  "prio_ok pt \<longleftrightarrow> (\<forall>p \<in> set (proc pt). 0 \<le> p_fp_priority p \<and> p_fp_priority p < int PRIO_MAX \<and>
     0 \<le> p_hfs_priority p \<and> p_hfs_priority p < int PRIO_MAX)"

lemma prio_okD:
  assumes "prio_ok pt" "i < length (proc pt)"
  shows "0 \<le> p_fp_priority (proc pt ! i)" "p_fp_priority (proc pt ! i) < 10"
    "0 \<le> p_hfs_priority (proc pt ! i)" "p_hfs_priority (proc pt ! i) < 10"
  using assms by (auto simp: prio_ok_def)

lemma wf_length [simp]: "wf_rings pt \<Longrightarrow> length (proc pt) = NPROC"
  by (simp add: wf_rings_def wf_ptable_def)

lemma fp_enqueue_total:
  assumes "wf_rings pt" "p < NPROC"
    and "0 \<le> p_fp_priority (proc pt ! p)" "p_fp_priority (proc pt ! p) < 10"
  shows "\<exists>r pt'. fp_enqueue p pt = Some (r, pt') \<and> proc pt' = proc pt \<and> wf_rings pt'"
proof (cases "p_state (proc pt ! p) = RUNNABLE")
  case True
  define k where "k = nat (p_fp_priority (proc pt ! p))"
  have k: "p_fp_priority (proc pt ! p) = int k" "k < PRIO_MAX" using assms(3,4) by (auto simp: k_def)
  then show ?thesis
    using assms True by (auto simp: fp_enqueue_eq [OF assms(1,2) True k])
next
  case False
  then show ?thesis using assms by (simp add: fp_enqueue_not_runnable)
qed

lemma hfs_enqueue_eq_fp:
  assumes "p < length (proc pt)" "p_hfs_priority (proc pt ! p) \<le> 10"
  shows "hfs_enqueue p pt =
    map_option (\<lambda>(r, pt'). (r, pt'\<lparr>proc := proc pt\<rparr>))
      (fp_enqueue p (upd_proc p (\<lambda>pr. pr\<lparr>p_fp_priority := p_hfs_priority pr\<rparr>) pt))"
proof -
  have "(upd_proc p f pt)\<lparr>proc := proc pt\<rparr> = pt" for f by (simp add: upd_proc_def)
  then show ?thesis
    using assms
    by (simp add: hfs_enqueue_def fp_enqueue_def Let_def)
      (auto simp: map_option_case upd_proc_def bind_eq_None_conv ith_opt_def iupd_opt_def
        split: option.splits prod.splits if_splits)
qed

lemma wf_rings_upd_proc:
  assumes "wf_rings pt" "\<And>p. wf_proc p \<Longrightarrow> wf_proc (f p)"
  shows "wf_rings (upd_proc i f pt)"
  using assms wf_upd_proc [of pt f i] by (simp add: wf_rings_def rq_head_def rq_tail_def)

lemma wf_rings_proc:
  assumes "wf_rings pt" "wf_rings pt'"
  shows "wf_rings (pt'\<lparr>proc := proc pt\<rparr>)"
  using assms by (simp add: wf_rings_def wf_ptable_def rq_head_def rq_tail_def)

lemma hfs_enqueue_total:
  assumes "wf_rings pt" "p < NPROC"
    and "0 \<le> p_hfs_priority (proc pt ! p)" "p_hfs_priority (proc pt ! p) < 10"
  shows "\<exists>r pt'. hfs_enqueue p pt = Some (r, pt') \<and> proc pt' = proc pt \<and> wf_rings pt'"
proof -
  let ?pt = "upd_proc p (\<lambda>pr. pr\<lparr>p_fp_priority := p_hfs_priority pr\<rparr>) pt"
  have wf: "wf_rings ?pt"
    using assms(1) by (rule wf_rings_upd_proc) (simp add: wf_proc_def)
  have "\<exists>r pt'. fp_enqueue p ?pt = Some (r, pt') \<and> proc pt' = proc ?pt \<and> wf_rings pt'"
    by (rule fp_enqueue_total [OF wf]) (use assms in simp_all)
  then obtain r pt' where "fp_enqueue p ?pt = Some (r, pt')" "wf_rings pt'" by auto
  then show ?thesis
    using assms wf_rings_proc [OF assms(1), of pt'] by (simp add: hfs_enqueue_eq_fp)
qed

section \<open>Wakeup\<close>

text \<open>What \<open>wakeup1\<close> does to one process, apart from the run queues.\<close>

definition wake :: "chan option \<Rightarrow> proc \<Rightarrow> proc" where
  "wake ch p = (let p = (if p_state p = SLEEPING \<and> p_chan p = ch then p\<lparr>p_state := RUNNABLE\<rparr> else p)
     in if p_queueType p = HFS_POLICY then p\<lparr>p_hfs_priority := 0\<rparr> else p)"

lemma wf_proc_wake [simp]: "wf_proc (wake ch p) = wf_proc p"
  by (simp add: wake_def wf_proc_def)

lemma wake_simps [simp]:
  "p_fp_priority (wake ch p) = p_fp_priority p"
  "p_queueType (wake ch p) = p_queueType p"
  "p_chan (wake ch p) = p_chan p"
  "p_pid (wake ch p) = p_pid p"
  "p_parent (wake ch p) = p_parent p"
  "p_pgdir (wake ch p) = p_pgdir p"
  "p_kstack (wake ch p) = p_kstack p"
  "p_state (wake ch p) = (if p_state p = SLEEPING \<and> p_chan p = ch then RUNNABLE else p_state p)"
  by (simp_all add: wake_def)

lemma wakeup_one_eq:
  assumes "wf_rings pt" "prio_ok pt" "p < NPROC"
  shows "\<exists>pt'. wakeup_one ch p pt = Some pt' \<and> wf_rings pt' \<and>
    proc pt' = (proc pt)[p := wake ch (proc pt ! p)]"
proof -
  let ?pr = "proc pt ! p"
  define pt1 where "pt1 = (if p_state ?pr = SLEEPING \<and> p_chan ?pr = ch
    then upd_proc p (\<lambda>pr. pr\<lparr>p_state := RUNNABLE\<rparr>) pt else pt)"
  define pt2 where "pt2 = upd_proc p (\<lambda>pr. pr\<lparr>p_hfs_priority := 0\<rparr>) pt1"
  have wf1: "wf_rings pt1"
    using assms(1) by (auto simp: pt1_def wf_proc_def intro: wf_rings_upd_proc)
  have wf2: "wf_rings pt2"
    unfolding pt2_def using wf1 by (rule wf_rings_upd_proc) (simp add: wf_proc_def)
  note b = prio_okD [OF assms(2), of p]
  have prio1: "p_fp_priority (proc pt1 ! p) = p_fp_priority ?pr" using assms by (simp add: pt1_def)
  have proc1: "p_queueType ?pr \<noteq> HFS_POLICY \<Longrightarrow> proc pt1 = (proc pt)[p := wake ch ?pr]"
    using assms by (auto simp: pt1_def wake_def upd_proc_def)
  have proc2: "p_queueType ?pr = HFS_POLICY \<Longrightarrow> proc pt2 = (proc pt)[p := wake ch ?pr]"
    using assms by (auto simp: pt1_def pt2_def wake_def upd_proc_def)
  consider "p_queueType ?pr = FP_POLICY" | "p_queueType ?pr = HFS_POLICY"
    | "p_queueType ?pr \<noteq> FP_POLICY" "p_queueType ?pr \<noteq> HFS_POLICY" by blast
  then show ?thesis
  proof cases
    case 1
    then obtain r pt' where "fp_enqueue p pt1 = Some (r, pt')" "proc pt' = proc pt1" "wf_rings pt'"
      using fp_enqueue_total [OF wf1 assms(3)] b prio1 assms by auto
    then show ?thesis using 1 proc1 assms by (simp add: wakeup_one_def pt1_def [symmetric])
  next
    case 2
    then obtain r pt' where "hfs_enqueue p pt2 = Some (r, pt')" "proc pt' = proc pt2" "wf_rings pt'"
      using hfs_enqueue_total [OF wf2 assms(3)] assms wf1 by (auto simp: pt2_def)
    then show ?thesis
      using 2 proc2 assms by (simp add: wakeup_one_def pt1_def [symmetric] pt2_def [symmetric])
  next
    case 3
    then show ?thesis using proc1 wf1 assms by (simp add: wakeup_one_def pt1_def [symmetric])
  qed
qed

lemma prio_ok_wake:
  assumes "prio_ok pt" "p < length (proc pt)" "proc pt' = (proc pt)[p := wake ch (proc pt ! p)]"
  shows "prio_ok pt'"
proof -
  have "set (proc pt') \<subseteq> insert (wake ch (proc pt ! p)) (set (proc pt))"
    using assms(3) by (simp add: set_update_subset_insert)
  moreover have "0 \<le> p_hfs_priority (wake ch (proc pt ! p))" "p_hfs_priority (wake ch (proc pt ! p)) < 10"
    using prio_okD [OF assms(1,2)] by (auto simp: wake_def Let_def)
  ultimately show ?thesis
    using assms prio_okD [OF assms(1,2)] unfolding prio_ok_def by auto
qed

lemma map_take_Suc:
  "j < length xs \<Longrightarrow> (map f (take j xs) @ drop j xs)[j := f (xs ! j)] = map f (take (Suc j) xs) @ drop (Suc j) xs"
  by (rule nth_equalityI) (auto simp: nth_list_update nth_append min_def)

lemma wakeup1_eq:
  assumes "wf_rings pt" "prio_ok pt"
  shows "\<exists>pt'. wakeup1 ch pt = Some pt' \<and> wf_rings pt' \<and> prio_ok pt' \<and> proc pt' = map (wake ch) (proc pt)"
proof -
  let ?I = "\<lambda>j t. wf_rings t \<and> prio_ok t \<and> proc t = map (wake ch) (take j (proc pt)) @ drop j (proc pt)"
  have "\<exists>pt'. for_from NPROC 0 (wakeup_one ch) pt = Some pt' \<and> ?I (0 + NPROC) pt'"
  proof (rule for_from_total [where I = ?I])
    show "?I 0 pt" using assms by simp
  next
    fix j t
    assume "0 \<le> j" and lt: "j < 0 + NPROC" and I: "?I j t"
    then obtain t' where t': "wakeup_one ch j t = Some t'" "wf_rings t'"
      "proc t' = (proc t)[j := wake ch (proc t ! j)]"
      using wakeup_one_eq [of t j ch] by auto
    have len: "length (proc pt) = NPROC" "length (proc t) = NPROC" using assms I by simp_all
    have "proc t ! j = proc pt ! j" using I lt len by (simp add: nth_append)
    then have "proc t' = map (wake ch) (take (Suc j) (proc pt)) @ drop (Suc j) (proc pt)"
      using t'(3) I lt len map_take_Suc [of j "proc pt"] by simp
    then show "\<exists>t'. wakeup_one ch j t = Some t' \<and> ?I (Suc j) t'"
      using t' prio_ok_wake [OF _ _ t'(3)] I lt len by auto
  qed
  then show ?thesis using assms by (auto simp: wakeup1_def)
qed

section \<open>Kernel-level vocabulary\<close>

text \<open>
  \<open>sched_ok s\<close>: the process table and its queues are well-formed, the code runs on a known
  processor, and \<open>ptable.lock\<close> is free.
\<close>

definition sched_ok :: "kernel \<Rightarrow> bool" where
  "sched_ok s \<longleftrightarrow> wf_machine (mach s) \<and> lock_free PtableLk (mach s) \<and> wf_rings (ptable s) \<and> prio_ok (ptable s)"

lemma sched_okD:
  assumes "sched_ok s"
  shows "wf_machine (mach s)" "lock_free PtableLk (mach s)" "wf_rings (ptable s)" "prio_ok (ptable s)"
  using assms by (simp_all add: sched_ok_def)

lemma wakeup_eq:
  assumes "sched_ok s"
  shows "\<exists>pt'. wakeup ch s = Some (s\<lparr>mach := settle (mach s), ptable := pt'\<rparr>) \<and>
    wf_rings pt' \<and> prio_ok pt' \<and> proc pt' = map (wake ch) (proc (ptable s))"
proof -
  note d = sched_okD [OF assms]
  obtain pt' where "wakeup1 ch (ptable s) = Some pt'" "wf_rings pt'" "prio_ok pt'"
    "proc pt' = map (wake ch) (proc (ptable s))"
    using wakeup1_eq [OF d(3,4)] by blast
  then show ?thesis using d by (auto simp: wakeup_def)
qed

text \<open>The process \<open>kill\<close> has found: marked, and no longer asleep.\<close>

definition killed :: "proc \<Rightarrow> proc" where
  "killed p = (let p = p\<lparr>p_killed := 1, p_state := (if p_state p = SLEEPING then RUNNABLE else p_state p)\<rparr>
     in if p_queueType p = HFS_POLICY then p\<lparr>p_hfs_priority := 0\<rparr> else p)"

lemma kill_eq:
  assumes "sched_ok s"
  shows "\<exists>pt'. kill pid s = Some
      (if first_ix (\<lambda>p. p_pid p = pid) (proc (ptable s)) = None then -1 else 0,
       s\<lparr>mach := settle (mach s), ptable := pt'\<rparr>) \<and> wf_rings pt' \<and>
    proc pt' = (case first_ix (\<lambda>p. p_pid p = pid) (proc (ptable s)) of None \<Rightarrow> proc (ptable s)
      | Some i \<Rightarrow> (proc (ptable s))[i := killed (proc (ptable s) ! i)])"
proof (cases "first_ix (\<lambda>p. p_pid p = pid) (proc (ptable s))")
  case None
  then show ?thesis using sched_okD [OF assms] by (intro exI [of _ "ptable s"]) (simp add: kill_def)
next
  case (Some i)
  note d = sched_okD [OF assms]
  let ?pt = "ptable s"
  have i: "i < NPROC" using first_ix_SomeD(1) [OF Some] d(3) by simp
  note b = prio_okD [OF d(4), of i]
  define pt1 where "pt1 = upd_proc i (\<lambda>pr. pr\<lparr>p_killed := 1\<rparr>) ?pt"
  define pt2 where "pt2 = (if p_state (proc ?pt ! i) = SLEEPING
    then upd_proc i (\<lambda>pr. pr\<lparr>p_state := RUNNABLE\<rparr>) pt1 else pt1)"
  define pt3 where "pt3 = upd_proc i (\<lambda>pr. pr\<lparr>p_hfs_priority := 0\<rparr>) pt2"
  have wf1: "wf_rings pt1"
    unfolding pt1_def using d(3) by (rule wf_rings_upd_proc) (simp add: wf_proc_def)
  have wf2: "wf_rings pt2"
    using wf1 by (auto simp: pt2_def wf_proc_def intro: wf_rings_upd_proc)
  have wf3: "wf_rings pt3"
    unfolding pt3_def using wf2 by (rule wf_rings_upd_proc) (simp add: wf_proc_def)
  have st1: "p_state (proc pt1 ! i) = p_state (proc ?pt ! i)" using i d(3) by (simp add: pt1_def)
  have p2: "p_queueType (proc pt2 ! i) = p_queueType (proc ?pt ! i)"
    "p_fp_priority (proc pt2 ! i) = p_fp_priority (proc ?pt ! i)"
    using i d(3) by (simp_all add: pt1_def pt2_def)
  have proc2: "p_queueType (proc ?pt ! i) \<noteq> HFS_POLICY \<Longrightarrow> proc pt2 = (proc ?pt)[i := killed (proc ?pt ! i)]"
    using i d(3) by (auto simp: pt1_def pt2_def killed_def upd_proc_def intro!: arg_cong [of _ _ "list_update _ _"])
  have proc3: "p_queueType (proc ?pt ! i) = HFS_POLICY \<Longrightarrow> proc pt3 = (proc ?pt)[i := killed (proc ?pt ! i)]"
    using i d(3) by (auto simp: pt1_def pt2_def pt3_def killed_def upd_proc_def intro!: arg_cong [of _ _ "list_update _ _"])
  define enq where "enq = (if p_queueType (proc pt2 ! i) = FP_POLICY then map_option snd (fp_enqueue i pt2)
    else if p_queueType (proc pt2 ! i) = HFS_POLICY then map_option snd (hfs_enqueue i pt3) else Some pt2)"
  have "\<exists>pt'. enq = Some pt' \<and> wf_rings pt' \<and> proc pt' = (proc ?pt)[i := killed (proc ?pt ! i)]"
    unfolding enq_def p2
    using fp_enqueue_total [OF wf2 i] hfs_enqueue_total [OF wf3 i] b i d(3) wf2 p2 proc2 proc3
    by (auto simp: pt3_def)
  moreover have "kill pid s = Option.bind enq (\<lambda>pt. Some (0, s\<lparr>mach := settle (mach s), ptable := pt\<rparr>))"
    using d(1,2) Some st1
    by (simp add: kill_def enq_def pt1_def [symmetric] pt2_def [symmetric] pt3_def [symmetric])
  ultimately show ?thesis using Some by auto
qed

section \<open>Sleeping and yielding\<close>

text \<open>\<open>outside m i\<close>: no lock is held, and process \<open>i\<close> runs on this processor.\<close>

definition outside :: "machine \<Rightarrow> nat \<Rightarrow> bool" where
  "outside m i \<longleftrightarrow> wf_machine m \<and> c_ncli (here_cpu m) = 0 \<and> c_proc (here_cpu m) = Some i"

lemma acq_cpu [simp]:
  assumes "wf_machine m"
  shows "c_proc (m_cpus (pushed m) ! here m) = c_proc (here_cpu m)"
    and "c_ncli (m_cpus (pushed m) ! here m) = c_ncli (here_cpu m) + 1"
  using pushed_cpu [OF assms] by simp_all

lemma mach_same [simp]: "mach s = m \<Longrightarrow> s\<lparr>mach := m\<rparr> = s"
  by simp

lemma sched_enter_eq:
  assumes "mach s = acq PtableLk m" "outside m i" "i < length (proc (ptable s))"
    and "p_state (proc (ptable s) ! i) \<noteq> RUNNING"
  shows "sched_enter s = Some (m_IF m, s)"
proof -
  have m: "wf_machine m" using assms(2) by (simp add: outside_def)
  have "myproc s = Some (Some i, s)"
    using assms m by (simp add: outside_def)
  moreover have "holding PtableLk s = Some True"
    using assms(1) m by simp
  moreover have "mycpu (mach s) = Some (here m)"
    using assms(1) m by (simp add: mycpu_wf)
  ultimately show ?thesis
    using assms m by (simp add: sched_enter_def outside_def)
qed

text \<open>With a second lock held \<open>sched\<close> panics, whatever the state of the process.\<close>

lemma sched_enter_locks:
  assumes "mach s = acq PtableLk m" "wf_machine m" "c_ncli (here_cpu m) \<noteq> 0"
  shows "sched_enter s = None"
proof -
  have "mycpu (mach s) = Some (here m)" using assms by (simp add: mycpu_wf)
  then show ?thesis using assms by (simp add: sched_enter_def)
qed

lemma release_second [simp]:
  "mach s = acq lk' (acq lk m) \<Longrightarrow> wf_machine m \<Longrightarrow> lock_free lk m \<Longrightarrow> lk \<noteq> lk' \<Longrightarrow>
     release lk s = Some (s\<lparr>mach := acq lk' m\<rparr>)"
  by (simp add: release_def)

text \<open>The state at the switch inside \<open>sleep\<close>: \<open>lk\<close> is free again, \<open>ptable.lock\<close> is held.\<close>

definition asleep :: "chan \<Rightarrow> nat \<Rightarrow> machine \<Rightarrow> kernel \<Rightarrow> kernel" where
  "asleep ch i m s = (setp i (\<lambda>pr. pr\<lparr>p_chan := Some ch, p_state := SLEEPING\<rparr>) s)\<lparr>mach := acq PtableLk m\<rparr>"

lemma sleep_enter_eq:
  assumes "mach s = acq lk m" "outside m i" "lock_free lk m" "lock_free PtableLk m"
    and "i < length (proc (ptable s))"
  shows "sleep_enter ch (Some lk) s = Some (m_IF m, asleep ch i m s)"
proof -
  have m: "wf_machine m" "c_proc (here_cpu m) = Some i" using assms(2) by (simp_all add: outside_def)
  have my: "myproc s = Some (Some i, s)" using assms(1) m by simp
  have sch: "sched_enter (asleep ch i m s) = Some (m_IF m, asleep ch i m s)"
    using assms by (intro sched_enter_eq) (auto simp: asleep_def)
  show ?thesis
  proof (cases "lk = PtableLk")
    case True
    then have "setp i (\<lambda>pr. pr\<lparr>p_chan := Some ch, p_state := SLEEPING\<rparr>) s = asleep ch i m s"
      using assms(1) by (simp add: asleep_def setp_def)
    then show ?thesis using True my sch assms(5) by (simp add: sleep_enter_def)
  next
    case False
    then have "acquire PtableLk s = Some (s\<lparr>mach := acq PtableLk (acq lk m)\<rparr>)"
      using assms m by simp
    moreover have "release lk (s\<lparr>mach := acq PtableLk (acq lk m)\<rparr>) = Some (s\<lparr>mach := acq PtableLk m\<rparr>)"
      using False assms(3) m by simp
    ultimately show ?thesis
      using False my sch assms(5) by (simp add: sleep_enter_def asleep_def)
  qed
qed

text \<open>Sleeping with a lock besides \<open>lk\<close> panics in \<open>sched\<close>.\<close>

lemma sleep_enter_locks:
  assumes "mach s = acq lk m" "wf_machine m" "c_ncli (here_cpu m) \<noteq> 0"
    and "lock_free lk m" "lock_free PtableLk m" "lk \<noteq> PtableLk"
  shows "sleep_enter ch (Some lk) s = None"
proof -
  have "sched_enter (setp j f (s\<lparr>mach := acq PtableLk m\<rparr>)) = None" for j f
    using assms by (intro sched_enter_locks [of _ m]) simp_all
  moreover have "release lk (s\<lparr>mach := acq PtableLk (acq lk m)\<rparr>) = Some (s\<lparr>mach := acq PtableLk m\<rparr>)"
    using assms by simp
  ultimately show ?thesis
    using assms by (simp add: sleep_enter_def bind_eq_None_conv)
qed

text \<open>Coming back from the switch with \<open>ptable.lock\<close> held, on a processor where nothing else is.\<close>

lemma sched_exit_eq:
  assumes "mach s = acq PtableLk m" "wf_machine m" "c_ncli (here_cpu m) = 0"
  shows "sched_exit b s = Some (s\<lparr>mach := acq PtableLk (m\<lparr>m_IF := b\<rparr>)\<rparr>)"
proof -
  have c: "here m < length (m_cpus m)" using assms(2) by (rule here_lt)
  have wf: "wf_machine (m\<lparr>m_IF := b\<rparr>)" using assms(2,3) by (simp add: wf_machine_def)
  have "mycpu (acq PtableLk m) = Some (here m)" using assms by (simp add: mycpu_wf)
  moreover have "upd_cpu (here m) (\<lambda>cp. cp\<lparr>c_intena := b\<rparr>) (acq PtableLk m) = acq PtableLk (m\<lparr>m_IF := b\<rparr>)"
    using assms(3) c
    by (auto simp: acq_def pushed_def settle_def upd_cpu_def intro!: machine.equality
        arg_cong [of _ _ "list_update _ _"] cpu.equality)
  ultimately show ?thesis using assms(1) by (simp add: sched_exit_def)
qed

lemma sleep_exit_eq:
  assumes "mach s = acq PtableLk m" "wf_machine m" "c_ncli (here_cpu m) = 0"
    and "lock_free PtableLk m" "lock_free lk m"
  shows "sleep_exit i lk b s =
    Some ((setp i (\<lambda>pr. pr\<lparr>p_chan := None\<rparr>) s)\<lparr>mach := acq lk (m\<lparr>m_IF := b\<rparr>)\<rparr>)"
proof -
  have wf: "wf_machine (m\<lparr>m_IF := b\<rparr>)" using assms(2,3) by (simp add: wf_machine_def)
  have free: "lock_free l (m\<lparr>m_IF := b\<rparr>) = lock_free l m" for l by (simp add: lock_free_def)
  have "release PtableLk ((setp i f s)\<lparr>mach := acq PtableLk (m\<lparr>m_IF := b\<rparr>)\<rparr>) =
      Some ((setp i f s)\<lparr>mach := settle (m\<lparr>m_IF := b\<rparr>)\<rparr>)" for f
    using wf free assms(4) by simp
  moreover have "acquire lk ((setp i f s)\<lparr>mach := settle (m\<lparr>m_IF := b\<rparr>)\<rparr>) =
      Some ((setp i f s)\<lparr>mach := acq lk (m\<lparr>m_IF := b\<rparr>)\<rparr>)" for f
    using wf free assms(5) by simp
  ultimately show ?thesis
    using sched_exit_eq [OF assms(1-3), of b] by (simp add: sleep_exit_def Let_def)
qed

section \<open>The scheduler\<close>

text \<open>A processor set up to run a process: its kernel stack and page table loaded.\<close>

definition loaded :: "uint \<Rightarrow> uint \<Rightarrow> machine \<Rightarrow> machine" where
  "loaded esp0 cr3 m = (upd_cpu (here m) (\<lambda>cp. cp\<lparr>c_esp0 := esp0\<rparr>) m)\<lparr>m_cr3 := cr3\<rparr>"

lemma loaded_simps [simp]:
  "m_IF (loaded a b m) = m_IF m"
  "m_locks (loaded a b m) = m_locks m"
  "m_cr3 (loaded a b m) = b"
  "here (loaded a b m) = here m"
  by (simp_all add: loaded_def)

lemma loaded_cpu [simp]:
  assumes "wf_machine m"
  shows "m_cpus (loaded a b m) ! here m = (here_cpu m)\<lparr>c_esp0 := a\<rparr>"
  using here_lt [OF assms] by (simp add: loaded_def)

lemma wf_loaded [simp]: "wf_machine m \<Longrightarrow> wf_machine (loaded a b m)"
  unfolding wf_machine_def [of "loaded a b m"] by (simp add: wf_machine_def) (simp add: loaded_def)

lemma popcli_loaded:
  assumes "wf_machine m" "\<not> m_IF m" "0 < c_ncli (here_cpu m)"
  shows "popcli (loaded a b m) = map_option (loaded a b) (popcli m)"
proof -
  have c: "here m < length (m_cpus m)" using assms(1) by (rule here_lt)
  let ?dec = "\<lambda>cp. cp\<lparr>c_ncli := c_ncli cp - 1\<rparr>"
  have "here (upd_cpu (here m) ?dec m) = here m" by simp
  then have dec: "upd_cpu (here m) ?dec (loaded a b m) = loaded a b (upd_cpu (here m) ?dec m)"
    unfolding loaded_def using c
    by (auto simp: upd_cpu_def intro!: machine.equality arg_cong [of _ _ "list_update _ _"] cpu.equality)
  have on: "(loaded a b m')\<lparr>m_IF := t\<rparr> = loaded a b (m'\<lparr>m_IF := t\<rparr>)" for m' t
    by (simp add: loaded_def upd_cpu_def)
  show ?thesis
    using assms by (simp add: popcli_wf Let_def dec on)
qed

lemma switchuvm_eq:
  assumes "wf_machine (mach s)" "i < length (proc (ptable s))"
    and "p_kstack (proc (ptable s) ! i) \<noteq> 0" "p_pgdir (proc (ptable s) ! i) \<noteq> 0"
  shows "switchuvm (Some i) s = Some (s\<lparr>mach :=
    loaded (p_kstack (proc (ptable s) ! i) + 4096) (p_pgdir (proc (ptable s) ! i) - 0x80000000) (settle (mach s))\<rparr>)"
proof -
  let ?m = "mach s"
  have "popcli (loaded a b (pushed ?m)) = Some (loaded a b (settle ?m))" for a b
    using assms(1) wf_ncli_nonneg [OF assms(1)] by (simp add: popcli_loaded popcli_pushed)
  then show ?thesis
    using assms by (simp add: switchuvm_def pushcli_wf mycpu_wf loaded_def)
qed

text \<open>\<open>idle m\<close>: the scheduler's processor between two rounds, no lock held, no process.\<close>

definition idle :: "machine \<Rightarrow> bool" where
  "idle m \<longleftrightarrow> wf_machine m \<and> c_ncli (here_cpu m) = 0 \<and> lock_free PtableLk m"

text \<open>Every process that may run has a kernel stack and a page table.\<close>

definition loadable :: "ptable \<Rightarrow> bool" where
  "loadable pt \<longleftrightarrow> (\<forall>p \<in> set (proc pt). p_state p = RUNNABLE \<longrightarrow> p_kstack p \<noteq> 0 \<and> p_pgdir p \<noteq> 0)"

text \<open>The run queues hold table entries only, never the pointers \<open>0\<close> and \<open>-1\<close>.\<close>

definition queued_ok :: "ptable \<Rightarrow> bool" where
  "queued_ok pt \<longleftrightarrow> (\<forall>k < PRIO_MAX. \<forall>x \<in> set (rq k pt). \<exists>i < NPROC. x = PProc i)"

text \<open>
  The invariant of the scheduler thread.  While it scans, it holds \<open>ptable.lock\<close> and nothing
  else; while it is inside \<open>swtch\<close>, the process it chose is RUNNING on this processor with its
  page table loaded.
\<close>

definition on_cpu :: "nat \<Rightarrow> kernel \<Rightarrow> bool" where
  "on_cpu p s \<longleftrightarrow> p < NPROC \<and> c_proc (here_cpu (mach s)) = Some p \<and> p_state (proc (ptable s) ! p) = RUNNING \<and>
     m_cr3 (mach s) = p_pgdir (proc (ptable s) ! p) - KERNBASE \<and>
     c_esp0 (here_cpu (mach s)) = p_kstack (proc (ptable s) ! p) + KSTACKSIZE"

definition scanning :: "kernel \<Rightarrow> bool" where
  "scanning s \<longleftrightarrow> wf_machine (mach s) \<and> \<not> m_IF (mach s) \<and> lock_held PtableLk (mach s) \<and>
     c_ncli (here_cpu (mach s)) = 1"

definition sched_inv :: "sched_pc \<Rightarrow> kernel \<Rightarrow> bool" where
  "sched_inv pc s \<longleftrightarrow> wf_rings (ptable s) \<and> loadable (ptable s) \<and> queued_ok (ptable s) \<and>
     (case pc of SchedTop \<Rightarrow> idle (mach s) | SchedScan i \<Rightarrow> scanning s | SchedIn p i \<Rightarrow> scanning s)"

lemma set_cpu_proc_eq:
  assumes "scanning s"
  shows "\<exists>m'. set_cpu_proc p s = Some (s\<lparr>mach := m'\<rparr>) \<and> scanning (s\<lparr>mach := m'\<rparr>) \<and>
    c_proc (here_cpu m') = p \<and> here m' = here (mach s) \<and> settle m' = m'"
proof -
  let ?m = "mach s"
  let ?m' = "upd_cpu (here ?m) (\<lambda>cp. cp\<lparr>c_proc := p\<rparr>) ?m"
  have wf: "wf_machine ?m" "\<not> m_IF ?m" using assms by (simp_all add: scanning_def)
  have "here ?m < length (m_cpus ?m)" using wf(1) by (rule here_lt)
  then have cp: "m_cpus ?m' ! here ?m = (here_cpu ?m)\<lparr>c_proc := p\<rparr>" by simp
  have "wf_machine ?m'"
    using wf cp unfolding wf_machine_def by simp
  then have "scanning (s\<lparr>mach := ?m'\<rparr>)"
    using assms cp by (simp add: scanning_def lock_held_def)
  moreover have "settle ?m' = ?m'"
    using cp assms by (simp add: settle_def scanning_def)
  moreover have "set_cpu_proc p s = Some (s\<lparr>mach := ?m'\<rparr>)"
    using wf by (simp add: set_cpu_proc_def mycpu_wf)
  ultimately show ?thesis using cp by (intro exI [of _ ?m']) simp
qed

lemma dispatch_eq:
  assumes "scanning s" "wf_rings (ptable s)" "i < NPROC"
    and "p_kstack (proc (ptable s) ! i) \<noteq> 0" "p_pgdir (proc (ptable s) ! i) \<noteq> 0"
  shows "\<exists>m'. dispatch i s = Some ((setp i (\<lambda>pr. pr\<lparr>p_state := RUNNING\<rparr>) s)\<lparr>mach := m'\<rparr>) \<and>
    scanning ((setp i (\<lambda>pr. pr\<lparr>p_state := RUNNING\<rparr>) s)\<lparr>mach := m'\<rparr>) \<and>
    on_cpu i ((setp i (\<lambda>pr. pr\<lparr>p_state := RUNNING\<rparr>) s)\<lparr>mach := m'\<rparr>)"
proof -
  obtain m1 where m1: "set_cpu_proc (Some i) s = Some (s\<lparr>mach := m1\<rparr>)" "scanning (s\<lparr>mach := m1\<rparr>)"
    "c_proc (here_cpu m1) = Some i" "settle m1 = m1"
    using set_cpu_proc_eq [OF assms(1), of "Some i"] by auto
  let ?m' = "loaded (p_kstack (proc (ptable s) ! i) + 4096) (p_pgdir (proc (ptable s) ! i) - 0x80000000) m1"
  have wf: "wf_machine m1" using m1(2) by (simp add: scanning_def)
  have "switchuvm (Some i) (s\<lparr>mach := m1\<rparr>) = Some (s\<lparr>mach := ?m'\<rparr>)"
    using assms wf m1(4) switchuvm_eq [of "s\<lparr>mach := m1\<rparr>" i] by simp
  moreover have "scanning ((setp i (\<lambda>pr. pr\<lparr>p_state := RUNNING\<rparr>) s)\<lparr>mach := ?m'\<rparr>)"
    using m1(2) wf by (simp add: scanning_def lock_held_def)
  moreover have "on_cpu i ((setp i (\<lambda>pr. pr\<lparr>p_state := RUNNING\<rparr>) s)\<lparr>mach := ?m'\<rparr>)"
    using m1(3) wf assms(2,3) by (simp add: on_cpu_def)
  ultimately show ?thesis using m1(1) by (intro exI [of _ ?m']) (simp add: dispatch_def)
qed

lemma loadable_state:
  assumes "loadable pt" "p_state (f (proc pt ! i)) \<noteq> RUNNABLE"
  shows "loadable (upd_proc i f pt)"
proof (cases "i < length (proc pt)")
  case True
  then have "set (proc (upd_proc i f pt)) \<subseteq> insert (f (proc pt ! i)) (set (proc pt))"
    by (simp add: upd_proc_def set_update_subset_insert)
  then show ?thesis using assms by (auto simp: loadable_def)
next
  case False
  then show ?thesis using assms(1) by (simp add: upd_proc_def list_update_beyond)
qed

lemma loadableD:
  "loadable pt \<Longrightarrow> i < length (proc pt) \<Longrightarrow> p_state (proc pt ! i) = RUNNABLE \<Longrightarrow>
     p_kstack (proc pt ! i) \<noteq> 0 \<and> p_pgdir (proc pt ! i) \<noteq> 0"
  by (auto simp: loadable_def)

text \<open>One step of the scheduler that ends in a switch to process \<open>p\<close>.\<close>

lemma dispatch_inv:
  assumes "scanning s" "wf_rings (ptable s)" "loadable (ptable s)" "queued_ok (ptable s)" "i < NPROC"
    and "p_state (proc (ptable s) ! i) = RUNNABLE"
  shows "\<exists>s'. dispatch i s = Some s' \<and> sched_inv (SchedIn i j) s' \<and> on_cpu i s' \<and>
    ptable s' = upd_proc i (\<lambda>pr. pr\<lparr>p_state := RUNNING\<rparr>) (ptable s)"
proof -
  have "p_kstack (proc (ptable s) ! i) \<noteq> 0 \<and> p_pgdir (proc (ptable s) ! i) \<noteq> 0"
    using assms by (intro loadableD) simp_all
  then obtain m' where m': "dispatch i s = Some ((setp i (\<lambda>pr. pr\<lparr>p_state := RUNNING\<rparr>) s)\<lparr>mach := m'\<rparr>)"
    "scanning ((setp i (\<lambda>pr. pr\<lparr>p_state := RUNNING\<rparr>) s)\<lparr>mach := m'\<rparr>)"
    "on_cpu i ((setp i (\<lambda>pr. pr\<lparr>p_state := RUNNING\<rparr>) s)\<lparr>mach := m'\<rparr>)"
    using dispatch_eq [OF assms(1,2,5)] by blast
  moreover have "wf_rings (upd_proc i (\<lambda>pr. pr\<lparr>p_state := RUNNING\<rparr>) (ptable s))"
    using assms(2) by (rule wf_rings_upd_proc) (simp add: wf_proc_def)
  moreover have "loadable (upd_proc i (\<lambda>pr. pr\<lparr>p_state := RUNNING\<rparr>) (ptable s))"
    using assms(3) by (rule loadable_state) simp
  ultimately show ?thesis
    using assms(4) by (simp add: sched_inv_def queued_ok_def)
qed

lemma queued_ok_drop:
  assumes "queued_ok pt" "rq k pt = x # rq k (rq_drop k pt)"
  shows "queued_ok (rq_drop k pt)"
  unfolding queued_ok_def
proof (intro allI impI ballI)
  fix j x assume j: "j < PRIO_MAX" "x \<in> set (rq j (rq_drop k pt))"
  then have "x \<in> set (rq j pt)"
    using assms(2) rq_drop_other [of j k pt] by (cases "j = k") (metis list.set_intros(2), simp)
  then show "\<exists>i < NPROC. x = PProc i" using assms(1) j(1) by (auto simp: queued_ok_def)
qed

lemma fp_dequeue_queued:
  assumes "wf_rings pt" "queued_ok pt"
  shows "\<exists>x pt'. fp_dequeue pt = Some (x, pt') \<and> wf_rings pt' \<and> queued_ok pt' \<and> proc pt' = proc pt \<and>
    (x = PMinusOne \<or> (\<exists>i < NPROC. x = PProc i))"
  using assms(1)
proof (cases rule: fp_dequeue_cases)
  case (found k)
  have "hd (rq k pt) \<in> set (rq k pt)" using found(2) by simp
  then have "\<exists>i < NPROC. hd (rq k pt) = PProc i" using assms(2) found(1) by (auto simp: queued_ok_def)
  then show ?thesis
    using found assms queued_ok_drop [OF assms(2) found(5)] by auto
next
  case empty
  then show ?thesis using assms by simp
qed

lemma idle_sti [simp]: "idle m \<Longrightarrow> wf_machine (m\<lparr>m_IF := True\<rparr>)" "idle m \<Longrightarrow> lock_free PtableLk (m\<lparr>m_IF := True\<rparr>)"
  by (simp_all add: idle_def wf_machine_def lock_free_def)

lemma scanning_acq:
  assumes "idle m"
  shows "scanning (s\<lparr>mach := acq PtableLk (m\<lparr>m_IF := True\<rparr>)\<rparr>)"
  using assms pushed_cpu(1) [OF idle_sti(1) [OF assms]] by (simp add: scanning_def idle_def)

lemma scanning_release:
  assumes "scanning s"
  shows "\<exists>m'. release PtableLk s = Some (s\<lparr>mach := m'\<rparr>) \<and> idle m'"
proof -
  let ?m = "mach s"
  let ?unl = "?m\<lparr>m_locks := (m_locks ?m)(PtableLk := (m_locks ?m PtableLk)\<lparr>sl_cpu := None, sl_locked := 0\<rparr>)\<rparr>"
  let ?dec = "upd_cpu (here ?m) (\<lambda>cp. cp\<lparr>c_ncli := c_ncli cp - 1\<rparr>) ?unl"
  have m: "wf_machine ?m" "\<not> m_IF ?m" "lock_held PtableLk ?m" "c_ncli (here_cpu ?m) = 1"
    using assms by (simp_all add: scanning_def)
  then have wf0: "wf_machine ?unl" by (simp add: wf_machine_def)
  have "here ?m < length (m_cpus ?m)" using m(1) by (rule here_lt)
  then have cp: "m_cpus ?dec ! here ?m = (here_cpu ?m)\<lparr>c_ncli := 0\<rparr>" using m(4) by simp
  have "wf_machine ?dec" using wf0 cp unfolding wf_machine_def by simp
  then have idle: "idle ?dec" "idle (?dec\<lparr>m_IF := True\<rparr>)"
    using cp by (simp_all add: idle_def lock_free_def wf_machine_def)
  have "release_m PtableLk ?m = popcli ?unl"
    using m by (simp add: release_m_held)
  moreover have "popcli ?unl = Some (if c_intena (here_cpu ?m) then ?dec\<lparr>m_IF := True\<rparr> else ?dec)"
    using popcli_wf [OF wf0] m by (simp add: Let_def)
  ultimately show ?thesis using idle by (auto simp: release_def)
qed

text \<open>What a step of the scheduler may do to the process table.\<close>

definition chosen :: "sched_pc \<Rightarrow> kernel \<Rightarrow> kernel \<Rightarrow> bool" where
  "chosen pc' s s' \<longleftrightarrow>
     (case pc' of
        SchedIn p j \<Rightarrow> p_state (proc (ptable s) ! p) = RUNNABLE \<and> on_cpu p s' \<and>
          proc (ptable s') = (proc (ptable s))[p := (proc (ptable s) ! p)\<lparr>p_state := RUNNING\<rparr>]
      | _ \<Rightarrow> proc (ptable s') = proc (ptable s))"

lemma scheduler_dispatches:
  assumes "scanning s" "wf_rings (ptable s)" "loadable (ptable s)" "queued_ok (ptable s)" "i < NPROC"
    and "p_state (proc (ptable s) ! i) = RUNNABLE" "proc (ptable s) = proc (ptable t)"
  shows "\<exists>s'. dispatch i s = Some s' \<and> sched_inv (SchedIn i j) s' \<and> chosen (SchedIn i j) t s'"
  using dispatch_inv [OF assms(1-6), of j] assms(6,7) by (auto simp: chosen_def upd_proc_def)

lemma scheduler_top:
  assumes "sched_inv SchedTop s"
  shows "\<exists>pc' s'. scheduler_step SchedTop s = Some (pc', s') \<and> sched_inv pc' s' \<and> chosen pc' s s' \<and>
    (pc' = SchedScan 0 \<or> (\<exists>i. pc' = SchedIn i 0))"
proof -
  have inv: "wf_rings (ptable s)" "loadable (ptable s)" "queued_ok (ptable s)" "idle (mach s)"
    using assms by (simp_all add: sched_inv_def)
  let ?m = "acq PtableLk ((mach s)\<lparr>m_IF := True\<rparr>)"
  have acq: "acquire PtableLk (s\<lparr>mach := (mach s)\<lparr>m_IF := True\<rparr>\<rparr>) = Some (s\<lparr>mach := ?m\<rparr>)"
    using inv(4) by simp
  obtain x pt' where dq: "fp_dequeue (ptable s) = Some (x, pt')" "wf_rings pt'" "queued_ok pt'"
    "proc pt' = proc (ptable s)" "x = PMinusOne \<or> (\<exists>i < NPROC. x = PProc i)"
    using fp_dequeue_queued [OF inv(1,3)] by blast
  let ?s = "s\<lparr>ptable := pt', mach := ?m\<rparr>"
  have sc: "scanning ?s" using scanning_acq [OF inv(4), of "s\<lparr>ptable := pt'\<rparr>"] by simp
  have ld: "loadable pt'" using inv(2) dq(4) by (simp add: loadable_def)
  have scan: "sched_inv (SchedScan 0) ?s" "chosen (SchedScan 0) s ?s"
    using sc ld dq(2-4) by (simp_all add: sched_inv_def chosen_def)
  consider "x = PMinusOne" | i where "i < NPROC" "x = PProc i" "p_state (proc pt' ! i) = RUNNABLE"
    | i where "i < NPROC" "x = PProc i" "p_state (proc pt' ! i) \<noteq> RUNNABLE"
    using dq(5) by blast
  then show ?thesis
  proof cases
    case 1
    then show ?thesis using acq dq(1) scan by (simp add: scheduler_step_def)
  next
    case (2 i)
    then show ?thesis
      using acq dq scheduler_dispatches [of ?s i s 0] sc ld inv(1) by (auto simp: scheduler_step_def Let_def)
  next
    case (3 i)
    then show ?thesis using acq dq scan inv(1) by (simp add: scheduler_step_def Let_def)
  qed
qed

lemma scheduler_scan:
  assumes "sched_inv (SchedScan i) s" "i < NPROC"
  shows "\<exists>pc' s'. scheduler_step (SchedScan i) s = Some (pc', s') \<and> sched_inv pc' s' \<and> chosen pc' s s' \<and>
    pc' = (if p_state (proc (ptable s) ! i) = RUNNABLE then SchedIn i (Suc i) else SchedScan (Suc i))"
proof (cases "p_state (proc (ptable s) ! i) = RUNNABLE")
  case True
  then show ?thesis
    using assms scheduler_dispatches [of s i s "Suc i"] by (auto simp: scheduler_step_def sched_inv_def)
next
  case False
  then show ?thesis using assms by (auto simp: scheduler_step_def sched_inv_def chosen_def)
qed

lemma scheduler_round_end:
  assumes "sched_inv (SchedScan i) s" "\<not> i < NPROC"
  shows "\<exists>s'. scheduler_step (SchedScan i) s = Some (SchedTop, s') \<and> sched_inv SchedTop s' \<and> chosen SchedTop s s'"
  using assms scanning_release [of s] by (auto simp: scheduler_step_def sched_inv_def chosen_def)

lemma scanning_switchkvm: "scanning s \<Longrightarrow> scanning (switchkvm s)"
  by (simp add: scanning_def switchkvm_def wf_machine_def lock_held_def)

lemma scheduler_back:
  assumes "sched_inv (SchedIn p i) s"
  shows "\<exists>s'. scheduler_step (SchedIn p i) s = Some (SchedScan i, s') \<and> sched_inv (SchedScan i) s' \<and>
    chosen (SchedScan i) s s'"
proof -
  have "scanning (switchkvm s)" using assms by (simp add: sched_inv_def scanning_switchkvm)
  then obtain m' where "set_cpu_proc None (switchkvm s) = Some ((switchkvm s)\<lparr>mach := m'\<rparr>)"
    "scanning ((switchkvm s)\<lparr>mach := m'\<rparr>)"
    using set_cpu_proc_eq [of "switchkvm s" None] by blast
  moreover have "ptable (switchkvm s) = ptable s" by (simp add: switchkvm_def)
  ultimately show ?thesis using assms by (simp add: scheduler_step_def sched_inv_def chosen_def)
qed

text \<open>\<open>n\<close> steps of the scheduler while no process runs.\<close>

primrec sched_steps :: "nat \<Rightarrow> sched_pc \<Rightarrow> kernel \<Rightarrow> (sched_pc \<times> kernel) option" where
  "sched_steps 0 pc s = Some (pc, s)"
| "sched_steps (Suc n) pc s = do { (pc, s) \<leftarrow> scheduler_step pc s; sched_steps n pc s }"

lemma scan_finds:
  assumes "sched_inv (SchedScan j) s" "j \<le> i" "i < NPROC" "p_state (proc (ptable s) ! i) = RUNNABLE"
  shows "\<exists>n p k s'. n \<le> Suc (i - j) \<and> sched_steps n (SchedScan j) s = Some (SchedIn p k, s') \<and> on_cpu p s'"
  using assms
proof (induction "i - j" arbitrary: j s)
  case 0
  then obtain s' where "scheduler_step (SchedScan j) s = Some (SchedIn j (Suc j), s')" "chosen (SchedIn j (Suc j)) s s'"
    using scheduler_scan [of j s] by auto
  then show ?case by - (rule exI [of _ "Suc 0"], auto simp: chosen_def)
next
  case (Suc d)
  then have lt: "j < i" by simp
  obtain pc' s' where st: "scheduler_step (SchedScan j) s = Some (pc', s')" "sched_inv pc' s'" "chosen pc' s s'"
    "pc' = (if p_state (proc (ptable s) ! j) = RUNNABLE then SchedIn j (Suc j) else SchedScan (Suc j))"
    using scheduler_scan [of j s] Suc.prems lt by auto
  show ?case
  proof (cases "p_state (proc (ptable s) ! j) = RUNNABLE")
    case True
    then show ?thesis using st by - (rule exI [of _ "Suc 0"], auto simp: chosen_def)
  next
    case False
    then have "\<exists>n p k s''. n \<le> Suc (i - Suc j) \<and> sched_steps n (SchedScan (Suc j)) s' = Some (SchedIn p k, s'') \<and> on_cpu p s''"
      using Suc.hyps(2) Suc.prems st lt by (intro Suc.hyps(1)) (auto simp: chosen_def)
    then obtain n p k s'' where "n \<le> Suc (i - Suc j)"
      "sched_steps n (SchedScan (Suc j)) s' = Some (SchedIn p k, s'')" "on_cpu p s''" by blast
    then show ?thesis using False st lt by - (rule exI [of _ "Suc n"], auto)
  qed
qed

section \<open>Properties\<close>

text \<open>A process table and a kernel with one process, for witnesses.\<close>

definition demo_pt :: "procstate \<Rightarrow> chan option \<Rightarrow> ptable" where
  "demo_pt st ch = upd_proc 0 (\<lambda>p. p\<lparr>p_state := st, p_chan := ch, p_kstack := 0x8DFFE000, p_pgdir := 0x8DFFD000\<rparr>)
     one_runnable"

definition demo :: "procstate \<Rightarrow> chan option \<Rightarrow> nat option \<Rightarrow> kernel" where
  "demo st ch cur = kernel0\<lparr>ptable := demo_pt st ch,
     mach := machine0\<lparr>m_cpus := [\<lparr>c_apicid = 0, c_ncli = 0, c_intena = False, c_proc = cur, c_esp0 = 0\<rparr>]\<rparr>\<rparr>"

lemma demo_proc: "proc (demo_pt st ch) =
    proc0\<lparr>p_pid := 1, p_fp_priority := 3, p_state := st, p_chan := ch, p_kstack := 0x8DFFE000, p_pgdir := 0x8DFFD000\<rparr>
    # replicate 63 proc0"
  using replicate_Suc [of 63 proc0]
  by (simp add: demo_pt_def one_runnable_def upd_proc_def ptable0_def)

lemma demo_rings: "wf_rings (demo_pt st ch)"
  unfolding demo_pt_def using one_runnable_facts(1) [of 0]
  by (intro wf_rings_upd_proc) (simp_all add: wf_proc_def)

lemma demo_prio: "prio_ok (demo_pt st ch)"
  by (simp add: prio_ok_def demo_proc proc0_def)

lemma demo_rq: "k < PRIO_MAX \<Longrightarrow> rq k (demo_pt st ch) = []"
  by (simp add: demo_pt_def one_runnable_facts)

lemma demo_loadable: "loadable (demo_pt st ch)"
  by (simp add: loadable_def demo_proc proc0_def)

lemma demo_simps [simp]:
  "ptable (demo st ch cur) = demo_pt st ch"
  "wf_machine (mach (demo st ch cur))"
  "lock_free lk (mach (demo st ch cur))"
  "here (mach (demo st ch cur)) = 0"
  "c_ncli (m_cpus (mach (demo st ch cur)) ! 0) = 0"
  "c_proc (m_cpus (mach (demo st ch cur)) ! 0) = cur"
  "m_IF (mach (demo st ch cur)) = False"
  by (simp_all add: demo_def wf_machine_def lock_free_def here_def machine0_def)

lemma demo_sched_ok [simp]: "sched_ok (demo st ch cur)"
  by (simp add: sched_ok_def demo_rings demo_prio)

text \<open>
  \<open>wakeup(chan)\<close> returns with every process that slept on \<open>chan\<close> RUNNABLE and
  every other process in the state it was in, with the locks as they were, and with run
  queues that are still well-formed.
\<close>

theorem wakeup_wakes_sleepers:
  assumes "sched_ok s"
  shows "\<exists>s'. wakeup ch s = Some s' \<and> sched_ok s' \<and> m_locks (mach s') = m_locks (mach s) \<and>
    (\<forall>i < NPROC. p_state (proc (ptable s') ! i) =
       (if p_state (proc (ptable s) ! i) = SLEEPING \<and> p_chan (proc (ptable s) ! i) = ch then RUNNABLE
        else p_state (proc (ptable s) ! i)))"
proof -
  obtain pt' where "wakeup ch s = Some (s\<lparr>mach := settle (mach s), ptable := pt'\<rparr>)"
    "wf_rings pt'" "prio_ok pt'" "proc pt' = map (wake ch) (proc (ptable s))"
    using wakeup_eq [OF assms] by blast
  then show ?thesis using sched_okD [OF assms] by (simp add: sched_ok_def)
qed

theorem wakeup_wakes_sleepers_witness:
  "\<exists>s'. wakeup (Some ChTicks) (demo SLEEPING (Some ChTicks) None) = Some s' \<and>
    p_state (proc (ptable s') ! 0) = RUNNABLE \<and> p_state (proc (ptable s') ! 1) = UNUSED"
proof -
  obtain s' where "wakeup (Some ChTicks) (demo SLEEPING (Some ChTicks) None) = Some s'"
    "\<forall>i < NPROC. p_state (proc (ptable s') ! i) =
       (if p_state (proc (demo_pt SLEEPING (Some ChTicks)) ! i) = SLEEPING \<and>
           p_chan (proc (demo_pt SLEEPING (Some ChTicks)) ! i) = Some ChTicks then RUNNABLE
        else p_state (proc (demo_pt SLEEPING (Some ChTicks)) ! i))"
    using wakeup_wakes_sleepers [of "demo SLEEPING (Some ChTicks) None" "Some ChTicks"] by auto
  then show ?thesis by (auto simp: demo_proc proc0_def)
qed



text \<open>
  When the scheduler switches back to a process inside \<open>sleep\<close>, on any
  processor that holds \<open>ptable.lock\<close> only, \<open>sleep\<close> returns holding \<open>lk\<close> only, with the
  channel cleared and the interrupt state the caller had.
\<close>

theorem sleep_returns_with_lock:
  assumes "mach s = acq PtableLk m" "wf_machine m" "c_ncli (here_cpu m) = 0"
    and "lock_free PtableLk m" "lock_free lk m" "i < length (proc (ptable s))"
  shows "\<exists>s'. sleep_exit i lk intena s = Some s' \<and> lock_held lk (mach s') \<and>
    (lk \<noteq> PtableLk \<longrightarrow> lock_free PtableLk (mach s')) \<and> c_ncli (here_cpu (mach s')) = 1 \<and>
    c_intena (here_cpu (mach s')) = intena \<and> p_chan (proc (ptable s') ! i) = None"
proof -
  have wf: "wf_machine (m\<lparr>m_IF := intena\<rparr>)" using assms(2,3) by (simp add: wf_machine_def)
  then show ?thesis
    using sleep_exit_eq [OF assms(1-5), of i intena] assms pushed_cpu [OF wf]
    by (auto simp: lock_free_def)
qed

theorem sleep_returns_with_lock_witness:
  "\<exists>s'. sleep_exit 0 TicksLk True
      ((demo RUNNING (Some ChTicks) (Some 0))\<lparr>mach := acq PtableLk (mach (demo RUNNING None (Some 0)))\<rparr>) = Some s' \<and>
    lock_held TicksLk (mach s') \<and> p_chan (proc (ptable s') ! 0) = None"
  using sleep_returns_with_lock [of "(demo RUNNING (Some ChTicks) (Some 0))\<lparr>mach := acq PtableLk (mach (demo RUNNING None (Some 0)))\<rparr>"
      "mach (demo RUNNING None (Some 0))" TicksLk 0 True]
  by (auto simp: demo_proc)

text \<open>
  A process that calls \<open>sleep\<close> while it holds any lock besides \<open>lk\<close> does not
  sleep: \<open>sched\<close> panics ("sched locks").
\<close>

theorem sleep_with_second_lock_panics:
  assumes "mach s = acq lk m" "wf_machine m" "0 < c_ncli (here_cpu m)"
    and "lock_free lk m" "lock_free PtableLk m" "lk \<noteq> PtableLk"
  shows "sleep_enter ch (Some lk) s = None"
  using sleep_enter_locks [OF assms(1,2) _ assms(4-6)] assms(3) by simp

theorem sleep_with_second_lock_panics_witness:
  "sleep_enter ChTicks (Some TicksLk)
     ((demo RUNNING None (Some 0))\<lparr>mach := acq TicksLk (acq ConsLk (mach (demo RUNNING None (Some 0))))\<rparr>) = None"
  by (rule sleep_with_second_lock_panics [of _ _ "acq ConsLk (mach (demo RUNNING None (Some 0)))"])
    (use pushed_cpu(1) [of "mach (demo RUNNING None (Some 0))"] in simp_all)

text \<open>
  \<open>kill(pid)\<close> returns -1 and changes nothing when no table entry has that
  pid; otherwise it returns 0, the first such entry is marked killed and is not SLEEPING,
  and no other entry changes.
\<close>

theorem kill_marks_first:
  assumes "sched_ok s"
  shows "\<exists>r s'. kill pid s = Some (r, s') \<and>
    (case first_ix (\<lambda>p. p_pid p = pid) (proc (ptable s)) of
       None \<Rightarrow> r = -1 \<and> proc (ptable s') = proc (ptable s)
     | Some i \<Rightarrow> r = 0 \<and> p_killed (proc (ptable s') ! i) = 1 \<and> p_state (proc (ptable s') ! i) \<noteq> SLEEPING \<and>
         (\<forall>j. j \<noteq> i \<longrightarrow> proc (ptable s') ! j = proc (ptable s) ! j))"
proof -
  obtain pt' where k: "kill pid s = Some
      (if first_ix (\<lambda>p. p_pid p = pid) (proc (ptable s)) = None then -1 else 0,
       s\<lparr>mach := settle (mach s), ptable := pt'\<rparr>)"
    "proc pt' = (case first_ix (\<lambda>p. p_pid p = pid) (proc (ptable s)) of None \<Rightarrow> proc (ptable s)
      | Some i \<Rightarrow> (proc (ptable s))[i := killed (proc (ptable s) ! i)])"
    using kill_eq [OF assms] by blast
  have "p_killed (killed p) = 1" "p_state (killed p) \<noteq> SLEEPING" for p
    by (simp_all add: killed_def Let_def)
  then show ?thesis
    using k by (auto split: option.split dest: first_ix_SomeD)
qed

theorem kill_marks_first_witness:
  "\<exists>s'. kill 1 (demo SLEEPING (Some ChTicks) None) = Some (0, s') \<and>
    p_killed (proc (ptable s') ! 0) = 1 \<and> p_state (proc (ptable s') ! 0) \<noteq> SLEEPING"
  using kill_marks_first [of "demo SLEEPING (Some ChTicks) None" 1] by (auto simp: demo_proc)

text \<open>
  Property C19.  The scheduler never gets stuck and never runs a process that is not
  RUNNABLE.  From any state that satisfies its invariant every step returns and restores it
  (process table and queues well-formed; no lock between rounds, \<open>ptable.lock\<close> and nothing
  else within one).  A step that enters \<open>swtch\<close> does so for a process that was RUNNABLE,
  which is then RUNNING on this processor with its own page table and kernel stack loaded;
  any other step leaves the processes alone.
\<close>

theorem scheduler_runs_only_runnable:
  assumes "sched_inv pc s"
  shows "\<exists>pc' s'. scheduler_step pc s = Some (pc', s') \<and> sched_inv pc' s' \<and>
    (case pc' of
       SchedIn p j \<Rightarrow> p_state (proc (ptable s) ! p) = RUNNABLE \<and> on_cpu p s'
     | _ \<Rightarrow> proc (ptable s') = proc (ptable s))"
proof -
  have "\<exists>pc' s'. scheduler_step pc s = Some (pc', s') \<and> sched_inv pc' s' \<and> chosen pc' s s'"
  proof (cases pc)
    case SchedTop
    then show ?thesis using scheduler_top assms by blast
  next
    case (SchedScan i)
    then show ?thesis using scheduler_scan scheduler_round_end assms by (cases "i < NPROC") blast+
  next
    case (SchedIn p i)
    then show ?thesis using scheduler_back assms by blast
  qed
  then show ?thesis by (auto simp: chosen_def split: sched_pc.splits) blast+
qed

lemma demo_inv: "sched_inv SchedTop (demo st ch cur)"
  by (auto simp: sched_inv_def demo_rings demo_loadable queued_ok_def demo_rq idle_def)

theorem scheduler_runs_only_runnable_witness:
  "\<exists>pc' s'. sched_inv SchedTop (demo RUNNABLE None None) \<and>
    scheduler_step SchedTop (demo RUNNABLE None None) = Some (pc', s') \<and> sched_inv pc' s'"
  using scheduler_runs_only_runnable [OF demo_inv, of RUNNABLE None None] demo_inv by auto

text \<open>
  Property C18.  Progress: if some process is RUNNABLE when the scheduler starts a round,
  it is inside \<open>swtch\<close> for some process after at most 65 steps.  The table scan makes up
  for processes that are in no run queue.
\<close>

theorem scheduler_progress:
  assumes "sched_inv SchedTop s" "i < NPROC" "p_state (proc (ptable s) ! i) = RUNNABLE"
  shows "\<exists>n p k s'. n \<le> NPROC + 1 \<and> sched_steps n SchedTop s = Some (SchedIn p k, s') \<and> on_cpu p s'"
proof -
  obtain pc1 s1 where st: "scheduler_step SchedTop s = Some (pc1, s1)" "sched_inv pc1 s1" "chosen pc1 s s1"
    "pc1 = SchedScan 0 \<or> (\<exists>i. pc1 = SchedIn i 0)"
    using scheduler_top [OF assms(1)] by blast
  from st(4) show ?thesis
  proof
    assume pc1: "pc1 = SchedScan 0"
    then have "\<exists>n p k s'. n \<le> Suc (i - 0) \<and> sched_steps n (SchedScan 0) s1 = Some (SchedIn p k, s') \<and> on_cpu p s'"
      using st assms by (intro scan_finds) (auto simp: chosen_def)
    then obtain n p k s' where "n \<le> Suc i" "sched_steps n (SchedScan 0) s1 = Some (SchedIn p k, s')" "on_cpu p s'"
      by auto
    then show ?thesis using pc1 st(1) assms(2) by - (rule exI [of _ "Suc n"], auto)
  next
    assume "\<exists>i. pc1 = SchedIn i 0"
    then show ?thesis using st by - (rule exI [of _ "Suc 0"], auto simp: chosen_def)
  qed
qed

theorem scheduler_progress_witness:
  "\<exists>n p k s'. n \<le> 65 \<and> sched_steps n SchedTop (demo RUNNABLE None None) = Some (SchedIn p k, s') \<and> on_cpu p s'"
  using scheduler_progress [OF demo_inv, of 0 RUNNABLE None None] by (simp add: demo_proc)

section \<open>Priorities\<close>

lemma runsD:
  assumes "runs s c"
  shows "wf_machine (mach s)" "c_proc (here_cpu (mach s)) = Some c" "c < length (proc (ptable s))"
  using assms by (simp_all add: runs_def)

text \<open>The state \<open>prio_set\<close> leaves when it assigns \<open>prio\<close> to the entries \<open>is\<close> (at most one).\<close>

definition prio_done :: "nat \<Rightarrow> nat list \<Rightarrow> int \<Rightarrow> kernel \<Rightarrow> kernel" where
  "prio_done c is prio s = (fold (\<lambda>i. setp i (\<lambda>pr. pr\<lparr>p_fp_priority := prio\<rparr>)) is
     (setp c (\<lambda>pr. pr\<lparr>p_queueType := FP_POLICY\<rparr>) s))\<lparr>mach := settle (mach s)\<rparr>"

lemma prio_set_eq:
  assumes "runs s c" "lock_free PtableLk (mach s)" "0 \<le> prio" "prio \<le> 10"
  defines "cur \<equiv> proc (ptable s) ! c"
  shows "prio_set pid prio s =
    (if p_fp_priority cur > prio then Some (-1, prio_done c [] prio s)
     else if p_pid cur = pid then Some (0, prio_done c [c] prio s)
     else case first_ix (\<lambda>p. p_pid p = pid) (proc (ptable s)) of
       None \<Rightarrow> Some (0, prio_done c [] prio s)
     | Some i \<Rightarrow> do {
         par \<leftarrow> getp (p_parent (proc (ptable s) ! i)) s;
         if p_pid par = p_pid cur then Some (0, prio_done c [i] prio s) else Some (-1, prio_done c [] prio s)
       })"
proof -
  note r = runsD [OF assms(1)]
  let ?s = "(setp c (\<lambda>pr. pr\<lparr>p_queueType := FP_POLICY\<rparr>) s)\<lparr>mach := acq PtableLk (mach s)\<rparr>"
  have same: "p_pid (proc (ptable ?s) ! j) = p_pid (proc (ptable s) ! j)"
    "p_parent (proc (ptable ?s) ! j) = p_parent (proc (ptable s) ! j)" if "j < length (proc (ptable s))" for j
    using that by simp_all
  have fx: "first_ix (\<lambda>p. p_pid p = pid) (proc (ptable ?s)) = first_ix (\<lambda>p. p_pid p = pid) (proc (ptable s))"
    by (rule first_ix_cong_nth) simp_all
  have rel: "release PtableLk (t\<lparr>mach := acq PtableLk (mach s)\<rparr>) = Some (t\<lparr>mach := settle (mach s)\<rparr>)" for t
    using r(1) assms(2) by simp
  have my: "myproc (s\<lparr>mach := acq PtableLk (mach s)\<rparr>) = Some (Some c, s\<lparr>mach := acq PtableLk (mach s)\<rparr>)"
    using r by simp
  have par: "getp q ?s = map_option (\<lambda>p. if q = Some c then p\<lparr>p_queueType := FP_POLICY\<rparr> else p) (getp q s)" for q
    by (cases q) (auto simp: getp_def nth_opt_def)
  show ?thesis
  proof (cases "first_ix (\<lambda>p. p_pid p = pid) (proc (ptable s))")
    case None
    then show ?thesis
      using r assms(2-4) fx by (simp add: prio_set_def my rel Let_def prio_done_def cur_def del: myproc_wf)
  next
    case (Some i)
    have i: "i < length (proc (ptable s))" using first_ix_SomeD(1) [OF Some] .
    have ne: "i \<noteq> c" if "p_pid (proc (ptable s) ! c) \<noteq> pid"
      using that first_ix_SomeD(2) [OF Some] by auto
    have step: "prio_set pid prio s =
      (if p_fp_priority cur > prio then Some (-1, prio_done c [] prio s)
       else if p_pid cur = pid then Some (0, prio_done c [c] prio s)
       else do {
         par \<leftarrow> getp (p_parent (proc (ptable ?s) ! i)) ?s;
         if p_pid par = p_pid cur then Some (0, prio_done c [i] prio s) else Some (-1, prio_done c [] prio s)
       })"
      using r assms(2-4) fx Some i
      by (simp add: prio_set_def my rel Let_def prio_done_def cur_def del: myproc_wf upd_proc_nth cong: if_cong)
    show ?thesis
      unfolding step using i ne Some same(2) [OF i]
      by (cases "getp (p_parent (proc (ptable s) ! i)) s") (simp_all add: par cur_def)
  qed
qed

text \<open>Which entries have the priority written, and to what.\<close>

lemma prio_done_prio:
  assumes "j < length (proc (ptable s))" "length is \<le> 1"
  shows "p_fp_priority (proc (ptable (prio_done c is prio s)) ! j) =
    (if j \<in> set is then prio else p_fp_priority (proc (ptable s) ! j))"
proof (cases "is")
  case Nil
  then show ?thesis using assms by (simp add: prio_done_def)
next
  case (Cons i js)
  then show ?thesis using assms by (simp add: prio_done_def)
qed


text \<open>A table where process 0 (pid 1, priority 3) has the child 1 (pid 2).\<close>

definition family :: kernel where
  "family = setp 0 (\<lambda>p. p\<lparr>p_parent := Some 0\<rparr>)
     (setp 1 (\<lambda>p. p\<lparr>p_pid := 2, p_parent := Some 0, p_state := SLEEPING\<rparr>) (demo RUNNING None (Some 0)))"

lemma family_proc: "proc (ptable family) =
    proc0\<lparr>p_pid := 1, p_fp_priority := 3, p_state := RUNNING, p_chan := None, p_kstack := 0x8DFFE000,
      p_pgdir := 0x8DFFD000, p_parent := Some 0\<rparr>
    # proc0\<lparr>p_pid := 2, p_parent := Some 0, p_state := SLEEPING\<rparr> # replicate 62 proc0"
  using replicate_Suc [of 62 proc0] by (simp add: family_def upd_proc_def demo_proc)

lemma family_runs: "runs family 0" "lock_free lk (mach family)"
  by (simp_all add: runs_def family_proc) (simp_all add: family_def)

lemma family_simps [simp]:
  "wf_machine (mach family)" "lock_free lk (mach family)" "here (mach family) = 0"
  "c_ncli (m_cpus (mach family) ! 0) = 0" "c_proc (m_cpus (mach family) ! 0) = Some 0"
  by (simp_all add: family_def)

lemma family_sched_ok: "sched_ok family"
proof -
  have "wf_rings (ptable family)"
    unfolding family_def using demo_rings [of RUNNING None] by (auto intro!: wf_rings_upd_proc simp: wf_proc_def)
  moreover have "prio_ok (ptable family)" by (simp add: prio_ok_def family_proc proc0_def)
  ultimately show ?thesis by (simp add: sched_ok_def)
qed


text \<open>The table \<open>yield\<close> hands to the run queues: the caller is RUNNABLE.\<close>

abbreviation yielding :: "nat \<Rightarrow> ptable \<Rightarrow> ptable" where
  "yielding i pt \<equiv> upd_proc i (\<lambda>pr. pr\<lparr>p_state := RUNNABLE\<rparr>) pt"

lemma yield_enter_eq:
  assumes "outside (mach s) i" "lock_free PtableLk (mach s)" "i < length (proc (ptable s))"
    and "p_hfs_priority (proc (ptable s) ! i) \<le> 10"
  shows "yield_enter s =
    (if p_queueType (proc (ptable s) ! i) = FP_POLICY then do {
       (_, pt) \<leftarrow> fp_enqueue i (yielding i (ptable s));
       sched_enter (s\<lparr>ptable := pt, mach := acq PtableLk (mach s)\<rparr>)
     } else sched_enter (s\<lparr>ptable := yielding i (ptable s), mach := acq PtableLk (mach s)\<rparr>))"
proof -
  have wf: "wf_machine (mach s)" "c_proc (here_cpu (mach s)) = Some i"
    using assms(1) by (simp_all add: outside_def)
  then have my: "myproc (s\<lparr>mach := acq PtableLk (mach s)\<rparr>) = Some (Some i, s\<lparr>mach := acq PtableLk (mach s)\<rparr>)"
    by simp
  show ?thesis
    using wf assms(2-4) my
    by (cases "fp_enqueue i (yielding i (ptable s))")
      (simp_all add: yield_enter_def setp_def case_prod_beta del: myproc_wf)
qed

text \<open>
  A process of the fixed priority class that yields while its queue has room
  goes to the end of the queue of its priority and reaches the switch RUNNABLE, holding
  \<open>ptable.lock\<close> only.
\<close>

theorem yield_requeues:
  assumes "outside (mach s) i" "lock_free PtableLk (mach s)" "wf_rings (ptable s)" "i < NPROC"
    and "p_queueType (proc (ptable s) ! i) = FP_POLICY" "p_hfs_priority (proc (ptable s) ! i) \<le> 10"
    and "p_fp_priority (proc (ptable s) ! i) = int k" "k < PRIO_MAX" "\<not> rq_full k (ptable s)"
  shows "\<exists>s'. yield_enter s = Some (m_IF (mach s), s') \<and> rq k (ptable s') = rq k (ptable s) @ [PProc i] \<and>
    p_state (proc (ptable s') ! i) = RUNNABLE \<and> mach s' = acq PtableLk (mach s)"
proof -
  let ?pt = "yielding i (ptable s)"
  have wf: "wf_rings ?pt" using assms(3) by (rule wf_rings_upd_proc) (simp add: wf_proc_def)
  have "\<not> rq_full k ?pt" using assms(9) by (simp add: rq_full_def)
  then have room: "rq_room k i ?pt" using assms by (simp add: rq_room_def)
  let ?s = "s\<lparr>ptable := rq_put k (PProc i) ?pt, mach := acq PtableLk (mach s)\<rparr>"
  have "sched_enter ?s = Some (m_IF (mach s), ?s)"
    using assms by (intro sched_enter_eq [where i = i]) simp_all
  then show ?thesis
    using fp_enqueue_room [OF wf assms(8) room] rq_put_list [OF wf assms(8)] room assms
    by (simp add: yield_enter_eq rq_room_def)
qed

theorem yield_requeues_witness:
  "\<exists>s'. yield_enter (demo RUNNING None (Some 0)) = Some (False, s') \<and> rq 3 (ptable s') = [PProc 0]"
  using yield_requeues [of "demo RUNNING None (Some 0)" 0 3]
  by (auto simp: outside_def demo_rings demo_rq rq_full_def demo_proc proc0_def)

text \<open>
  Property C26.  \<open>prio_set\<close> accepts the priority \<open>PRIO_MAX\<close>, which has no queue: a process
  that sets it for itself gets 0 back, and its next \<open>yield\<close> reads \<open>htindex\<close> out of bounds.
\<close>

theorem prio_set_PRIO_MAX_breaks_yield:
  assumes "outside (mach s) c" "lock_free PtableLk (mach s)" "wf_rings (ptable s)" "c < NPROC"
    and "p_fp_priority (proc (ptable s) ! c) \<le> 10" "p_hfs_priority (proc (ptable s) ! c) \<le> 10"
    and "p_pid (proc (ptable s) ! c) = pid"
  shows "\<exists>s'. prio_set pid (int PRIO_MAX) s = Some (0, s') \<and> yield_enter s' = None"
proof -
  have runs: "runs s c" using assms by (simp add: runs_def outside_def)
  let ?s = "prio_done c [c] 10 s"
  have set: "prio_set pid 10 s = Some (0, ?s)"
    using prio_set_eq [OF runs assms(2), of 10 pid] assms by simp
  have pt: "ptable ?s = upd_proc c (\<lambda>pr. pr\<lparr>p_queueType := FP_POLICY, p_fp_priority := 10\<rparr>) (ptable s)"
    using assms(3,4) by (simp add: prio_done_def upd_proc_def)
  have "wf_ptable (yielding c (ptable ?s))"
    unfolding pt using wf_rings_ptable [OF assms(3)] by (intro wf_upd_proc) (simp_all add: wf_proc_def)
  then have "fp_enqueue c (yielding c (ptable ?s)) = None"
    using assms(3,4) by (intro fp_enqueue_bad_priority) (simp_all add: pt)
  moreover have "outside (mach ?s) c" "lock_free PtableLk (mach ?s)"
    using assms(1,2) by (simp_all add: prio_done_def outside_def)
  ultimately have "yield_enter ?s = None"
    using assms(3,4,6) yield_enter_eq [of ?s c] by (simp add: pt)
  then show ?thesis using set by simp
qed

theorem prio_set_PRIO_MAX_breaks_yield_witness:
  "\<exists>s'. prio_set 1 10 (demo RUNNING None (Some 0)) = Some (0, s') \<and> yield_enter s' = None"
  using prio_set_PRIO_MAX_breaks_yield [of "demo RUNNING None (Some 0)" 0 1]
  by (auto simp: outside_def demo_rings demo_proc proc0_def)

text \<open>
  The demotion of a half-fair process never happens: its priority stays at
  most \<open>PRIO_MAX\<close>, so the guard \<open>hfs_priority > PRIO_MAX\<close> of \<open>yield\<close> is false, and the
  process yields with its priority and all run queues unchanged.
\<close>

theorem yield_hfs_never_demotes:
  assumes "outside (mach s) i" "lock_free PtableLk (mach s)" "i < length (proc (ptable s))"
    and "p_queueType (proc (ptable s) ! i) = HFS_POLICY" "p_hfs_priority (proc (ptable s) ! i) \<le> 10"
  shows "\<exists>s'. yield_enter s = Some (m_IF (mach s), s') \<and> pqueues (ptable s') = pqueues (ptable s) \<and>
    htindex (ptable s') = htindex (ptable s) \<and>
    p_hfs_priority (proc (ptable s') ! i) = p_hfs_priority (proc (ptable s) ! i)"
proof -
  let ?s = "s\<lparr>ptable := yielding i (ptable s), mach := acq PtableLk (mach s)\<rparr>"
  have "sched_enter ?s = Some (m_IF (mach s), ?s)"
    using assms by (intro sched_enter_eq [where i = i]) simp_all
  then show ?thesis using assms by (simp add: yield_enter_eq)
qed

theorem yield_hfs_never_demotes_witness:
  "\<exists>s'. yield_enter (setp 0 (\<lambda>p. p\<lparr>p_queueType := HFS_POLICY, p_hfs_priority := 4\<rparr>) (demo RUNNING None (Some 0))) =
      Some (False, s') \<and> p_hfs_priority (proc (ptable s') ! 0) = 4"
  using yield_hfs_never_demotes [of "setp 0 (\<lambda>p. p\<lparr>p_queueType := HFS_POLICY, p_hfs_priority := 4\<rparr>)
      (demo RUNNING None (Some 0))" 0]
  by (auto simp: outside_def demo_rings demo_proc)

end
