(* ===== verification/Vm.thy ===== *)
theory Vm
  imports Kalloc Sched
begin

text \<open>
  Page tables (\<open>vm.c\<close> up to \<open>copyout\<close>, and \<open>is_shm\<close>, \<open>shm_index\<close>).

  A page table is what the hardware walks: the page \<open>pgdir\<close> holds 1024 directory entries,
  each present one points to a page of 1024 page table entries.  A \<open>pte_t *\<close> is the pair of
  a page and an index, \<open>None\<close> for the null pointer.
\<close>

section \<open>Entries and indices\<close>

abbreviation (input) PTE_P :: uint where "PTE_P \<equiv> 1"
abbreviation (input) PTE_W :: uint where "PTE_W \<equiv> 2"
abbreviation (input) PTE_U :: uint where "PTE_U \<equiv> 4"
abbreviation (input) NPDENTRIES :: nat where "NPDENTRIES \<equiv> 1024"
abbreviation (input) NPTENTRIES :: nat where "NPTENTRIES \<equiv> 1024"

definition PDX :: "uint \<Rightarrow> nat" where
  "PDX va = unat (drop_bit 22 va AND 0x3FF)"

definition PTX :: "uint \<Rightarrow> nat" where
  "PTX va = unat (drop_bit 12 va AND 0x3FF)"

definition PGADDR :: "uint \<Rightarrow> uint \<Rightarrow> uint \<Rightarrow> uint" where
  "PGADDR d t off = push_bit 22 d OR push_bit 12 t OR off"

definition PTE_ADDR :: "uint \<Rightarrow> uint" where
  "PTE_ADDR pte = pte AND NOT 0xFFF"

definition PTE_FLAGS :: "uint \<Rightarrow> uint" where
  "PTE_FLAGS pte = pte AND 0xFFF"

type_synonym ptep = "uint \<times> nat"

definition get_pte :: "ptep \<Rightarrow> kernel \<Rightarrow> uint" where
  "get_pte p s = mem s (fst p) (snd p)"

definition set_pte :: "ptep \<Rightarrow> uint \<Rightarrow> kernel \<Rightarrow> kernel" where
  "set_pte p v s = set_word (fst p) (snd p) v s"

section \<open>Operations\<close>

definition walkpgdir :: "uint \<Rightarrow> uint \<Rightarrow> bool \<Rightarrow> kernel \<Rightarrow> (ptep option \<times> kernel) option" where
  "walkpgdir pgdir va alloc s = do {
     let pde = mem s pgdir (PDX va);
     if pde AND PTE_P \<noteq> 0 then Some (Some (P2V (PTE_ADDR pde), PTX va), s)
     else if \<not> alloc then Some (None, s)
     else do {
       (pgtab, s) \<leftarrow> kalloc s;
       if pgtab = 0 then Some (None, s)
       else do {
         let s = memset_page pgtab 0 s;
         let s = set_word pgdir (PDX va) (V2P pgtab OR PTE_P OR PTE_W OR PTE_U) s;
         Some (Some (pgtab, PTX va), s)
       }
     }
   }"

partial_function (option) mappages_loop ::
  "uint \<Rightarrow> uint \<Rightarrow> uint \<Rightarrow> uint \<Rightarrow> uint \<Rightarrow> kernel \<Rightarrow> (int \<times> kernel) option" where
  "mappages_loop pgdir a lst pa perm s = do {
     (pte, s) \<leftarrow> walkpgdir pgdir a True s;
     case pte of
       None \<Rightarrow> Some (-1, s)
     | Some pte \<Rightarrow>
         if get_pte pte s AND PTE_P \<noteq> 0 then None
         else do {
           let s = set_pte pte (pa OR perm OR PTE_P) s;
           if a = lst then Some (0, s)
           else mappages_loop pgdir (a + PGSIZE) lst (pa + PGSIZE) perm s
         }
   }"

definition mappages :: "uint \<Rightarrow> uint \<Rightarrow> uint \<Rightarrow> uint \<Rightarrow> uint \<Rightarrow> kernel \<Rightarrow> (int \<times> kernel) option" where
  "mappages pgdir va n pa perm s =
     mappages_loop pgdir (PGROUNDDOWN va) (PGROUNDDOWN (va + n - 1)) pa perm s"

partial_function (option) deallocuvm_loop :: "uint \<Rightarrow> uint \<Rightarrow> uint \<Rightarrow> kernel \<Rightarrow> kernel option" where
  "deallocuvm_loop pgdir a oldsz s =
     (if a < oldsz then do {
        (pte, s) \<leftarrow> walkpgdir pgdir a False s;
        case pte of
          None \<Rightarrow> deallocuvm_loop pgdir (PGADDR (of_nat (PDX a) + 1) 0 0 - PGSIZE + PGSIZE) oldsz s
        | Some pte \<Rightarrow>
            if get_pte pte s AND PTE_P \<noteq> 0 then do {
              let pa = PTE_ADDR (get_pte pte s);
              if pa = 0 then None
              else do {
                s \<leftarrow> kfree (P2V pa) s;
                deallocuvm_loop pgdir (a + PGSIZE) oldsz (set_pte pte 0 s)
              }
            } else deallocuvm_loop pgdir (a + PGSIZE) oldsz s
      } else Some s)"

definition deallocuvm :: "uint \<Rightarrow> uint \<Rightarrow> uint \<Rightarrow> kernel \<Rightarrow> (uint \<times> kernel) option" where
  "deallocuvm pgdir oldsz newsz s =
     (if newsz \<ge> oldsz then Some (oldsz, s)
      else do {
        s \<leftarrow> deallocuvm_loop pgdir (PGROUNDUP newsz) oldsz s;
        Some (newsz, s)
      })"

definition freevm :: "uint \<Rightarrow> kernel \<Rightarrow> kernel option" where
  "freevm pgdir s =
     (if pgdir = 0 then None
      else do {
        (_, s) \<leftarrow> deallocuvm pgdir KERNBASE 0 s;
        s \<leftarrow> for_from NPDENTRIES 0 (\<lambda>i s.
          if mem s pgdir i AND PTE_P \<noteq> 0 then kfree (P2V (PTE_ADDR (mem s pgdir i))) s else Some s) s;
        kfree pgdir s
      })"

text \<open>The rows of \<open>kmap\<close>: virtual address, physical start and end, permissions.\<close>

definition kmap :: "linksyms \<Rightarrow> (uint \<times> uint \<times> uint \<times> uint) list" where
  "kmap l = [
     (KERNBASE, 0, EXTMEM, PTE_W),
     (KERNBASE + EXTMEM, V2P (KERNBASE + EXTMEM), V2P (ls_data l), 0),
     (ls_data l, V2P (ls_data l), PHYSTOP, PTE_W),
     (DEVSPACE, DEVSPACE, 0, PTE_W)]"

fun setupkvm_loop :: "uint \<Rightarrow> (uint \<times> uint \<times> uint \<times> uint) list \<Rightarrow> kernel \<Rightarrow> (uint \<times> kernel) option" where
  "setupkvm_loop pgdir [] s = Some (pgdir, s)"
| "setupkvm_loop pgdir ((virt, phys_start, phys_end, perm) # ks) s = do {
     (r, s) \<leftarrow> mappages pgdir virt (phys_end - phys_start) phys_start perm s;
     if r < 0 then do {
       s \<leftarrow> freevm pgdir s;
       Some (0, s)
     } else setupkvm_loop pgdir ks s
   }"

definition setupkvm :: "kernel \<Rightarrow> (uint \<times> kernel) option" where
  "setupkvm s = do {
     (pgdir, s) \<leftarrow> kalloc s;
     if pgdir = 0 then Some (0, s)
     else do {
       let s = memset_page pgdir 0 s;
       if P2V PHYSTOP > DEVSPACE then None
       else setupkvm_loop pgdir (kmap (link s)) s
     }
   }"

definition kvmalloc :: "kernel \<Rightarrow> kernel option" where
  "kvmalloc s = do {
     (pgdir, s) \<leftarrow> setupkvm s;
     Some (switchkvm (s\<lparr>kpgdir := pgdir\<rparr>))
   }"

section \<open>Bytes\<close>

text \<open>Byte \<open>off\<close> of the page \<open>pg\<close>: the machine is little-endian.\<close>

definition get_byte :: "uint \<Rightarrow> nat \<Rightarrow> kernel \<Rightarrow> 8 word" where
  "get_byte pg off s = ucast (drop_bit (8 * (off mod 4)) (mem s pg (off div 4)))"

definition set_byte :: "uint \<Rightarrow> nat \<Rightarrow> 8 word \<Rightarrow> kernel \<Rightarrow> kernel" where
  "set_byte pg off b s = set_word pg (off div 4)
     ((mem s pg (off div 4) AND NOT (push_bit (8 * (off mod 4)) 0xFF)) OR push_bit (8 * (off mod 4)) (ucast b)) s"

text \<open>\<open>memmove(pg + off, bs, length bs)\<close> from a kernel buffer to a page.\<close>

primrec put_bytes :: "uint \<Rightarrow> nat \<Rightarrow> 8 word list \<Rightarrow> kernel \<Rightarrow> kernel" where
  "put_bytes pg off [] s = s"
| "put_bytes pg off (b # bs) s = put_bytes pg (Suc off) bs (set_byte pg off b s)"

definition inituvm :: "uint \<Rightarrow> 8 word list \<Rightarrow> kernel \<Rightarrow> kernel option" where
  "inituvm pgdir init s =
     (if length init \<ge> 4096 then None
      else do {
        (pg, s) \<leftarrow> kalloc s;
        if pg = 0 then None
        else do {
          let s = memset_page pg 0 s;
          (_, s) \<leftarrow> mappages pgdir 0 PGSIZE (V2P pg) (PTE_W OR PTE_U) s;
          Some (put_bytes pg 0 init s)
        }
      })"

section \<open>User memory\<close>

text \<open>The messages \<open>cprintf\<close> prints on failure are not modelled.\<close>

partial_function (option) allocuvm_loop ::
  "uint \<Rightarrow> uint \<Rightarrow> uint \<Rightarrow> uint \<Rightarrow> kernel \<Rightarrow> (uint \<times> kernel) option" where
  "allocuvm_loop pgdir a oldsz newsz s =
     (if a < newsz then do {
        (pg, s) \<leftarrow> kalloc s;
        if pg = 0 then do {
          (_, s) \<leftarrow> deallocuvm pgdir newsz oldsz s;
          Some (0, s)
        } else do {
          let s = memset_page pg 0 s;
          (r, s) \<leftarrow> mappages pgdir a PGSIZE (V2P pg) (PTE_W OR PTE_U) s;
          if r < 0 then do {
            (_, s) \<leftarrow> deallocuvm pgdir newsz oldsz s;
            s \<leftarrow> kfree pg s;
            Some (0, s)
          } else allocuvm_loop pgdir (a + PGSIZE) oldsz newsz s
        }
      } else Some (newsz, s))"

definition allocuvm :: "uint \<Rightarrow> uint \<Rightarrow> uint \<Rightarrow> kernel \<Rightarrow> (uint \<times> kernel) option" where
  "allocuvm pgdir oldsz newsz s =
     (if newsz \<ge> KERNBASE then Some (0, s)
      else if newsz < oldsz then Some (oldsz, s)
      else allocuvm_loop pgdir (PGROUNDUP oldsz) oldsz newsz s)"

definition clearpteu :: "uint \<Rightarrow> uint \<Rightarrow> kernel \<Rightarrow> kernel option" where
  "clearpteu pgdir uva s = do {
     (pte, s) \<leftarrow> walkpgdir pgdir uva False s;
     pte \<leftarrow> pte;
     Some (set_pte pte (get_pte pte s AND NOT PTE_U) s)
   }"

definition is_shm :: "uint \<Rightarrow> kernel \<Rightarrow> uint" where
  "is_shm pa s = (if first_ix (\<lambda>b. sb_pa b = pa) (shm_mems (shared_memory s)) = None then 0 else pa)"

definition shm_index :: "uint \<Rightarrow> kernel \<Rightarrow> nat" where
  "shm_index pa s =
     (case first_ix (\<lambda>b. sb_pa b = pa) (shm_mems (shared_memory s)) of Some i \<Rightarrow> i | None \<Rightarrow> 0)"

definition upd_shm :: "nat \<Rightarrow> (shm_block \<Rightarrow> shm_block) \<Rightarrow> kernel \<Rightarrow> kernel" where
  "upd_shm i f s = s\<lparr>shared_memory := (shared_memory s)\<lparr>shm_mems :=
     (shm_mems (shared_memory s))[i := f (shm_mems (shared_memory s) ! i)]\<rparr>\<rparr>"

partial_function (option) copyuvm_loop :: "uint \<Rightarrow> uint \<Rightarrow> uint \<Rightarrow> uint \<Rightarrow> kernel \<Rightarrow> (uint \<times> kernel) option" where
  "copyuvm_loop d pgdir i sz s =
     (if i < sz then do {
        (pte, s) \<leftarrow> walkpgdir pgdir i False s;
        pte \<leftarrow> pte;
        if get_pte pte s AND PTE_P = 0 then copyuvm_loop d pgdir (i + PGSIZE) sz s
        else do {
          let pa = PTE_ADDR (get_pte pte s);
          let flags = PTE_FLAGS (get_pte pte s);
          if is_shm pa s = pa then do {
            let index = shm_index pa s;
            (r, s) \<leftarrow> mappages d i PGSIZE pa flags s;
            if r < 0 then do { s \<leftarrow> freevm d s; Some (0, s) }
            else copyuvm_loop d pgdir (i + PGSIZE) sz (upd_shm index (\<lambda>b. b\<lparr>sb_ref := sb_ref b + 1\<rparr>) s)
          } else do {
            (pg, s) \<leftarrow> kalloc s;
            if pg = 0 then do { s \<leftarrow> freevm d s; Some (0, s) }
            else do {
              let s = memmove_page pg (P2V pa) s;
              (r, s) \<leftarrow> mappages d i PGSIZE (V2P pg) flags s;
              if r < 0 then do { s \<leftarrow> freevm d s; Some (0, s) }
              else copyuvm_loop d pgdir (i + PGSIZE) sz s
            }
          }
        }
      } else Some (d, s))"

definition copyuvm :: "uint \<Rightarrow> uint \<Rightarrow> kernel \<Rightarrow> (uint \<times> kernel) option" where
  "copyuvm pgdir sz s = do {
     (d, s) \<leftarrow> setupkvm s;
     if d = 0 then Some (0, s) else copyuvm_loop d pgdir 0 sz s
   }"

definition uva2ka :: "uint \<Rightarrow> uint \<Rightarrow> kernel \<Rightarrow> (uint \<times> kernel) option" where
  "uva2ka pgdir uva s = do {
     (pte, s) \<leftarrow> walkpgdir pgdir uva False s;
     pte \<leftarrow> pte;
     if get_pte pte s AND PTE_P = 0 then Some (0, s)
     else if get_pte pte s AND PTE_U = 0 then Some (0, s)
     else Some (P2V (PTE_ADDR (get_pte pte s)), s)
   }"

text \<open>\<open>buf\<close> is the list of the \<open>len\<close> bytes at \<open>p\<close>.\<close>

partial_function (option) copyout :: "uint \<Rightarrow> uint \<Rightarrow> 8 word list \<Rightarrow> kernel \<Rightarrow> (int \<times> kernel) option" where
  "copyout pgdir va buf s =
     (if buf \<noteq> [] then do {
        let va0 = PGROUNDDOWN va;
        (pa0, s) \<leftarrow> uva2ka pgdir va0 s;
        if pa0 = 0 then Some (-1, s)
        else do {
          let n = unat (PGSIZE - (va - va0));
          let n = (if n > length buf then length buf else n);
          let s = put_bytes pa0 (unat (va - va0)) (take n buf) s;
          copyout pgdir (va0 + PGSIZE) (drop n buf) s
        }
      } else Some (0, s))"

definition copy_page_table :: "uint \<Rightarrow> uint \<Rightarrow> kernel \<Rightarrow> (int \<times> kernel) option" where
  "copy_page_table src dest s = do {
     (r, s) \<leftarrow> for_ret NPDENTRIES 0 (\<lambda>i s.
       if mem s src i AND PTE_P \<noteq> 0 then do {
         let src_pte = P2V (PTE_ADDR (mem s src i));
         (dest_pte, s) \<leftarrow> kalloc s;
         if dest_pte = 0 then Some (Some (-1), s)
         else do {
           let s = set_word dest i (V2P dest_pte OR PTE_FLAGS (mem s src i)) s;
           for_ret NPTENTRIES 0 (\<lambda>j s.
             if mem s src_pte j AND PTE_P \<noteq> 0 then do {
               (pg, s) \<leftarrow> kalloc s;
               if pg = 0 then Some (Some (-1), s)
               else do {
                 let s = memmove_page pg (P2V (PTE_ADDR (mem s src_pte j))) s;
                 Some (None, set_word dest_pte j (V2P pg OR PTE_FLAGS (mem s src_pte j)) s)
               }
             } else Some (None, s)) s
         }
       } else Some (None, s)) s;
     Some (case r of Some r \<Rightarrow> r | None \<Rightarrow> 0, s)
   }"

end
