(* ===== verification/PageTable.thy ===== *)
theory PageTable
  imports Vm "HOL-Library.Sublist"
begin

text \<open>
  What a page table stands for.  \<open>pte_at s pgdir va\<close> is the entry a walk finds for \<open>va\<close>, 0
  when there is none; \<open>vm_inv\<close> keeps the pages of a table apart from each other, from the
  free list and from the memory in use for other purposes; \<open>vm_frame\<close> says what operations
  on a table leave alone.  Filling in entries one by one is the interface \<open>entry_table\<close>,
  which the rounds of \<open>mappages\<close> provide.
\<close>

section \<open>Words\<close>

lemma mask_word_numerals: "(0x3FF::uint) = mask 10" "(0xFFF::uint) = mask 12"
  by (simp_all add: mask_eq_exp_minus_1)

lemma PDX_unat: "PDX va = unat va div 2 ^ 22"
proof -
  have "unat va < 2 ^ 32" using unsigned_less [of va] by simp
  then have "unat va div 2 ^ 22 < 1024" by (simp add: div_less_iff_less_mult)
  then have "take_bit 10 (unat va div 2 ^ 22) = unat va div 2 ^ 22" by (simp add: take_bit_eq_mod)
  then show ?thesis
    unfolding PDX_def mask_word_numerals take_bit_eq_mask [symmetric] unsigned_take_bit_eq unat_drop_bit_eq
    unfolding drop_bit_eq_div .
qed

lemma PTX_unat: "PTX va = unat va div 4096 mod 1024"
  unfolding PTX_def mask_word_numerals take_bit_eq_mask [symmetric] unsigned_take_bit_eq unat_drop_bit_eq
  unfolding drop_bit_eq_div take_bit_eq_mod by simp

lemma PDX_less [simp]: "PDX va < 1024"
proof -
  have "unat va < 2 ^ 32" using unsigned_less [of va] by simp
  then show ?thesis by (simp add: PDX_unat div_less_iff_less_mult)
qed

lemma PTX_less [simp]: "PTX va < 1024"
  by (simp add: PTX_unat)

text \<open>The page of an address, as a number.\<close>

definition vpn :: "uint \<Rightarrow> nat" where
  "vpn va = unat va div 4096"

lemma vpn_split: "vpn va = PDX va * 1024 + PTX va"
proof -
  have "unat va div 2 ^ 22 = vpn va div 1024" by (simp add: vpn_def div_mult2_eq [symmetric])
  then show ?thesis by (simp add: PDX_unat PTX_unat vpn_def)
qed

lemma vpn_eq_iff: "vpn va = vpn va' \<longleftrightarrow> PDX va = PDX va' \<and> PTX va = PTX va'"
proof
  assume "vpn va = vpn va'"
  moreover have "unat a div 2 ^ 22 = vpn a div 1024" for a :: uint by (simp add: vpn_def div_mult2_eq [symmetric])
  ultimately show "PDX va = PDX va' \<and> PTX va = PTX va'" by (simp add: PDX_unat PTX_unat vpn_def)
qed (simp add: vpn_split)

lemma present_or [simp]: "(x OR 1) AND 1 = (1::uint)" "(1 OR x) AND 1 = (1::uint)"
  by (rule bit_eqI; auto simp: bit_simps)+

text \<open>An aligned address combined with flag bits can be taken apart again.\<close>

lemma aligned_low_bits: "(a::uint) mod 4096 = 0 \<longleftrightarrow> a AND 0xFFF = 0"
  unfolding mask_word_numerals by (simp add: take_bit_eq_mask [symmetric] take_bit_eq_mod)

lemma low_bit_zero:
  assumes "a AND (0xFFF::uint) = 0" "n < 12"
  shows "\<not> bit a n"
proof
  assume "bit a n"
  then have "bit (a AND 0xFFF) n"
    unfolding mask_word_numerals using assms(2) by (simp add: bit_simps)
  then show False using assms(1) by simp
qed

lemma PTE_ADDR_or:
  assumes "a mod 4096 = 0" "f AND NOT 0xFFF = (0::uint)"
  shows "PTE_ADDR (a OR f) = a" "PTE_FLAGS (a OR f) = f"
proof -
  have a: "a AND 0xFFF = 0" using assms(1) by (simp add: aligned_low_bits)
  have f: "bit f n \<longrightarrow> n < 12" for n
  proof
    assume b: "bit f n"
    have "\<not> bit (f AND NOT (mask 12)) n" using assms(2) unfolding mask_word_numerals by simp
    then show "n < 12" using b by (auto simp: bit_simps dest: bit_imp_le_length)
  qed
  show "PTE_ADDR (a OR f) = a"
    unfolding PTE_ADDR_def mask_word_numerals using f low_bit_zero [OF a]
    by (intro bit_eqI) (auto simp: bit_simps dest: bit_imp_le_length)
  show "PTE_FLAGS (a OR f) = f"
    unfolding PTE_FLAGS_def mask_word_numerals using f low_bit_zero [OF a]
    by (intro bit_eqI) (auto simp: bit_simps dest: bit_imp_le_length)
qed

lemma P2V_V2P [simp]: "P2V (V2P a) = a" "V2P (P2V a) = a"
  by (simp_all add: P2V_def V2P_def)

lemma add_mod_page: "b mod 4096 = 0 \<Longrightarrow> ((a::uint) + b) mod 4096 = a mod 4096"
proof -
  assume b: "b mod 4096 = 0"
  have "unat ((a + b) mod 4096) = (unat a + unat b) mod 2 ^ 32 mod 4096"
    by (simp add: unat_mod_distrib unat_word_ariths)
  also have "\<dots> = (unat a + unat b) mod 4096" by (rule mod_mod_cancel) simp
  also have "\<dots> = unat a mod 4096" using b unfolding unat_mod_page by (simp add: mod_add_right_eq [symmetric])
  also have "\<dots> = unat (a mod 4096)" by (simp add: unat_mod_distrib)
  finally show ?thesis by (simp add: word_eq_iff_unsigned [where ?'a = nat])
qed

lemma sub_mod_page: "b mod 4096 = 0 \<Longrightarrow> ((a::uint) - b) mod 4096 = a mod 4096"
  using add_mod_page [of b "a - b"] by simp

lemma V2P_mod [simp]: "V2P v mod 4096 = v mod 4096"
  unfolding V2P_def by (rule sub_mod_page) simp

lemma P2V_mod [simp]: "P2V v mod 4096 = v mod 4096"
  unfolding P2V_def by (rule add_mod_page) simp

lemma PTE_ADDR_mod [simp]: "PTE_ADDR pte mod 4096 = 0"
proof -
  have "PTE_ADDR pte AND 0xFFF = 0"
    unfolding PTE_ADDR_def mask_word_numerals by (rule bit_eqI) (auto simp: bit_simps)
  then show ?thesis by (simp add: aligned_low_bits)
qed

section \<open>The function a page table stands for\<close>

abbreviation present :: "uint \<Rightarrow> bool" where
  "present e \<equiv> e AND 1 \<noteq> 0"

definition ptab :: "kernel \<Rightarrow> uint \<Rightarrow> nat \<Rightarrow> uint" where
  "ptab s pgdir i = P2V (PTE_ADDR (mem s pgdir i))"

definition pte_at :: "kernel \<Rightarrow> uint \<Rightarrow> uint \<Rightarrow> uint" where
  "pte_at s pgdir va =
     (if present (mem s pgdir (PDX va)) then mem s (ptab s pgdir (PDX va)) (PTX va) else 0)"

text \<open>
  The pages of the table at \<open>pgdir\<close> are different from each other and lie outside \<open>X\<close>.
\<close>

definition pt_ok :: "kernel \<Rightarrow> uint \<Rightarrow> uint set \<Rightarrow> bool" where
  "pt_ok s pgdir X \<longleftrightarrow> pgdir \<notin> X \<and>
     (\<forall>i < 1024. present (mem s pgdir i) \<longrightarrow> ptab s pgdir i \<notin> X \<and> ptab s pgdir i \<noteq> pgdir \<and>
        (\<forall>j < 1024. j \<noteq> i \<longrightarrow> present (mem s pgdir j) \<longrightarrow> ptab s pgdir j \<noteq> ptab s pgdir i))"

text \<open>
  \<open>vm_inv pgdir D s fl\<close>: \<open>fl\<close> is the free list, the pages \<open>D\<close> are in use for something
  else, and the pages of the table \<open>pgdir\<close> are neither free nor in \<open>D\<close>.
\<close>

definition vm_inv :: "uint \<Rightarrow> uint set \<Rightarrow> kernel \<Rightarrow> uint list \<Rightarrow> bool" where
  "vm_inv pgdir D s fl \<longleftrightarrow> kmem_ok s fl \<and> pt_ok s pgdir (set fl \<union> D) \<and> set fl \<inter> D = {}"

text \<open>
  What an operation on page tables may change besides the tables: memory outside \<open>D\<close>, the
  free list, and the interrupt bookkeeping that the allocator's lock leaves behind.
\<close>

definition vm_frame :: "uint set \<Rightarrow> kernel \<Rightarrow> kernel \<Rightarrow> bool" where
  "vm_frame D s s' \<longleftrightarrow> s' = s\<lparr>mem := mem s', kmem := kmem s', mach := mach s'\<rparr> \<and>
     (mach s' = mach s \<or> mach s' = settle (mach s)) \<and> km_use_lock (kmem s') = km_use_lock (kmem s) \<and>
     (\<forall>w \<in> D. mem s' w = mem s w)"

lemma vm_frame_refl [simp]: "vm_frame D s s"
  by (simp add: vm_frame_def)

lemma vm_frame_trans [trans]:
  assumes "vm_frame D s s'" "vm_frame D s' s''"
  shows "vm_frame D s s''"
proof -
  have e: "s'' = s'\<lparr>mem := mem s'', kmem := kmem s'', mach := mach s''\<rparr>"
    and e': "s' = s\<lparr>mem := mem s', kmem := kmem s', mach := mach s'\<rparr>"
    using assms by (simp_all add: vm_frame_def)
  have "s'\<lparr>mem := a, kmem := b, mach := c\<rparr> = s\<lparr>mem := a, kmem := b, mach := c\<rparr>" for a b c
    by (subst e') simp
  then have "s'' = s\<lparr>mem := mem s'', kmem := kmem s'', mach := mach s''\<rparr>" using e by simp
  then show ?thesis using assms by (auto simp: vm_frame_def)
qed

lemma vm_frameI:
  assumes "s' = s\<lparr>mem := m, kmem := k, mach := h\<rparr>" "h = mach s \<or> h = settle (mach s)"
    and "km_use_lock k = km_use_lock (kmem s)" "\<And>w. w \<in> D \<Longrightarrow> m w = mem s w"
  shows "vm_frame D s s'"
  using assms by (simp add: vm_frame_def)

lemma vm_frame_fields:
  assumes "vm_frame D s s'"
  shows "link s' = link s" "kpgdir s' = kpgdir s" "ptable s' = ptable s" "nextpid s' = nextpid s"
    "initproc s' = initproc s" "namespace_id s' = namespace_id s" "mutex_table s' = mutex_table s"
    "shared_memory s' = shared_memory s" "ticks s' = ticks s" "m_locks (mach s') = m_locks (mach s)"
    "wf_machine (mach s') = wf_machine (mach s)" "here (mach s') = here (mach s)"
    "m_IF (mach s') = m_IF (mach s)" "m_cr3 (mach s') = m_cr3 (mach s)"
proof -
  have e: "s' = s\<lparr>mem := mem s', kmem := kmem s', mach := mach s'\<rparr>" using assms by (simp add: vm_frame_def)
  have "mach s' = mach s \<or> mach s' = settle (mach s)" using assms by (simp add: vm_frame_def)
  then show "m_locks (mach s') = m_locks (mach s)" "wf_machine (mach s') = wf_machine (mach s)"
    "here (mach s') = here (mach s)" "m_IF (mach s') = m_IF (mach s)" "m_cr3 (mach s') = m_cr3 (mach s)" by auto
  show "link s' = link s" "kpgdir s' = kpgdir s" "ptable s' = ptable s" "nextpid s' = nextpid s"
    "initproc s' = initproc s" "namespace_id s' = namespace_id s" "mutex_table s' = mutex_table s"
    "shared_memory s' = shared_memory s" "ticks s' = ticks s" by (subst e, simp)+
qed

lemma vm_invD:
  assumes "vm_inv pgdir D s fl"
  shows "kmem_ok s fl" "pt_ok s pgdir (set fl \<union> D)" "set fl \<inter> D = {}" "pgdir \<notin> set fl" "pgdir \<notin> D"
  using assms by (auto simp: vm_inv_def pt_ok_def)

lemma pt_okD:
  assumes "pt_ok s pgdir X" "i < 1024" "present (mem s pgdir i)"
  shows "ptab s pgdir i \<notin> X" "ptab s pgdir i \<noteq> pgdir"
    "\<And>j. j < 1024 \<Longrightarrow> j \<noteq> i \<Longrightarrow> present (mem s pgdir j) \<Longrightarrow> ptab s pgdir j \<noteq> ptab s pgdir i"
  using assms by (auto simp: pt_ok_def)

lemma pt_ok_mono: "pt_ok s pgdir X \<Longrightarrow> Y \<subseteq> X \<Longrightarrow> pt_ok s pgdir Y"
  by (auto simp: pt_ok_def)

text \<open>Where the entry for \<open>va\<close> is.\<close>

definition pte_loc :: "kernel \<Rightarrow> uint \<Rightarrow> uint \<Rightarrow> ptep" where
  "pte_loc s pgdir va = (ptab s pgdir (PDX va), PTX va)"

lemma get_pte_loc: "present (mem s pgdir (PDX va)) \<Longrightarrow> get_pte (pte_loc s pgdir va) s = pte_at s pgdir va"
  by (simp add: get_pte_def pte_loc_def pte_at_def)

lemma walk_noalloc:
  "walkpgdir pgdir va False s =
     Some (if present (mem s pgdir (PDX va)) then Some (pte_loc s pgdir va) else None, s)"
  by (simp add: walkpgdir_def pte_loc_def ptab_def)

section \<open>Writing an entry\<close>

lemma mem_set_pte [simp]: "mem (set_pte p v s) = (mem s)(fst p := (mem s (fst p))(snd p := v))"
  by (simp add: set_pte_def set_word_def)

lemma set_pte_frame: "fst p \<notin> D \<Longrightarrow> vm_frame D s (set_pte p v s)"
  by (rule vm_frameI [where m = "mem (set_pte p v s)" and k = "kmem s" and h = "mach s"])
    (auto simp: set_pte_def set_word_def)

lemma set_pte_inv:
  assumes "vm_inv pgdir D s fl" "present (mem s pgdir (PDX va))"
  shows "vm_inv pgdir D (set_pte (pte_loc s pgdir va) v s) fl"
    and "vm_frame D s (set_pte (pte_loc s pgdir va) v s)"
    and "pte_at (set_pte (pte_loc s pgdir va) v s) pgdir va' =
           (if vpn va' = vpn va then v else pte_at s pgdir va')"
proof -
  let ?t = "ptab s pgdir (PDX va)" and ?s = "set_pte (pte_loc s pgdir va) v s"
  note inv = vm_invD [OF assms(1)]
  note p = pt_okD [OF inv(2) PDX_less assms(2)]
  have dir: "mem ?s pgdir = mem s pgdir" using p(2) by (simp add: pte_loc_def)
  then have tab: "ptab ?s pgdir i = ptab s pgdir i" for i by (simp add: ptab_def)
  have "pt_ok ?s pgdir (set fl \<union> D)" using inv(2) by (simp add: pt_ok_def dir tab del: mem_set_pte)
  moreover have "kmem_ok ?s fl"
    using inv(1) p(1) by (simp add: kmem_ok_def pte_loc_def run_list_upd) (simp add: set_pte_def set_word_def)
  ultimately show "vm_inv pgdir D ?s fl" using inv(3) by (simp add: vm_inv_def)
  show "vm_frame D s ?s" using p(1) by (intro set_pte_frame) (simp add: pte_loc_def)
  show "pte_at ?s pgdir va' = (if vpn va' = vpn va then v else pte_at s pgdir va')"
  proof (cases "PDX va' = PDX va")
    case True
    then have "pte_at ?s pgdir va' = (if PTX va' = PTX va then v else mem s ?t (PTX va'))"
      using assms(2) unfolding pte_at_def dir tab by (simp add: pte_loc_def)
    then show ?thesis using True assms(2) by (simp add: vpn_eq_iff pte_at_def)
  next
    case False
    then have "mem ?s (ptab s pgdir (PDX va')) = mem s (ptab s pgdir (PDX va'))" if "present (mem s pgdir (PDX va'))"
      using p(3) [of "PDX va'"] that by (simp add: pte_loc_def)
    then have "pte_at ?s pgdir va' = pte_at s pgdir va'"
      unfolding pte_at_def dir tab by simp
    then show ?thesis using False by (simp add: vpn_eq_iff)
  qed
qed

section \<open>Walking with allocation\<close>

text \<open>The directory entry \<open>walkpgdir\<close> makes for a new page table.\<close>

abbreviation new_pde :: "uint \<Rightarrow> uint" where
  "new_pde v \<equiv> V2P v OR 1 OR 2 OR 4"

lemma new_pde:
  assumes "v mod 4096 = 0"
  shows "present (new_pde v)" "P2V (PTE_ADDR (new_pde v)) = v"
proof -
  have "V2P v OR 1 OR 2 OR 4 = V2P v OR (7::uint)" by (simp add: or.assoc)
  moreover have "PTE_ADDR (V2P v OR 7) = V2P v" using assms by (intro PTE_ADDR_or) simp_all
  ultimately show "P2V (PTE_ADDR (new_pde v)) = v" by simp
  have "bit (new_pde v) 0" by (simp add: bit_simps)
  then have "bit (new_pde v AND 1) 0" by (simp add: bit_simps)
  then show "present (new_pde v)" by auto
qed

text \<open>The state after a page table \<open>v\<close> has been allocated for \<open>va\<close>.\<close>

definition grown :: "uint \<Rightarrow> uint \<Rightarrow> uint \<Rightarrow> kernel \<Rightarrow> kernel" where
  "grown pgdir va v s = s\<lparr>mem := (mem s)(v := \<lambda>_. 0, pgdir := (mem s pgdir)(PDX va := new_pde v)),
     kmem := (kmem s)\<lparr>km_freelist := mem s v 0\<rparr>, mach := kmem_settle s\<rparr>"

lemma walk_alloc_eq:
  assumes "kmem_ok s fl" "pgdir \<notin> set fl"
  shows "walkpgdir pgdir va True s =
    (if present (mem s pgdir (PDX va)) then Some (Some (pte_loc s pgdir va), s)
     else case fl of
       [] \<Rightarrow> Some (None, s\<lparr>mach := kmem_settle s\<rparr>)
     | v # _ \<Rightarrow> Some (Some (v, PTX va), grown pgdir va v s))"
proof (cases fl)
  case Nil
  then show ?thesis
    using assms by (simp add: walkpgdir_def kalloc_empty pte_loc_def ptab_def)
next
  case (Cons v vs)
  then have "v \<noteq> 0" using kmem_okD [OF assms(1)] free_page_nonzero by auto
  moreover have "v \<noteq> pgdir" using assms(2) Cons by auto
  ultimately show ?thesis
    using assms Cons
    by (simp add: walkpgdir_def kalloc_Cons pte_loc_def ptab_def memset_page_def set_word_def grown_def Let_def)
qed

lemma grown_inv:
  assumes "vm_inv pgdir D s (v # fl)" "\<not> present (mem s pgdir (PDX va))"
  shows "vm_inv pgdir D (grown pgdir va v s) fl"
    and "vm_frame D s (grown pgdir va v s)"
    and "pte_at (grown pgdir va v s) pgdir va' = pte_at s pgdir va'"
    and "present (mem (grown pgdir va v s) pgdir (PDX va))"
    and "pte_loc (grown pgdir va v s) pgdir va = (v, PTX va)"
proof -
  let ?s = "grown pgdir va v s"
  note inv = vm_invD [OF assms(1)]
  have v: "v mod 4096 = 0" "v \<noteq> pgdir" "v \<notin> set fl" "v \<notin> D"
    using kmem_okD [OF inv(1)] inv by (auto simp: free_page_def)
  have dir: "mem ?s pgdir = (mem s pgdir)(PDX va := new_pde v)" by (simp add: grown_def)
  have tab: "ptab ?s pgdir i = (if i = PDX va then v else ptab s pgdir i)" for i
    using new_pde(2) [OF v(1)] by (simp add: ptab_def dir)
  have pres: "present (mem ?s pgdir i) \<longleftrightarrow> i = PDX va \<or> present (mem s pgdir i)" for i
    using new_pde(1) [OF v(1)] by (simp add: dir)
  have old: "ptab s pgdir i \<notin> set (v # fl) \<union> D" "ptab s pgdir i \<noteq> pgdir"
    if "i < 1024" "present (mem s pgdir i)" for i
    using pt_okD [OF inv(2) that] by auto
  have "pt_ok ?s pgdir (set fl \<union> D)"
    unfolding pt_ok_def pres tab using v old inv(4,5) assms(2) pt_okD(3) [OF inv(2)]
    by (auto split: if_splits)
  moreover have "kmem_ok ?s fl"
    using kmem_ok_alloc [OF inv(1)] inv(4) v(3) by (simp add: kmem_ok_def grown_def run_list_upd)
  ultimately show "vm_inv pgdir D ?s fl" using inv(3) by (auto simp: vm_inv_def)
  show "vm_frame D s ?s"
    using inv(5) v(4) by (intro vm_frameI [OF grown_def]) (auto simp: kmem_settle_def)
  show "present (mem ?s pgdir (PDX va))" using pres by blast
  show "pte_loc ?s pgdir va = (v, PTX va)" by (simp add: pte_loc_def tab)
  show "pte_at ?s pgdir va' = pte_at s pgdir va'"
  proof (cases "PDX va' = PDX va")
    case True
    then show ?thesis
      using assms(2) v(2) pres by (simp add: pte_at_def tab) (simp add: grown_def)
  next
    case False
    have "mem ?s (ptab s pgdir (PDX va')) = mem s (ptab s pgdir (PDX va'))" if "present (mem s pgdir (PDX va'))"
      using old [OF PDX_less that] by (simp add: grown_def)
    then show ?thesis using False by (simp add: pte_at_def tab pres)
  qed
qed

text \<open>
  Walking with allocation never changes what the table stands for; it fails only when the
  free list is empty.
\<close>

lemma walk_alloc:
  assumes "vm_inv pgdir D s fl"
  obtains r s' fl' where "walkpgdir pgdir va True s = Some (r, s')" "vm_inv pgdir D s' fl'" "vm_frame D s s'"
    "\<And>va'. pte_at s' pgdir va' = pte_at s pgdir va'" "suffix fl' fl"
    "r = None \<longleftrightarrow> fl = [] \<and> \<not> present (mem s pgdir (PDX va))"
    "r \<noteq> None \<Longrightarrow> r = Some (pte_loc s' pgdir va) \<and> present (mem s' pgdir (PDX va))"
    "length fl' \<ge> length fl - 1"
proof -
  note inv = vm_invD [OF assms]
  note eq = walk_alloc_eq [OF inv(1,4)]
  show thesis
  proof (cases "present (mem s pgdir (PDX va))")
    case True
    then show thesis using eq assms by (intro that [of "Some (pte_loc s pgdir va)" s fl]) auto
  next
    case False
    show thesis
    proof (cases fl)
      case Nil
      let ?s = "s\<lparr>mach := kmem_settle s\<rparr>"
      have same: "pte_at ?s pgdir va' = pte_at s pgdir va'" for va' by (simp add: pte_at_def ptab_def)
      have "vm_inv pgdir D ?s []"
        using assms Nil by (simp add: vm_inv_def kmem_ok_def pt_ok_def ptab_def)
      moreover have "vm_frame D s ?s" by (rule vm_frameI [where m = "mem s" and k = "kmem s" and h = "kmem_settle s"]) (auto simp: kmem_settle_def)
      ultimately show thesis using eq False Nil same by (intro that [of None ?s "[]"]) auto
    next
      case (Cons v vs)
      then show thesis
        using eq False grown_inv [of pgdir D s v vs va] assms
        by (intro that [of "Some (v, PTX va)" "grown pgdir va v s" vs]) (auto simp: suffix_def)
    qed
  qed
qed

section \<open>Filling a table entry by entry\<close>

text \<open>
  The interface \<open>mappages\<close> is written against: a table of entries where an empty entry can
  be filled one at a time, as long as a supply \<open>fl\<close> of pages lasts.
\<close>

fun puts :: "('k \<Rightarrow> 'v \<Rightarrow> 's \<Rightarrow> (bool \<times> 's) option) \<Rightarrow> ('k \<times> 'v) list \<Rightarrow> 's \<Rightarrow> (bool \<times> 's) option" where
  "puts put [] s = Some (True, s)"
| "puts put ((k, v) # kvs) s = do {
     (ok, s) \<leftarrow> put k v s;
     if ok then puts put kvs s else Some (False, s)
   }"

locale entry_table =
  fixes inv :: "'s \<Rightarrow> 'p list \<Rightarrow> bool"
    and frame :: "'s \<Rightarrow> 's \<Rightarrow> bool"
    and key :: "'k \<Rightarrow> nat"
    and lookup :: "'s \<Rightarrow> 'k \<Rightarrow> 'v"
    and vacant :: "'v \<Rightarrow> bool"
    and put :: "'k \<Rightarrow> 'v \<Rightarrow> 's \<Rightarrow> (bool \<times> 's) option"
  assumes frame_refl: "frame s s"
    and frame_trans: "frame s s' \<Longrightarrow> frame s' s'' \<Longrightarrow> frame s s''"
    and put_ok: "inv s fl \<Longrightarrow> vacant (lookup s k) \<Longrightarrow>
      \<exists>ok s' fl'. put k v s = Some (ok, s') \<and> inv s' fl' \<and> frame s s' \<and> suffix fl' fl \<and>
        length fl \<le> Suc (length fl') \<and> (\<not> ok \<longrightarrow> fl = []) \<and>
        (\<forall>k'. lookup s' k' = (if ok \<and> key k' = key k then v else lookup s k'))"
begin

text \<open>
  The first \<open>n\<close> entries are made, all others are untouched; the rest fails only if the supply
  runs out.
\<close>

lemma puts_ok:
  assumes "inv s fl" "distinct (map (key \<circ> fst) kvs)" "\<And>k v. (k, v) \<in> set kvs \<Longrightarrow> vacant (lookup s k)"
  shows "\<exists>n s' fl'. puts put kvs s = Some (n = length kvs, s') \<and> n \<le> length kvs \<and> inv s' fl' \<and> frame s s' \<and>
    suffix fl' fl \<and> length fl \<le> length fl' + n \<and> (length kvs \<le> length fl \<longrightarrow> n = length kvs) \<and>
    (\<forall>k'. lookup s' k' = (case map_of (map (\<lambda>(k, v). (key k, v)) (take n kvs)) (key k') of
       Some v \<Rightarrow> v | None \<Rightarrow> lookup s k'))"
  using assms
proof (induction kvs arbitrary: s fl)
  case Nil
  then show ?case using frame_refl by (intro exI [of _ 0]) auto
next
  case (Cons kv kvs)
  obtain k v where kv: "kv = (k, v)" by (cases kv)
  have vac: "vacant (lookup s k)" using Cons.prems(3) kv by auto
  obtain ok s1 fl1 where st: "put k v s = Some (ok, s1)" "inv s1 fl1" "frame s s1" "suffix fl1 fl"
    "length fl \<le> Suc (length fl1)" "\<not> ok \<longrightarrow> fl = []"
    "\<And>k'. lookup s1 k' = (if ok \<and> key k' = key k then v else lookup s k')"
    using put_ok [OF Cons.prems(1) vac, of v] by blast
  show ?case
  proof (cases ok)
    case False
    then show ?thesis using st kv by (intro exI [of _ 0]) (auto intro!: exI)
  next
    case True
    have other: "key k' \<noteq> key k" if "(k', v') \<in> set kvs" for k' v'
      using Cons.prems(2) that kv by force
    have "\<exists>n s' fl'. puts put kvs s1 = Some (n = length kvs, s') \<and> n \<le> length kvs \<and> inv s' fl' \<and>
        frame s1 s' \<and> suffix fl' fl1 \<and> length fl1 \<le> length fl' + n \<and> (length kvs \<le> length fl1 \<longrightarrow> n = length kvs) \<and>
        (\<forall>k'. lookup s' k' = (case map_of (map (\<lambda>(k, v). (key k, v)) (take n kvs)) (key k') of
           Some v \<Rightarrow> v | None \<Rightarrow> lookup s1 k'))"
      using Cons.prems(2,3) other st(7) kv by (intro Cons.IH [OF st(2)]) auto
    then obtain n s' fl' where n: "puts put kvs s1 = Some (n = length kvs, s')" "n \<le> length kvs" "inv s' fl'"
      "frame s1 s'" "suffix fl' fl1" "length fl1 \<le> length fl' + n" "length kvs \<le> length fl1 \<longrightarrow> n = length kvs"
      "\<And>k'. lookup s' k' = (case map_of (map (\<lambda>(k, v). (key k, v)) (take n kvs)) (key k') of
           Some v \<Rightarrow> v | None \<Rightarrow> lookup s1 k')"
      by auto
    have unique: "map_of (map (\<lambda>(k, v). (key k, v)) (take n kvs)) (key k) = None"
      using other by (fastforce simp: map_of_eq_None_iff dest: in_set_takeD)
    show ?thesis
      using n st True kv unique frame_trans [OF st(3) n(4)] suffix_order.trans [OF n(5) st(4)]
      by (intro exI [of _ "Suc n"] exI [of _ s'] exI [of _ fl']) (auto split: option.split)
  qed
qed

end

section \<open>Mapping pages\<close>

text \<open>One round of the loop of \<open>mappages\<close>.\<close>

definition map1 :: "uint \<Rightarrow> uint \<Rightarrow> uint \<Rightarrow> kernel \<Rightarrow> (bool \<times> kernel) option" where
  "map1 pgdir a e s = do {
     (pte, s) \<leftarrow> walkpgdir pgdir a True s;
     case pte of
       None \<Rightarrow> Some (False, s)
     | Some pte \<Rightarrow> if present (get_pte pte s) then None else Some (True, set_pte pte e s)
   }"

interpretation pmap: entry_table "vm_inv pgdir D" "vm_frame D" vpn "\<lambda>s. pte_at s pgdir"
    "\<lambda>e. \<not> present e" "map1 pgdir" for pgdir D
proof (unfold_locales, goal_cases)
  case (1 s)
  then show ?case by simp
next
  case (2 s s' s'')
  then show ?case by (rule vm_frame_trans)
next
  case (3 s fl va e)
  show ?case
  proof (rule walk_alloc [OF 3(1), of va])
    fix r s' fl'
    assume w: "walkpgdir pgdir va True s = Some (r, s')" "vm_inv pgdir D s' fl'" "vm_frame D s s'"
      "\<And>va'. pte_at s' pgdir va' = pte_at s pgdir va'" "suffix fl' fl"
      "r = None \<longleftrightarrow> fl = [] \<and> \<not> present (mem s pgdir (PDX va))"
      "r \<noteq> None \<Longrightarrow> r = Some (pte_loc s' pgdir va) \<and> present (mem s' pgdir (PDX va))"
      "length fl' \<ge> length fl - 1"
    show ?case
    proof (cases r)
      case None
      then show ?thesis using w by (auto simp: map1_def)
    next
      case (Some p)
      then have p: "p = pte_loc s' pgdir va" "present (mem s' pgdir (PDX va))" using w(7) by auto
      have "map1 pgdir va e s = Some (True, set_pte p e s')"
        using w(1,4) 3(2) Some p by (simp add: map1_def get_pte_loc)
      then show ?thesis
        using set_pte_inv [OF w(2) p(2), of e] w(3-5,8) vm_frame_trans [OF w(3)] p(1)
        by (intro exI [of _ True] exI [of _ "set_pte p e s'"] exI [of _ fl']) simp
    qed
  qed
qed

text \<open>The entries \<open>mappages\<close> makes for \<open>n\<close> pages from \<open>a\<close>.\<close>

definition map_entries :: "uint \<Rightarrow> uint \<Rightarrow> uint \<Rightarrow> nat \<Rightarrow> (uint \<times> uint) list" where
  "map_entries a pa perm n =
     map (\<lambda>i. (a + of_nat (4096 * i), (pa + of_nat (4096 * i)) OR perm OR 1)) [0..<n]"

lemma map_entries_Suc:
  "map_entries a pa perm (Suc n) = (a, pa OR perm OR 1) # map_entries (a + 4096) (pa + 4096) perm n"
proof -
  have "[0..<Suc n] = 0 # map Suc [0..<n]" by (simp add: map_Suc_upt upt_conv_Cons del: upt_Suc)
  then show ?thesis by (simp add: map_entries_def o_def add.assoc del: upt_Suc)
qed

lemma mappages_loop_map1:
  "mappages_loop pgdir a lst pa perm s = do {
     (ok, s) \<leftarrow> map1 pgdir a (pa OR perm OR 1) s;
     if \<not> ok then Some (-1, s)
     else if a = lst then Some (0, s)
     else mappages_loop pgdir (a + 4096) lst (pa + 4096) perm s
   }"
proof (cases "walkpgdir pgdir a True s")
  case None
  then show ?thesis by (subst mappages_loop.simps) (simp add: map1_def)
next
  case (Some x)
  obtain r t where x: "x = (r, t)" by (cases x)
  show ?thesis
    by (subst mappages_loop.simps, cases r) (simp_all add: Some x map1_def Let_def)
qed

lemma mappages_loop_puts:
  assumes "lst = a + of_nat (4096 * n)" "n < 2 ^ 20"
  shows "mappages_loop pgdir a lst pa perm s =
    map_option (\<lambda>(ok, s). (if ok then 0 else -1, s)) (puts (map1 pgdir) (map_entries a pa perm (Suc n)) s)"
  using assms
proof (induction n arbitrary: a pa s)
  case 0
  show ?case
    by (subst mappages_loop_map1, cases "map1 pgdir a (pa OR perm OR 1) s") (auto simp: 0 map_entries_def)
next
  case (Suc n)
  have ne: "a \<noteq> lst"
  proof
    assume "a = lst"
    then have "of_nat (4096 * Suc n) = (0 :: uint)" using Suc.prems(1) by (simp del: of_nat_mult of_nat_Suc)
    then have "2 ^ LENGTH(32) dvd 4096 * Suc n" by (simp only: word_of_nat_eq_0_iff)
    then show False using Suc.prems(2) by (auto dest: dvd_imp_le)
  qed
  have IH: "mappages_loop pgdir (a + 4096) lst (pa + 4096) perm t =
      map_option (\<lambda>(ok, s). (if ok then 0 else -1, s))
        (puts (map1 pgdir) (map_entries (a + 4096) (pa + 4096) perm (Suc n)) t)" for t
    using Suc.prems by (intro Suc.IH) (simp_all add: add.assoc)
  show ?case
    unfolding map_entries_Suc [of a]
    by (subst mappages_loop_map1, cases "map1 pgdir a (pa OR perm OR 1) s") (auto simp: ne IH)
qed

lemma vpn_less: "vpn a < 2 ^ 20"
proof -
  have "unat a < 2 ^ 32" using unsigned_less [of a] by simp
  then show ?thesis by (simp add: vpn_def div_less_iff_less_mult)
qed

lemma vpn_add:
  assumes "vpn a + n < 2 ^ 20"
  shows "vpn (a + of_nat (4096 * n)) = vpn a + n" "unat (a + of_nat (4096 * n)) = unat a + 4096 * n"
proof -
  have "unat a < 4096 * Suc (vpn a)"
    unfolding vpn_def using mult_div_mod_eq [of 4096 "unat a"] mod_less_divisor [of 4096 "unat a"] by simp
  then have lt: "unat a + 4096 * n < 2 ^ 32" using assms by simp
  moreover from this have "unat (of_nat (4096 * n) :: uint) = 4096 * n"
    by (simp add: unsigned_of_nat take_bit_eq_mod del: of_nat_mult)
  ultimately show u: "unat (a + of_nat (4096 * n)) = unat a + 4096 * n"
    using unat_add_lem [of a "of_nat (4096 * n)"] by (simp del: of_nat_mult)
  show "vpn (a + of_nat (4096 * n)) = vpn a + n" unfolding vpn_def u by simp
qed

lemma vpn_rounddown [simp]: "vpn (PGROUNDDOWN a) = vpn a"
  by (simp add: vpn_def unat_rounddown)

text \<open>\<open>mappages\<close> of \<open>n\<close> whole pages from a page boundary.\<close>

lemma mappages_puts:
  assumes "va mod 4096 = 0" "0 < n" "vpn va + n \<le> 2 ^ 20"
  shows "mappages pgdir va (of_nat (4096 * n)) pa perm s =
    map_option (\<lambda>(ok, s). (if ok then 0 else -1, s)) (puts (map1 pgdir) (map_entries va pa perm n) s)"
proof -
  obtain m where m: "n = Suc m" using assms(2) by (cases n) auto
  have down: "PGROUNDDOWN v = v" if "v mod 4096 = 0" for v
    unfolding PGROUNDDOWN_def using and_not_page [of v] that by simp
  have lst: "PGROUNDDOWN (va + of_nat (4096 * n) - 1) = va + of_nat (4096 * m)"
  proof -
    let ?b = "va + of_nat (4096 * m)"
    have b: "unat ?b = unat va + 4096 * m" using assms(3) m by (intro vpn_add) simp
    have eq: "va + of_nat (4096 * n) - 1 = ?b + 4095" using m by (simp add: algebra_simps)
    have "unat (PGROUNDDOWN (?b + 4095)) = unat ?b"
    proof -
      have bm: "unat ?b mod 4096 = 0" using b assms(1) by (simp add: unat_mod_page)
      have "unat ?b < 2 ^ 32" using unsigned_less [of ?b] by simp
      moreover obtain k where k: "unat ?b = 4096 * k" using bm by (auto simp: mod_eq_0_iff_dvd)
      ultimately have "unat ?b + 4095 < 2 ^ 32" by simp
      then have "unat (?b + 4095) = unat ?b + 4095" using unat_add_lem [of ?b 4095] by simp
      then show ?thesis using k by (simp add: unat_rounddown)
    qed
    then show ?thesis unfolding eq by (rule word_eq_iff_unsigned [where ?'a = nat, THEN iffD2])
  qed
  have "mappages_loop pgdir va (va + of_nat (4096 * m)) pa perm s =
      map_option (\<lambda>(ok, s). (if ok then 0 else -1, s)) (puts (map1 pgdir) (map_entries va pa perm (Suc m)) s)"
    using assms(3) m by (intro mappages_loop_puts) simp_all
  then show ?thesis unfolding mappages_def lst down [OF assms(1)] m [symmetric] .
qed

text \<open>
  What \<open>mappages\<close> does to the table: the first \<open>k\<close> pages of the range get their entries.
\<close>

definition mapped :: "uint \<Rightarrow> uint \<Rightarrow> uint \<Rightarrow> nat \<Rightarrow> (uint \<Rightarrow> uint) \<Rightarrow> uint \<Rightarrow> uint" where
  "mapped va pa perm k f va' =
     (if vpn va \<le> vpn va' \<and> vpn va' < vpn va + k
      then (pa + of_nat (4096 * (vpn va' - vpn va))) OR perm OR 1 else f va')"

lemma map_of_entries:
  assumes "vpn va + n \<le> 2 ^ 20" "k \<le> n"
  shows "(case map_of (map (\<lambda>(k, v). (vpn k, v)) (take k (map_entries va pa perm n))) (vpn va') of
       Some v \<Rightarrow> v | None \<Rightarrow> f va') = mapped va pa perm k f va'"
proof -
  have "take k (map_entries va pa perm n) = map_entries va pa perm k"
    using assms(2) by (simp add: map_entries_def take_map)
  moreover have "map (\<lambda>(k, v). (vpn k, v)) (map_entries va pa perm k) =
      map (\<lambda>i. (vpn va + i, (pa + of_nat (4096 * i)) OR perm OR 1)) [0..<k]"
    using assms by (simp add: map_entries_def vpn_add(1) del: of_nat_mult)
  moreover have "map_of (map (\<lambda>i. (b + i, g i)) [0..<j]) x =
      (if b \<le> x \<and> x < b + j then Some (g (x - b)) else None)" for b j x :: nat and g :: "nat \<Rightarrow> uint"
    by (induction j) (auto simp: map_add_def split: option.split)
  ultimately show ?thesis by (simp add: mapped_def del: of_nat_mult)
qed

lemma mappages_ok:
  assumes "vm_inv pgdir D s fl" "va mod 4096 = 0" "0 < n" "vpn va + n \<le> 2 ^ 20"
    and "\<And>va'. vpn va \<le> vpn va' \<Longrightarrow> vpn va' < vpn va + n \<Longrightarrow> \<not> present (pte_at s pgdir va')"
  obtains k s' fl' where "mappages pgdir va (of_nat (4096 * n)) pa perm s = Some (if k = n then 0 else -1, s')"
    "k \<le> n" "vm_inv pgdir D s' fl'" "vm_frame D s s'" "suffix fl' fl" "length fl \<le> length fl' + k"
    "n \<le> length fl \<Longrightarrow> k = n" "\<And>va'. pte_at s' pgdir va' = mapped va pa perm k (pte_at s pgdir) va'"
proof -
  have keys: "map (vpn \<circ> fst) (map_entries va pa perm n) = map (\<lambda>i. vpn va + i) [0..<n]"
    using assms(4) by (simp add: map_entries_def vpn_add(1) del: of_nat_mult)
  have "\<exists>k s' fl'. puts (map1 pgdir) (map_entries va pa perm n) s = Some (k = length (map_entries va pa perm n), s') \<and>
    k \<le> length (map_entries va pa perm n) \<and> vm_inv pgdir D s' fl' \<and> vm_frame D s s' \<and>
    suffix fl' fl \<and> length fl \<le> length fl' + k \<and> (length (map_entries va pa perm n) \<le> length fl \<longrightarrow> k = length (map_entries va pa perm n)) \<and>
    (\<forall>k'. pte_at s' pgdir k' = (case map_of (map (\<lambda>(k, v). (vpn k, v)) (take k (map_entries va pa perm n))) (vpn k') of
       Some v \<Rightarrow> v | None \<Rightarrow> pte_at s pgdir k'))"
  proof (rule pmap.puts_ok [OF assms(1)])
    show "distinct (map (vpn \<circ> fst) (map_entries va pa perm n))" unfolding keys by (simp add: distinct_map)
  next
    fix k v assume "(k, v) \<in> set (map_entries va pa perm n)"
    then have "vpn k \<in> set (map (vpn \<circ> fst) (map_entries va pa perm n))" by force
    then show "\<not> present (pte_at s pgdir k)" unfolding keys using assms(5) [of k] by auto
  qed
  moreover have "length (map_entries va pa perm n) = n" by (simp add: map_entries_def)
  ultimately obtain k s' fl' where k: "puts (map1 pgdir) (map_entries va pa perm n) s = Some (k = n, s')" "k \<le> n"
    "vm_inv pgdir D s' fl'" "vm_frame D s s'" "suffix fl' fl" "length fl \<le> length fl' + k" "n \<le> length fl \<longrightarrow> k = n"
    "\<And>k'. pte_at s' pgdir k' = (case map_of (map (\<lambda>(k, v). (vpn k, v)) (take k (map_entries va pa perm n))) (vpn k') of
       Some v \<Rightarrow> v | None \<Rightarrow> pte_at s pgdir k')"
    by auto
  show thesis
    using k mappages_puts [OF assms(2-4)] map_of_entries [OF assms(4) k(2)]
    by (intro that [of k s' fl']) simp_all
qed

end
