(* ===== verification/UserMem.thy ===== *)
theory UserMem
  imports PageTable
begin

text \<open>
  User memory: \<open>allocuvm\<close>, \<open>deallocuvm\<close> and \<open>copyout\<close> on the function a page table
  stands for.
\<close>

section \<open>Entries by page number\<close>

definition ptn :: "kernel \<Rightarrow> uint \<Rightarrow> nat \<Rightarrow> uint" where
  "ptn s pgdir p = pte_at s pgdir (of_nat (4096 * p))"

text \<open>The page of memory that page \<open>p\<close> is mapped to.\<close>

definition dpage :: "kernel \<Rightarrow> uint \<Rightarrow> nat \<Rightarrow> uint" where
  "dpage s pgdir p = P2V (PTE_ADDR (ptn s pgdir p))"

lemma pte_at_cong: "vpn va = vpn va' \<Longrightarrow> pte_at s pgdir va = pte_at s pgdir va'"
  by (simp add: pte_at_def vpn_eq_iff)

lemma unat_page: "p < 2 ^ 20 \<Longrightarrow> unat (of_nat (4096 * p) :: uint) = 4096 * p"
  by (simp add: unsigned_of_nat take_bit_eq_mod del: of_nat_mult)

lemma vpn_page [simp]: "p < 2 ^ 20 \<Longrightarrow> vpn (of_nat (4096 * p)) = p"
  unfolding vpn_def by (simp add: unat_page del: of_nat_mult)

lemma pte_at_ptn: "pte_at s pgdir va = ptn s pgdir (vpn va)"
  unfolding ptn_def using vpn_less by (intro pte_at_cong) (simp del: of_nat_mult)

text \<open>
  The pages \<open>lo ..< hi\<close> of the address space own the memory they are mapped to: pages of
  \<open>D\<close> that the allocator would take back, no two the same.
\<close>

definition owns :: "kernel \<Rightarrow> uint \<Rightarrow> uint set \<Rightarrow> nat \<Rightarrow> nat \<Rightarrow> bool" where
  "owns s pgdir D lo hi \<longleftrightarrow>
     (\<forall>p. lo \<le> p \<longrightarrow> p < hi \<longrightarrow> present (ptn s pgdir p) \<longrightarrow>
        dpage s pgdir p \<in> D \<and> free_page (link s) (dpage s pgdir p) \<and>
        (\<forall>q. lo \<le> q \<longrightarrow> q < hi \<longrightarrow> q \<noteq> p \<longrightarrow> present (ptn s pgdir q) \<longrightarrow> dpage s pgdir q \<noteq> dpage s pgdir p))"

definition data_pages :: "kernel \<Rightarrow> uint \<Rightarrow> nat \<Rightarrow> nat \<Rightarrow> uint set" where
  "data_pages s pgdir lo hi = dpage s pgdir ` {p. lo \<le> p \<and> p < hi \<and> present (ptn s pgdir p)}"

lemma ownsD:
  assumes "owns s pgdir D lo hi" "lo \<le> p" "p < hi" "present (ptn s pgdir p)"
  shows "dpage s pgdir p \<in> D" "free_page (link s) (dpage s pgdir p)"
    "\<And>q. lo \<le> q \<Longrightarrow> q < hi \<Longrightarrow> q \<noteq> p \<Longrightarrow> present (ptn s pgdir q) \<Longrightarrow> dpage s pgdir q \<noteq> dpage s pgdir p"
  using assms by (auto simp: owns_def)

section \<open>Giving pages back\<close>

lemma freed_inv:
  assumes "vm_inv pgdir D s fl" "v \<in> D" "free_page (link s) v"
  shows "vm_inv pgdir (D - {v}) (freed v s) (v # fl)"
    and "vm_frame (D - {v}) s (freed v s)"
    and "pte_at (freed v s) pgdir va = pte_at s pgdir va"
    and "mem (freed v s) pgdir = mem s pgdir"
proof -
  note inv = vm_invD [OF assms(1)]
  have nv: "v \<noteq> pgdir" "v \<notin> set fl" using inv assms(2) by auto
  then show dir: "mem (freed v s) pgdir = mem s pgdir" by simp
  then have tab: "ptab (freed v s) pgdir i = ptab s pgdir i" for i by (simp add: ptab_def del: freed_simps)
  have "set (v # fl) \<union> (D - {v}) = set fl \<union> D" using assms(2) by auto
  then have "pt_ok (freed v s) pgdir (set (v # fl) \<union> (D - {v}))"
    using inv(2) by (simp add: pt_ok_def dir tab del: freed_simps)
  moreover have "kmem_ok (freed v s) (v # fl)" using kmem_ok_freed [OF inv(1) assms(3) nv(2)] .
  ultimately show "vm_inv pgdir (D - {v}) (freed v s) (v # fl)" using inv(3) by (auto simp: vm_inv_def)
  show "vm_frame (D - {v}) s (freed v s)"
    by (rule vm_frameI [OF freed_def]) (auto simp: kmem_settle_def)
  have "mem (freed v s) (ptab s pgdir (PDX va)) = mem s (ptab s pgdir (PDX va))" if "present (mem s pgdir (PDX va))"
    using pt_okD(1) [OF inv(2) PDX_less that] assms(2) by auto
  then show "pte_at (freed v s) pgdir va = pte_at s pgdir va"
    unfolding pte_at_def dir tab by simp
qed

text \<open>The step of \<open>deallocuvm\<close> at a mapped page.\<close>

lemma unmap_step:
  assumes "vm_inv pgdir D s fl" "present (pte_at s pgdir a)"
    and "P2V (PTE_ADDR (pte_at s pgdir a)) = v" "v \<in> D" "free_page (link s) v"
  shows "PTE_ADDR (pte_at s pgdir a) \<noteq> 0"
    and "kfree v s = Some (freed v s)"
    and "vm_inv pgdir (D - {v}) (set_pte (pte_loc s pgdir a) 0 (freed v s)) (v # fl)"
    and "vm_frame (D - {v}) s (set_pte (pte_loc s pgdir a) 0 (freed v s))"
    and "pte_at (set_pte (pte_loc s pgdir a) 0 (freed v s)) pgdir va =
           (if vpn va = vpn a then 0 else pte_at s pgdir va)"
proof -
  note inv = vm_invD [OF assms(1)]
  have pd: "present (mem s pgdir (PDX a))" using assms(2) by (auto simp: pte_at_def)
  have "KERNBASE < v" using kmem_okD(6) [OF inv(1)] assms(5) by (auto simp: free_page_def)
  then show "PTE_ADDR (pte_at s pgdir a) \<noteq> 0" using assms(3) by (auto simp: P2V_def)
  show "kfree v s = Some (freed v s)" using inv(1) assms(5) by (rule kfree_eq)
  note f = freed_inv [OF assms(1,4,5)]
  have loc: "pte_loc (freed v s) pgdir a = pte_loc s pgdir a"
    by (simp add: pte_loc_def ptab_def f(4) del: freed_simps)
  have pd': "present (mem (freed v s) pgdir (PDX a))" using pd f(4) by simp
  note sp = set_pte_inv [OF f(1) pd', of 0, unfolded loc f(3)]
  show "vm_inv pgdir (D - {v}) (set_pte (pte_loc s pgdir a) 0 (freed v s)) (v # fl)" by (rule sp(1))
  show "vm_frame (D - {v}) s (set_pte (pte_loc s pgdir a) 0 (freed v s))" using f(2) sp(2) by (rule vm_frame_trans)
  show "pte_at (set_pte (pte_loc s pgdir a) 0 (freed v s)) pgdir va =
      (if vpn va = vpn a then 0 else pte_at s pgdir va)" by (rule sp(3))
qed

lemma PGADDR_next:
  assumes "PDX a < 1023"
  shows "PGADDR (of_nat (PDX a) + 1) 0 0 - 4096 + 4096 = of_nat (4096 * ((PDX a + 1) * 1024))"
proof -
  have "PGADDR (of_nat (PDX a) + 1) 0 0 = of_nat (Suc (PDX a)) * 2 ^ 22"
    by (simp add: PGADDR_def push_bit_eq_mult)
  also have "\<dots> = of_nat (4096 * ((PDX a + 1) * 1024))" by (simp add: algebra_simps)
  finally show ?thesis by (simp del: of_nat_mult)
qed

lemma vpn_PDX: "vpn va div 1024 = PDX va"
  by (simp add: vpn_split)

lemma aligned_unat: "va mod 4096 = 0 \<Longrightarrow> unat va = 4096 * vpn va"
  unfolding unat_mod_page vpn_def by auto

text \<open>Where a loop over pages below \<open>sz\<close> stops, as a page number.\<close>

definition pgs :: "uint \<Rightarrow> nat" where
  "pgs sz = (unat sz + 4095) div 4096"

lemma less_pgs: "va mod 4096 = 0 \<Longrightarrow> va < sz \<longleftrightarrow> vpn va < pgs sz"
proof -
  assume "va mod 4096 = 0"
  then have u: "unat va = 4096 * vpn va" by (rule aligned_unat)
  have "4096 * p < z \<longleftrightarrow> p < (z + 4095) div 4096" for p z :: nat
  proof -
    have "p < (z + 4095) div 4096 \<longleftrightarrow> Suc p * 4096 \<le> z + 4095"
      unfolding Suc_le_eq [symmetric] by (rule less_eq_div_iff_mult_less_eq) simp
    then show ?thesis by auto
  qed
  then show ?thesis unfolding word_less_nat_alt u pgs_def .
qed

text \<open>The table after the mapped pages in \<open>lo ..< hi\<close> have been removed.\<close>

definition unmapped :: "nat \<Rightarrow> nat \<Rightarrow> (nat \<Rightarrow> uint) \<Rightarrow> nat \<Rightarrow> uint" where
  "unmapped lo hi f p = (if lo \<le> p \<and> p < hi \<and> present (f p) then 0 else f p)"

lemma ptn_frame_mono:
  assumes "vm_frame D s s'" "E \<subseteq> D"
  shows "vm_frame E s s'"
  using assms by (auto simp: vm_frame_def)

text \<open>
  Skipping a page that is not mapped changes neither what is to be freed nor the result.
\<close>

lemma data_pages_skip:
  assumes "lo \<le> lo'" "\<And>p. lo \<le> p \<Longrightarrow> p < lo' \<Longrightarrow> p < hi \<Longrightarrow> \<not> present (ptn s pgdir p)"
  shows "data_pages s pgdir lo hi = data_pages s pgdir lo' hi"
    and "unmapped lo hi (ptn s pgdir) p = unmapped lo' hi (ptn s pgdir) p"
    and "owns s pgdir D lo hi \<Longrightarrow> owns s pgdir D lo' hi"
proof -
  have "{p. lo \<le> p \<and> p < hi \<and> present (ptn s pgdir p)} = {p. lo' \<le> p \<and> p < hi \<and> present (ptn s pgdir p)}"
    using assms by (auto simp: not_less [symmetric])
  then show "data_pages s pgdir lo hi = data_pages s pgdir lo' hi" by (simp add: data_pages_def)
  show "unmapped lo hi (ptn s pgdir) p = unmapped lo' hi (ptn s pgdir) p"
    using assms(1) assms(2) [of p] by (auto simp: unmapped_def)
  show "owns s pgdir D lo hi \<Longrightarrow> owns s pgdir D lo' hi"
    unfolding owns_def using assms(1) by (meson order_trans)
qed

lemma dealloc_loop:
  assumes "vm_inv pgdir D s fl" "a mod 4096 = 0" "pgs oldsz \<le> 0x80000" "owns s pgdir D (vpn a) (pgs oldsz)"
  shows "\<exists>s' ps. deallocuvm_loop pgdir a oldsz s = Some s' \<and> vm_inv pgdir (D - set ps) s' (ps @ fl) \<and>
    set ps = data_pages s pgdir (vpn a) (pgs oldsz) \<and> vm_frame (D - set ps) s s' \<and>
    (\<forall>va. pte_at s' pgdir va = unmapped (vpn a) (pgs oldsz) (ptn s pgdir) (vpn va))"
  using assms
proof (induction "pgs oldsz - vpn a" arbitrary: a s fl D rule: less_induct)
  case less
  let ?hi = "pgs oldsz"
  show ?case
  proof (cases "vpn a < ?hi")
    case False
    then have "deallocuvm_loop pgdir a oldsz s = Some s"
      using less.prems(2) by (subst deallocuvm_loop.simps) (simp add: less_pgs)
    moreover have "data_pages s pgdir (vpn a) ?hi = {}" using False by (auto simp: data_pages_def)
    ultimately show ?thesis
      using less.prems(1) False by (intro exI [of _ s] exI [of _ "[]"]) (auto simp: unmapped_def pte_at_ptn)
  next
    case True
    then have lt: "a < oldsz" using less.prems(2) by (simp add: less_pgs)
    have next_a: "vpn (a + 4096) = Suc (vpn a)" "(a + 4096) mod 4096 = 0"
      using vpn_add(1) [of a 1] less.prems(2,3) True add_mod_page [of 4096 a] by simp_all
    show ?thesis
    proof (cases "present (mem s pgdir (PDX a))")
      case False
      define b where "b = (of_nat (4096 * ((PDX a + 1) * 1024)) :: uint)"
      have pdx: "PDX a < 512" using True less.prems(3) vpn_PDX [of a] by (simp add: div_less_iff_less_mult)
      then have q: "(PDX a + 1) * 1024 < 2 ^ 20" by simp
      have b: "vpn b = (PDX a + 1) * 1024" "b mod 4096 = 0"
        unfolding b_def by (rule vpn_page [OF q]) (simp only: unat_mod_page unat_page [OF q], simp)
      have ab: "vpn a < vpn b" using vpn_split [of a] b(1) by simp
      have np: "\<not> present (ptn s pgdir p)" if "vpn a \<le> p" "p < vpn b" for p
      proof -
        have "p < 2 ^ 20" using that b(1) pdx by simp
        moreover have "p div 1024 = PDX a"
        proof -
          have "PDX a \<le> p div 1024" using that(1) vpn_PDX [of a] by (metis div_le_mono)
          moreover have "p div 1024 < PDX a + 1" using that(2) b(1) by (simp add: div_less_iff_less_mult)
          ultimately show ?thesis by simp
        qed
        ultimately have "PDX (of_nat (4096 * p)) = PDX a" by (metis vpn_PDX vpn_page)
        then show ?thesis using False by (simp add: ptn_def pte_at_def)
      qed
      note skip = data_pages_skip [of "vpn a" "vpn b" ?hi s pgdir]
      have "\<exists>s' ps. deallocuvm_loop pgdir b oldsz s = Some s' \<and> vm_inv pgdir (D - set ps) s' (ps @ fl) \<and>
          set ps = data_pages s pgdir (vpn b) ?hi \<and> vm_frame (D - set ps) s s' \<and>
          (\<forall>va. pte_at s' pgdir va = unmapped (vpn b) ?hi (ptn s pgdir) (vpn va))"
        by (rule less.hyps [OF _ less.prems(1) b(2) less.prems(3)]) (use ab True skip(3) np less.prems(4) in auto)
      moreover have "deallocuvm_loop pgdir a oldsz s = deallocuvm_loop pgdir b oldsz s"
        using lt False PGADDR_next [of a] pdx
        by (subst deallocuvm_loop.simps) (simp add: walk_noalloc b_def del: of_nat_mult)
      ultimately show ?thesis using skip(1,2) ab np by simp
    next
      case pd: True
      have walk: "walkpgdir pgdir a False s = Some (Some (pte_loc s pgdir a), s)"
        using pd by (simp add: walk_noalloc)
      show ?thesis
      proof (cases "present (pte_at s pgdir a)")
        case False
        have np: "\<not> present (ptn s pgdir p)" if "vpn a \<le> p" "p < Suc (vpn a)" for p
          using that False by (simp add: pte_at_ptn less_Suc_eq_le)
        note skip = data_pages_skip [of "vpn a" "Suc (vpn a)" ?hi s pgdir]
        have "\<exists>s' ps. deallocuvm_loop pgdir (a + 4096) oldsz s = Some s' \<and> vm_inv pgdir (D - set ps) s' (ps @ fl) \<and>
            set ps = data_pages s pgdir (vpn (a + 4096)) ?hi \<and> vm_frame (D - set ps) s s' \<and>
            (\<forall>va. pte_at s' pgdir va = unmapped (vpn (a + 4096)) ?hi (ptn s pgdir) (vpn va))"
          by (rule less.hyps [OF _ less.prems(1) next_a(2) less.prems(3)])
            (use next_a True skip(3) np less.prems(4) in auto)
        moreover have "deallocuvm_loop pgdir a oldsz s = deallocuvm_loop pgdir (a + 4096) oldsz s"
          using lt False pd by (subst deallocuvm_loop.simps) (simp add: walk get_pte_loc)
        ultimately show ?thesis using skip(1,2) np by (simp add: next_a(1))
      next
        case mapped: True
        define v where "v = dpage s pgdir (vpn a)"
        define s1 where "s1 = set_pte (pte_loc s pgdir a) 0 (freed v s)"
        have v: "P2V (PTE_ADDR (pte_at s pgdir a)) = v" by (simp add: v_def dpage_def pte_at_ptn)
        have pr: "present (ptn s pgdir (vpn a))" using mapped by (simp add: pte_at_ptn)
        note own = ownsD [OF less.prems(4) order_refl True pr, folded v_def]
        note st = unmap_step [OF less.prems(1) mapped v own(1,2), folded s1_def]
        have ptn1: "ptn s1 pgdir p = (if p = vpn a then 0 else ptn s pgdir p)" if "p < 2 ^ 20" for p
          unfolding ptn_def st(5) vpn_page [OF that] ..
        have small: "p < 2 ^ 20" if "p < ?hi" for p using that less.prems(3) by simp
        have same: "ptn s1 pgdir p = ptn s pgdir p" "dpage s1 pgdir p = dpage s pgdir p"
          if "Suc (vpn a) \<le> p" "p < ?hi" for p
          using that ptn1 [OF small [OF that(2)]] by (simp_all add: dpage_def)
        have link1: "link s1 = link s" using vm_frame_fields(1) [OF st(4)] .
        have own1: "owns s1 pgdir (D - {v}) (Suc (vpn a)) ?hi"
          unfolding owns_def link1
        proof (intro allI impI)
          fix p assume p: "Suc (vpn a) \<le> p" "p < ?hi" "present (ptn s1 pgdir p)"
          have sp: "present (ptn s pgdir p)" using p same by simp
          then show "dpage s1 pgdir p \<in> D - {v} \<and> free_page (link s) (dpage s1 pgdir p) \<and>
              (\<forall>q. Suc (vpn a) \<le> q \<longrightarrow> q < ?hi \<longrightarrow> q \<noteq> p \<longrightarrow> present (ptn s1 pgdir q) \<longrightarrow>
                 dpage s1 pgdir q \<noteq> dpage s1 pgdir p)"
            using ownsD [OF less.prems(4) _ p(2) sp] own(3) [of p] p same by (auto simp: Suc_le_eq)
        qed
        have "\<exists>s' ps. deallocuvm_loop pgdir (a + 4096) oldsz s1 = Some s' \<and>
            vm_inv pgdir (D - {v} - set ps) s' (ps @ v # fl) \<and>
            set ps = data_pages s1 pgdir (vpn (a + 4096)) ?hi \<and> vm_frame (D - {v} - set ps) s1 s' \<and>
            (\<forall>va. pte_at s' pgdir va = unmapped (vpn (a + 4096)) ?hi (ptn s1 pgdir) (vpn va))"
          by (rule less.hyps [OF _ st(3) next_a(2) less.prems(3)]) (use next_a True own1 in auto)
        then obtain s' ps where r: "deallocuvm_loop pgdir (a + 4096) oldsz s1 = Some s'"
          "vm_inv pgdir (D - {v} - set ps) s' (ps @ v # fl)"
          "set ps = data_pages s1 pgdir (Suc (vpn a)) ?hi" "vm_frame (D - {v} - set ps) s1 s'"
          "\<forall>va. pte_at s' pgdir va = unmapped (Suc (vpn a)) ?hi (ptn s1 pgdir) (vpn va)"
          unfolding next_a by blast
        have "deallocuvm_loop pgdir a oldsz s = Some s'"
          using lt mapped pd st(1,2) r(1) v
          by (subst deallocuvm_loop.simps) (simp add: walk get_pte_loc s1_def)
        moreover have "set (ps @ [v]) = data_pages s pgdir (vpn a) ?hi"
        proof -
          have "data_pages s1 pgdir (Suc (vpn a)) ?hi = data_pages s pgdir (Suc (vpn a)) ?hi"
            unfolding data_pages_def using same by (intro image_cong) auto
          moreover have "{p. vpn a \<le> p \<and> p < ?hi \<and> present (ptn s pgdir p)} =
              insert (vpn a) {p. Suc (vpn a) \<le> p \<and> p < ?hi \<and> present (ptn s pgdir p)}"
            using True pr by auto
          ultimately show ?thesis using r(3) by (simp add: data_pages_def v_def)
        qed
        moreover have "D - set (ps @ [v]) = D - {v} - set ps" by auto
        moreover have "vm_frame (D - {v} - set ps) s s'"
          by (rule vm_frame_trans [OF ptn_frame_mono [OF st(4)] r(4)]) auto
        moreover have "pte_at s' pgdir va = unmapped (vpn a) ?hi (ptn s pgdir) (vpn va)" for va
          using r(5) ptn1 [OF vpn_less [of va]] True pr by (auto simp: unmapped_def)
        ultimately show ?thesis using r(2) by (intro exI [of _ s'] exI [of _ "ps @ [v]"]) simp
      qed
    qed
  qed
qed

section \<open>Taking a fresh page\<close>

text \<open>The state after \<open>kalloc\<close> has returned \<open>v\<close> and the page has been filled with \<open>c\<close>.\<close>

definition taken :: "uint \<Rightarrow> (nat \<Rightarrow> uint) \<Rightarrow> kernel \<Rightarrow> kernel" where
  "taken v c s = s\<lparr>mem := (mem s)(v := c), kmem := (kmem s)\<lparr>km_freelist := mem s v 0\<rparr>, mach := kmem_settle s\<rparr>"

lemma head_free:
  assumes "vm_inv pgdir D s (v # fl)"
  shows "v \<notin> D" "v \<noteq> 0" "free_page (link s) v" "v \<notin> set fl"
proof -
  note inv = vm_invD [OF assms]
  show v: "v \<notin> D" "v \<notin> set fl" "free_page (link s) v" using inv kmem_okD [OF inv(1)] by auto
  then show "v \<noteq> 0" using free_page_nonzero kmem_okD(6) [OF inv(1)] by blast
qed

lemma taken_inv:
  assumes "vm_inv pgdir D s (v # fl)"
  shows "vm_inv pgdir (insert v D) (taken v c s) fl"
    and "vm_frame D s (taken v c s)"
    and "pte_at (taken v c s) pgdir va = pte_at s pgdir va"
    and "mem (taken v c s) v = c"
proof -
  note inv = vm_invD [OF assms]
  note v = head_free(1,4) [OF assms]
  have dir: "mem (taken v c s) pgdir = mem s pgdir" using inv(4) by (auto simp: taken_def)
  then have tab: "ptab (taken v c s) pgdir i = ptab s pgdir i" for i by (simp add: ptab_def)
  have X: "set fl \<union> insert v D = set (v # fl) \<union> D" by auto
  have "pt_ok (taken v c s) pgdir (set fl \<union> insert v D)"
    unfolding X using inv(2) by (simp add: pt_ok_def dir tab)
  moreover have "kmem_ok (taken v c s) fl"
    using kmem_ok_alloc [OF inv(1)] v(2) by (simp add: kmem_ok_def taken_def run_list_upd)
  ultimately show "vm_inv pgdir (insert v D) (taken v c s) fl" using inv(3) v by (auto simp: vm_inv_def)
  show "vm_frame D s (taken v c s)"
    using v(1) by (intro vm_frameI [OF taken_def]) (auto simp: kmem_settle_def)
  have "mem (taken v c s) (ptab s pgdir (PDX va)) = mem s (ptab s pgdir (PDX va))" if "present (mem s pgdir (PDX va))"
    using pt_okD(1) [OF inv(2) PDX_less that] by (auto simp: taken_def)
  then show "pte_at (taken v c s) pgdir va = pte_at s pgdir va" unfolding pte_at_def dir tab by simp
  show "mem (taken v c s) v = c" by (simp add: taken_def)
qed

lemma memset_page_zero: "ucast (0 :: 8 word) * 0x01010101 = (0 :: uint)"
  by simp

lemma kalloc_taken:
  assumes "kmem_ok s (v # fl)"
  shows "\<exists>s1. kalloc s = Some (v, s1) \<and> memset_page v 0 s1 = taken v (\<lambda>_. 0) s \<and>
    memmove_page v w s1 = taken v (mem s w) s"
  using kalloc_Cons [OF assms] by (simp add: memset_page_def memmove_page_def taken_def)

lemma kalloc_none:
  assumes "vm_inv pgdir D s []"
  shows "kalloc s = Some (0, s\<lparr>mach := kmem_settle s\<rparr>)" "vm_inv pgdir D (s\<lparr>mach := kmem_settle s\<rparr>) []"
    "vm_frame D s (s\<lparr>mach := kmem_settle s\<rparr>)" "pte_at (s\<lparr>mach := kmem_settle s\<rparr>) pgdir va = pte_at s pgdir va"
proof -
  show "kalloc s = Some (0, s\<lparr>mach := kmem_settle s\<rparr>)"
    using vm_invD(1) [OF assms] by (rule kalloc_empty)
  show "vm_inv pgdir D (s\<lparr>mach := kmem_settle s\<rparr>) []"
    using assms by (simp add: vm_inv_def kmem_ok_def pt_ok_def ptab_def)
  show "vm_frame D s (s\<lparr>mach := kmem_settle s\<rparr>)"
    by (rule vm_frameI [where m = "mem s" and k = "kmem s" and h = "kmem_settle s"]) (auto simp: kmem_settle_def)
  show "pte_at (s\<lparr>mach := kmem_settle s\<rparr>) pgdir va = pte_at s pgdir va" by (simp add: pte_at_def ptab_def)
qed

section \<open>Growing user memory\<close>

text \<open>The entry of a fresh user page.\<close>

abbreviation user_pte :: "uint \<Rightarrow> uint" where
  "user_pte v \<equiv> V2P v OR (2 OR 4) OR 1"

text \<open>
  From \<open>s\<close> to \<open>s'\<close> the pages from number \<open>p\<close> on got the fresh, zeroed pages \<open>vs\<close> of memory;
  the other entries and the memory \<open>D\<close> are as before.
\<close>

definition fresh_map :: "uint \<Rightarrow> uint set \<Rightarrow> nat \<Rightarrow> uint list \<Rightarrow> kernel \<Rightarrow> kernel \<Rightarrow> bool" where
  "fresh_map pgdir D p vs s s' \<longleftrightarrow> distinct vs \<and> vm_frame D s s' \<and>
     (\<forall>v \<in> set vs. v \<notin> D \<and> free_page (link s) v \<and> mem s' v = (\<lambda>_. 0)) \<and>
     (\<forall>va. pte_at s' pgdir va =
        (if p \<le> vpn va \<and> vpn va < p + length vs then user_pte (vs ! (vpn va - p)) else pte_at s pgdir va))"

lemma fresh_map_Nil: "vm_frame D s s' \<Longrightarrow> (\<And>va. pte_at s' pgdir va = pte_at s pgdir va) \<Longrightarrow> fresh_map pgdir D p [] s s'"
  by (auto simp: fresh_map_def)

lemma fresh_map_Cons:
  assumes "vm_frame D s s1" "v \<notin> D" "free_page (link s) v" "mem s1 v = (\<lambda>_. 0)"
    and "\<And>va. pte_at s1 pgdir va = (if vpn va = p then user_pte v else pte_at s pgdir va)"
    and "fresh_map pgdir (insert v D) (Suc p) vs s1 s'"
  shows "fresh_map pgdir D p (v # vs) s s'"
proof -
  have f: "distinct vs" "vm_frame (insert v D) s1 s'"
    "\<And>u. u \<in> set vs \<Longrightarrow> u \<noteq> v \<and> u \<notin> D \<and> free_page (link s1) u \<and> mem s' u = (\<lambda>_. 0)"
    "\<And>va. pte_at s' pgdir va = (if Suc p \<le> vpn va \<and> vpn va < Suc p + length vs
        then user_pte (vs ! (vpn va - Suc p)) else pte_at s1 pgdir va)"
    using assms(6) by (auto simp: fresh_map_def)
  have "vm_frame D s1 s'" using f(2) by (rule ptn_frame_mono) auto
  then have fr: "vm_frame D s s'" using assms(1) vm_frame_trans by blast
  have zero: "mem s' v = (\<lambda>_. 0)" using f(2) assms(4) by (simp add: vm_frame_def)
  have link: "link s1 = link s" using vm_frame_fields(1) [OF assms(1)] .
  have "pte_at s' pgdir va = (if p \<le> vpn va \<and> vpn va < p + length (v # vs)
      then user_pte ((v # vs) ! (vpn va - p)) else pte_at s pgdir va)" for va
    by (cases "vpn va = p") (auto simp: f(4) assms(5) nth_Cons' Suc_le_eq)
  then show ?thesis
    unfolding fresh_map_def using f(1,3) fr zero assms(2,3) link by auto
qed

lemma map_one:
  assumes "vm_inv pgdir D s fl" "a mod 4096 = 0" "\<not> present (pte_at s pgdir a)"
  obtains (ok) s' fl' where "mappages pgdir a 4096 pa perm s = Some (0, s')" "vm_inv pgdir D s' fl'"
      "vm_frame D s s'" "suffix fl' fl" "length fl \<le> Suc (length fl')"
      "\<And>va. pte_at s' pgdir va = (if vpn va = vpn a then pa OR perm OR 1 else pte_at s pgdir va)"
  | (fail) s' where "mappages pgdir a 4096 pa perm s = Some (-1, s')" "vm_inv pgdir D s' []" "fl = []"
      "vm_frame D s s'" "\<And>va. pte_at s' pgdir va = pte_at s pgdir va"
proof (rule mappages_ok [OF assms(1,2), of 1 pa perm])
  show "vpn a + 1 \<le> 2 ^ 20" using vpn_less [of a] by simp
  show "\<not> present (pte_at s pgdir va')" if "vpn a \<le> vpn va'" "vpn va' < vpn a + 1" for va'
    using that assms(3) pte_at_cong [of va' a s pgdir] by simp
next
  fix k s' fl'
  assume k: "mappages pgdir a (of_nat (4096 * 1)) pa perm s = Some (if k = 1 then 0 else - 1, s')" "k \<le> 1"
    "vm_inv pgdir D s' fl'" "vm_frame D s s'" "suffix fl' fl" "length fl \<le> length fl' + k"
    "1 \<le> length fl \<Longrightarrow> k = 1" "\<And>va'. pte_at s' pgdir va' = mapped a pa perm k (pte_at s pgdir) va'"
  show thesis
  proof (cases "k = 1")
    case True
    then have "pte_at s' pgdir va = (if vpn va = vpn a then pa OR perm OR 1 else pte_at s pgdir va)" for va
      using k(8) [of va] by (auto simp: mapped_def less_Suc_eq_le)
    then show thesis using k True by (intro ok [of s' fl']) simp_all
  next
    case False
    then have "k = 0" "fl = []" using k(2,7) by (cases fl; simp)+
    then show thesis using k by (intro fail [of s']) (auto simp: mapped_def)
  qed
qed simp_all

text \<open>The two ways the loop of \<open>allocuvm\<close> gives up.\<close>

definition alloc_fail :: "uint \<Rightarrow> uint \<Rightarrow> uint \<Rightarrow> uint option \<Rightarrow> kernel \<Rightarrow> (uint \<times> kernel) option" where
  "alloc_fail pgdir oldsz newsz pg s = do {
     (_, s) \<leftarrow> deallocuvm pgdir newsz oldsz s;
     s \<leftarrow> (case pg of None \<Rightarrow> Some s | Some pg \<Rightarrow> kfree pg s);
     Some (0, s)
   }"

lemma alloc_loop:
  assumes "vm_inv pgdir D s fl" "a mod 4096 = 0" "pgs newsz \<le> 0x80000"
    and "\<And>p. vpn a \<le> p \<Longrightarrow> p < pgs newsz \<Longrightarrow> \<not> present (ptn s pgdir p)"
  shows "\<exists>vs s' fl'. fresh_map pgdir D (vpn a) vs s s' \<and> suffix fl' fl \<and> set vs \<subseteq> set fl \<and>
    ((vpn a + length vs = max (vpn a) (pgs newsz) \<and> vm_inv pgdir (set vs \<union> D) s' fl' \<and>
      allocuvm_loop pgdir a oldsz newsz s = Some (newsz, s')) \<or>
     (vpn a + length vs < pgs newsz \<and> length fl < 2 * (pgs newsz - vpn a) \<and> vm_inv pgdir (set vs \<union> D) s' [] \<and>
      allocuvm_loop pgdir a oldsz newsz s = alloc_fail pgdir oldsz newsz None s') \<or>
     (\<exists>v. vpn a + length vs < pgs newsz \<and> length fl < 2 * (pgs newsz - vpn a) \<and> vm_inv pgdir (insert v (set vs \<union> D)) s' [] \<and>
      v \<notin> set vs \<union> D \<and> free_page (link s) v \<and>
      allocuvm_loop pgdir a oldsz newsz s = alloc_fail pgdir oldsz newsz (Some v) s'))"
  using assms
proof (induction "pgs newsz - vpn a" arbitrary: a s fl D)
  case 0
  then have "\<not> a < newsz" by (simp add: less_pgs)
  then have "allocuvm_loop pgdir a oldsz newsz s = Some (newsz, s)" by (subst allocuvm_loop.simps) simp
  then show ?case
    using 0 by (intro exI [of _ "[]"] exI [of _ s] exI [of _ fl]) (auto intro: fresh_map_Nil)
next
  case (Suc n)
  have hi: "vpn a < pgs newsz" and lt: "a < newsz" using Suc.hyps(2) Suc.prems(2) by (simp_all add: less_pgs)
  have na: "\<not> present (pte_at s pgdir a)" using Suc.prems(4) hi by (simp add: pte_at_ptn)
  show ?case
  proof (cases fl)
    case Nil
    note none = kalloc_none [OF Suc.prems(1) [unfolded Nil]]
    have "allocuvm_loop pgdir a oldsz newsz s = alloc_fail pgdir oldsz newsz None (s\<lparr>mach := kmem_settle s\<rparr>)"
      using lt none(1) by (subst allocuvm_loop.simps) (simp add: alloc_fail_def)
    then show ?thesis
      using none hi Nil by (intro exI [of _ "[]"] exI [of _ "s\<lparr>mach := kmem_settle s\<rparr>"] exI [of _ "[]"])
        (auto intro: fresh_map_Nil)
  next
    case (Cons v fl1)
    note inv = Suc.prems(1) [unfolded Cons]
    define s1 where "s1 = taken v (\<lambda>_. 0) s"
    note tk = taken_inv [OF inv, where c = "\<lambda>_. 0", folded s1_def] head_free [OF inv]
    obtain s0 where s0: "kalloc s = Some (v, s0)" "memset_page v 0 s0 = s1"
      using kalloc_taken [OF vm_invD(1) [OF inv]] s1_def by blast
    have na1: "\<not> present (pte_at s1 pgdir a)" using na tk(3) by simp
    from tk(1) Suc.prems(2) na1 show ?thesis
    proof (cases rule: map_one [where pa = "V2P v" and perm = "2 OR 4"])
      case (fail s2)
      then have "allocuvm_loop pgdir a oldsz newsz s = alloc_fail pgdir oldsz newsz (Some v) s2"
        using lt s0 tk(6) by (subst allocuvm_loop.simps) (simp add: alloc_fail_def)
      moreover have "vm_frame D s s2" using tk(2) ptn_frame_mono [OF fail(4)] vm_frame_trans by blast
      ultimately show ?thesis
        using fail tk hi Cons by (intro exI [of _ "[]"] exI [of _ s2] exI [of _ "[]"]) (auto intro: fresh_map_Nil)
    next
      case (ok s2 fl2)
      have va: "vpn (a + 4096) = Suc (vpn a)" "(a + 4096) mod 4096 = 0"
        using vpn_add(1) [of a 1] Suc.prems(2,3) hi add_mod_page [of 4096 a] by simp_all
      have loop: "allocuvm_loop pgdir a oldsz newsz s = allocuvm_loop pgdir (a + 4096) oldsz newsz s2"
        using lt s0 tk(6) ok(1) by (subst allocuvm_loop.simps) simp
      have fr: "vm_frame D s s2" using tk(2) ptn_frame_mono [OF ok(3)] vm_frame_trans by blast
      have zero: "mem s2 v = (\<lambda>_. 0)" using ok(3) tk(4) by (simp add: vm_frame_def)
      have link: "link s2 = link s" using vm_frame_fields(1) [OF fr] .
      have np: "\<not> present (ptn s2 pgdir p)" if "Suc (vpn a) \<le> p" "p < pgs newsz" for p
        using that Suc.prems(3,4) ok(6) [of "of_nat (4096 * p)"] tk(3) by (simp add: ptn_def del: of_nat_mult)
      have fm: "fresh_map pgdir D (vpn a) (v # vs) s s'" if "fresh_map pgdir (insert v D) (Suc (vpn a)) vs s2 s'" for vs s'
        using fr tk(5,7) zero ok(6) tk(3) that by (intro fresh_map_Cons [where ?s1.0 = s2]) simp_all
      have suf: "suffix fl' fl" if "suffix fl' fl2" for fl'
        using that ok(4) Cons by (meson suffix_ConsI suffix_order.trans)
      have "\<exists>vs s' fl'. fresh_map pgdir (insert v D) (Suc (vpn a)) vs s2 s' \<and> suffix fl' fl2 \<and> set vs \<subseteq> set fl2 \<and>
        ((Suc (vpn a) + length vs = max (Suc (vpn a)) (pgs newsz) \<and> vm_inv pgdir (set vs \<union> insert v D) s' fl' \<and>
          allocuvm_loop pgdir (a + 4096) oldsz newsz s2 = Some (newsz, s')) \<or>
         (Suc (vpn a) + length vs < pgs newsz \<and> length fl2 < 2 * (pgs newsz - Suc (vpn a)) \<and> vm_inv pgdir (set vs \<union> insert v D) s' [] \<and>
          allocuvm_loop pgdir (a + 4096) oldsz newsz s2 = alloc_fail pgdir oldsz newsz None s') \<or>
         (\<exists>w. Suc (vpn a) + length vs < pgs newsz \<and> length fl2 < 2 * (pgs newsz - Suc (vpn a)) \<and> vm_inv pgdir (insert w (set vs \<union> insert v D)) s' [] \<and>
          w \<notin> set vs \<union> insert v D \<and> free_page (link s2) w \<and>
          allocuvm_loop pgdir (a + 4096) oldsz newsz s2 = alloc_fail pgdir oldsz newsz (Some w) s'))"
        using Suc.hyps(2) va np Suc.prems(3) by (intro Suc.hyps(1) [of "a + 4096", unfolded va(1)] ok(2)) simp_all
      then obtain vs s' fl' where r: "fresh_map pgdir (insert v D) (Suc (vpn a)) vs s2 s'" "suffix fl' fl2"
        "set vs \<subseteq> set fl2" "(Suc (vpn a) + length vs = max (Suc (vpn a)) (pgs newsz) \<and> vm_inv pgdir (set vs \<union> insert v D) s' fl' \<and>
          allocuvm_loop pgdir (a + 4096) oldsz newsz s2 = Some (newsz, s')) \<or>
         (Suc (vpn a) + length vs < pgs newsz \<and> length fl2 < 2 * (pgs newsz - Suc (vpn a)) \<and> vm_inv pgdir (set vs \<union> insert v D) s' [] \<and>
          allocuvm_loop pgdir (a + 4096) oldsz newsz s2 = alloc_fail pgdir oldsz newsz None s') \<or>
         (\<exists>w. Suc (vpn a) + length vs < pgs newsz \<and> length fl2 < 2 * (pgs newsz - Suc (vpn a)) \<and> vm_inv pgdir (insert w (set vs \<union> insert v D)) s' [] \<and>
          w \<notin> set vs \<union> insert v D \<and> free_page (link s2) w \<and>
          allocuvm_loop pgdir (a + 4096) oldsz newsz s2 = alloc_fail pgdir oldsz newsz (Some w) s')"
        by blast
      have D: "set (v # vs) \<union> D = set vs \<union> insert v D" by auto
      have sub: "set (v # vs) \<subseteq> set fl" using r(3) set_mono_suffix [OF ok(4)] Cons by auto
      have len: "length fl < 2 * (pgs newsz - vpn a)" if "length fl2 < 2 * (pgs newsz - Suc (vpn a))"
        using that ok(5) Cons by simp
      show ?thesis
        unfolding loop
        by (rule exI [of _ "v # vs"], rule exI [of _ s'], rule exI [of _ fl'], unfold D)
          (use r(4) fm [OF r(1)] suf [OF r(2)] hi link sub len in auto)
    qed
  qed
qed

lemma user_pte:
  assumes "v mod 4096 = 0"
  shows "present (user_pte v)" "P2V (PTE_ADDR (user_pte v)) = v" "user_pte v AND 4 \<noteq> 0"
proof -
  have "PTE_ADDR (V2P v OR 7) = V2P v" using assms by (intro PTE_ADDR_or) simp_all
  then show "P2V (PTE_ADDR (user_pte v)) = v" by simp
  have "bit (user_pte v AND 1) 0" by (simp add: bit_simps)
  then show "present (user_pte v)" by auto
  have "bit (4 :: uint) 2" by (simp add: bit_numeral_rec)
  then have "bit (user_pte v AND 4) 2" by (simp add: bit_simps)
  then show "user_pte v AND 4 \<noteq> 0" by auto
qed

lemma pgs_roundup:
  assumes "unat sz \<le> 0x80000000"
  shows "vpn (PGROUNDUP sz) = pgs sz" "PGROUNDUP sz mod 4096 = 0"
proof -
  have "unat (PGROUNDUP sz) = (unat sz + 4095) div 4096 * 4096" using assms by (simp add: unat_roundup)
  then show "vpn (PGROUNDUP sz) = pgs sz" "PGROUNDUP sz mod 4096 = 0"
    by (simp_all add: vpn_def pgs_def unat_mod_page)
qed

lemma pgs_mono: "unat a \<le> unat b \<Longrightarrow> pgs a \<le> pgs b"
  unfolding pgs_def by (intro div_le_mono) simp

lemma pgs_bound: "unat sz \<le> 0x80000000 \<Longrightarrow> pgs sz \<le> 0x80000"
proof -
  assume "unat sz \<le> 0x80000000"
  then have "(unat sz + 4095) div 4096 \<le> (0x80000000 + 4095) div 4096" by (intro div_le_mono) simp
  then show ?thesis by (simp add: pgs_def)
qed

text \<open>Undoing a partial growth brings back the table and frees the pages.\<close>

lemma fresh_map_undo:
  assumes "fresh_map pgdir D (pgs oldsz) vs s s'" "vm_inv pgdir E s' fl" "set vs \<union> D \<subseteq> E"
    and "pgs oldsz + length vs \<le> pgs newsz" "oldsz < newsz" "newsz < 0x80000000"
    and "\<And>p. pgs oldsz \<le> p \<Longrightarrow> p < pgs newsz \<Longrightarrow> \<not> present (ptn s pgdir p)"
  obtains t ps where "deallocuvm pgdir newsz oldsz s' = Some (oldsz, t)" "vm_inv pgdir (E - set vs) t (ps @ fl)"
    "set ps = set vs" "vm_frame (E - set vs) s' t"
    "\<And>va. pte_at t pgdir va = (if pgs oldsz \<le> vpn va \<and> vpn va < pgs oldsz + length vs then 0 else pte_at s pgdir va)"
proof -
  let ?lo = "pgs oldsz" and ?hi = "pgs newsz"
  have un: "unat oldsz \<le> 0x80000000" "unat newsz \<le> 0x80000000"
    using assms(5,6) by (auto simp: word_less_nat_alt)
  have bound: "?hi \<le> 0x80000" using pgs_bound [OF un(2)] .
  note r = pgs_roundup [OF un(1)]
  have f: "distinct vs" "\<And>v. v \<in> set vs \<Longrightarrow> v \<notin> D \<and> free_page (link s) v"
    "\<And>va. pte_at s' pgdir va = (if ?lo \<le> vpn va \<and> vpn va < ?lo + length vs then user_pte (vs ! (vpn va - ?lo))
        else pte_at s pgdir va)" and link: "link s' = link s"
    using assms(1) vm_frame_fields(1) [of D s s'] by (auto simp: fresh_map_def)
  have al: "v mod 4096 = 0" if "v \<in> set vs" for v using f(2) [OF that] by (simp add: free_page_def)
  have pt: "ptn s' pgdir p = (if ?lo \<le> p \<and> p < ?lo + length vs then user_pte (vs ! (p - ?lo)) else ptn s pgdir p)"
    if "p < 2 ^ 20" for p
    unfolding ptn_def f(3) vpn_page [OF that] ..
  have small: "p < 2 ^ 20" if "p < ?hi" for p using that bound by simp
  have in_range: "?lo \<le> p \<and> p < ?lo + length vs" "present (ptn s' pgdir p)" "dpage s' pgdir p = vs ! (p - ?lo)"
    "vs ! (p - ?lo) \<in> set vs" if "?lo \<le> p" "p < ?hi" "present (ptn s' pgdir p)" for p
  proof -
    show rng: "?lo \<le> p \<and> p < ?lo + length vs"
      using that assms(7) [OF that(1,2)] pt [OF small [OF that(2)]] by (auto split: if_splits)
    then show mem: "vs ! (p - ?lo) \<in> set vs" by (intro nth_mem) linarith
    show "dpage s' pgdir p = vs ! (p - ?lo)"
      unfolding dpage_def pt [OF small [OF that(2)]] using rng user_pte(2) [OF al [OF mem]] by simp
  qed (rule that(3))
  have "owns s' pgdir E ?lo ?hi"
    unfolding owns_def link
  proof (intro allI impI)
    fix p assume p: "?lo \<le> p" "p < ?hi" "present (ptn s' pgdir p)"
    note i = in_range [OF p]
    have "dpage s' pgdir q \<noteq> dpage s' pgdir p" if q: "?lo \<le> q" "q < ?hi" "q \<noteq> p" "present (ptn s' pgdir q)" for q
    proof -
      have "p - ?lo < length vs" "q - ?lo < length vs" "q - ?lo \<noteq> p - ?lo"
        using i(1) in_range(1) [OF q(1,2,4)] q(3) by linarith+
      then show ?thesis unfolding i(3) in_range(3) [OF q(1,2,4)] using f(1) by (simp add: nth_eq_iff_index_eq)
    qed
    then show "dpage s' pgdir p \<in> E \<and> free_page (link s) (dpage s' pgdir p) \<and>
        (\<forall>q. ?lo \<le> q \<longrightarrow> q < ?hi \<longrightarrow> q \<noteq> p \<longrightarrow> present (ptn s' pgdir q) \<longrightarrow> dpage s' pgdir q \<noteq> dpage s' pgdir p)"
      using i(3,4) f(2) assms(3) by auto
  qed
  then have "\<exists>t ps. deallocuvm_loop pgdir (PGROUNDUP oldsz) newsz s' = Some t \<and> vm_inv pgdir (E - set ps) t (ps @ fl) \<and>
      set ps = data_pages s' pgdir ?lo ?hi \<and> vm_frame (E - set ps) s' t \<and>
      (\<forall>va. pte_at t pgdir va = unmapped ?lo ?hi (ptn s' pgdir) (vpn va))"
    using dealloc_loop [OF assms(2) r(2) bound] unfolding r(1) by blast
  moreover have "data_pages s' pgdir ?lo ?hi = set vs"
  proof
    show "data_pages s' pgdir ?lo ?hi \<subseteq> set vs" using in_range by (auto simp: data_pages_def)
    show "set vs \<subseteq> data_pages s' pgdir ?lo ?hi"
    proof
      fix v assume "v \<in> set vs"
      then obtain i where i: "i < length vs" "v = vs ! i" by (auto simp: in_set_conv_nth)
      then have hi: "?lo + i < ?hi" using assms(4) by simp
      then have "present (ptn s' pgdir (?lo + i))"
        using pt [OF small [OF hi]] i user_pte(1) [OF al] by simp
      then show "v \<in> data_pages s' pgdir ?lo ?hi"
        unfolding data_pages_def using hi in_range(3) [of "?lo + i"] i(2)
        by (intro image_eqI [of _ _ "?lo + i"]) auto
    qed
  qed
  ultimately obtain t ps where t: "deallocuvm_loop pgdir (PGROUNDUP oldsz) newsz s' = Some t"
    "vm_inv pgdir (E - set vs) t (ps @ fl)" "set ps = set vs" "vm_frame (E - set vs) s' t"
    "\<And>va. pte_at t pgdir va = unmapped ?lo ?hi (ptn s' pgdir) (vpn va)"
    by auto
  have "pte_at t pgdir va = (if ?lo \<le> vpn va \<and> vpn va < ?lo + length vs then 0 else pte_at s pgdir va)" for va
    unfolding t(5) unmapped_def pt [OF vpn_less] using assms(4) assms(7) [of "vpn va"] user_pte(1) [OF al]
    by (auto simp: pte_at_ptn)
  moreover have "deallocuvm pgdir newsz oldsz s' = Some (oldsz, t)"
    using assms(5) t(1) by (auto simp: deallocuvm_def)
  ultimately show thesis using t(2-4) by (intro that [of t ps]) simp_all
qed

lemma allocuvm_eq:
  assumes "vm_inv pgdir D s fl" "oldsz \<le> newsz" "newsz < 0x80000000"
    and "\<And>p. pgs oldsz \<le> p \<Longrightarrow> p < pgs newsz \<Longrightarrow> \<not> present (ptn s pgdir p)"
  shows "(\<exists>vs s' fl'. allocuvm pgdir oldsz newsz s = Some (newsz, s') \<and> vm_inv pgdir (set vs \<union> D) s' fl' \<and>
      length vs = pgs newsz - pgs oldsz \<and> set vs \<subseteq> set fl \<and> fresh_map pgdir D (pgs oldsz) vs s s') \<or>
    (\<exists>s' fl'. allocuvm pgdir oldsz newsz s = Some (0, s') \<and> vm_inv pgdir D s' fl' \<and> vm_frame D s s' \<and>
      length fl < 2 * (pgs newsz - pgs oldsz) \<and>
      (\<forall>va. if pgs oldsz \<le> vpn va \<and> vpn va < pgs newsz then \<not> present (pte_at s' pgdir va)
        else pte_at s' pgdir va = pte_at s pgdir va))"
proof -
  have un: "unat oldsz \<le> 0x80000000" "unat newsz \<le> 0x80000000" "unat oldsz \<le> unat newsz"
    using assms(2,3) by (auto simp: word_less_nat_alt word_le_nat_alt)
  note r = pgs_roundup [OF un(1)]
  let ?lo = "pgs oldsz" and ?hi = "pgs newsz" and ?loop = "allocuvm_loop pgdir (PGROUNDUP oldsz) oldsz newsz s"
  have top: "allocuvm pgdir oldsz newsz s = ?loop" using assms(2,3) by (auto simp: allocuvm_def)
  have undo: "\<exists>s' fl'. alloc_fail pgdir oldsz newsz pg s1 = Some (0, s') \<and> vm_inv pgdir D s' fl' \<and> vm_frame D s s' \<and>
      (\<forall>va. if ?lo \<le> vpn va \<and> vpn va < ?hi then \<not> present (pte_at s' pgdir va)
        else pte_at s' pgdir va = pte_at s pgdir va)"
    if f: "fresh_map pgdir D ?lo vs s s1" "?lo + length vs < ?hi"
      "vm_inv pgdir (set_option pg \<union> (set vs \<union> D)) s1 []" "set_option pg \<inter> (set vs \<union> D) = {}"
      "\<forall>v \<in> set_option pg. free_page (link s) v" for vs s1 pg
  proof -
    have old: "oldsz < newsz"
      using pgs_mono [of newsz oldsz] f(2) by (auto simp: word_less_nat_alt not_le [symmetric])
    have disj: "set vs \<inter> D = {}" "vm_frame D s s1" using f(1) by (auto simp: fresh_map_def)
    obtain t ps where t: "deallocuvm pgdir newsz oldsz s1 = Some (oldsz, t)"
      "vm_inv pgdir (set_option pg \<union> (set vs \<union> D) - set vs) t (ps @ [])"
      "vm_frame (set_option pg \<union> (set vs \<union> D) - set vs) s1 t"
      "\<And>va. pte_at t pgdir va = (if ?lo \<le> vpn va \<and> vpn va < ?lo + length vs then 0 else pte_at s pgdir va)"
      by (rule fresh_map_undo [OF f(1,3) _ _ old assms(3,4)]) (use f(2) in auto)
    have E: "set_option pg \<union> (set vs \<union> D) - set vs = set_option pg \<union> D" using disj(1) f(4) by auto
    have inv: "vm_inv pgdir (set_option pg \<union> D) t ps" and fr: "vm_frame D s t"
      using t(2) vm_frame_trans [OF disj(2) ptn_frame_mono [OF t(3)]] unfolding E by auto
    have pte: "if ?lo \<le> vpn va \<and> vpn va < ?hi then \<not> present (pte_at t pgdir va)
        else pte_at t pgdir va = pte_at s pgdir va" for va
      using assms(4) [of "vpn va"] f(2) t(4) [of va] pte_at_ptn [of s pgdir va] by auto
    show ?thesis
    proof (cases pg)
      case None
      then show ?thesis using t(1) inv fr pte by (auto simp: alloc_fail_def)
    next
      case (Some v)
      then have v: "v \<in> insert v D" "free_page (link t) v" "insert v D - {v} = D"
        using f(4,5) vm_frame_fields(1) [OF fr] by auto
      note fi = freed_inv [OF inv [unfolded Some, simplified] v(1,2), unfolded v(3)]
      have "alloc_fail pgdir oldsz newsz pg s1 = Some (0, freed v t)"
        using t(1) Some kfree_eq [OF vm_invD(1) [OF inv] v(2)] by (simp add: alloc_fail_def)
      then show ?thesis using fi(1) vm_frame_trans [OF fr fi(2)] pte fi(3) by auto
    qed
  qed
  from alloc_loop [OF assms(1) r(2) pgs_bound [OF un(2)], unfolded r(1), OF assms(4), of oldsz]
  obtain vs s1 fl' where l: "fresh_map pgdir D ?lo vs s s1" "set vs \<subseteq> set fl"
    "(?lo + length vs = max ?lo ?hi \<and> vm_inv pgdir (set vs \<union> D) s1 fl' \<and> ?loop = Some (newsz, s1)) \<or>
     (?lo + length vs < ?hi \<and> length fl < 2 * (?hi - ?lo) \<and> vm_inv pgdir (set vs \<union> D) s1 [] \<and>
      ?loop = alloc_fail pgdir oldsz newsz None s1) \<or>
     (\<exists>v. ?lo + length vs < ?hi \<and> length fl < 2 * (?hi - ?lo) \<and> vm_inv pgdir (insert v (set vs \<union> D)) s1 [] \<and>
      v \<notin> set vs \<union> D \<and> free_page (link s) v \<and> ?loop = alloc_fail pgdir oldsz newsz (Some v) s1)"
    by blast
  from l(3) show ?thesis
  proof (elim disjE exE conjE)
    assume "?lo + length vs = max ?lo ?hi" "vm_inv pgdir (set vs \<union> D) s1 fl'" "?loop = Some (newsz, s1)"
    then show ?thesis using l(1,2) pgs_mono [OF un(3)] unfolding top by (intro disjI1 exI [of _ vs]) auto
  next
    assume "?lo + length vs < ?hi" "length fl < 2 * (?hi - ?lo)" "vm_inv pgdir (set vs \<union> D) s1 []"
      "?loop = alloc_fail pgdir oldsz newsz None s1"
    then show ?thesis using undo [OF l(1), of None] unfolding top by auto
  next
    fix v
    assume "?lo + length vs < ?hi" "length fl < 2 * (?hi - ?lo)" "vm_inv pgdir (insert v (set vs \<union> D)) s1 []"
      "v \<notin> set vs \<union> D" "free_page (link s) v" "?loop = alloc_fail pgdir oldsz newsz (Some v) s1"
    then show ?thesis using undo [OF l(1), of "Some v"] unfolding top by auto
  qed
qed

section \<open>Bytes\<close>

lemma byte_put_same: "k < 4 \<Longrightarrow>
    ucast (drop_bit (8 * k) ((w AND NOT (push_bit (8 * k) 0xFF)) OR push_bit (8 * k) (ucast b)) :: uint) = (b :: 8 word)"
  for w :: uint
proof -
  assume k: "k < 4"
  have m: "(0xFF :: uint) = mask 8" by (simp add: mask_eq_exp_minus_1)
  show ?thesis
    unfolding m using k by (intro bit_word_eqI) (auto simp: bit_simps)
qed

lemma byte_put_other: "k < 4 \<Longrightarrow> j < 4 \<Longrightarrow> j \<noteq> k \<Longrightarrow>
    ucast (drop_bit (8 * j) ((w AND NOT (push_bit (8 * k) 0xFF)) OR push_bit (8 * k) (ucast (b :: 8 word))) :: uint) =
    (ucast (drop_bit (8 * j) w) :: 8 word)"
  for w :: uint
proof -
  assume k: "k < 4" "j < 4" "j \<noteq> k"
  have m: "(0xFF :: uint) = mask 8" by (simp add: mask_eq_exp_minus_1)
  show ?thesis
  proof (rule bit_word_eqI)
    fix n assume "n < LENGTH(8)"
    then have "n < 8" by simp
    then have "\<not> (8 * k \<le> 8 * j + n \<and> 8 * j + n - 8 * k < 8)" using k by arith
    then show "bit (ucast (drop_bit (8 * j) ((w AND NOT (push_bit (8 * k) 0xFF)) OR push_bit (8 * k) (ucast b)) :: uint) :: 8 word) n =
        bit (ucast (drop_bit (8 * j) w) :: 8 word) n"
      unfolding m by (auto simp: bit_simps dest: bit_imp_le_length)
  qed
qed

lemma mem_set_byte_other: "pg' \<noteq> pg \<Longrightarrow> mem (set_byte pg off b s) pg' = mem s pg'"
  by (simp add: set_byte_def set_word_def)

lemma get_set_byte:
  "get_byte pg' off' (set_byte pg off b s) = (if pg' = pg \<and> off' = off then b else get_byte pg' off' s)"
proof (cases "pg' = pg \<and> off' div 4 = off div 4")
  case True
  have lt: "off mod 4 < 4" "off' mod 4 < 4" by simp_all
  have "off' mod 4 = off mod 4 \<longleftrightarrow> off' = off" using True by (metis div_mult_mod_eq)
  then show ?thesis
    using True byte_put_same [OF lt(1)] byte_put_other [OF lt] by (simp add: get_byte_def set_byte_def set_word_def)
next
  case False
  then show ?thesis by (auto simp: get_byte_def set_byte_def set_word_def)
qed

lemma set_byte_frame: "pg \<notin> D \<Longrightarrow> vm_frame D s (set_byte pg off b s)"
  by (rule vm_frameI [where m = "mem (set_byte pg off b s)" and k = "kmem s" and h = "mach s"])
    (auto simp: set_byte_def set_word_def)

lemma put_bytes_frame: "pg \<notin> D \<Longrightarrow> vm_frame D s (put_bytes pg off bs s)"
proof (induction bs arbitrary: off s)
  case (Cons b bs)
  show ?case
    using vm_frame_trans [OF set_byte_frame [OF Cons.prems, of s off b] Cons.IH [OF Cons.prems, of "set_byte pg off b s" "Suc off"]]
    by simp
qed simp

lemma get_put_bytes:
  "get_byte pg' off' (put_bytes pg off bs s) =
     (if pg' = pg \<and> off \<le> off' \<and> off' < off + length bs then bs ! (off' - off) else get_byte pg' off' s)"
proof (induction bs arbitrary: off s)
  case (Cons b bs)
  then show ?case by (auto simp: get_set_byte nth_Cons' Suc_le_eq)
qed auto

lemma put_bytes_fields [simp]: "kmem (put_bytes pg off bs s) = kmem s" "mach (put_bytes pg off bs s) = mach s"
  "link (put_bytes pg off bs s) = link s"
  by (induction bs arbitrary: off s) (simp_all add: set_byte_def set_word_def)

text \<open>Writing to a page of \<open>D\<close> disturbs neither the table nor the free list.\<close>

lemma put_bytes_inv:
  assumes "vm_inv pgdir D s fl" "pg \<in> D"
  shows "vm_inv pgdir D (put_bytes pg off bs s) fl"
    and "pte_at (put_bytes pg off bs s) pgdir va = pte_at s pgdir va"
proof -
  note inv = vm_invD [OF assms(1)]
  let ?s = "put_bytes pg off bs s"
  have other: "mem ?s w = mem s w" if "w \<noteq> pg" for w
    using put_bytes_frame [of pg "{w}" s off bs] that by (auto simp: vm_frame_def)
  then have dir: "mem ?s pgdir = mem s pgdir" using inv(5) assms(2) by metis
  then have tab: "ptab ?s pgdir i = ptab s pgdir i" for i by (simp add: ptab_def)
  have "run_list (mem ?s) p fl = run_list (mem s) p fl" for p
  proof -
    have "run_list (mem ?s) p ws = run_list (mem s) p ws" if "pg \<notin> set ws" for ws
      using that other by (induction ws arbitrary: p) auto
    then show ?thesis using inv(3) assms(2) by blast
  qed
  then show "vm_inv pgdir D ?s fl"
    using assms(1) by (simp add: vm_inv_def kmem_ok_def pt_ok_def dir tab)
  have "mem ?s (ptab s pgdir (PDX va)) = mem s (ptab s pgdir (PDX va))" if "present (mem s pgdir (PDX va))"
    using pt_okD(1) [OF inv(2) PDX_less that] assms(2) by (intro other) auto
  then show "pte_at ?s pgdir va = pte_at s pgdir va" unfolding pte_at_def dir tab by simp
qed

section \<open>Copying to user memory\<close>

text \<open>The byte a process sees at address \<open>x\<close>.\<close>

definition user_byte :: "kernel \<Rightarrow> uint \<Rightarrow> nat \<Rightarrow> 8 word" where
  "user_byte s pgdir x = get_byte (dpage s pgdir (x div 4096)) (x mod 4096) s"

text \<open>Pages \<open>lo ..< hi\<close> are mapped for user access, to different pages of \<open>D\<close>.\<close>

definition user_mapped :: "kernel \<Rightarrow> uint \<Rightarrow> uint set \<Rightarrow> nat \<Rightarrow> nat \<Rightarrow> bool" where
  "user_mapped s pgdir D lo hi \<longleftrightarrow> inj_on (dpage s pgdir) {lo..<hi} \<and>
     (\<forall>p. lo \<le> p \<longrightarrow> p < hi \<longrightarrow> present (ptn s pgdir p) \<and> ptn s pgdir p AND 4 \<noteq> 0 \<and>
        dpage s pgdir p \<in> D \<and> dpage s pgdir p \<noteq> 0)"

lemma user_mappedD:
  assumes "user_mapped s pgdir D lo hi" "lo \<le> p" "p < hi"
  shows "present (ptn s pgdir p)" "ptn s pgdir p AND 4 \<noteq> 0" "dpage s pgdir p \<in> D" "dpage s pgdir p \<noteq> 0"
    "\<And>q. lo \<le> q \<Longrightarrow> q < hi \<Longrightarrow> dpage s pgdir q = dpage s pgdir p \<longleftrightarrow> q = p"
  using assms by (auto simp: user_mapped_def inj_on_def)

lemma uva2ka_mapped:
  assumes "present (pte_at s pgdir va)" "pte_at s pgdir va AND 4 \<noteq> 0"
  shows "uva2ka pgdir va s = Some (dpage s pgdir (vpn va), s)"
proof -
  have "present (mem s pgdir (PDX va))" using assms(1) by (auto simp: pte_at_def)
  then show ?thesis
    using assms by (simp add: uva2ka_def walk_noalloc get_pte_loc) (simp add: dpage_def pte_at_ptn)
qed

lemma unat_page_offset: "unat (va - PGROUNDDOWN va) = unat va mod 4096"
proof -
  have "unat (PGROUNDDOWN va) \<le> unat va" by (simp add: unat_rounddown)
  then have "unat (va - PGROUNDDOWN va) = unat va - unat (PGROUNDDOWN va)"
    by (simp add: unat_sub word_le_nat_alt)
  then show ?thesis by (simp add: unat_rounddown modulo_nat_def mult.commute)
qed

lemma unat_page_rest: "unat (0x1000 - (va - PGROUNDDOWN va)) = 4096 - unat va mod 4096"
proof -
  have "va - PGROUNDDOWN va \<le> 0x1000"
    unfolding word_le_nat_alt unat_page_offset using mod_less_divisor [of 4096 "unat va"] by simp
  then show ?thesis by (simp add: unat_sub unat_page_offset)
qed

lemma copyout_eq:
  assumes "vm_inv pgdir D s fl" "user_mapped s pgdir D (vpn va) hi" "hi \<le> 0x80000"
    and "unat va + length buf \<le> 4096 * hi"
  shows "\<exists>s'. copyout pgdir va buf s = Some (0, s') \<and> vm_inv pgdir D s' fl \<and>
    (\<forall>va'. pte_at s' pgdir va' = pte_at s pgdir va') \<and> vm_frame (D - dpage s pgdir ` {vpn va..<hi}) s s' \<and>
    (\<forall>x. vpn va \<le> x div 4096 \<longrightarrow> x div 4096 < hi \<longrightarrow>
       user_byte s' pgdir x = (if unat va \<le> x \<and> x < unat va + length buf then buf ! (x - unat va) else user_byte s pgdir x))"
  using assms
proof (induction "length buf" arbitrary: va buf s rule: less_induct)
  case less
  show ?case
  proof (cases "buf = []")
    case True
    then have "copyout pgdir va buf s = Some (0, s)" by (subst copyout.simps) simp
    then show ?thesis using less.prems(1) True by auto
  next
    case False
    let ?p = "vpn va" and ?off = "unat va mod 4096"
    define n where "n = min (4096 - ?off) (length buf)"
    define pg where "pg = dpage s pgdir ?p"
    define s1 where "s1 = put_bytes pg ?off (take n buf) s"
    define va1 where "va1 = PGROUNDDOWN va + 4096"
    have off: "?off < 4096" "unat va = 4096 * ?p + ?off" by (simp_all add: vpn_def)
    have n: "0 < n" "n \<le> length buf" "?off + n \<le> 4096" using off(1) False by (simp_all add: n_def)
    have len: "0 < length buf" using False by simp
    have phi: "?p < hi"
    proof (rule ccontr)
      assume "\<not> ?p < hi"
      then have "4096 * hi \<le> 4096 * ?p" by simp
      then show False using less.prems(4) off len by linarith
    qed
    note um = user_mappedD [OF less.prems(2) order_refl phi, folded pg_def]
    have u1: "unat va1 = 4096 * Suc ?p" "vpn va1 = Suc ?p"
    proof -
      have "vpn (PGROUNDDOWN va) + 1 < 2 ^ 20" using phi less.prems(3) by simp
      from vpn_add [OF this] show "unat va1 = 4096 * Suc ?p" "vpn va1 = Suc ?p"
        by (simp_all add: va1_def unat_rounddown vpn_def)
    qed
    have uva: "uva2ka pgdir (PGROUNDDOWN va) s = Some (pg, s)"
      unfolding pg_def vpn_rounddown [symmetric, of va]
      by (rule uva2ka_mapped) (use um in \<open>simp_all add: pte_at_ptn\<close>)
    have step: "copyout pgdir va buf s = copyout pgdir va1 (drop n buf) s1"
      using False uva um(4)
      by (subst copyout.simps)
        (simp add: unat_page_rest unat_page_offset Let_def s1_def va1_def n_def min_def not_le not_less)
    note pb = put_bytes_inv [OF less.prems(1) um(3), of ?off "take n buf", folded s1_def]
    have ptn1: "ptn s1 pgdir = ptn s pgdir" "dpage s1 pgdir = dpage s pgdir"
      using pb(2) by (simp_all add: ptn_def dpage_def fun_eq_iff)
    have um1: "user_mapped s1 pgdir D (vpn va1) hi"
      using less.prems(2) unfolding user_mapped_def ptn1 u1(2) by (auto intro: inj_on_subset)
    have "4096 * Suc ?p \<le> 4096 * hi" using phi by simp
    then have rest: "unat va1 + length (drop n buf) \<le> 4096 * hi" "length (drop n buf) < length buf"
      using less.prems(4) off(2) u1(1) n by (auto simp: n_def min_def split: if_splits)
    obtain s' where r: "copyout pgdir va1 (drop n buf) s1 = Some (0, s')" "vm_inv pgdir D s' fl"
        "\<And>va'. pte_at s' pgdir va' = pte_at s1 pgdir va'"
        "vm_frame (D - dpage s1 pgdir ` {vpn va1..<hi}) s1 s'"
        "\<And>x. vpn va1 \<le> x div 4096 \<Longrightarrow> x div 4096 < hi \<Longrightarrow> user_byte s' pgdir x =
          (if unat va1 \<le> x \<and> x < unat va1 + length (drop n buf) then drop n buf ! (x - unat va1) else user_byte s1 pgdir x)"
      using less.hyps [OF rest(2) pb(1) um1 less.prems(3) rest(1)] by blast
    have ptn': "ptn s' pgdir = ptn s pgdir" "dpage s' pgdir = dpage s pgdir"
      using r(3) ptn1 by (simp_all add: ptn_def dpage_def fun_eq_iff)
    have "dpage s pgdir q \<noteq> pg" if "q \<in> {Suc ?p..<hi}" for q using um(5) [of q] that by simp
    then have "pg \<notin> dpage s pgdir ` {Suc ?p..<hi}" by blast
    then have pg': "mem s' pg = mem s1 pg" using r(4) um(3) unfolding ptn1 u1(2) by (auto simp: vm_frame_def)
    have "vm_frame (D - dpage s pgdir ` {?p..<hi}) s s1"
      unfolding s1_def by (rule put_bytes_frame) (use phi pg_def in auto)
    moreover have "vm_frame (D - dpage s pgdir ` {?p..<hi}) s1 s'"
      by (rule ptn_frame_mono [OF r(4)]) (auto simp: ptn1 u1(2))
    ultimately have fr: "vm_frame (D - dpage s pgdir ` {?p..<hi}) s s'" by (rule vm_frame_trans)
    have bytes: "user_byte s' pgdir x =
        (if unat va \<le> x \<and> x < unat va + length buf then buf ! (x - unat va) else user_byte s pgdir x)"
      if x: "?p \<le> x div 4096" "x div 4096 < hi" for x
    proof (cases "x div 4096 = ?p")
      case True
      then have x': "x = 4096 * ?p + x mod 4096" by (metis mult_div_mod_eq)
      have "user_byte s' pgdir x = get_byte pg (x mod 4096) s1"
        using True pg' by (simp add: user_byte_def ptn' pg_def get_byte_def)
      also have "\<dots> = (if ?off \<le> x mod 4096 \<and> x mod 4096 < ?off + n then buf ! (x mod 4096 - ?off)
          else user_byte s pgdir x)"
        using True n(2) by (auto simp: s1_def get_put_bytes user_byte_def pg_def less_diff_conv2)
      also have "?off \<le> x mod 4096 \<and> x mod 4096 < ?off + n \<longleftrightarrow> unat va \<le> x \<and> x < unat va + length buf"
        using x' off(2) mod_less_divisor [of 4096 x] unfolding n_def by (auto simp: min_def)
      also have "x mod 4096 - ?off = x - unat va" using x' off(2) by linarith
      finally show ?thesis .
    next
      case False
      then have x': "Suc ?p \<le> x div 4096" using x(1) by simp
      then have "4096 * Suc ?p \<le> x" by (metis less_eq_div_iff_mult_less_eq mult.commute zero_less_numeral)
      moreover have "unat va \<le> 4096 * Suc ?p"
        using off(1) by (subst off(2)) simp
      ultimately have ge: "unat va1 \<le> x" "unat va \<le> x" using u1(1) by linarith+
      have same: "user_byte s1 pgdir x = user_byte s pgdir x"
        using um(5) [of "x div 4096"] x False unfolding user_byte_def ptn1(2)
        unfolding s1_def get_put_bytes by simp
      have "x < unat va1 + length (drop n buf) \<longleftrightarrow> x < unat va + length buf"
        using ge(1) u1(1) off unfolding n_def by (auto simp: min_def)
      moreover have "drop n buf ! (x - unat va1) = buf ! (x - unat va)" if "x < unat va + length buf"
      proof -
        have "n = 4096 - ?off" using that ge(1) u1(1) off by (auto simp: n_def min_def)
        then have "n + (x - unat va1) = x - unat va" using ge u1(1) off by simp
        then show ?thesis using n(2) by simp
      qed
      ultimately show ?thesis using r(5) [of x] x' x(2) ge same by (simp add: u1(2))
    qed
    show ?thesis
      unfolding step using r(1-3) pb(2) fr bytes by auto
  qed
qed

section \<open>Properties\<close>

text \<open>
  \<open>mappages\<close> of \<open>n\<close> pages none of which is mapped either returns 0 and has
  installed the \<open>n\<close> consecutive translations with the requested permissions, or returns -1,
  which happens only when fewer than \<open>n\<close> pages are free, and has then installed a proper
  prefix of them.  In both cases every other translation of the address space and all memory
  that belongs to somebody else are unchanged.
\<close>

theorem mappages_installs:
  assumes "vm_inv pgdir D s fl" "va mod 4096 = 0" "0 < n" "vpn va + n \<le> 2 ^ 20"
    and "\<And>va'. vpn va \<le> vpn va' \<Longrightarrow> vpn va' < vpn va + n \<Longrightarrow> \<not> present (pte_at s pgdir va')"
  shows "\<exists>k s' fl'. mappages pgdir va (of_nat (4096 * n)) pa perm s = Some (if k = n then 0 else -1, s') \<and>
    k \<le> n \<and> (n \<le> length fl \<longrightarrow> k = n) \<and> vm_inv pgdir D s' fl' \<and> vm_frame D s s' \<and>
    (\<forall>va'. pte_at s' pgdir va' = mapped va pa perm k (pte_at s pgdir) va')"
proof (rule mappages_ok [OF assms, of pa perm], assumption)
  fix k s' fl'
  assume "mappages pgdir va (of_nat (4096 * n)) pa perm s = Some (if k = n then 0 else -1, s')"
    "k \<le> n" "n \<le> length fl \<Longrightarrow> k = n" "vm_inv pgdir D s' fl'" "vm_frame D s s'"
    "\<And>va'. pte_at s' pgdir va' = mapped va pa perm k (pte_at s pgdir) va'"
  then show ?thesis by (intro exI [of _ k] exI [of _ s'] exI [of _ fl']) simp
qed

text \<open>Three free pages and an empty page directory, for witnesses.\<close>

lemma three_free_vm: "vm_inv 0x80300000 {} three_free [0x80200000, 0x80201000, 0x80202000]"
  "pte_at three_free 0x80300000 va = 0" "ptn three_free 0x80300000 p = 0"
  using three_free_ok
  by (simp_all add: vm_inv_def pt_ok_def pte_at_def ptn_def three_free_def kernel0_def)

theorem mappages_installs_witness:
  "\<exists>s'. mappages 0x80300000 0x5000 8192 0x900000 6 three_free = Some (0, s') \<and>
     pte_at s' 0x80300000 0x6010 = 0x901007"
proof -
  have v: "vpn 0x5000 = 5" "vpn 0x6010 = 6" by (simp_all add: vpn_def)
  show ?thesis
    using mappages_installs [OF three_free_vm(1), of "0x5000" 2 "0x900000" 6]
    by (auto simp: three_free_vm v mapped_def)
qed

text \<open>
  Property C12.  \<open>allocuvm\<close> is all or nothing.  Growing an address space below \<open>KERNBASE\<close>
  whose new pages are not mapped yet either returns the new size, having mapped each new page
  to a zeroed page of its own taken from the free list, or returns 0, having left every
  translation of the old part as it was and none of the new part present.  The second outcome
  needs the free list to be shorter than two pages per new page.
\<close>

theorem allocuvm_all_or_nothing:
  assumes "vm_inv pgdir D s fl" "oldsz \<le> newsz" "newsz < KERNBASE"
    and "\<And>p. pgs oldsz \<le> p \<Longrightarrow> p < pgs newsz \<Longrightarrow> \<not> present (ptn s pgdir p)"
  shows "(\<exists>vs s' fl'. allocuvm pgdir oldsz newsz s = Some (newsz, s') \<and> vm_inv pgdir (set vs \<union> D) s' fl' \<and>
      length vs = pgs newsz - pgs oldsz \<and> set vs \<subseteq> set fl \<and> fresh_map pgdir D (pgs oldsz) vs s s') \<or>
    (\<exists>s' fl'. allocuvm pgdir oldsz newsz s = Some (0, s') \<and> vm_inv pgdir D s' fl' \<and> vm_frame D s s' \<and>
      length fl < 2 * (pgs newsz - pgs oldsz) \<and>
      (\<forall>va. if pgs oldsz \<le> vpn va \<and> vpn va < pgs newsz then \<not> present (pte_at s' pgdir va)
        else pte_at s' pgdir va = pte_at s pgdir va))"
  by (rule allocuvm_eq [OF assms])

lemma pgs_0 [simp]: "pgs 0 = 0" by (simp add: pgs_def)

lemma pgs_4096 [simp]: "pgs 4096 = 1" by (simp add: pgs_def)

theorem allocuvm_all_or_nothing_witness:
  "\<exists>v s' fl'. allocuvm 0x80300000 0 4096 three_free = Some (4096, s') \<and> vm_inv 0x80300000 {v} s' fl' \<and>
     pte_at s' 0x80300000 0x123 = user_pte v \<and> mem s' v 5 = 0"
proof -
  obtain vs s' fl' where r: "allocuvm 0x80300000 0 4096 three_free = Some (4096, s')"
      "vm_inv 0x80300000 (set vs) s' fl'" "length vs = 1" "fresh_map 0x80300000 {} 0 vs three_free s'"
    using allocuvm_all_or_nothing [OF three_free_vm(1), of 0 4096] by (auto simp: three_free_vm)
  then obtain v where "vs = [v]" by (auto simp: length_Suc_conv)
  with r have "pte_at s' 0x80300000 0x123 = user_pte v" "mem s' v 5 = 0" by (auto simp: fresh_map_def vpn_def)
  with r \<open>vs = [v]\<close> show ?thesis by auto
qed

text \<open>
  Property C21.  Shrinking undoes growing: after a successful \<open>allocuvm\<close>, \<open>deallocuvm\<close> back to
  the old size returns it, gives exactly the new pages back to the free list, and leaves every
  translation as it was before the growth (the new pages not present).
\<close>

theorem deallocuvm_undoes_allocuvm:
  assumes "vm_inv pgdir D s fl" "oldsz < newsz" "newsz < KERNBASE"
    and "\<And>p. pgs oldsz \<le> p \<Longrightarrow> p < pgs newsz \<Longrightarrow> \<not> present (ptn s pgdir p)"
    and "2 * (pgs newsz - pgs oldsz) \<le> length fl"
  shows "\<exists>s' vs t ps fl'. allocuvm pgdir oldsz newsz s = Some (newsz, s') \<and>
    deallocuvm pgdir newsz oldsz s' = Some (oldsz, t) \<and> vm_inv pgdir D t (ps @ fl') \<and>
    set ps = set vs \<and> length vs = pgs newsz - pgs oldsz \<and> fresh_map pgdir D (pgs oldsz) vs s s' \<and>
    vm_frame D s t \<and>
    (\<forall>va. if pgs oldsz \<le> vpn va \<and> vpn va < pgs newsz then \<not> present (pte_at t pgdir va)
       else pte_at t pgdir va = pte_at s pgdir va)"
proof -
  have "oldsz \<le> newsz" using assms(2) by simp
  then obtain vs s' fl' where r: "allocuvm pgdir oldsz newsz s = Some (newsz, s')" "vm_inv pgdir (set vs \<union> D) s' fl'"
      "length vs = pgs newsz - pgs oldsz" "fresh_map pgdir D (pgs oldsz) vs s s'"
    using allocuvm_eq [OF assms(1) _ assms(3,4)] assms(5) by fastforce
  have mono: "pgs oldsz \<le> pgs newsz"
    by (rule pgs_mono) (use assms(2) in \<open>simp add: word_less_nat_alt\<close>)
  then have len: "pgs oldsz + length vs = pgs newsz" using r(3) by simp
  have apart: "set vs \<union> D - set vs = D" using r(4) by (auto simp: fresh_map_def)
  obtain t ps where u: "deallocuvm pgdir newsz oldsz s' = Some (oldsz, t)" "vm_inv pgdir D t (ps @ fl')"
      "set ps = set vs" "vm_frame D s' t"
      "\<And>va. pte_at t pgdir va = (if pgs oldsz \<le> vpn va \<and> vpn va < pgs newsz then 0 else pte_at s pgdir va)"
    using fresh_map_undo [OF r(4,2) order_refl _ assms(2,3,4)] unfolding len apart by blast
  have "vm_frame D s t" using r(4) u(4) unfolding fresh_map_def by (blast intro: vm_frame_trans)
  then show ?thesis using r u by (intro exI conjI) (assumption | simp)+
qed

theorem deallocuvm_undoes_allocuvm_witness:
  "\<exists>s' t. allocuvm 0x80300000 0 4096 three_free = Some (4096, s') \<and>
     deallocuvm 0x80300000 4096 0 s' = Some (0, t) \<and> \<not> present (pte_at t 0x80300000 0x123)"
  using deallocuvm_undoes_allocuvm [OF three_free_vm(1), of 0 4096] three_free_vm(3)
  by (fastforce simp: vpn_def dest: spec [of _ "0x123"])

text \<open>
  Property C20.  \<open>copyout\<close> to a range of user pages that are mapped returns 0 with exactly the
  bytes of the buffer at the addresses \<open>va ..< va + len\<close>, page boundaries included: every other
  byte of those pages, every translation and all other memory stay the same.
\<close>

theorem copyout_writes_range:
  assumes "vm_inv pgdir D s fl" "user_mapped s pgdir D (vpn va) hi" "hi \<le> 0x80000"
    and "unat va + length buf \<le> 4096 * hi"
  shows "\<exists>s'. copyout pgdir va buf s = Some (0, s') \<and> vm_inv pgdir D s' fl \<and>
    (\<forall>va'. pte_at s' pgdir va' = pte_at s pgdir va') \<and> vm_frame (D - dpage s pgdir ` {vpn va..<hi}) s s' \<and>
    (\<forall>x. vpn va \<le> x div 4096 \<longrightarrow> x div 4096 < hi \<longrightarrow>
       user_byte s' pgdir x = (if unat va \<le> x \<and> x < unat va + length buf then buf ! (x - unat va) else user_byte s pgdir x))"
  by (rule copyout_eq [OF assms])

theorem copyout_writes_range_witness:
  "\<exists>s s'. allocuvm 0x80300000 0 4096 three_free = Some (4096, s) \<and>
     copyout 0x80300000 100 [1, 2, 3] s = Some (0, s') \<and>
     user_byte s' 0x80300000 101 = 2 \<and> user_byte s' 0x80300000 103 = user_byte s 0x80300000 103"
proof -
  obtain vs s fl' where r: "allocuvm 0x80300000 0 4096 three_free = Some (4096, s)"
      "vm_inv 0x80300000 (set vs) s fl'" "length vs = 1" "fresh_map 0x80300000 {} 0 vs three_free s"
    using allocuvm_eq [OF three_free_vm(1), of 0 4096] by (auto simp: three_free_vm)
  then obtain v where v: "vs = [v]" by (auto simp: length_Suc_conv)
  have fp: "free_page (link three_free) v" using r(4) v by (simp add: fresh_map_def)
  then have al: "v mod 4096 = 0" "v \<noteq> 0" by (auto simp: free_page_def three_free_def kernel0_def)
  have p: "ptn s 0x80300000 0 = user_pte v" using r(4) v by (simp add: fresh_map_def ptn_def vpn_def)
  have "user_mapped s 0x80300000 (set vs) 0 1"
    using user_pte [OF al(1)] al(2) v by (simp add: user_mapped_def p dpage_def)
  moreover have "vpn 100 = 0" by (simp add: vpn_def)
  ultimately show ?thesis
    using copyout_writes_range [OF r(2), of 100 1 "[1, 2, 3]"] r(1)
    by (auto dest: spec [of _ "101"] spec [of _ "103"])
qed

end
