(* ===== verification/CString.thy ===== *)
theory CString
  imports FsState
begin

text \<open>
  The memory and string functions of \<open>string.c\<close>, on a flat memory of bytes with 32-bit
  addresses that wrap around, and what they do to the strings and arrays stored there.
  The functions on lists at the end are what the other components use on arrays that are
  fields of records; here they are shown to be what the functions on memory compute.
\<close>

type_synonym bmem = "uint \<Rightarrow> byte"

section \<open>The functions\<close>

text \<open>\<open>stosb\<close> and \<open>stosl\<close> of \<open>x86.h\<close>: \<open>rep stosb\<close> and \<open>rep stosl\<close> with the direction flag clear.\<close>

primrec stosb :: "uint \<Rightarrow> byte \<Rightarrow> nat \<Rightarrow> bmem \<Rightarrow> bmem" where
  "stosb a c 0 m = m"
| "stosb a c (Suc n) m = stosb (a + 1) c n (m(a := c))"

definition store_long :: "uint \<Rightarrow> uint \<Rightarrow> bmem \<Rightarrow> bmem" where
  "store_long a w m = m(a := ucast w, a + 1 := ucast (drop_bit 8 w), a + 2 := ucast (drop_bit 16 w),
     a + 3 := ucast (drop_bit 24 w))"

primrec stosl :: "uint \<Rightarrow> uint \<Rightarrow> nat \<Rightarrow> bmem \<Rightarrow> bmem" where
  "stosl a w 0 m = m"
| "stosl a w (Suc n) m = stosl (a + 4) w n (store_long a w m)"

definition memset :: "uint \<Rightarrow> uint \<Rightarrow> uint \<Rightarrow> bmem \<Rightarrow> bmem" where
  "memset dst c n m =
     (if dst mod 4 = 0 \<and> n mod 4 = 0 then
        (let c = c AND 0xFF
         in stosl dst (push_bit 24 c OR push_bit 16 c OR push_bit 8 c OR c) (unat (n div 4)) m)
      else stosb dst (ucast c) (unat n) m)"

primrec memcmp_loop :: "uint \<Rightarrow> uint \<Rightarrow> nat \<Rightarrow> bmem \<Rightarrow> int" where
  "memcmp_loop s1 s2 0 m = 0"
| "memcmp_loop s1 s2 (Suc n) m =
     (if m s1 \<noteq> m s2 then uint (m s1) - uint (m s2) else memcmp_loop (s1 + 1) (s2 + 1) n m)"

definition memcmp :: "uint \<Rightarrow> uint \<Rightarrow> uint \<Rightarrow> bmem \<Rightarrow> int" where
  "memcmp v1 v2 n m = memcmp_loop v1 v2 (unat n) m"

primrec move_down :: "uint \<Rightarrow> uint \<Rightarrow> nat \<Rightarrow> bmem \<Rightarrow> bmem" where
  "move_down d s 0 m = m"
| "move_down d s (Suc n) m = move_down (d - 1) (s - 1) n (m(d - 1 := m (s - 1)))"

primrec move_up :: "uint \<Rightarrow> uint \<Rightarrow> nat \<Rightarrow> bmem \<Rightarrow> bmem" where
  "move_up d s 0 m = m"
| "move_up d s (Suc n) m = move_up (d + 1) (s + 1) n (m(d := m s))"

definition memmove :: "uint \<Rightarrow> uint \<Rightarrow> uint \<Rightarrow> bmem \<Rightarrow> bmem" where
  "memmove dst src n m =
     (if src < dst \<and> src + n > dst then move_down (dst + n) (src + n) (unat n) m
      else move_up dst src (unat n) m)"

definition memcpy :: "uint \<Rightarrow> uint \<Rightarrow> uint \<Rightarrow> bmem \<Rightarrow> bmem" where
  "memcpy dst src n m = memmove dst src n m"

primrec strncmp_loop :: "uint \<Rightarrow> uint \<Rightarrow> nat \<Rightarrow> bmem \<Rightarrow> int" where
  "strncmp_loop p q 0 m = 0"
| "strncmp_loop p q (Suc n) m =
     (if m p \<noteq> 0 \<and> m p = m q then strncmp_loop (p + 1) (q + 1) n m else uint (m p) - uint (m q))"

definition strncmp :: "uint \<Rightarrow> uint \<Rightarrow> uint \<Rightarrow> bmem \<Rightarrow> int" where
  "strncmp p q n m = strncmp_loop p q (unat n) m"

text \<open>The first loop of \<open>strncpy\<close>, then the one that fills up with zeros.\<close>

primrec strncpy_loop :: "uint \<Rightarrow> uint \<Rightarrow> nat \<Rightarrow> bmem \<Rightarrow> bmem" where
  "strncpy_loop s t 0 m = m"
| "strncpy_loop s t (Suc n) m =
     (let m' = m(s := m t)
      in if m t \<noteq> 0 then strncpy_loop (s + 1) (t + 1) n m' else stosb (s + 1) 0 n m')"

definition strncpy :: "uint \<Rightarrow> uint \<Rightarrow> int \<Rightarrow> bmem \<Rightarrow> bmem" where
  "strncpy s t n m = strncpy_loop s t (nat n) m"

text \<open>The loop of \<open>safestrcpy\<close> and the final \<open>*s = 0\<close>; \<open>n\<close> is the value \<open>--n\<close> tests.\<close>

primrec safestrcpy_loop :: "uint \<Rightarrow> uint \<Rightarrow> nat \<Rightarrow> bmem \<Rightarrow> bmem" where
  "safestrcpy_loop s t 0 m = m(s := 0)"
| "safestrcpy_loop s t (Suc n) m =
     (let m' = m(s := m t)
      in if m t \<noteq> 0 then safestrcpy_loop (s + 1) (t + 1) n m' else m'(s + 1 := 0))"

definition safestrcpy :: "uint \<Rightarrow> uint \<Rightarrow> int \<Rightarrow> bmem \<Rightarrow> bmem" where
  "safestrcpy s t n m = (if n \<le> 0 then m else safestrcpy_loop s t (nat (n - 1)) m)"

text \<open>The index of \<open>strlen\<close> is an \<open>int\<close>; the loop ends only if there is a zero byte.\<close>

partial_function (option) strlen_loop :: "uint \<Rightarrow> int \<Rightarrow> bmem \<Rightarrow> int option" where
  "strlen_loop s n m = (if m (s + of_int n) \<noteq> 0 then strlen_loop s (n + 1) m else Some n)"

definition strlen :: "uint \<Rightarrow> bmem \<Rightarrow> int option" where
  "strlen s m = strlen_loop s 0 m"

section \<open>Arrays and strings in memory\<close>

definition bytes_at :: "bmem \<Rightarrow> uint \<Rightarrow> nat \<Rightarrow> byte list" where
  "bytes_at m a n = map (\<lambda>i. m (a + of_nat i)) [0..<n]"

text \<open>The \<open>n\<close> bytes from \<open>a\<close> on do not reach the end of the address space.\<close>

definition fits :: "uint \<Rightarrow> nat \<Rightarrow> bool" where
  "fits a n \<longleftrightarrow> unat a + n < 2 ^ 32"

definition disjoint :: "uint \<Rightarrow> nat \<Rightarrow> uint \<Rightarrow> nat \<Rightarrow> bool" where
  "disjoint a n b k \<longleftrightarrow> unat a + n \<le> unat b \<or> unat b + k \<le> unat a"

text \<open>A zero-terminated string.\<close>

definition cstr_at :: "bmem \<Rightarrow> uint \<Rightarrow> byte list \<Rightarrow> bool" where
  "cstr_at m a bs \<longleftrightarrow> bytes_at m a (length bs + 1) = bs @ [0] \<and> 0 \<notin> set bs"

section \<open>The functions on arrays\<close>

text \<open>
  For an array of elements with terminator \<open>z\<close>: what \<open>strncpy(_, t, n)\<close> leaves in the first
  \<open>n\<close> places, what \<open>safestrcpy(s, t, n)\<close> leaves in the array \<open>s\<close>, whether \<open>strncmp(p, q, n)\<close> is 0.
\<close>

definition strncpy_l :: "'a \<Rightarrow> 'a list \<Rightarrow> nat \<Rightarrow> 'a list" where
  "strncpy_l z t n = (let p = takeWhile (\<lambda>c. c \<noteq> z) t in take n p @ replicate (n - length p) z)"

definition safestrcpy_l :: "'a \<Rightarrow> 'a list \<Rightarrow> 'a list \<Rightarrow> nat \<Rightarrow> 'a list" where
  "safestrcpy_l z s t n =
     (if n = 0 then s
      else let p = takeWhile (\<lambda>c. c \<noteq> z) t
           in if length p < n - 1 then p @ [z, z] @ drop (length p + 2) s
              else take (n - 1) p @ z # drop n s)"

definition strneq_l :: "'a \<Rightarrow> 'a list \<Rightarrow> 'a list \<Rightarrow> nat \<Rightarrow> bool" where
  "strneq_l z p q n \<longleftrightarrow> take n (takeWhile (\<lambda>c. c \<noteq> z) p) = take n (takeWhile (\<lambda>c. c \<noteq> z) q)"

section \<open>Lemmas\<close>

lemma unat_Suc: "unat a + Suc k < 2 ^ 32 \<Longrightarrow> unat (a + 1) = Suc (unat a)" for a :: uint
  by (simp add: unat_word_ariths)

lemma fits_Suc: "fits a (Suc k) \<Longrightarrow> unat (a + 1) = Suc (unat a) \<and> fits (a + 1) k"
  using unat_Suc [of a k] by (simp add: fits_def)

lemma fits_mono: "fits a n \<Longrightarrow> k \<le> n \<Longrightarrow> fits a k"
  by (simp add: fits_def)

lemma bytes_at_Suc: "bytes_at m a (Suc n) = m a # bytes_at m (a + 1) n"
proof -
  have "[0..<Suc n] = 0 # map Suc [0..<n]" by (simp add: map_Suc_upt upt_conv_Cons del: upt_Suc)
  then show ?thesis by (simp add: bytes_at_def o_def add.assoc del: upt_Suc)
qed

lemma bytes_at_0 [simp]: "bytes_at m a 0 = []"
  by (simp add: bytes_at_def)

lemma length_bytes_at [simp]: "length (bytes_at m a n) = n"
  by (simp add: bytes_at_def)

lemma cstr_at_Nil [simp]: "cstr_at m a [] \<longleftrightarrow> m a = 0"
  by (simp add: cstr_at_def bytes_at_Suc)

lemma cstr_at_Cons [simp]: "cstr_at m a (b # bs) \<longleftrightarrow> m a = b \<and> b \<noteq> 0 \<and> cstr_at m (a + 1) bs"
  by (auto simp: cstr_at_def bytes_at_Suc)

lemma bit_FF: "bit (0xFF :: int) n \<longleftrightarrow> n < 8"
proof -
  have "(0xFF :: int) = mask 8" by (simp add: mask_eq_exp_minus_1)
  then show ?thesis by (simp only: bit_mask_iff) auto
qed

lemma stosl_stosb:
  assumes "ucast w = b" "ucast (drop_bit 8 w) = b" "ucast (drop_bit 16 w) = b" "ucast (drop_bit 24 w) = b"
  shows "stosl a w n m = stosb a b (4 * n) m"
proof (induction n arbitrary: a m)
  case (Suc n)
  have "4 * Suc n = Suc (Suc (Suc (Suc (4 * n))))" by simp
  then have "stosb a b (4 * Suc n) m = stosb (a + 4) b (4 * n) (m(a := b, a + 1 := b, a + 2 := b, a + 3 := b))"
    by (simp only: stosb.simps) (simp add: add.assoc)
  then show ?case unfolding stosl.simps Suc.IH store_long_def assms by (rule sym)
qed simp

lemma four_bytes:
  "j \<in> {0, 8, 16, 24} \<Longrightarrow>
     ucast (drop_bit j (push_bit 24 (c AND 0xFF) OR push_bit 16 (c AND 0xFF) OR push_bit 8 (c AND 0xFF) OR c AND 0xFF)) =
     (ucast c :: byte)"
  for c :: uint
  by (auto intro!: bit_word_eqI simp: bit_simps bit_FF)

lemma memset_bytewise: "memset dst c n m = stosb dst (ucast c) (unat n) m"
proof (cases "dst mod 4 = 0 \<and> n mod 4 = 0")
  case True
  have "4 * unat (n div 4) = unat n"
  proof -
    have "unat n mod 4 = 0" using True unat_mod [of n 4] by simp
    then show ?thesis by (simp add: unat_div) presburger
  qed
  moreover have "stosl dst (push_bit 24 (c AND 0xFF) OR push_bit 16 (c AND 0xFF) OR push_bit 8 (c AND 0xFF) OR c AND 0xFF)
      (unat (n div 4)) m = stosb dst (ucast c) (4 * unat (n div 4)) m"
    using four_bytes [of 0 c] four_bytes [of 8 c] four_bytes [of 16 c] four_bytes [of 24 c]
    by (intro stosl_stosb) simp_all
  ultimately show ?thesis using True by (simp add: memset_def Let_def)
next
  case False
  then show ?thesis by (auto simp: memset_def)
qed

lemma stosb_fills:
  assumes "fits a k"
  shows "stosb a c k m x = (if unat a \<le> unat x \<and> unat x < unat a + k then c else m x)"
  using assms
proof (induction k arbitrary: a m)
  case (Suc k)
  note a = fits_Suc [OF Suc.prems]
  have IH: "stosb (a + 1) c k m' x = (if Suc (unat a) \<le> unat x \<and> unat x < Suc (unat a) + k then c else m' x)" for m'
    using Suc.IH [of "a + 1" m'] a by simp
  have "x = a \<longleftrightarrow> unat x = unat a" by (simp add: word_unat_eq_iff)
  then show ?case unfolding stosb.simps IH by auto
qed auto

lemma move_up_copies:
  assumes "fits d k" "fits s k" "unat d \<le> unat s \<or> unat s + k \<le> unat d"
  shows "move_up d s k m a = (if unat d \<le> unat a \<and> unat a < unat d + k then m (s + (a - d)) else m a)"
  using assms
proof (induction k arbitrary: d s m)
  case (Suc k)
  note d = fits_Suc [OF Suc.prems(1)] and s = fits_Suc [OF Suc.prems(2)]
  have IH: "move_up (d + 1) (s + 1) k m' a =
      (if Suc (unat d) \<le> unat a \<and> unat a < unat d + Suc k then m' (s + 1 + (a - (d + 1))) else m' a)" for m'
    using Suc.IH [of "d + 1" "s + 1" m'] d s Suc.prems(3) by auto
  show ?case
  proof (cases "Suc (unat d) \<le> unat a \<and> unat a < unat d + Suc k")
    case True
    have "unat s + (unat a - unat d) < 2 ^ 32" using True Suc.prems(2) unfolding fits_def by linarith
    then have "unat (s + (a - d)) = unat s + (unat a - unat d)"
      using True by (simp add: unat_word_ariths(1) unat_sub word_le_nat_alt)
    then have "unat (s + (a - d)) \<noteq> unat d" using True Suc.prems(3) by linarith
    then have "s + (a - d) \<noteq> d" by metis
    then show ?thesis using True by (simp add: IH)
  next
    case False
    then have "a = d \<or> \<not> (unat d \<le> unat a \<and> unat a < unat d + Suc k)"
      by (metis le_antisym not_less_eq_eq unsigned_word_eqI)
    then show ?thesis using False by (auto simp: IH)
  qed
qed auto

lemma move_down_copies:
  assumes "fits d k" "fits s k" "unat s < unat d"
  shows "move_down (d + of_nat k) (s + of_nat k) k m a =
    (if unat d \<le> unat a \<and> unat a < unat d + k then m (s + (a - d)) else m a)"
  using assms
proof (induction k arbitrary: m)
  case (Suc k)
  have f: "fits d k" "fits s k" using Suc.prems by (simp_all add: fits_def)
  let ?d = "d + of_nat k" and ?s = "s + of_nat k"
  have u: "unat ?d = unat d + k" using Suc.prems(1) by (simp add: fits_def unat_word_ariths unat_of_nat)
  have step: "move_down (d + of_nat (Suc k)) (s + of_nat (Suc k)) (Suc k) m = move_down ?d ?s k (m(?d := m ?s))"
    by (simp add: algebra_simps)
  show ?case
  proof (cases "unat d \<le> unat a \<and> unat a < unat d + k")
    case True
    have "unat s + (unat a - unat d) < 2 ^ 32" using True Suc.prems(2) unfolding fits_def by linarith
    then have "unat (s + (a - d)) = unat s + (unat a - unat d)"
      using True by (simp add: unat_word_ariths(1) unat_sub word_le_nat_alt)
    then have "unat (s + (a - d)) \<noteq> unat ?d" using True u Suc.prems(3) by linarith
    then have "s + (a - d) \<noteq> ?d" by metis
    then show ?thesis unfolding step using True Suc.IH [OF f Suc.prems(3)] by simp
  next
    case False
    show ?thesis
    proof (cases "a = ?d")
      case True
      then show ?thesis unfolding step using False u Suc.IH [OF f Suc.prems(3)] by simp
    next
      case neq: False
      then have "unat a \<noteq> unat d + k" using u by (metis unsigned_word_eqI)
      then show ?thesis unfolding step using False neq Suc.IH [OF f Suc.prems(3)] by auto
    qed
  qed
qed auto

lemma memmove_copies:
  assumes "fits dst (unat n)" "fits src (unat n)"
  shows "memmove dst src n m a =
    (if unat dst \<le> unat a \<and> unat a < unat dst + unat n then m (src + (a - dst)) else m a)"
proof -
  have u: "unat (src + n) = unat src + unat n" using assms(2) by (simp add: fits_def unat_word_ariths)
  show ?thesis
  proof (cases "src < dst \<and> src + n > dst")
    case True
    then have "unat src < unat dst" by (simp add: word_less_nat_alt)
    from move_down_copies [OF assms this] True show ?thesis by (simp add: memmove_def)
  next
    case False
    then have "unat dst \<le> unat src \<or> unat src + unat n \<le> unat dst"
      using u by (auto simp: word_less_nat_alt)
    from move_up_copies [OF assms this] False show ?thesis by (auto simp: memmove_def)
  qed
qed

lemma bytes_at_upd:
  assumes "fits a n" "unat s < unat a \<or> unat a + n \<le> unat s"
  shows "bytes_at (m(s := v)) a n = bytes_at m a n"
  using assms
proof (induction n arbitrary: a)
  case (Suc n)
  have "s \<noteq> a" using Suc.prems(2) by auto
  then show ?case using Suc.IH [of "a + 1"] Suc.prems fits_Suc [OF Suc.prems(1)] by (auto simp: bytes_at_Suc)
qed simp

lemma cstr_at_upd:
  assumes "fits a (length bs + 1)" "unat s < unat a \<or> unat a + (length bs + 1) \<le> unat s"
  shows "cstr_at (m(s := v)) a bs = cstr_at m a bs"
  using bytes_at_upd [OF assms] by (simp add: cstr_at_def)

lemma bytes_at_stosb: "fits a k \<Longrightarrow> bytes_at (stosb a c k m) a k = replicate k c"
proof (induction k arbitrary: a m)
  case (Suc k)
  note a = fits_Suc [OF Suc.prems]
  have "stosb (a + 1) c k (m(a := c)) a = c"
    using stosb_fills [of "a + 1" k c "m(a := c)" a] a by simp
  then show ?case using Suc.IH [of "a + 1"] a by (simp add: bytes_at_Suc)
qed simp

lemma strncpy_l_simps [simp]:
  "strncpy_l z t 0 = []"
  "strncpy_l z [] n = replicate n z"
  "strncpy_l z (c # t) (Suc n) = (if c = z then replicate (Suc n) z else c # strncpy_l z t n)"
  by (simp_all add: strncpy_l_def Let_def)

lemma length_strncpy_l [simp]: "length (strncpy_l z t n) = n"
  by (simp add: strncpy_l_def Let_def min_def)

text \<open>Memory \<open>m\<close> with the array \<open>xs\<close> written at \<open>s\<close>.\<close>

definition with_array :: "bmem \<Rightarrow> uint \<Rightarrow> byte list \<Rightarrow> bmem" where
  "with_array m s xs a = (if unat s \<le> unat a \<and> unat a < unat s + length xs then xs ! (unat a - unat s) else m a)"

lemma with_array_Nil [simp]: "with_array m s [] = m"
  by (rule ext) (auto simp: with_array_def)

lemma with_array_Cons:
  assumes "fits s (Suc (length xs))"
  shows "with_array (m(s := x)) (s + 1) xs = with_array m s (x # xs)"
proof
  fix a
  have "a = s \<longleftrightarrow> unat a = unat s" by (simp add: word_unat_eq_iff)
  moreover have "(x # xs) ! (unat a - unat s) = xs ! (unat a - Suc (unat s))" if "unat s < unat a"
    using that by (metis Suc_diff_Suc nth_Cons_Suc)
  ultimately show "with_array (m(s := x)) (s + 1) xs a = with_array m s (x # xs) a"
    using fits_Suc [OF assms] by (auto simp: with_array_def)
qed

lemma bytes_at_with_array: "fits s (length xs) \<Longrightarrow> bytes_at (with_array m s xs) s (length xs) = xs"
proof -
  assume f: "fits s (length xs)"
  have "unat (s + of_nat i) = unat s + i" if "i < length xs" for i
    using f that by (simp add: fits_def unat_word_ariths unat_of_nat)
  then show ?thesis by (intro nth_equalityI) (simp_all add: bytes_at_def with_array_def)
qed

lemma stosb_with_array: "fits s k \<Longrightarrow> stosb s c k m = with_array m s (replicate k c)"
  by (rule ext) (auto simp: stosb_fills with_array_def)

lemma strncpy_loop_copies:
  "cstr_at m t bs \<Longrightarrow> fits s k \<Longrightarrow> fits t (length bs + 1) \<Longrightarrow> disjoint s k t (length bs + 1) \<Longrightarrow>
     strncpy_loop s t k m = with_array m s (strncpy_l 0 bs k)"
proof (induction k arbitrary: s t bs m)
  case (Suc k)
  note s = fits_Suc [OF Suc.prems(2)]
  show ?case
  proof (cases bs)
    case Nil
    then show ?thesis
      using Suc.prems(1,2) s with_array_Cons [of s "replicate k 0" m 0] by (simp add: stosb_with_array Let_def)
  next
    case (Cons b bs')
    have "fits t (Suc (length bs))" using Suc.prems(3) by simp
    note t = fits_Suc [OF this]
    have c: "cstr_at (m(s := b)) (t + 1) bs'"
      using Suc.prems Cons t by (subst cstr_at_upd) (auto simp: disjoint_def)
    have "strncpy_loop (s + 1) (t + 1) k (m(s := b)) = with_array (m(s := b)) (s + 1) (strncpy_l 0 bs' k)"
      using Suc.prems(4) Cons s t by (intro Suc.IH [OF c]) (auto simp: disjoint_def)
    then show ?thesis
      using Suc.prems(1,2) Cons with_array_Cons [of s "strncpy_l 0 bs' k" m b] by (simp add: Let_def)
  qed
qed simp

text \<open>\<open>safestrcpy\<close> writes this prefix of its array.\<close>

definition safe_prefix :: "byte list \<Rightarrow> nat \<Rightarrow> byte list" where
  "safe_prefix bs k = (if length bs < k then bs @ [0, 0] else take k bs @ [0])"

lemma safe_prefix_simps:
  "safe_prefix bs 0 = [0]" "safe_prefix [] (Suc k) = [0, 0]" "safe_prefix (b # bs) (Suc k) = b # safe_prefix bs k"
  by (simp_all add: safe_prefix_def)

lemma safestrcpy_loop_copies:
  "cstr_at m t bs \<Longrightarrow> fits s (Suc k) \<Longrightarrow> fits t (length bs + 1) \<Longrightarrow> disjoint s (Suc k) t (length bs + 1) \<Longrightarrow>
     safestrcpy_loop s t k m = with_array m s (safe_prefix bs k)"
proof (induction k arbitrary: s t bs m)
  case 0
  then show ?case using with_array_Cons [of s "[]" m 0] by (simp add: safe_prefix_simps)
next
  case (Suc k)
  note s = fits_Suc [OF Suc.prems(2)]
  show ?case
  proof (cases bs)
    case Nil
    have "with_array (m(s := 0, s + 1 := 0)) (s + 1 + 1) [] = with_array m s [0, 0]"
      using Suc.prems(2) s with_array_Cons [of "s + 1" "[]" "m(s := 0)" 0] with_array_Cons [of s "[0]" m 0]
      by (simp add: fits_def)
    then show ?thesis using Nil Suc.prems(1) by (simp add: safe_prefix_simps Let_def)
  next
    case (Cons b bs')
    have "fits t (Suc (length bs))" using Suc.prems(3) by simp
    note t = fits_Suc [OF this]
    have c: "cstr_at (m(s := b)) (t + 1) bs'"
      using Suc.prems Cons t by (subst cstr_at_upd) (auto simp: disjoint_def)
    have "safestrcpy_loop (s + 1) (t + 1) k (m(s := b)) = with_array (m(s := b)) (s + 1) (safe_prefix bs' k)"
      using Suc.prems(4) Cons s t by (intro Suc.IH [OF c]) (auto simp: disjoint_def)
    moreover have "fits s (Suc (length (safe_prefix bs' k)))"
      using Suc.prems(2) by (auto simp: fits_def safe_prefix_def min_def)
    ultimately show ?thesis
      using Suc.prems(1) Cons with_array_Cons [of s "safe_prefix bs' k" m b] by (simp add: safe_prefix_simps Let_def)
  qed
qed

lemma strlen_loop_counts:
  "cstr_at m (s + of_int n) bs \<Longrightarrow> strlen_loop s n m = Some (n + int (length bs))"
proof (induction bs arbitrary: n)
  case Nil
  then show ?case by (subst strlen_loop.simps) simp
next
  case (Cons b bs)
  then show ?case using Cons.IH [of "n + 1"] by (subst strlen_loop.simps) (simp add: add.assoc)
qed

lemma strncmp_loop_eq:
  "cstr_at m p bs \<Longrightarrow> cstr_at m q cs \<Longrightarrow> strncmp_loop p q k m = 0 \<longleftrightarrow> take k bs = take k cs"
proof (induction k arbitrary: p q bs cs)
  case (Suc k)
  then show ?case by (cases bs; cases cs) (auto simp: word_uint_eq_iff [symmetric] uint_0_iff)
qed simp

lemma bytes_at_with_array_prefix:
  assumes "fits s n" "length xs \<le> n"
  shows "bytes_at (with_array m s xs) s n = xs @ drop (length xs) (bytes_at m s n)"
proof -
  have "unat (s + of_nat i) = unat s + i" if "i < n" for i
    using assms that by (simp add: fits_def unat_word_ariths unat_of_nat)
  then show ?thesis
    using assms(2) by (intro nth_equalityI) (auto simp: bytes_at_def with_array_def nth_append)
qed

lemma takeWhile_nonzero: "0 \<notin> set bs \<Longrightarrow> takeWhile (\<lambda>c. c \<noteq> 0) bs = bs" for bs :: "byte list"
  by (simp add: takeWhile_eq_all_conv) metis

lemma safe_prefix_l:
  assumes "0 \<notin> set bs" "length s = Suc k"
  shows "safe_prefix bs k @ drop (length (safe_prefix bs k)) s = safestrcpy_l 0 s bs (Suc k)"
  using assms by (auto simp: safe_prefix_def safestrcpy_l_def takeWhile_nonzero min_def)

section \<open>Properties\<close>

text \<open>
  Property C30.  \<open>memmove\<close> copies as if it read all \<open>n\<close> bytes first and wrote them afterwards,
  also when source and destination overlap, and changes no other byte.
\<close>

theorem memmove_simultaneous:
  assumes "fits dst (unat n)" "fits src (unat n)"
  shows "memmove dst src n m = with_array m dst (bytes_at m src (unat n))"
proof
  fix a
  have "src + of_nat (unat a - unat dst) = src + (a - dst)" if "unat dst \<le> unat a"
    using that by (simp add: word_le_nat_alt [symmetric] flip: unat_sub)
  then show "memmove dst src n m a = with_array m dst (bytes_at m src (unat n)) a"
    using memmove_copies [OF assms, of m a] by (auto simp: with_array_def bytes_at_def)
qed

theorem memmove_simultaneous_witness:
  "bytes_at (memmove 11 10 3 (\<lambda>a. ucast a)) 10 5 = [10, 10, 11, 12, 14]"
proof -
  have "memmove 11 10 3 (\<lambda>a. ucast a) = with_array (\<lambda>a. ucast a) 11 (bytes_at (\<lambda>a. ucast a) 10 (unat (3 :: uint)))"
    by (rule memmove_simultaneous) (simp_all add: fits_def)
  then show ?thesis by (simp add: with_array_def bytes_at_def upt_conv_Cons)
qed

text \<open>
  The word-wise path of \<open>memset\<close> (\<open>stosl\<close> of the byte repeated four times, taken
  for an aligned address and a length divisible by 4) writes the same bytes as the byte-wise path.
\<close>

theorem memset_paths_agree: "memset dst c n m = stosb dst (ucast c) (unat n) m"
  by (rule memset_bytewise)

text \<open>
  \<open>strncpy(s, t, n)\<close> leaves in the \<open>n\<close> bytes at \<open>s\<close> the string \<open>t\<close>, cut off at
  \<open>n\<close> bytes or filled up with zeros; \<open>safestrcpy(s, t, n)\<close> leaves a zero-terminated prefix of
  \<open>t\<close> inside the \<open>n\<close> bytes.  Both touch nothing else, and \<open>strlen\<close> returns the length of \<open>t\<close>.
\<close>

theorem string_copies_bounded:
  assumes "cstr_at m t bs" "0 < n" "fits s n" "fits t (length bs + 1)" "disjoint s n t (length bs + 1)"
  shows "strncpy s t (int n) m = with_array m s (strncpy_l 0 bs n) \<and>
    safestrcpy s t (int n) m = with_array m s (safestrcpy_l 0 (bytes_at m s n) bs n) \<and>
    (\<exists>k < n. bytes_at (safestrcpy s t (int n) m) s n ! k = 0 \<and>
       take k (bytes_at (safestrcpy s t (int n) m) s n) = take (n - 1) bs) \<and>
    strlen t m = Some (int (length bs))"
proof (intro conjI)
  obtain k where k: "n = Suc k" using assms(2) by (cases n) auto
  have bs: "0 \<notin> set bs" using assms(1) by (simp add: cstr_at_def)
  show "strncpy s t (int n) m = with_array m s (strncpy_l 0 bs n)"
    using strncpy_loop_copies [OF assms(1,3-5)] by (simp add: strncpy_def)
  show "strlen t m = Some (int (length bs))"
    using strlen_loop_counts [of m t 0 bs] assms(1) by (simp add: strlen_def)
  have r: "safestrcpy s t (int n) m = with_array m s (safe_prefix bs k)"
    using safestrcpy_loop_copies [of m t bs s k] assms k by (simp add: safestrcpy_def)
  have len: "length (safe_prefix bs k) \<le> n" using k by (simp add: safe_prefix_def min_def)
  have b: "bytes_at (safestrcpy s t (int n) m) s n = safestrcpy_l 0 (bytes_at m s n) bs n"
    unfolding r using safe_prefix_l [OF bs, of "bytes_at m s n" k] bytes_at_with_array_prefix [OF assms(3) len] k by simp
  have "with_array m s xs = with_array m s (xs @ drop (length xs) (bytes_at m s n))" if "length xs \<le> n" for xs
  proof
    fix a
    have "s + of_nat (unat a - unat s) = a" if "unat s \<le> unat a"
      using that by (simp add: word_le_nat_alt [symmetric] flip: unat_sub)
    then show "with_array m s xs a = with_array m s (xs @ drop (length xs) (bytes_at m s n)) a"
      using that by (auto simp: with_array_def nth_append bytes_at_def)
  qed
  from this [OF len] show "safestrcpy s t (int n) m = with_array m s (safestrcpy_l 0 (bytes_at m s n) bs n)"
    unfolding r using safe_prefix_l [OF bs, of "bytes_at m s n" k] k by simp
  show "\<exists>k < n. bytes_at (safestrcpy s t (int n) m) s n ! k = 0 \<and> take k (bytes_at (safestrcpy s t (int n) m) s n) = take (n - 1) bs"
    unfolding b by (rule exI [of _ "min (n - 1) (length bs)"])
      (use assms(2) bs in \<open>auto simp: safestrcpy_l_def takeWhile_nonzero nth_append min_def\<close>)
qed

text \<open>The string \<open>abc\<close> at address 100.\<close>

definition abc_mem :: bmem where
  "abc_mem = (\<lambda>a. 7)(100 := 97, 101 := 98, 102 := 99, 103 := 0)"

theorem string_copies_bounded_witness:
  "bytes_at (strncpy 200 100 5 abc_mem) 200 6 = [97, 98, 99, 0, 0, 7] \<and>
   bytes_at (safestrcpy 200 100 3 abc_mem) 200 4 = [97, 98, 0, 7] \<and> strlen 100 abc_mem = Some 3"
proof -
  have c: "cstr_at abc_mem 100 [97, 98, 99]" by (simp add: abc_mem_def)
  show ?thesis
    using string_copies_bounded [OF c, of 5 200] string_copies_bounded [OF c, of 3 200]
    by (simp add: fits_def disjoint_def)
      (simp add: with_array_def bytes_at_def upt_conv_Cons abc_mem_def strncpy_l_def safestrcpy_l_def)
qed

end
