(* ===== verification/UserAccess.thy ===== *)
theory UserAccess
  imports UserMem CString
begin

text \<open>
  Kernel loads and stores through the page table the processor has loaded (\<open>cr3\<close>), which is
  how the kernel reads and writes the memory of the current process.  A missing translation,
  or a store to a page that is not writable (\<open>entry.S\<close> sets \<open>CR0_WP\<close>), is a fault: \<open>None\<close>.
\<close>

definition translate :: "uint \<Rightarrow> kernel \<Rightarrow> (uint \<times> uint) option" where
  "translate va s = do {
     let pde = mem s (P2V (m_cr3 (mach s))) (PDX va);
     if pde AND PTE_P = 0 then None
     else do {
       let pte = mem s (P2V (PTE_ADDR pde)) (PTX va);
       if pte AND PTE_P = 0 then None else Some (P2V (PTE_ADDR pte), pde AND pte)
     }
   }"

definition kload :: "uint \<Rightarrow> kernel \<Rightarrow> byte option" where
  "kload va s = do {
     (pg, _) \<leftarrow> translate va s;
     Some (get_byte pg (unat va mod 4096) s)
   }"

definition kstore :: "uint \<Rightarrow> byte \<Rightarrow> kernel \<Rightarrow> kernel option" where
  "kstore va b s = do {
     (pg, perm) \<leftarrow> translate va s;
     if perm AND PTE_W = 0 then None else Some (set_byte pg (unat va mod 4096) b s)
   }"

primrec kloads :: "uint \<Rightarrow> nat \<Rightarrow> kernel \<Rightarrow> byte list option" where
  "kloads va 0 s = Some []"
| "kloads va (Suc n) s = do {
     b \<leftarrow> kload va s;
     bs \<leftarrow> kloads (va + 1) n s;
     Some (b # bs)
   }"

primrec kstores :: "uint \<Rightarrow> byte list \<Rightarrow> kernel \<Rightarrow> kernel option" where
  "kstores va [] s = Some s"
| "kstores va (b # bs) s = do {
     s \<leftarrow> kstore va b s;
     kstores (va + 1) bs s
   }"

definition kload32 :: "uint \<Rightarrow> kernel \<Rightarrow> uint option" where
  "kload32 va s = do {
     bs \<leftarrow> kloads va 4 s;
     Some (get_u32 bs 0)
   }"

definition kstore32 :: "uint \<Rightarrow> uint \<Rightarrow> kernel \<Rightarrow> kernel option" where
  "kstore32 va w s = kstores va (bytes32 w) s"

lemma kstore_fields:
  "kstore va b s = Some s' \<Longrightarrow> s' = s\<lparr>mem := mem s'\<rparr>"
  by (auto simp: kstore_def set_byte_def set_word_def bind_eq_Some_conv split: if_splits)

lemma kstores_fields:
  "kstores va bs s = Some s' \<Longrightarrow> s' = s\<lparr>mem := mem s'\<rparr>"
proof (induction bs arbitrary: va s)
  case (Cons b bs)
  then obtain t where t: "kstore va b s = Some t" "kstores (va + 1) bs t = Some s'"
    by (auto simp: bind_eq_Some_conv)
  from kstore_fields [OF t(1)] Cons.IH [OF t(2)] show ?case by (cases s; cases t; cases s') simp
qed simp

end
