(* ===== verification/Sleeplock.thy ===== *)
theory Sleeplock
  imports UserAccess
begin

text \<open>
  Sleep locks (\<open>sleeplock.c\<close>).  Each sits inside a buffer or an inode; \<open>slid\<close> says which.
  \<open>acquiresleep\<close> gives up the processor while the lock is held by another process:
  \<open>acquiresleep_enter\<close> and \<open>acquiresleep_resume\<close> are its code up to and after the switch.
  The file system code is modelled as one process runs it, so there \<open>acquiresleep\<close> of a lock
  that is held is \<open>None\<close>.
\<close>

datatype slid = SlBuf nat | SlInode nat

fun slk_spin :: "slid \<Rightarrow> lockid" where
  "slk_spin (SlBuf n) = BufSlk n"
| "slk_spin (SlInode n) = InodeSlk n"

fun slk_chan :: "slid \<Rightarrow> chan" where
  "slk_chan (SlBuf n) = ChBuf n"
| "slk_chan (SlInode n) = ChInode n"

text \<open>Access to the tables of buffers and inodes.\<close>

abbreviation bufs :: "kernel \<Rightarrow> buf list" where
  "bufs s \<equiv> bc_buf (bcache (fsys s))"

abbreviation inodes :: "kernel \<Rightarrow> inode list" where
  "inodes s \<equiv> icache (fsys s)"

definition upd_fs :: "(fsys \<Rightarrow> fsys) \<Rightarrow> kernel \<Rightarrow> kernel" where
  "upd_fs f s = s\<lparr>fsys := f (fsys s)\<rparr>"

definition upd_buf :: "nat \<Rightarrow> (buf \<Rightarrow> buf) \<Rightarrow> kernel \<Rightarrow> kernel" where
  "upd_buf b f s = upd_fs (\<lambda>fs. fs\<lparr>bcache := (bcache fs)\<lparr>bc_buf := (bc_buf (bcache fs))[b := f (bc_buf (bcache fs) ! b)]\<rparr>\<rparr>) s"

definition upd_inode :: "nat \<Rightarrow> (inode \<Rightarrow> inode) \<Rightarrow> kernel \<Rightarrow> kernel" where
  "upd_inode i f s = upd_fs (\<lambda>fs. fs\<lparr>icache := (icache fs)[i := f (icache fs ! i)]\<rparr>) s"

fun get_slk :: "slid \<Rightarrow> kernel \<Rightarrow> sleeplock option" where
  "get_slk (SlBuf n) s = map_option b_lock (nth_opt (bufs s) n)"
| "get_slk (SlInode n) s = map_option i_lock (nth_opt (inodes s) n)"

fun set_slk :: "slid \<Rightarrow> sleeplock \<Rightarrow> kernel \<Rightarrow> kernel" where
  "set_slk (SlBuf n) l s = upd_buf n (\<lambda>b. b\<lparr>b_lock := l\<rparr>) s"
| "set_slk (SlInode n) l s = upd_inode n (\<lambda>i. i\<lparr>i_lock := l\<rparr>) s"

section \<open>Operations\<close>

definition initsleeplock :: "slid \<Rightarrow> string \<Rightarrow> kernel \<Rightarrow> kernel" where
  "initsleeplock lk nm s =
     set_slk lk \<lparr>slk_locked = 0, slk_name = nm, slk_pid = 0\<rparr> (initlock (slk_spin lk) ''sleep lock'' s)"

definition acquiresleep_loop :: "slid \<Rightarrow> kernel \<Rightarrow> (outcome \<times> kernel) option" where
  "acquiresleep_loop lk s = do {
     l \<leftarrow> get_slk lk s;
     if slk_locked l \<noteq> 0 then do {
       (intena, s) \<leftarrow> sleep_enter (slk_chan lk) (Some (slk_spin lk)) s;
       Some (Asleep intena, s)
     } else do {
       (p, s) \<leftarrow> myproc s;
       pr \<leftarrow> getp p s;
       s \<leftarrow> release (slk_spin lk) (set_slk lk (l\<lparr>slk_locked := 1, slk_pid := p_pid pr\<rparr>) s);
       Some (Done 0, s)
     }
   }"

definition acquiresleep_enter :: "slid \<Rightarrow> kernel \<Rightarrow> (outcome \<times> kernel) option" where
  "acquiresleep_enter lk s = do {
     s \<leftarrow> acquire (slk_spin lk) s;
     acquiresleep_loop lk s
   }"

definition acquiresleep_resume :: "nat \<Rightarrow> slid \<Rightarrow> bool \<Rightarrow> kernel \<Rightarrow> (outcome \<times> kernel) option" where
  "acquiresleep_resume p lk intena s = do {
     s \<leftarrow> sleep_exit p (slk_spin lk) intena s;
     acquiresleep_loop lk s
   }"

definition acquiresleep :: "slid \<Rightarrow> kernel \<Rightarrow> kernel option" where
  "acquiresleep lk s = do {
     (r, s) \<leftarrow> acquiresleep_enter lk s;
     case r of Done _ \<Rightarrow> Some s | Asleep _ \<Rightarrow> None
   }"

definition releasesleep :: "slid \<Rightarrow> kernel \<Rightarrow> kernel option" where
  "releasesleep lk s = do {
     s \<leftarrow> acquire (slk_spin lk) s;
     l \<leftarrow> get_slk lk s;
     s \<leftarrow> wakeup (Some (slk_chan lk)) (set_slk lk (l\<lparr>slk_locked := 0, slk_pid := 0\<rparr>) s);
     release (slk_spin lk) s
   }"

definition holdingsleep :: "slid \<Rightarrow> kernel \<Rightarrow> (bool \<times> kernel) option" where
  "holdingsleep lk s = do {
     s \<leftarrow> acquire (slk_spin lk) s;
     l \<leftarrow> get_slk lk s;
     s \<leftarrow> release (slk_spin lk) s;
     Some (slk_locked l \<noteq> 0, s)
   }"

end
