(* ===== verification/Bio.thy ===== *)
theory Bio
  imports Sleeplock
begin

text \<open>
  The buffer cache (\<open>bio.c\<close>) over the memory disk (\<open>memide.c\<close>).  A buffer is its index in
  \<open>bcache.buf\<close>; the list through \<open>prev\<close> and \<open>next\<close> is the list of these indices.
\<close>

section \<open>The disk\<close>

definition iderw :: "nat \<Rightarrow> kernel \<Rightarrow> kernel option" where
  "iderw b s = do {
     (h, s) \<leftarrow> holdingsleep (SlBuf b) s;
     if \<not> h then None
     else do {
       bf \<leftarrow> nth_opt (bufs s) b;
       if b_flags bf AND (B_VALID OR B_DIRTY) = B_VALID then None
       else if b_dev bf \<noteq> 1 then None
       else if b_blockno bf \<ge> of_nat (disksize (fsys s)) then None
       else do {
         let blk = unat (b_blockno bf);
         if b_flags bf AND B_DIRTY \<noteq> 0 then
           Some (upd_buf b (\<lambda>bf. bf\<lparr>b_flags := (b_flags bf AND NOT B_DIRTY) OR B_VALID\<rparr>)
             (upd_fs (\<lambda>fs. fs\<lparr>memdisk := (memdisk fs)(blk := b_data bf), writes := writes fs @ [(blk, b_data bf)]\<rparr>) s))
         else Some (upd_buf b (\<lambda>bf. bf\<lparr>b_data := memdisk (fsys s) blk, b_flags := b_flags bf OR B_VALID\<rparr>) s)
       }
     }
   }"

section \<open>The cache\<close>

definition set_list :: "nat list \<Rightarrow> kernel \<Rightarrow> kernel" where
  "set_list l s = upd_fs (\<lambda>fs. fs\<lparr>bcache := (bcache fs)\<lparr>bc_list := l\<rparr>\<rparr>) s"

definition binit :: "kernel \<Rightarrow> kernel option" where
  "binit s = for_from NBUF 0
     (\<lambda>b s. Some (initsleeplock (SlBuf b) ''buffer'' (set_list (b # bc_list (bcache (fsys s))) s)))
     (set_list [] (initlock BcacheLk ''bcache'' s))"

definition bget :: "uint \<Rightarrow> uint \<Rightarrow> kernel \<Rightarrow> (nat \<times> kernel) option" where
  "bget dev blockno s = do {
     s \<leftarrow> acquire BcacheLk s;
     case find (\<lambda>b. b_dev (bufs s ! b) = dev \<and> b_blockno (bufs s ! b) = blockno) (bc_list (bcache (fsys s))) of
       Some b \<Rightarrow> do {
         s \<leftarrow> release BcacheLk (upd_buf b (\<lambda>bf. bf\<lparr>b_refcnt := b_refcnt bf + 1\<rparr>) s);
         s \<leftarrow> acquiresleep (SlBuf b) s;
         Some (b, s)
       }
     | None \<Rightarrow>
         (case find (\<lambda>b. b_refcnt (bufs s ! b) = 0 \<and> b_flags (bufs s ! b) AND B_DIRTY = 0) (rev (bc_list (bcache (fsys s)))) of
            Some b \<Rightarrow> do {
              s \<leftarrow> release BcacheLk
                (upd_buf b (\<lambda>bf. bf\<lparr>b_dev := dev, b_blockno := blockno, b_flags := 0, b_refcnt := 1\<rparr>) s);
              s \<leftarrow> acquiresleep (SlBuf b) s;
              Some (b, s)
            }
          | None \<Rightarrow> None)
   }"

definition bread :: "uint \<Rightarrow> uint \<Rightarrow> kernel \<Rightarrow> (nat \<times> kernel) option" where
  "bread dev blockno s = do {
     (b, s) \<leftarrow> bget dev blockno s;
     bf \<leftarrow> nth_opt (bufs s) b;
     s \<leftarrow> (if b_flags bf AND B_VALID = 0 then iderw b s else Some s);
     Some (b, s)
   }"

definition bwrite :: "nat \<Rightarrow> kernel \<Rightarrow> kernel option" where
  "bwrite b s = do {
     (h, s) \<leftarrow> holdingsleep (SlBuf b) s;
     if \<not> h then None
     else iderw b (upd_buf b (\<lambda>bf. bf\<lparr>b_flags := b_flags bf OR B_DIRTY\<rparr>) s)
   }"

definition brelse :: "nat \<Rightarrow> kernel \<Rightarrow> kernel option" where
  "brelse b s = do {
     (h, s) \<leftarrow> holdingsleep (SlBuf b) s;
     if \<not> h then None
     else do {
       s \<leftarrow> releasesleep (SlBuf b) s;
       s \<leftarrow> acquire BcacheLk s;
       let s = upd_buf b (\<lambda>bf. bf\<lparr>b_refcnt := b_refcnt bf - 1\<rparr>) s;
       bf \<leftarrow> nth_opt (bufs s) b;
       let s = (if b_refcnt bf = 0 then set_list (b # remove1 b (bc_list (bcache (fsys s)))) s else s);
       release BcacheLk s
     }
   }"

text \<open>The data of a buffer the caller has locked.\<close>

definition bdata :: "nat \<Rightarrow> kernel \<Rightarrow> block option" where
  "bdata b s = map_option b_data (nth_opt (bufs s) b)"

definition set_bdata :: "nat \<Rightarrow> block \<Rightarrow> kernel \<Rightarrow> kernel" where
  "set_bdata b d s = upd_buf b (\<lambda>bf. bf\<lparr>b_data := d\<rparr>) s"

end
