(* ===== verification/Log.thy ===== *)
theory Log
  imports Bio
begin

text \<open>
  The redo log (\<open>log.c\<close>, and \<open>readsb\<close> of \<open>fs.c\<close>).  \<open>begin_op\<close> sleeps while a commit is
  running or the log may run out of space: \<open>begin_op_enter\<close> and \<open>begin_op_resume\<close> are its code
  up to and after the switch; as in the other file system code, \<open>begin_op\<close> is \<open>None\<close> then.
\<close>

definition upd_log :: "(log \<Rightarrow> log) \<Rightarrow> kernel \<Rightarrow> kernel" where
  "upd_log f s = upd_fs (\<lambda>fs. fs\<lparr>log := f (log fs)\<rparr>) s"

abbreviation lh :: "kernel \<Rightarrow> logheader" where
  "lh s \<equiv> lg_lh (log (fsys s))"

definition set_lh_n :: "int \<Rightarrow> kernel \<Rightarrow> kernel" where
  "set_lh_n n s = upd_log (\<lambda>l. l\<lparr>lg_lh := (lg_lh l)\<lparr>lh_n := n\<rparr>\<rparr>) s"

definition set_lh_block :: "int list \<Rightarrow> kernel \<Rightarrow> kernel" where
  "set_lh_block bs s = upd_log (\<lambda>l. l\<lparr>lg_lh := (lg_lh l)\<lparr>lh_block := bs\<rparr>\<rparr>) s"

text \<open>The super block in block 1 of the disk.\<close>

definition get_superblock :: "block \<Rightarrow> superblock" where
  "get_superblock d = \<lparr>sb_size = get_u32 d 0, sb_nblocks = get_u32 d 4, sb_ninodes = get_u32 d 8, sb_nlog = get_u32 d 12,
     sb_logstart = get_u32 d 16, sb_inodestart = get_u32 d 20, sb_bmapstart = get_u32 d 24\<rparr>"

definition readsb :: "int \<Rightarrow> kernel \<Rightarrow> (superblock \<times> kernel) option" where
  "readsb dev s = do {
     (bp, s) \<leftarrow> bread (of_int dev) 1 s;
     d \<leftarrow> bdata bp s;
     s \<leftarrow> brelse bp s;
     Some (get_superblock d, s)
   }"

definition install_trans_one :: "nat \<Rightarrow> kernel \<Rightarrow> kernel option" where
  "install_trans_one tail s = do {
     let lg = log (fsys s);
     (lbuf, s) \<leftarrow> bread (of_int (lg_dev lg)) (of_int (lg_start lg + int tail + 1)) s;
     dst \<leftarrow> nth_opt (lh_block (lh s)) tail;
     (dbuf, s) \<leftarrow> bread (of_int (lg_dev lg)) (of_int dst) s;
     d \<leftarrow> bdata lbuf s;
     s \<leftarrow> bwrite dbuf (set_bdata dbuf d s);
     s \<leftarrow> brelse lbuf s;
     brelse dbuf s
   }"

definition install_trans :: "kernel \<Rightarrow> kernel option" where
  "install_trans s = for_from (nat (lh_n (lh s))) 0 install_trans_one s"

definition read_head :: "kernel \<Rightarrow> kernel option" where
  "read_head s = do {
     let lg = log (fsys s);
     (bp, s) \<leftarrow> bread (of_int (lg_dev lg)) (of_int (lg_start lg)) s;
     d \<leftarrow> bdata bp s;
     let s = set_lh_n (sint (get_u32 d 0)) s;
     bs \<leftarrow> for_from (nat (lh_n (lh s))) 0 (\<lambda>i bs. upd_opt bs i (sint (get_u32 d (4 + 4 * i)))) (lh_block (lh s));
     brelse bp (set_lh_block bs s)
   }"

definition write_head :: "kernel \<Rightarrow> kernel option" where
  "write_head s = do {
     let lg = log (fsys s);
     (bp, s) \<leftarrow> bread (of_int (lg_dev lg)) (of_int (lg_start lg)) s;
     d \<leftarrow> bdata bp s;
     let d = put_u32 d 0 (of_int (lh_n (lh s)));
     d \<leftarrow> for_from (nat (lh_n (lh s))) 0
       (\<lambda>i d. do { b \<leftarrow> nth_opt (lh_block (lh s)) i; Some (put_u32 d (4 + 4 * i) (of_int b)) }) d;
     s \<leftarrow> bwrite bp (set_bdata bp d s);
     brelse bp s
   }"

definition recover_from_log :: "kernel \<Rightarrow> kernel option" where
  "recover_from_log s = do {
     s \<leftarrow> read_head s;
     s \<leftarrow> install_trans s;
     write_head (set_lh_n 0 s)
   }"

definition initlog :: "int \<Rightarrow> kernel \<Rightarrow> kernel option" where
  "initlog dev s = do {
     let s = initlock LogLk ''log'' s;
     (sb, s) \<leftarrow> readsb dev s;
     recover_from_log
       (upd_log (\<lambda>l. l\<lparr>lg_start := sint (sb_logstart sb), lg_size := sint (sb_nlog sb), lg_dev := dev\<rparr>) s)
   }"

section \<open>Transactions\<close>

definition begin_op_loop :: "kernel \<Rightarrow> (outcome \<times> kernel) option" where
  "begin_op_loop s = do {
     let lg = log (fsys s);
     if lg_committing lg \<noteq> 0 then do {
       (intena, s) \<leftarrow> sleep_enter ChLog (Some LogLk) s;
       Some (Asleep intena, s)
     } else if lh_n (lg_lh lg) + (lg_outstanding lg + 1) * MAXOPBLOCKS > int LOGSIZE then do {
       (intena, s) \<leftarrow> sleep_enter ChLog (Some LogLk) s;
       Some (Asleep intena, s)
     } else do {
       s \<leftarrow> release LogLk (upd_log (\<lambda>l. l\<lparr>lg_outstanding := lg_outstanding l + 1\<rparr>) s);
       Some (Done 0, s)
     }
   }"

definition begin_op_enter :: "kernel \<Rightarrow> (outcome \<times> kernel) option" where
  "begin_op_enter s = do {
     s \<leftarrow> acquire LogLk s;
     begin_op_loop s
   }"

definition begin_op_resume :: "nat \<Rightarrow> bool \<Rightarrow> kernel \<Rightarrow> (outcome \<times> kernel) option" where
  "begin_op_resume p intena s = do {
     s \<leftarrow> sleep_exit p LogLk intena s;
     begin_op_loop s
   }"

definition begin_op :: "kernel \<Rightarrow> kernel option" where
  "begin_op s = do {
     (r, s) \<leftarrow> begin_op_enter s;
     case r of Done _ \<Rightarrow> Some s | Asleep _ \<Rightarrow> None
   }"

definition write_log_one :: "nat \<Rightarrow> kernel \<Rightarrow> kernel option" where
  "write_log_one tail s = do {
     let lg = log (fsys s);
     (to, s) \<leftarrow> bread (of_int (lg_dev lg)) (of_int (lg_start lg + int tail + 1)) s;
     src \<leftarrow> nth_opt (lh_block (lh s)) tail;
     (from, s) \<leftarrow> bread (of_int (lg_dev lg)) (of_int src) s;
     d \<leftarrow> bdata from s;
     s \<leftarrow> bwrite to (set_bdata to d s);
     s \<leftarrow> brelse from s;
     brelse to s
   }"

definition write_log :: "kernel \<Rightarrow> kernel option" where
  "write_log s = for_from (nat (lh_n (lh s))) 0 write_log_one s"

definition commit :: "kernel \<Rightarrow> kernel option" where
  "commit s =
     (if lh_n (lh s) > 0 then do {
        s \<leftarrow> write_log s;
        s \<leftarrow> write_head s;
        s \<leftarrow> install_trans s;
        write_head (set_lh_n 0 s)
      } else Some s)"

definition end_op :: "kernel \<Rightarrow> kernel option" where
  "end_op s = do {
     s \<leftarrow> acquire LogLk s;
     let s = upd_log (\<lambda>l. l\<lparr>lg_outstanding := lg_outstanding l - 1\<rparr>) s;
     if lg_committing (log (fsys s)) \<noteq> 0 then None
     else if lg_outstanding (log (fsys s)) = 0 then do {
       s \<leftarrow> release LogLk (upd_log (\<lambda>l. l\<lparr>lg_committing := 1\<rparr>) s);
       s \<leftarrow> commit s;
       s \<leftarrow> acquire LogLk s;
       s \<leftarrow> wakeup (Some ChLog) (upd_log (\<lambda>l. l\<lparr>lg_committing := 0\<rparr>) s);
       release LogLk s
     } else do {
       s \<leftarrow> wakeup (Some ChLog) s;
       release LogLk s
     }
   }"

text \<open>The loop of \<open>log_write\<close> stops at the entry that already names the block, or at \<open>n\<close>.\<close>

definition log_slot :: "uint \<Rightarrow> logheader \<Rightarrow> nat" where
  "log_slot blk h = (case first_ix (\<lambda>b. of_int b = blk) (take (nat (lh_n h)) (lh_block h)) of
     Some i \<Rightarrow> i | None \<Rightarrow> nat (lh_n h))"

definition log_write :: "nat \<Rightarrow> kernel \<Rightarrow> kernel option" where
  "log_write b s =
     (if lh_n (lh s) \<ge> int LOGSIZE \<or> lh_n (lh s) \<ge> lg_size (log (fsys s)) - 1 then None
      else if lg_outstanding (log (fsys s)) < 1 then None
      else do {
        s \<leftarrow> acquire LogLk s;
        bf \<leftarrow> nth_opt (bufs s) b;
        let i = log_slot (b_blockno bf) (lh s);
        bs \<leftarrow> upd_opt (lh_block (lh s)) i (sint (b_blockno bf));
        let s = set_lh_block bs s;
        let s = (if int i = lh_n (lh s) then set_lh_n (lh_n (lh s) + 1) s else s);
        release LogLk (upd_buf b (\<lambda>bf. bf\<lparr>b_flags := b_flags bf OR B_DIRTY\<rparr>) s)
      })"

end
