(* ===== verification/Inode.thy ===== *)
theory Inode
  imports Log
begin

text \<open>
  Disk blocks and inodes (\<open>fs.c\<close> from \<open>bzero\<close> to \<open>stati\<close>).  An in-memory inode is its index in
  \<open>icache.inode\<close>.
\<close>

abbreviation (input) BPB :: nat where "BPB \<equiv> 8192"
abbreviation (input) IPB :: nat where "IPB \<equiv> 16"

definition IBLOCK :: "uint \<Rightarrow> superblock \<Rightarrow> uint" where
  "IBLOCK i su = i div of_nat IPB + sb_inodestart su"

definition BBLOCK :: "uint \<Rightarrow> superblock \<Rightarrow> uint" where
  "BBLOCK b su = b div of_nat BPB + sb_bmapstart su"

section \<open>Blocks\<close>

definition bzero :: "int \<Rightarrow> int \<Rightarrow> kernel \<Rightarrow> kernel option" where
  "bzero dev bno s = do {
     (bp, s) \<leftarrow> bread (of_int dev) (of_int bno) s;
     s \<leftarrow> log_write bp (set_bdata bp (replicate BSIZE 0) s);
     brelse bp s
   }"

text \<open>Bit \<open>bi\<close> of a bitmap block.\<close>

definition bit_mask :: "nat \<Rightarrow> byte" where
  "bit_mask bi = push_bit (bi mod 8) 1"

definition bit_free :: "block \<Rightarrow> nat \<Rightarrow> bool" where
  "bit_free d bi \<longleftrightarrow> d ! (bi div 8) AND bit_mask bi = 0"

partial_function (option) balloc_loop :: "uint \<Rightarrow> nat \<Rightarrow> kernel \<Rightarrow> (uint \<times> kernel) option" where
  "balloc_loop dev b s =
     (if b < unat (sb_size (sb (fsys s))) then do {
        (bp, s) \<leftarrow> bread dev (BBLOCK (of_nat b) (sb (fsys s))) s;
        d \<leftarrow> bdata bp s;
        case find (bit_free d) [0..<min BPB (unat (sb_size (sb (fsys s))) - b)] of
          Some bi \<Rightarrow> do {
            s \<leftarrow> log_write bp (set_bdata bp (d[bi div 8 := d ! (bi div 8) OR bit_mask bi]) s);
            s \<leftarrow> brelse bp s;
            s \<leftarrow> bzero (uint dev) (int (b + bi)) s;
            Some (of_nat (b + bi), s)
          }
        | None \<Rightarrow> do {
            s \<leftarrow> brelse bp s;
            balloc_loop dev (b + BPB) s
          }
      } else None)"

definition balloc :: "uint \<Rightarrow> kernel \<Rightarrow> (uint \<times> kernel) option" where
  "balloc dev s = balloc_loop dev 0 s"

definition bfree :: "int \<Rightarrow> uint \<Rightarrow> kernel \<Rightarrow> kernel option" where
  "bfree dev b s = do {
     (sb', s) \<leftarrow> readsb dev s;
     let s = upd_fs (\<lambda>fs. fs\<lparr>sb := sb'\<rparr>) s;
     (bp, s) \<leftarrow> bread (of_int dev) (BBLOCK b (sb (fsys s))) s;
     d \<leftarrow> bdata bp s;
     let bi = unat b mod BPB;
     if bit_free d bi then None
     else do {
       s \<leftarrow> log_write bp (set_bdata bp (d[bi div 8 := d ! (bi div 8) AND NOT (bit_mask bi)]) s);
       brelse bp s
     }
   }"

section \<open>Inodes on disk\<close>

text \<open>The \<open>dinode\<close> at byte offset \<open>k\<close> of a block: four shorts, the size, thirteen block addresses.\<close>

definition get_dinode :: "block \<Rightarrow> nat \<Rightarrow> dinode" where
  "get_dinode d k = \<lparr>di_type = get_u16 d k, di_major = get_u16 d (k + 2), di_minor = get_u16 d (k + 4),
     di_nlink = get_u16 d (k + 6), di_size = get_u32 d (k + 8),
     di_addrs = map (\<lambda>j. get_u32 d (k + 12 + 4 * j)) [0..<NDIRECT + 1]\<rparr>"

definition dinode_bytes :: "dinode \<Rightarrow> byte list" where
  "dinode_bytes di = bytes16 (di_type di) @ bytes16 (di_major di) @ bytes16 (di_minor di) @ bytes16 (di_nlink di) @
     bytes32 (di_size di) @ concat (map bytes32 (di_addrs di))"

definition dinode_off :: "uint \<Rightarrow> nat" where
  "dinode_off inum = 64 * (unat inum mod IPB)"

definition iupdate :: "nat \<Rightarrow> kernel \<Rightarrow> kernel option" where
  "iupdate ip s = do {
     i \<leftarrow> nth_opt (inodes s) ip;
     (bp, s) \<leftarrow> bread (i_dev i) (IBLOCK (i_inum i) (sb (fsys s))) s;
     d \<leftarrow> bdata bp s;
     let di = \<lparr>di_type = i_type i, di_major = i_major i, di_minor = i_minor i, di_nlink = i_nlink i,
       di_size = i_size i, di_addrs = i_addrs i\<rparr>;
     s \<leftarrow> log_write bp (set_bdata bp (put_at d (dinode_off (i_inum i)) (dinode_bytes di)) s);
     brelse bp s
   }"

section \<open>The inode cache\<close>

definition iinit :: "int \<Rightarrow> kernel \<Rightarrow> kernel option" where
  "iinit dev s = do {
     s \<leftarrow> for_from NINODE 0 (\<lambda>i s. Some (initsleeplock (SlInode i) ''inode'' s)) (initlock IcacheLk ''icache'' s);
     (sb', s) \<leftarrow> readsb dev s;
     Some (upd_fs (\<lambda>fs. fs\<lparr>sb := sb'\<rparr>) s)
   }"

definition iget :: "uint \<Rightarrow> uint \<Rightarrow> kernel \<Rightarrow> (nat \<times> kernel) option" where
  "iget dev inum s = do {
     s \<leftarrow> acquire IcacheLk s;
     case first_ix (\<lambda>i. i_ref i > 0 \<and> i_dev i = dev \<and> i_inum i = inum) (inodes s) of
       Some ip \<Rightarrow> do {
         s \<leftarrow> release IcacheLk (upd_inode ip (\<lambda>i. i\<lparr>i_ref := i_ref i + 1\<rparr>) s);
         Some (ip, s)
       }
     | None \<Rightarrow>
         (case first_ix (\<lambda>i. i_ref i = 0) (inodes s) of
            None \<Rightarrow> None
          | Some ip \<Rightarrow> do {
              s \<leftarrow> release IcacheLk (upd_inode ip (\<lambda>i. i\<lparr>i_dev := dev, i_inum := inum, i_ref := 1, i_valid := 0\<rparr>) s);
              Some (ip, s)
            })
   }"

definition idup :: "nat \<Rightarrow> kernel \<Rightarrow> (nat \<times> kernel) option" where
  "idup ip s = do {
     s \<leftarrow> acquire IcacheLk s;
     _ \<leftarrow> nth_opt (inodes s) ip;
     s \<leftarrow> release IcacheLk (upd_inode ip (\<lambda>i. i\<lparr>i_ref := i_ref i + 1\<rparr>) s);
     Some (ip, s)
   }"

text \<open>The loop of \<open>ialloc\<close> from \<open>inum\<close> on.\<close>

partial_function (option) ialloc_loop :: "uint \<Rightarrow> 16 word \<Rightarrow> nat \<Rightarrow> kernel \<Rightarrow> (nat \<times> kernel) option" where
  "ialloc_loop dev ty inum s =
     (if inum < unat (sb_ninodes (sb (fsys s))) then do {
        (bp, s) \<leftarrow> bread dev (IBLOCK (of_nat inum) (sb (fsys s))) s;
        d \<leftarrow> bdata bp s;
        let k = dinode_off (of_nat inum);
        if di_type (get_dinode d k) = 0 then do {
          let d = put_u16 (put_at d k (replicate 64 0)) k ty;
          s \<leftarrow> log_write bp (set_bdata bp d s);
          s \<leftarrow> brelse bp s;
          iget dev (of_nat inum) s
        } else do {
          s \<leftarrow> brelse bp s;
          ialloc_loop dev ty (inum + 1) s
        }
      } else None)"

definition ialloc :: "uint \<Rightarrow> 16 word \<Rightarrow> kernel \<Rightarrow> (nat \<times> kernel) option" where
  "ialloc dev ty s = ialloc_loop dev ty 1 s"

definition ilock :: "nat option \<Rightarrow> kernel \<Rightarrow> kernel option" where
  "ilock ip s = do {
     ip \<leftarrow> ip;
     i \<leftarrow> nth_opt (inodes s) ip;
     if i_ref i < 1 then None
     else do {
       s \<leftarrow> acquiresleep (SlInode ip) s;
       i \<leftarrow> nth_opt (inodes s) ip;
       if i_valid i = 0 then do {
         (bp, s) \<leftarrow> bread (i_dev i) (IBLOCK (i_inum i) (sb (fsys s))) s;
         d \<leftarrow> bdata bp s;
         let di = get_dinode d (dinode_off (i_inum i));
         let s = upd_inode ip (\<lambda>i. i\<lparr>i_type := di_type di, i_major := di_major di, i_minor := di_minor di,
           i_nlink := di_nlink di, i_size := di_size di, i_addrs := di_addrs di\<rparr>) s;
         s \<leftarrow> brelse bp s;
         let s = upd_inode ip (\<lambda>i. i\<lparr>i_valid := 1\<rparr>) s;
         if di_type di = 0 then None else Some s
       } else Some s
     }
   }"

definition iunlock :: "nat option \<Rightarrow> kernel \<Rightarrow> kernel option" where
  "iunlock ip s = do {
     ip \<leftarrow> ip;
     (h, s) \<leftarrow> holdingsleep (SlInode ip) s;
     i \<leftarrow> nth_opt (inodes s) ip;
     if \<not> h \<or> i_ref i < 1 then None else releasesleep (SlInode ip) s
   }"

definition itrunc :: "nat \<Rightarrow> kernel \<Rightarrow> kernel option" where
  "itrunc ip s = do {
     s \<leftarrow> for_from NDIRECT 0 (\<lambda>j s. do {
       i \<leftarrow> nth_opt (inodes s) ip;
       a \<leftarrow> nth_opt (i_addrs i) j;
       if a \<noteq> 0 then do {
         s \<leftarrow> bfree (uint (i_dev i)) a s;
         Some (upd_inode ip (\<lambda>i. i\<lparr>i_addrs := (i_addrs i)[j := 0]\<rparr>) s)
       } else Some s
     }) s;
     i \<leftarrow> nth_opt (inodes s) ip;
     a \<leftarrow> nth_opt (i_addrs i) NDIRECT;
     s \<leftarrow> (if a \<noteq> 0 then do {
       (bp, s) \<leftarrow> bread (i_dev i) a s;
       s \<leftarrow> for_from NINDIRECT 0 (\<lambda>j s. do {
         d \<leftarrow> bdata bp s;
         if get_u32 d (4 * j) \<noteq> 0 then bfree (uint (i_dev i)) (get_u32 d (4 * j)) s else Some s
       }) s;
       s \<leftarrow> brelse bp s;
       s \<leftarrow> bfree (uint (i_dev i)) a s;
       Some (upd_inode ip (\<lambda>i. i\<lparr>i_addrs := (i_addrs i)[NDIRECT := 0]\<rparr>) s)
     } else Some s);
     iupdate ip (upd_inode ip (\<lambda>i. i\<lparr>i_size := 0\<rparr>) s)
   }"

definition iput :: "nat \<Rightarrow> kernel \<Rightarrow> kernel option" where
  "iput ip s = do {
     s \<leftarrow> acquiresleep (SlInode ip) s;
     i \<leftarrow> nth_opt (inodes s) ip;
     s \<leftarrow> (if i_valid i \<noteq> 0 \<and> i_nlink i = 0 then do {
       s \<leftarrow> acquire IcacheLk s;
       i \<leftarrow> nth_opt (inodes s) ip;
       let r = i_ref i;
       s \<leftarrow> release IcacheLk s;
       if r = 1 then do {
         s \<leftarrow> itrunc ip s;
         s \<leftarrow> iupdate ip (upd_inode ip (\<lambda>i. i\<lparr>i_type := 0\<rparr>) s);
         Some (upd_inode ip (\<lambda>i. i\<lparr>i_valid := 0\<rparr>) s)
       } else Some s
     } else Some s);
     s \<leftarrow> releasesleep (SlInode ip) s;
     s \<leftarrow> acquire IcacheLk s;
     release IcacheLk (upd_inode ip (\<lambda>i. i\<lparr>i_ref := i_ref i - 1\<rparr>) s)
   }"

definition iunlockput :: "nat \<Rightarrow> kernel \<Rightarrow> kernel option" where
  "iunlockput ip s = do {
     s \<leftarrow> iunlock (Some ip) s;
     iput ip s
   }"

section \<open>Block addresses of a file\<close>

definition bmap :: "nat \<Rightarrow> nat \<Rightarrow> kernel \<Rightarrow> (uint \<times> kernel) option" where
  "bmap ip bn s = do {
     i \<leftarrow> nth_opt (inodes s) ip;
     if bn < NDIRECT then do {
       addr \<leftarrow> nth_opt (i_addrs i) bn;
       if addr = 0 then do {
         (addr, s) \<leftarrow> balloc (i_dev i) s;
         Some (addr, upd_inode ip (\<lambda>i. i\<lparr>i_addrs := (i_addrs i)[bn := addr]\<rparr>) s)
       } else Some (addr, s)
     } else do {
       let bn = bn - NDIRECT;
       if bn < NINDIRECT then do {
         addr \<leftarrow> nth_opt (i_addrs i) NDIRECT;
         (addr, s) \<leftarrow> (if addr = 0 then do {
             (addr, s) \<leftarrow> balloc (i_dev i) s;
             Some (addr, upd_inode ip (\<lambda>i. i\<lparr>i_addrs := (i_addrs i)[NDIRECT := addr]\<rparr>) s)
           } else Some (addr, s));
         (bp, s) \<leftarrow> bread (i_dev i) addr s;
         d \<leftarrow> bdata bp s;
         let addr = get_u32 d (4 * bn);
         (addr, s) \<leftarrow> (if addr = 0 then do {
             (addr, s) \<leftarrow> balloc (i_dev i) s;
             d \<leftarrow> bdata bp s;
             s \<leftarrow> log_write bp (set_bdata bp (put_u32 d (4 * bn) addr) s);
             Some (addr, s)
           } else Some (addr, s));
         s \<leftarrow> brelse bp s;
         Some (addr, s)
       } else None
     }
   }"

definition stati :: "nat \<Rightarrow> kernel \<Rightarrow> stat option" where
  "stati ip s = do {
     i \<leftarrow> nth_opt (inodes s) ip;
     Some \<lparr>st_type = i_type i, st_dev = i_dev i, st_ino = i_inum i, st_nlink = i_nlink i, st_size = i_size i\<rparr>
   }"

end
