(* ===== verification/Ring.thy ===== *)
theory Ring
  imports Fifo
begin

text \<open>
  Ring buffers with free-running 32-bit counters, as pipes and the console input use them:
  element number \<open>k\<close> is stored at index \<open>k % n\<close>, and the counters wrap around at the word size.
  This is right because the size \<open>n\<close> of the buffer divides it.
\<close>

definition ring_seq :: "nat \<Rightarrow> 'a list \<Rightarrow> uint \<Rightarrow> nat \<Rightarrow> 'a list" where
  "ring_seq n buf r k = map (\<lambda>j. buf ! (unat (r + of_nat j) mod n)) [0..<k]"

lemma length_ring_seq [simp]: "length (ring_seq n buf r k) = k"
  by (simp add: ring_seq_def)

lemma ring_seq_0 [simp]: "ring_seq n buf r 0 = []"
  by (simp add: ring_seq_def)

lemma ring_seq_nth [simp]: "j < k \<Longrightarrow> ring_seq n buf r k ! j = buf ! (unat (r + of_nat j) mod n)"
  by (simp add: ring_seq_def)

lemma unat_add_mod:
  fixes a b :: uint
  assumes "n dvd 2 ^ 32"
  shows "unat (a + b) mod n = (unat a + unat b) mod n"
proof -
  have "n dvd 4294967296" using assms by simp
  then have "x mod 4294967296 mod n = x mod n" for x by (rule mod_mod_cancel)
  then show ?thesis by (simp add: unat_word_ariths)
qed

lemma unat_of_nat_small: "j \<le> k \<Longrightarrow> k \<le> n \<Longrightarrow> n dvd 2 ^ 31 \<Longrightarrow> unat (of_nat j :: uint) = j"
  by (drule dvd_imp_le) (simp_all add: unsigned_of_nat take_bit_nat_eq_self)

text \<open>Different elements of the ring have different places.\<close>

lemma ring_apart:
  fixes r :: uint
  assumes "j < k" "k < n" "n dvd 2 ^ 31"
  shows "unat (r + of_nat j) mod n \<noteq> unat (r + of_nat k) mod n"
proof
  have n: "n dvd 2 ^ 32" using dvd_mult2 [OF assms(3), of 2] by simp
  have "unat (r + of_nat i) mod n = (unat r + i) mod n" if "i \<le> k" for i
    using unat_add_mod [OF n, of r "of_nat i"] unat_of_nat_small [OF that _ assms(3)] assms(2) by simp
  moreover assume "unat (r + of_nat j) mod n = unat (r + of_nat k) mod n"
  ultimately have "(unat r + k) mod n = (unat r + j) mod n" using assms(1) by simp
  then have "n dvd (unat r + k) - (unat r + j)" using assms(1) by (intro mod_eq_dvd_iff_nat [THEN iffD1]) simp_all
  then show False using assms by (auto dest: dvd_imp_le)
qed

lemma ring_push:
  assumes "length buf = n" "k < n" "n dvd 2 ^ 31"
  shows "ring_seq n (buf[unat (r + of_nat k) mod n := x]) r (Suc k) = ring_seq n buf r k @ [x]"
proof (rule nth_equalityI)
  show "length (ring_seq n (buf[unat (r + of_nat k) mod n := x]) r (Suc k)) = length (ring_seq n buf r k @ [x])" by simp
  fix j assume "j < length (ring_seq n (buf[unat (r + of_nat k) mod n := x]) r (Suc k))"
  then show "ring_seq n (buf[unat (r + of_nat k) mod n := x]) r (Suc k) ! j = (ring_seq n buf r k @ [x]) ! j"
    using assms ring_apart [OF _ assms(2,3), of j r] by (cases "j = k") (simp_all add: nth_append)
qed

lemma ring_store_beyond:
  assumes "j \<le> k" "k < n" "n dvd 2 ^ 31"
  shows "ring_seq n (buf[unat (r + of_nat k) mod n := x]) r j = ring_seq n buf r j"
proof (rule nth_equalityI)
  fix i assume "i < length (ring_seq n (buf[unat (r + of_nat k) mod n := x]) r j)"
  then show "ring_seq n (buf[unat (r + of_nat k) mod n := x]) r j ! i = ring_seq n buf r j ! i"
    using assms ring_apart [OF _ assms(2,3), of i r] by simp
qed simp

lemma ring_append: "ring_seq n buf r (j + k) = ring_seq n buf r j @ ring_seq n buf (r + of_nat j) k"
proof (rule nth_equalityI)
  fix i assume i: "i < length (ring_seq n buf r (j + k))"
  have "r + of_nat j + of_nat (i - j) = r + of_nat i" if "\<not> i < j"
    using that by (metis add.assoc of_nat_add le_add_diff_inverse not_less)
  then show "ring_seq n buf r (j + k) ! i = (ring_seq n buf r j @ ring_seq n buf (r + of_nat j) k) ! i"
    using i by (simp add: nth_append)
qed simp

lemma ring_pop: "ring_seq n buf r (Suc k) = buf ! (unat r mod n) # ring_seq n buf (r + 1) k"
  using ring_append [of n buf r 1 k] by (simp add: ring_seq_def)

text \<open>Distances between counters.\<close>

lemma unat_diff_Suc:
  fixes w r :: uint
  assumes "unat (w - r) < 2 ^ 31"
  shows "unat (w + 1 - r) = Suc (unat (w - r))"
proof -
  have "unat (w - r + 1) = Suc (unat (w - r))" using assms by (simp add: unat_word_ariths)
  moreover have "w + 1 - r = w - r + 1" by simp
  ultimately show ?thesis by metis
qed

lemma unat_diff_pred:
  fixes w r :: uint
  assumes "unat (w - r) = Suc k"
  shows "unat (w - (r + 1)) = k" "unat (w - 1 - r) = k"
proof -
  have "w - r \<noteq> 0" using assms by auto
  then have "unat (w - r - 1) = k" using assms unat_minus_one [of "w - r"] by simp
  then show "unat (w - (r + 1)) = k" "unat (w - 1 - r) = k" by (simp_all add: algebra_simps)
qed

lemma counter_reach: "r + of_nat (unat (w - r)) = w" for w r :: uint
  by simp

lemma counter_eq:
  fixes w r :: uint
  assumes "k < 2 ^ 32"
  shows "w = r + of_nat k \<longleftrightarrow> unat (w - r) = k"
proof
  assume "w = r + of_nat k"
  then show "unat (w - r) = k" using assms by (simp add: unsigned_of_nat take_bit_nat_eq_self)
next
  assume "unat (w - r) = k"
  then show "w = r + of_nat k" using counter_reach [of r w] by simp
qed

end
