(* ===== verification/Console.thy ===== *)
theory Console
  imports Inode Ring
begin

text \<open>
  The console (\<open>console.c\<close>).  What \<open>uartputc\<close> sends is appended to \<open>consout\<close>; the screen is
  \<open>crt\<close> with the cursor register \<open>crtpos\<close>.  The flag \<open>panicked\<close> is set only by \<open>panic\<close>, which
  does not return, so it is 0 wherever the model is.
\<close>

section \<open>Output\<close>

abbreviation (input) BACKSPACE :: int where "BACKSPACE \<equiv> 0x100"

text \<open>\<open>memmove\<close> and \<open>memset\<close> on the screen memory, in 16-bit cells.\<close>

definition cga_scroll :: "nat \<Rightarrow> (nat \<Rightarrow> 16 word) \<Rightarrow> nat \<Rightarrow> 16 word" where
  "cga_scroll pos m = (\<lambda>i. if pos \<le> i \<and> i < 24 * 80 then 0 else if i < 23 * 80 then m (i + 80) else m i)"

definition cgaputc :: "int \<Rightarrow> kernel \<Rightarrow> kernel option" where
  "cgaputc c s = do {
     let pos = crtpos (fsys s);
     let m = crt (fsys s);
     let (pos, m) =
       (if c = 10 then (pos + (80 - pos mod 80), m)
        else if c = BACKSPACE then (if pos > 0 then pos - 1 else pos, m)
        else (pos + 1, m(pos := (of_int c AND 0xFF) OR 0x0700)));
     if pos > 25 * 80 then None
     else do {
       let (pos, m) = (if pos div 80 \<ge> 24 then (pos - 80, cga_scroll (pos - 80) m) else (pos, m));
       Some (upd_fs (\<lambda>fs. fs\<lparr>crtpos := pos, crt := m(pos := 0x0720)\<rparr>) s)
     }
   }"

definition uartputc :: "int \<Rightarrow> kernel \<Rightarrow> kernel" where
  "uartputc c s = upd_fs (\<lambda>fs. fs\<lparr>consout := consout fs @ [of_int c]\<rparr>) s"

definition consputc :: "int \<Rightarrow> kernel \<Rightarrow> kernel option" where
  "consputc c s =
     (if c = BACKSPACE then cgaputc c (uartputc 8 (uartputc 32 (uartputc 8 s)))
      else cgaputc c (uartputc c s))"

primrec consputs :: "int list \<Rightarrow> kernel \<Rightarrow> kernel option" where
  "consputs [] s = Some s"
| "consputs (c # cs) s = do {
     s \<leftarrow> consputc c s;
     consputs cs s
   }"

text \<open>The digits that the loop of \<open>printint\<close> puts into \<open>buf\<close>, least significant first.\<close>

fun digits_rev :: "nat \<Rightarrow> nat \<Rightarrow> nat list" where
  "digits_rev base x =
     (if base \<le> 1 \<or> x < base then [x mod base] else x mod base # digits_rev base (x div base))"

declare digits_rev.simps [simp del]

definition digit_char :: "nat \<Rightarrow> int" where
  "digit_char d = int (of_char (''0123456789abcdef'' ! d) :: nat)"

definition printint_chars :: "uint \<Rightarrow> nat \<Rightarrow> bool \<Rightarrow> int list" where
  "printint_chars xx base sign =
     (let neg = sign \<and> sint xx < 0;
          x = (if neg then - xx else xx)
      in rev (map digit_char (digits_rev base (unat x)) @ (if neg then [45] else [])))"

definition printint :: "uint \<Rightarrow> nat \<Rightarrow> bool \<Rightarrow> kernel \<Rightarrow> kernel option" where
  "printint xx base sign s = consputs (printint_chars xx base sign) s"

text \<open>
  A variadic argument: a number, or a pointer to a string (\<open>None\<close> the null pointer).  Reading
  one that is not there is undefined.
\<close>

datatype vararg = VInt uint | VStr "int list option"

fun cprintf_loop :: "int list \<Rightarrow> vararg list \<Rightarrow> kernel \<Rightarrow> kernel option" where
  "cprintf_loop [] args s = Some s"
| "cprintf_loop (c # fmt) args s =
     (if c = 0 then Some s
      else if c \<noteq> 37 then do { s \<leftarrow> consputc c s; cprintf_loop fmt args s }
      else case fmt of
          [] \<Rightarrow> Some s
        | c # fmt \<Rightarrow>
            if c = 0 then Some s
            else if c = 100 then (case args of
                VInt x # args \<Rightarrow> do { s \<leftarrow> printint x 10 True s; cprintf_loop fmt args s } | _ \<Rightarrow> None)
            else if c = 120 \<or> c = 112 then (case args of
                VInt x # args \<Rightarrow> do { s \<leftarrow> printint x 16 False s; cprintf_loop fmt args s } | _ \<Rightarrow> None)
            else if c = 115 then (case args of
                VStr p # args \<Rightarrow> do {
                  s \<leftarrow> consputs (case p of None \<Rightarrow> [40, 110, 117, 108, 108, 41] | Some str \<Rightarrow> str) s;
                  cprintf_loop fmt args s
                } | _ \<Rightarrow> None)
            else if c = 37 then do { s \<leftarrow> consputc 37 s; cprintf_loop fmt args s }
            else do { s \<leftarrow> consputc 37 s; s \<leftarrow> consputc c s; cprintf_loop fmt args s })"

definition cprintf :: "int list \<Rightarrow> vararg list \<Rightarrow> kernel \<Rightarrow> kernel option" where
  "cprintf fmt args s =
     (if cons_locking (fsys s) \<noteq> 0 then do {
        s \<leftarrow> acquire ConsLk s;
        s \<leftarrow> cprintf_loop fmt args s;
        release ConsLk s
      } else cprintf_loop fmt args s)"

section \<open>Input\<close>

definition upd_input :: "(input \<Rightarrow> input) \<Rightarrow> kernel \<Rightarrow> kernel" where
  "upd_input f s = upd_fs (\<lambda>fs. fs\<lparr>input := f (input fs)\<rparr>) s"

definition input_at :: "uint \<Rightarrow> input \<Rightarrow> byte" where
  "input_at k inp = in_buf inp ! (unat k mod INPUT_BUF)"

partial_function (option) kill_line :: "kernel \<Rightarrow> kernel option" where
  "kill_line s = do {
     let inp = input (fsys s);
     if in_e inp \<noteq> in_w inp \<and> input_at (in_e inp - 1) inp \<noteq> 10 then do {
       s \<leftarrow> consputc BACKSPACE (upd_input (\<lambda>i. i\<lparr>in_e := in_e i - 1\<rparr>) s);
       kill_line s
     } else Some s
   }"

text \<open>One character from the keyboard; the result tells whether a process listing is wanted.\<close>

definition console_key :: "int \<Rightarrow> kernel \<Rightarrow> (bool \<times> kernel) option" where
  "console_key c s = do {
     let inp = input (fsys s);
     if c = 16 then Some (True, s)
     else if c = 21 then do { s \<leftarrow> kill_line s; Some (False, s) }
     else if c = 8 \<or> c = 127 then
       (if in_e inp \<noteq> in_w inp then do {
          s \<leftarrow> consputc BACKSPACE (upd_input (\<lambda>i. i\<lparr>in_e := in_e i - 1\<rparr>) s);
          Some (False, s)
        } else Some (False, s))
     else if c \<noteq> 0 \<and> in_e inp - in_r inp < of_nat INPUT_BUF then do {
       let c = (if c = 13 then 10 else c);
       let s = upd_input (\<lambda>i. i\<lparr>in_buf := (in_buf i)[unat (in_e i) mod INPUT_BUF := of_int c], in_e := in_e i + 1\<rparr>) s;
       s \<leftarrow> consputc c s;
       let inp = input (fsys s);
       if c = 10 \<or> c = 4 \<or> in_e inp = in_r inp + of_nat INPUT_BUF then do {
         s \<leftarrow> wakeup (Some ChInput) (upd_input (\<lambda>i. i\<lparr>in_w := in_e i\<rparr>) s);
         Some (False, s)
       } else Some (False, s)
     } else Some (False, s)
   }"

text \<open>
  \<open>keys\<close> is what \<open>getc\<close> returns before its first negative result.  The listing that
  \<open>procdump\<close> prints when the flag comes out true is not modelled.
\<close>

primrec console_keys :: "int list \<Rightarrow> kernel \<Rightarrow> (bool \<times> kernel) option" where
  "console_keys [] s = Some (False, s)"
| "console_keys (c # cs) s = do {
     (d1, s) \<leftarrow> console_key c s;
     (d2, s) \<leftarrow> console_keys cs s;
     Some (d1 \<or> d2, s)
   }"

definition consoleintr :: "int list \<Rightarrow> kernel \<Rightarrow> (bool \<times> kernel) option" where
  "consoleintr keys s = do {
     s \<leftarrow> acquire ConsLk s;
     (doprocdump, s) \<leftarrow> console_keys keys s;
     s \<leftarrow> release ConsLk s;
     Some (doprocdump, s)
   }"

text \<open>
  The loop of \<open>consoleread\<close>: \<open>n\<close> bytes are still wanted of \<open>target\<close>, \<open>dst\<close> has been read.
  It returns, or blocks with these local variables.
\<close>

datatype conread = ConDone int "byte list" | ConAsleep nat "byte list" bool

partial_function (option) consoleread_loop ::
  "nat \<Rightarrow> nat \<Rightarrow> nat \<Rightarrow> byte list \<Rightarrow> kernel \<Rightarrow> (conread \<times> kernel) option" where
  "consoleread_loop ip target n dst s =
     (if n > 0 then
        (if in_r (input (fsys s)) = in_w (input (fsys s)) then do {
           (p, s) \<leftarrow> myproc s;
           pr \<leftarrow> getp p s;
           if p_killed pr \<noteq> 0 then do {
             s \<leftarrow> release ConsLk s;
             s \<leftarrow> ilock (Some ip) s;
             Some (ConDone (-1) dst, s)
           } else do {
             (intena, s) \<leftarrow> sleep_enter ChInput (Some ConsLk) s;
             Some (ConAsleep n dst intena, s)
           }
         } else do {
           let inp = input (fsys s);
           let c = input_at (in_r inp) inp;
           let s = upd_input (\<lambda>i. i\<lparr>in_r := in_r i + 1\<rparr>) s;
           if c = 4 then do {
             let s = (if n < target then upd_input (\<lambda>i. i\<lparr>in_r := in_r i - 1\<rparr>) s else s);
             s \<leftarrow> release ConsLk s;
             s \<leftarrow> ilock (Some ip) s;
             Some (ConDone (int target - int n) dst, s)
           } else if c = 10 then do {
             s \<leftarrow> release ConsLk s;
             s \<leftarrow> ilock (Some ip) s;
             Some (ConDone (int target - int (n - 1)) (dst @ [c]), s)
           } else consoleread_loop ip target (n - 1) (dst @ [c]) s
         })
      else do {
        s \<leftarrow> release ConsLk s;
        s \<leftarrow> ilock (Some ip) s;
        Some (ConDone (int target - int n) dst, s)
      })"

definition consoleread_enter :: "nat \<Rightarrow> int \<Rightarrow> kernel \<Rightarrow> (conread \<times> kernel) option" where
  "consoleread_enter ip n s = do {
     s \<leftarrow> iunlock (Some ip) s;
     s \<leftarrow> acquire ConsLk s;
     consoleread_loop ip (nat n) (nat n) [] s
   }"

definition consoleread_resume :: "nat \<Rightarrow> nat \<Rightarrow> nat \<Rightarrow> nat \<Rightarrow> byte list \<Rightarrow> bool \<Rightarrow> kernel \<Rightarrow> (conread \<times> kernel) option" where
  "consoleread_resume p ip target n dst intena s = do {
     s \<leftarrow> sleep_exit p ConsLk intena s;
     consoleread_loop ip target n dst s
   }"

text \<open>As \<open>readi\<close> calls it: \<open>None\<close> when the process would have to wait for input.\<close>

definition consoleread :: "nat \<Rightarrow> int \<Rightarrow> kernel \<Rightarrow> (int \<times> byte list \<times> kernel) option" where
  "consoleread ip n s = do {
     (r, s) \<leftarrow> consoleread_enter ip n s;
     case r of ConDone r bs \<Rightarrow> Some (r, bs, s) | ConAsleep _ _ _ \<Rightarrow> None
   }"

definition consolewrite :: "nat \<Rightarrow> byte list \<Rightarrow> kernel \<Rightarrow> (int \<times> kernel) option" where
  "consolewrite ip bs s = do {
     s \<leftarrow> iunlock (Some ip) s;
     s \<leftarrow> acquire ConsLk s;
     s \<leftarrow> consputs (map uint bs) s;
     s \<leftarrow> release ConsLk s;
     s \<leftarrow> ilock (Some ip) s;
     Some (int (length bs), s)
   }"

text \<open>Routing the keyboard interrupt (\<open>ioapicenable\<close>) is hardware set-up.\<close>

definition consoleinit :: "kernel \<Rightarrow> kernel" where
  "consoleinit s = upd_fs (\<lambda>fs. fs\<lparr>devsw := (devsw fs)[1 := \<lparr>dv_read = Some Consoleread, dv_write = Some Consolewrite\<rparr>],
     cons_locking := 1\<rparr>) (initlock ConsLk ''console'' s)"

section \<open>Output never fails\<close>

text \<open>The cursor is in the 24 lines that scroll.\<close>

definition cursor_ok :: "kernel \<Rightarrow> bool" where
  "cursor_ok s \<longleftrightarrow> crtpos (fsys s) < 24 * 80"

text \<open>What is not on the screen or the serial line is not touched by output.\<close>

definition out_frame :: "kernel \<Rightarrow> kernel \<Rightarrow> bool" where
  "out_frame s s' \<longleftrightarrow> (\<exists>o' m p. s' = s\<lparr>fsys := (fsys s)\<lparr>consout := o', crt := m, crtpos := p\<rparr>\<rparr>)"

lemma out_frame_refl [simp]: "out_frame s s"
  unfolding out_frame_def by (intro exI [of _ "consout (fsys s)"] exI [of _ "crt (fsys s)"] exI [of _ "crtpos (fsys s)"]) simp

lemma out_frame_trans:
  assumes "out_frame s t" "out_frame t u"
  shows "out_frame s u"
proof -
  obtain o1 m1 p1 o2 m2 p2 where "t = s\<lparr>fsys := (fsys s)\<lparr>consout := o1, crt := m1, crtpos := p1\<rparr>\<rparr>"
    "u = t\<lparr>fsys := (fsys t)\<lparr>consout := o2, crt := m2, crtpos := p2\<rparr>\<rparr>"
    using assms unfolding out_frame_def by blast
  then have "u = s\<lparr>fsys := (fsys s)\<lparr>consout := o2, crt := m2, crtpos := p2\<rparr>\<rparr>" by simp
  then show ?thesis unfolding out_frame_def by blast
qed

lemma out_frameD:
  assumes "out_frame s s'"
  shows "mach s' = mach s" "ptable s' = ptable s" "input (fsys s') = input (fsys s)"
  using assms by (auto simp: out_frame_def)

lemma newline_pos: "p < 24 * 80 \<Longrightarrow> p + (80 - p mod 80) \<le> 24 * (80 :: nat)"
  using div_mult_mod_eq [of p 80] mod_less_divisor [of 80 p] less_mult_imp_div_less [of p 24 80] by linarith

text \<open>The end of \<open>cgaputc\<close>: scrolling, and drawing the cursor at \<open>q\<close>.\<close>

lemma scrolled_ok:
  assumes "q \<le> 24 * 80"
  shows "\<exists>s'. (let (p, m) = (if 24 \<le> q div 80 then (q - 80, cga_scroll (q - 80) m) else (q, m))
      in Some (upd_fs (\<lambda>fs. fs\<lparr>crtpos := p, crt := m(p := 0x0720)\<rparr>) s)) = Some s' \<and>
    cursor_ok s' \<and> consout (fsys s') = consout (fsys s) \<and> out_frame s s'"
proof -
  obtain p m' where pm: "(if 24 \<le> q div 80 then (q - 80, cga_scroll (q - 80) m) else (q, m)) = (p, m')" by (metis surj_pair)
  have "p < 24 * 80" using pm assms by (auto split: if_splits)
  moreover have "out_frame s (upd_fs (\<lambda>fs. fs\<lparr>crtpos := p, crt := m'(p := 0x0720)\<rparr>) s)"
    unfolding out_frame_def upd_fs_def
    by (intro exI [of _ "consout (fsys s)"] exI [of _ "m'(p := 0x0720)"] exI [of _ p]) simp
  ultimately show ?thesis unfolding pm by (simp add: cursor_ok_def upd_fs_def)
qed

lemma cgaputc_ok:
  assumes "cursor_ok s"
  shows "\<exists>s'. cgaputc c s = Some s' \<and> cursor_ok s' \<and> consout (fsys s') = consout (fsys s) \<and> out_frame s s'"
proof -
  let ?p = "crtpos (fsys s)"
  have p: "?p < 24 * 80" using assms by (simp add: cursor_ok_def)
  obtain q m where qm: "(if c = 10 then (?p + (80 - ?p mod 80), crt (fsys s))
      else if c = 0x100 then (if ?p > 0 then ?p - 1 else ?p, crt (fsys s))
      else (?p + 1, (crt (fsys s))(?p := (of_int c AND 0xFF) OR 0x0700))) = (q, m)"
    by (metis surj_pair)
  have q: "q \<le> 24 * 80" using qm newline_pos [OF p] p by (auto split: if_splits)
  from scrolled_ok [OF q, of m s] show ?thesis using q unfolding cgaputc_def Let_def qm by simp
qed

lemma consputc_ok:
  assumes "cursor_ok s"
  shows "\<exists>s'. consputc c s = Some s' \<and> cursor_ok s' \<and> out_frame s s' \<and>
    consout (fsys s') = consout (fsys s) @ (if c = 0x100 then [8, 32, 8] else [of_int c])"
proof -
  have f: "out_frame s (uartputc d s)" "cursor_ok s \<Longrightarrow> cursor_ok (uartputc d s)"
    "consout (fsys (uartputc d s)) = consout (fsys s) @ [of_int d]" for d s
    unfolding out_frame_def uartputc_def upd_fs_def cursor_ok_def
    by (intro exI [of _ "consout (fsys s) @ [of_int d]"] exI [of _ "crt (fsys s)"] exI [of _ "crtpos (fsys s)"]) simp_all
  define t where "t = (if c = 0x100 then uartputc 8 (uartputc 32 (uartputc 8 s)) else uartputc c s)"
  have "out_frame s (uartputc 8 (uartputc 32 (uartputc 8 s)))" by (metis f(1) out_frame_trans)
  then have t: "out_frame s t" "cursor_ok t" "consout (fsys t) = consout (fsys s) @ (if c = 0x100 then [8, 32, 8] else [of_int c])"
    unfolding t_def using f assms by auto
  obtain s' where "cgaputc c t = Some s'" "cursor_ok s'" "consout (fsys s') = consout (fsys t)" "out_frame t s'"
    using cgaputc_ok [OF t(2)] by blast
  moreover have "consputc c s = cgaputc c t" by (simp add: consputc_def t_def)
  ultimately show ?thesis using t out_frame_trans [OF t(1)] by simp
qed

lemma consputs_ok:
  assumes "cursor_ok s" "0x100 \<notin> set cs"
  shows "\<exists>s'. consputs cs s = Some s' \<and> cursor_ok s' \<and> out_frame s s' \<and>
    consout (fsys s') = consout (fsys s) @ map of_int cs"
  using assms
proof (induction cs arbitrary: s)
  case (Cons c cs)
  then obtain s1 where s1: "consputc c s = Some s1" "cursor_ok s1" "out_frame s s1"
    "consout (fsys s1) = consout (fsys s) @ [of_int c]"
    using consputc_ok [of s c] by auto
  moreover obtain s2 where "consputs cs s1 = Some s2" "cursor_ok s2" "out_frame s1 s2"
    "consout (fsys s2) = consout (fsys s1) @ map of_int cs"
    using Cons.IH [OF s1(2)] Cons.prems by auto
  ultimately show ?case using out_frame_trans [OF s1(3)] by simp
qed simp

section \<open>Numbers\<close>

text \<open>Reading a numeral back: the value of a digit, of a sequence of digits, and with a sign.\<close>

definition digit_val :: "int \<Rightarrow> int" where
  "digit_val c = (if c \<le> 57 then c - 48 else c - 87)"

definition read_digits :: "int \<Rightarrow> int list \<Rightarrow> int" where
  "read_digits base cs = foldl (\<lambda>a c. a * base + digit_val c) 0 cs"

definition read_num :: "int \<Rightarrow> int list \<Rightarrow> int" where
  "read_num base cs = (if cs \<noteq> [] \<and> hd cs = 45 then - read_digits base (tl cs) else read_digits base cs)"

lemma digit_chars:
  "list_all (\<lambda>d. digit_val (digit_char d) = int d \<and> digit_char d \<noteq> 0x100 \<and> digit_char d \<noteq> 45) [0..<16]"
  by code_simp

lemma digit_char_val: "d < 16 \<Longrightarrow> digit_val (digit_char d) = int d"
  and digit_char_range: "d < 16 \<Longrightarrow> digit_char d \<noteq> 0x100 \<and> digit_char d \<noteq> 45"
  using digit_chars by (simp_all add: list_all_iff)

lemma sint_magnitude: "sint xx = (if sint xx < 0 then - int (unat (- xx)) else int (unat xx))" for xx :: uint
proof -
  have r: "- 2147483648 \<le> sint xx" "sint xx < 2147483648"
    using sint_greater_eq [of xx] sint_less [of xx] by simp_all
  have i: "of_int (sint xx) = xx" by simp
  have "uint (- xx) = (- sint xx) mod 2 ^ 32"
    by (subst i [symmetric]) (simp add: uint_word_of_int flip: of_int_minus del: of_int_sint)
  moreover have "uint xx = sint xx mod 2 ^ 32"
    by (subst i [symmetric]) (simp add: uint_word_of_int del: of_int_sint)
  ultimately show ?thesis using r by (auto simp: mod_pos_pos_trivial)
qed

lemma digits_rev_less: "2 \<le> base \<Longrightarrow> d \<in> set (digits_rev base x) \<Longrightarrow> d < base"
  by (induction base x rule: digits_rev.induct) (subst (asm) (2) digits_rev.simps, auto split: if_splits)

lemma digits_rev_value:
  "2 \<le> base \<Longrightarrow> base \<le> 16 \<Longrightarrow> read_digits (int base) (rev (map digit_char (digits_rev base x))) = int x"
proof (induction base x rule: digits_rev.induct)
  case (1 base x)
  show ?case
  proof (cases "x < base")
    case True
    then show ?thesis using 1 by (subst digits_rev.simps) (simp add: read_digits_def digit_char_val)
  next
    case False
    have "x mod base < 16" using 1 mod_less_divisor [of base x] by linarith
    then show ?thesis
      using 1 False by (subst digits_rev.simps) (simp add: read_digits_def digit_char_val flip: of_nat_mult of_nat_add)
  qed
qed

lemma printint_chars_value:
  assumes "2 \<le> base" "base \<le> 16"
  shows "read_num (int base) (printint_chars xx base sign) = (if sign then sint xx else uint xx)"
    and "0x100 \<notin> set (printint_chars xx base sign)"
proof -
  let ?ds = "\<lambda>x. rev (map digit_char (digits_rev base x))"
  have "digit_char d \<noteq> 0x100 \<and> digit_char d \<noteq> 45" if "d \<in> set (digits_rev base x)" for d x
    using digits_rev_less [OF assms(1) that] assms(2) by (intro digit_char_range) simp
  then have range: "0x100 \<notin> set (?ds x)" "45 \<notin> set (?ds x)" for x by fastforce+
  then show "0x100 \<notin> set (printint_chars xx base sign)" by (simp add: printint_chars_def Let_def)
  have unsigned: "\<not> (?ds x \<noteq> [] \<and> hd (?ds x) = 45)" for x using range(2) [of x] by (metis hd_in_set)
  have plain: "read_num (int base) (?ds x) = int x" for x
    by (simp only: read_num_def unsigned if_False digits_rev_value [OF assms])
  have neg: "read_num (int base) (45 # ?ds x) = - int x" for x
    using digits_rev_value [OF assms, of x] by (simp add: read_num_def)
  show "read_num (int base) (printint_chars xx base sign) = (if sign then sint xx else uint xx)"
    using plain neg sint_magnitude [of xx] by (auto simp: printint_chars_def Let_def)
qed

section \<open>Line editing\<close>

text \<open>
  The input buffer as the user sees it: the bytes that are ready to be read, and the line that
  is being typed.
\<close>

definition ready_bytes :: "input \<Rightarrow> byte list" where
  "ready_bytes inp = ring_seq INPUT_BUF (in_buf inp) (in_r inp) (unat (in_w inp - in_r inp))"

definition edit_line :: "input \<Rightarrow> byte list" where
  "edit_line inp = ring_seq INPUT_BUF (in_buf inp) (in_w inp) (unat (in_e inp - in_w inp))"

definition input_ok :: "input \<Rightarrow> bool" where
  "input_ok inp \<longleftrightarrow> length (in_buf inp) = INPUT_BUF \<and>
     unat (in_w inp - in_r inp) + unat (in_e inp - in_w inp) \<le> INPUT_BUF"

text \<open>What a key does: control-U kills the line, backspace takes a character back, return and control-D hand the line over.\<close>

definition edit_key :: "int \<Rightarrow> byte list \<times> byte list \<Rightarrow> byte list \<times> byte list" where
  "edit_key c ql = (case ql of (q, l) \<Rightarrow>
     if c = 16 then (q, l)
     else if c = 21 then (q, rev (dropWhile (\<lambda>b. b \<noteq> 10) (rev l)))
     else if c = 8 \<or> c = 127 then (q, butlast l)
     else if c \<noteq> 0 \<and> length q + length l < INPUT_BUF then
       let c = (if c = 13 then 10 else c); l = l @ [of_int c] in
         if c = 10 \<or> c = 4 \<or> length q + length l = INPUT_BUF then (q @ l, []) else (q, l)
     else (q, l))"

definition view :: "input \<Rightarrow> byte list \<times> byte list" where
  "view inp = (ready_bytes inp, edit_line inp)"

lemma input_okD:
  assumes "input_ok inp"
  shows "length (in_buf inp) = 128" "unat (in_w inp - in_r inp) + unat (in_e inp - in_w inp) \<le> 128"
    "unat (in_e inp - in_r inp) = unat (in_w inp - in_r inp) + unat (in_e inp - in_w inp)"
proof -
  show "length (in_buf inp) = 128" and le: "unat (in_w inp - in_r inp) + unat (in_e inp - in_w inp) \<le> 128"
    using assms by (simp_all add: input_ok_def)
  have "unat ((in_w inp - in_r inp) + (in_e inp - in_w inp)) = unat (in_w inp - in_r inp) + unat (in_e inp - in_w inp)"
    using le by (simp only: unat_word_ariths) simp
  then show "unat (in_e inp - in_r inp) = unat (in_w inp - in_r inp) + unat (in_e inp - in_w inp)" by simp
qed

text \<open>The three changes of the buffer.\<close>

lemma view_typed:
  fixes b :: byte
  assumes "input_ok inp" "unat (in_e inp - in_r inp) < 128"
  defines "inp' \<equiv> inp\<lparr>in_buf := (in_buf inp)[unat (in_e inp) mod 128 := b], in_e := in_e inp + 1\<rparr>"
  shows "input_ok inp'" "view inp' = (ready_bytes inp, edit_line inp @ [b])"
proof -
  note d = input_okD [OF assms(1)]
  let ?k = "unat (in_e inp - in_w inp)" and ?j = "unat (in_w inp - in_r inp)"
  have k: "unat (in_e inp + 1 - in_w inp) = Suc ?k" using d assms(2) by (intro unat_diff_Suc) simp
  have at: "in_w inp + of_nat ?k = in_e inp" "in_r inp + of_nat (?j + ?k) = in_e inp"
    using counter_reach [of "in_r inp" "in_e inp"] unfolding d(3) by simp_all
  show "input_ok inp'" using d assms(2) k by (simp add: input_ok_def inp'_def)
  have "ring_seq 128 ((in_buf inp)[unat (in_e inp) mod 128 := b]) (in_w inp) (Suc ?k) = edit_line inp @ [b]"
    using ring_push [OF d(1), of ?k "in_w inp" b] d(3) assms(2) unfolding at by (simp add: edit_line_def)
  moreover have "ring_seq 128 ((in_buf inp)[unat (in_e inp) mod 128 := b]) (in_r inp) ?j = ready_bytes inp"
    using ring_store_beyond [of ?j "?j + ?k" 128 "in_buf inp" "in_r inp" b] d(3) assms(2) unfolding at by (simp add: ready_bytes_def)
  ultimately show "view inp' = (ready_bytes inp, edit_line inp @ [b])"
    by (simp add: view_def ready_bytes_def edit_line_def inp'_def k)
qed

lemma ring_seq_Suc: "ring_seq n buf r (Suc k) = ring_seq n buf r k @ [buf ! (unat (r + of_nat k) mod n)]"
  by (simp add: ring_seq_def)

lemma view_erased:
  assumes "input_ok inp" "in_e inp \<noteq> in_w inp"
  shows "input_ok (inp\<lparr>in_e := in_e inp - 1\<rparr>)" "view (inp\<lparr>in_e := in_e inp - 1\<rparr>) = (ready_bytes inp, butlast (edit_line inp))"
    "edit_line inp = butlast (edit_line inp) @ [input_at (in_e inp - 1) inp]"
proof -
  note d = input_okD [OF assms(1)]
  obtain k where k: "unat (in_e inp - in_w inp) = Suc k"
    using assms(2) by (cases "unat (in_e inp - in_w inp)") (auto simp: unat_eq_0)
  have k': "unat (in_e inp - 1 - in_w inp) = k" by (rule unat_diff_pred(2) [OF k])
  have "in_w inp + of_nat k = in_e inp - 1" using counter_reach [of "in_w inp" "in_e inp - 1"] unfolding k' .
  then have l: "edit_line inp = ring_seq 128 (in_buf inp) (in_w inp) k @ [input_at (in_e inp - 1) inp]"
    unfolding edit_line_def k ring_seq_Suc by (simp add: input_at_def)
  show "input_ok (inp\<lparr>in_e := in_e inp - 1\<rparr>)" using d k k' by (simp add: input_ok_def)
  show "edit_line inp = butlast (edit_line inp) @ [input_at (in_e inp - 1) inp]" unfolding l by simp
  show "view (inp\<lparr>in_e := in_e inp - 1\<rparr>) = (ready_bytes inp, butlast (edit_line inp))"
    unfolding l by (simp add: view_def ready_bytes_def edit_line_def k')
qed

lemma view_committed:
  assumes "input_ok inp"
  shows "input_ok (inp\<lparr>in_w := in_e inp\<rparr>)" "view (inp\<lparr>in_w := in_e inp\<rparr>) = (ready_bytes inp @ edit_line inp, [])"
proof -
  note d = input_okD [OF assms]
  show "input_ok (inp\<lparr>in_w := in_e inp\<rparr>)" using d by (simp add: input_ok_def)
  have "in_r inp + of_nat (unat (in_w inp - in_r inp)) = in_w inp" by simp
  then show "view (inp\<lparr>in_w := in_e inp\<rparr>) = (ready_bytes inp @ edit_line inp, [])"
    unfolding view_def using ring_append [of 128 "in_buf inp" "in_r inp" "unat (in_w inp - in_r inp)" "unat (in_e inp - in_w inp)"] d(3)
    by (simp add: ready_bytes_def edit_line_def)
qed

text \<open>The state while \<open>consoleintr\<close> holds \<open>cons.lock\<close>.\<close>

definition con_inv :: "machine \<Rightarrow> kernel \<Rightarrow> bool" where
  "con_inv m s \<longleftrightarrow> mach s = acq ConsLk m \<and> wf_machine m \<and> lock_free ConsLk m \<and> lock_free PtableLk m \<and>
     wf_rings (ptable s) \<and> prio_ok (ptable s) \<and> cursor_ok s \<and> input_ok (input (fsys s))"

lemma con_inv_out: "con_inv m s \<Longrightarrow> out_frame s s' \<Longrightarrow> cursor_ok s' \<Longrightarrow> con_inv m s'"
  unfolding con_inv_def by (simp add: out_frameD)

lemma upd_input_simps [simp]:
  "input (fsys (upd_input f s)) = f (input (fsys s))" "mach (upd_input f s) = mach s" "ptable (upd_input f s) = ptable s"
  "cursor_ok (upd_input f s) = cursor_ok s"
  by (simp_all add: upd_input_def upd_fs_def cursor_ok_def)

lemma con_inv_input: "con_inv m s \<Longrightarrow> input_ok (f (input (fsys s))) \<Longrightarrow> con_inv m (upd_input f s)"
  by (simp add: con_inv_def)

text \<open>Storing a change of the buffer and echoing it.\<close>

lemma input_echo:
  assumes "con_inv m s" "input_ok (f (input (fsys s)))"
  shows "\<exists>s'. consputc c (upd_input f s) = Some s' \<and> con_inv m s' \<and> input (fsys s') = f (input (fsys s))"
proof -
  have inv: "con_inv m (upd_input f s)" using assms by (rule con_inv_input)
  then have "cursor_ok (upd_input f s)" by (simp add: con_inv_def)
  from consputc_ok [OF this, of c] obtain s' where "consputc c (upd_input f s) = Some s'" "cursor_ok s'"
    "out_frame (upd_input f s) s'" by blast
  then show ?thesis using con_inv_out [OF inv] out_frameD(3) by auto
qed

lemma kill_line_ok:
  assumes "con_inv m s"
  shows "\<exists>s'. kill_line s = Some s' \<and> con_inv m s' \<and>
    view (input (fsys s')) = (ready_bytes (input (fsys s)), rev (dropWhile (\<lambda>b. b \<noteq> 10) (rev (edit_line (input (fsys s))))))"
  using assms
proof (induction "length (edit_line (input (fsys s)))" arbitrary: s)
  case (0 s)
  then have "in_e (input (fsys s)) = in_w (input (fsys s))" by (simp add: edit_line_def unat_eq_0)
  then show ?case using 0 by (subst kill_line.simps) (simp add: view_def)
next
  case (Suc n s)
  let ?i = "input (fsys s)" and ?erase = "\<lambda>i. i\<lparr>in_e := in_e i - 1\<rparr>"
  have ok: "input_ok ?i" using Suc.prems by (simp add: con_inv_def)
  have ne: "in_e ?i \<noteq> in_w ?i" using Suc.hyps(2) by (auto simp: edit_line_def)
  note v = view_erased [OF ok ne]
  show ?case
  proof (cases "input_at (in_e ?i - 1) ?i = 10")
    case True
    have "rev (dropWhile (\<lambda>b. b \<noteq> 10) (rev l)) = l" if "l = k @ [10]" for l k :: "byte list" using that by simp
    from this [OF v(3) [unfolded True]] show ?thesis using Suc.prems True by (subst kill_line.simps) (simp add: view_def)
  next
    case False
    obtain t where t: "consputc 0x100 (upd_input ?erase s) = Some t" "con_inv m t" "input (fsys t) = ?erase ?i"
      using input_echo [OF Suc.prems, of ?erase "0x100"] v(1) by auto
    have view: "ready_bytes (input (fsys t)) = ready_bytes ?i" "edit_line (input (fsys t)) = butlast (edit_line ?i)"
      using v(2) t(3) by (simp_all add: view_def)
    have "n = length (edit_line (input (fsys t)))" using Suc.hyps(2) view(2) by simp
    from Suc.hyps(1) [OF this t(2)] obtain s' where s': "kill_line t = Some s'" "con_inv m s'"
      "view (input (fsys s')) = (ready_bytes ?i, rev (dropWhile (\<lambda>b. b \<noteq> 10) (rev (butlast (edit_line ?i)))))"
      unfolding view by blast
    have "rev (dropWhile (\<lambda>b. b \<noteq> 10) (rev (edit_line ?i))) = rev (dropWhile (\<lambda>b. b \<noteq> 10) (rev (butlast (edit_line ?i))))"
      by (subst v(3)) (simp add: False)
    then show ?thesis using s' t(1) ne False by (subst kill_line.simps) simp
  qed
qed

lemma con_inv_wakeup:
  assumes "con_inv m s"
  shows "\<exists>s'. wakeup ch s = Some s' \<and> con_inv m s' \<and> fsys s' = fsys s \<and> proc (ptable s') = map (wake ch) (proc (ptable s))"
proof -
  have "sched_ok s" using assms by (simp add: con_inv_def sched_ok_def)
  from wakeup_eq [OF this, of ch] show ?thesis using assms by (auto simp: con_inv_def cursor_ok_def)
qed

lemma console_key_ok:
  assumes "con_inv m s"
  shows "\<exists>s'. console_key c s = Some (c = 16, s') \<and> con_inv m s' \<and>
    view (input (fsys s')) = edit_key c (view (input (fsys s)))"
proof -
  let ?i = "input (fsys s)" and ?erase = "\<lambda>i. i\<lparr>in_e := in_e i - 1\<rparr>"
  have ok: "input_ok ?i" using assms by (simp add: con_inv_def)
  note d = input_okD [OF ok]
  consider "c = 16" | "c = 21" | "c = 8 \<or> c = 127" | "c \<noteq> 16" "c \<noteq> 21" "\<not> (c = 8 \<or> c = 127)" by blast
  then show ?thesis
  proof cases
    case 1
    then show ?thesis using assms by (simp add: console_key_def edit_key_def view_def)
  next
    case 2
    then show ?thesis using kill_line_ok [OF assms] by (auto simp: console_key_def edit_key_def view_def)
  next
    case 3
    show ?thesis
    proof (cases "in_e ?i = in_w ?i")
      case True
      then have "edit_line ?i = []" by (simp add: edit_line_def)
      then show ?thesis using True 3 assms by (auto simp: console_key_def edit_key_def view_def)
    next
      case False
      note v = view_erased [OF ok False]
      obtain t where "consputc 0x100 (upd_input ?erase s) = Some t" "con_inv m t" "input (fsys t) = ?erase ?i"
        using input_echo [OF assms, of ?erase "0x100"] v(1) by auto
      then show ?thesis using 3 False v(2) by (auto simp: console_key_def edit_key_def view_def)
    qed
  next
    case 4
    have len: "length (ready_bytes ?i) + length (edit_line ?i) = unat (in_e ?i - in_r ?i)"
      using d(3) by (simp add: ready_bytes_def edit_line_def)
    have lt: "in_e ?i - in_r ?i < 128 \<longleftrightarrow> unat (in_e ?i - in_r ?i) < 128" by (simp add: word_less_nat_alt)
    show ?thesis
    proof (cases "c \<noteq> 0 \<and> unat (in_e ?i - in_r ?i) < 128")
      case False
      then show ?thesis using 4 assms len lt by (auto simp: console_key_def edit_key_def view_def)
    next
      case True
      define c' where "c' = (if c = 13 then 10 else c)"
      define f where "f = (\<lambda>i :: input. i\<lparr>in_buf := (in_buf i)[unat (in_e i) mod 128 := of_int c'], in_e := in_e i + 1\<rparr>)"
      have v: "input_ok (f ?i)" "view (f ?i) = (ready_bytes ?i, edit_line ?i @ [of_int c'])"
        using view_typed [OF ok, of "of_int c'"] True by (simp_all add: f_def)
      obtain t where t: "consputc c' (upd_input f s) = Some t" "con_inv m t" "input (fsys t) = f ?i"
        using input_echo [OF assms, of f c'] v(1) by blast
      have "in_e (f ?i) = in_r (f ?i) + 128 \<longleftrightarrow> unat (in_e ?i + 1 - in_r ?i) = 128"
        using counter_eq [of 128 "in_e ?i + 1" "in_r ?i"] by (simp add: f_def)
      also have "\<dots> \<longleftrightarrow> length (ready_bytes ?i) + length (edit_line ?i @ [of_int c' :: byte]) = 128"
        using len unat_diff_Suc [of "in_e ?i" "in_r ?i"] True by simp
      finally have full: "in_e (f ?i) = in_r (f ?i) + 128 \<longleftrightarrow> \<dots>" .
      let ?go = "c' = 10 \<or> c' = 4 \<or> in_e (f ?i) = in_r (f ?i) + 128"
      have key: "console_key c s = (if ?go then Option.bind (wakeup (Some ChInput) (upd_input (\<lambda>i. i\<lparr>in_w := in_e i\<rparr>) t))
          (\<lambda>s. Some (False, s)) else Some (False, t))"
        using 4 True lt t(1,3) unfolding console_key_def Let_def c'_def [symmetric] f_def [symmetric] by simp
      have edit: "edit_key c (view ?i) = (if ?go then (ready_bytes ?i @ edit_line ?i @ [of_int c'], []) else (ready_bytes ?i, edit_line ?i @ [of_int c']))"
        using 4 True len full unfolding edit_key_def view_def Let_def c'_def [symmetric] by simp
      show ?thesis
      proof (cases ?go)
        case go: True
        have "con_inv m (upd_input (\<lambda>i. i\<lparr>in_w := in_e i\<rparr>) t)" using t(2,3) view_committed(1) [OF v(1)] by (intro con_inv_input) simp_all
        from con_inv_wakeup [OF this, of "Some ChInput"] obtain s' where
          "wakeup (Some ChInput) (upd_input (\<lambda>i. i\<lparr>in_w := in_e i\<rparr>) t) = Some s'" "con_inv m s'" "fsys s' = fsys (upd_input (\<lambda>i. i\<lparr>in_w := in_e i\<rparr>) t)"
          by blast
        moreover have "view (input (fsys (upd_input (\<lambda>i. i\<lparr>in_w := in_e i\<rparr>) t))) = (ready_bytes ?i @ edit_line ?i @ [of_int c'], [])"
          using view_committed(2) [OF v(1)] v(2) t(3) by (simp add: view_def)
        ultimately show ?thesis using key edit go 4 by simp
      next
        case False
        then show ?thesis using key edit t v(2) 4 by simp
      qed
    qed
  qed
qed

lemma console_keys_ok:
  assumes "con_inv m s"
  shows "\<exists>s'. console_keys cs s = Some (16 \<in> set cs, s') \<and> con_inv m s' \<and>
    view (input (fsys s')) = fold edit_key cs (view (input (fsys s)))"
  using assms
proof (induction cs arbitrary: s)
  case (Cons c cs)
  obtain t where t: "console_key c s = Some (c = 16, t)" "con_inv m t" "view (input (fsys t)) = edit_key c (view (input (fsys s)))"
    using console_key_ok [OF Cons.prems] by blast
  obtain s' where "console_keys cs t = Some (16 \<in> set cs, s')" "con_inv m s'"
    "view (input (fsys s')) = fold edit_key cs (view (input (fsys t)))"
    using Cons.IH [OF t(2)] by blast
  then show ?case using t by auto
qed simp

section \<open>Properties\<close>



text \<open>
  Property C15.  Line editing.  Whatever keys are typed, \<open>consoleintr\<close> returns, and it treats the
  ring of input bytes as two sequences: the bytes ready for \<open>read\<close> and the line being typed.
  Each key acts on them as \<open>edit_key\<close> says, whatever the position of the counters in the ring.
\<close>

theorem console_line_editing:
  assumes "sched_ok s" "lock_free ConsLk (mach s)" "cursor_ok s" "input_ok (input (fsys s))"
  shows "\<exists>s'. consoleintr keys s = Some (16 \<in> set keys, s') \<and>
    view (input (fsys s')) = fold edit_key keys (view (input (fsys s))) \<and>
    input_ok (input (fsys s')) \<and> cursor_ok s' \<and> sched_ok s'"
proof -
  let ?s = "s\<lparr>mach := acq ConsLk (mach s)\<rparr>"
  note d = sched_okD [OF assms(1)]
  have "con_inv (mach s) ?s" using assms d by (simp add: con_inv_def cursor_ok_def)
  from console_keys_ok [OF this, of keys] obtain t where t: "console_keys keys ?s = Some (16 \<in> set keys, t)"
    "con_inv (mach s) t" "view (input (fsys t)) = fold edit_key keys (view (input (fsys s)))" by auto
  then have "release ConsLk t = Some (t\<lparr>mach := settle (mach s)\<rparr>)" by (intro release_acq) (simp_all add: con_inv_def)
  then show ?thesis using t assms d by (simp add: consoleintr_def con_inv_def sched_ok_def cursor_ok_def)
qed

theorem console_line_editing_witness:
  "\<exists>s'. consoleintr [104, 120, 8, 105, 13, 106] (family\<lparr>fsys := fsys0\<rparr>) = Some (False, s') \<and>
     view (input (fsys s')) = ([104, 105, 10], [106])"
proof -
  let ?s = "family\<lparr>fsys := fsys0\<rparr>"
  have "sched_ok ?s" using family_sched_ok by (simp add: sched_ok_def)
  moreover have "cursor_ok ?s" "input_ok (input (fsys ?s))" by (simp_all add: cursor_ok_def input_ok_def fsys0_def)
  moreover have "view (input (fsys ?s)) = ([], [])" by (simp add: view_def ready_bytes_def edit_line_def fsys0_def)
  ultimately show ?thesis
    using console_line_editing [of ?s "[104, 120, 8, 105, 13, 106]"] by (auto simp: edit_key_def)
qed

end
