(* ===== verification/Fs.thy ===== *)
theory Fs
  imports Console
begin

text \<open>
  Files, directories and path names (\<open>fs.c\<close> from \<open>readi\<close> on).  The bytes that \<open>readi\<close> moves to
  \<open>dst\<close> are part of its result, the bytes that \<open>writei\<close> takes from \<open>src\<close> are an argument.  A
  path and a path element are the lists of their bytes without the terminating zero.
\<close>

abbreviation (input) MAXFILE :: nat where "MAXFILE \<equiv> 268"

section \<open>File content\<close>

partial_function (option) readi_loop ::
  "nat \<Rightarrow> uint \<Rightarrow> uint \<Rightarrow> uint \<Rightarrow> byte list \<Rightarrow> kernel \<Rightarrow> (byte list \<times> kernel) option" where
  "readi_loop ip tot n off acc s =
     (if tot < n then do {
        i \<leftarrow> nth_opt (inodes s) ip;
        (addr, s) \<leftarrow> bmap ip (unat off div BSIZE) s;
        (bp, s) \<leftarrow> bread (i_dev i) addr s;
        d \<leftarrow> bdata bp s;
        let m = min (unat (n - tot)) (BSIZE - unat off mod BSIZE);
        s \<leftarrow> brelse bp s;
        readi_loop ip (tot + of_nat m) n (off + of_nat m) (acc @ take m (drop (unat off mod BSIZE) d)) s
      } else Some (acc, s))"

definition readi :: "nat \<Rightarrow> uint \<Rightarrow> uint \<Rightarrow> kernel \<Rightarrow> (int \<times> byte list \<times> kernel) option" where
  "readi ip off n s = do {
     i \<leftarrow> nth_opt (inodes s) ip;
     if i_type i = T_DEV then
       (if sint (i_major i) < 0 \<or> sint (i_major i) \<ge> int NDEV then Some (-1, [], s)
        else case dv_read (devsw (fsys s) ! unat (i_major i)) of
            Some Consoleread \<Rightarrow> consoleread ip (sint n) s
          | _ \<Rightarrow> Some (-1, [], s))
     else if off > i_size i \<or> off + n < off then Some (-1, [], s)
     else do {
       let n = (if off + n > i_size i then i_size i - off else n);
       (bs, s) \<leftarrow> readi_loop ip 0 n off [] s;
       Some (sint n, bs, s)
     }
   }"

partial_function (option) writei_loop ::
  "nat \<Rightarrow> uint \<Rightarrow> uint \<Rightarrow> uint \<Rightarrow> byte list \<Rightarrow> kernel \<Rightarrow> (uint \<times> kernel) option" where
  "writei_loop ip tot n off src s =
     (if tot < n then do {
        i \<leftarrow> nth_opt (inodes s) ip;
        (addr, s) \<leftarrow> bmap ip (unat off div BSIZE) s;
        (bp, s) \<leftarrow> bread (i_dev i) addr s;
        d \<leftarrow> bdata bp s;
        let m = min (unat (n - tot)) (BSIZE - unat off mod BSIZE);
        s \<leftarrow> log_write bp (set_bdata bp (put_at d (unat off mod BSIZE) (take m src)) s);
        s \<leftarrow> brelse bp s;
        writei_loop ip (tot + of_nat m) n (off + of_nat m) (drop m src) s
      } else Some (off, s))"

definition writei :: "nat \<Rightarrow> byte list \<Rightarrow> uint \<Rightarrow> uint \<Rightarrow> kernel \<Rightarrow> (int \<times> kernel) option" where
  "writei ip src off n s = do {
     i \<leftarrow> nth_opt (inodes s) ip;
     if i_type i = T_DEV then
       (if sint (i_major i) < 0 \<or> sint (i_major i) \<ge> int NDEV then Some (-1, s)
        else case dv_write (devsw (fsys s) ! unat (i_major i)) of
            Some Consolewrite \<Rightarrow> consolewrite ip (take (unat n) src) s
          | _ \<Rightarrow> Some (-1, s))
     else if off > i_size i \<or> off + n < off then Some (-1, s)
     else if off + n > of_nat (MAXFILE * BSIZE) then Some (-1, s)
     else do {
       (off, s) \<leftarrow> writei_loop ip 0 n off src s;
       i \<leftarrow> nth_opt (inodes s) ip;
       if n > 0 \<and> off > i_size i then do {
         s \<leftarrow> iupdate ip (upd_inode ip (\<lambda>i. i\<lparr>i_size := off\<rparr>) s);
         Some (sint n, s)
       } else Some (sint n, s)
     }
   }"

section \<open>Directories\<close>

definition namecmp :: "byte list \<Rightarrow> byte list \<Rightarrow> bool" where
  "namecmp s t \<longleftrightarrow> strneq_l 0 s t DIRSIZ"

definition get_dirent :: "byte list \<Rightarrow> dirent" where
  "get_dirent bs = \<lparr>de_inum = get_u16 bs 0, de_name = take DIRSIZ (drop 2 bs)\<rparr>"

definition dirent_bytes :: "dirent \<Rightarrow> byte list" where
  "dirent_bytes de = bytes16 (de_inum de) @ de_name de"

text \<open>The result is the inode found, with the byte offset of its entry.\<close>

partial_function (option) dirlookup_loop ::
  "nat \<Rightarrow> byte list \<Rightarrow> uint \<Rightarrow> kernel \<Rightarrow> ((nat \<times> uint) option \<times> kernel) option" where
  "dirlookup_loop dp name off s = do {
     i \<leftarrow> nth_opt (inodes s) dp;
     if off < i_size i then do {
       (r, bs, s) \<leftarrow> readi dp off 16 s;
       if r \<noteq> 16 then None
       else do {
         let de = get_dirent bs;
         if de_inum de \<noteq> 0 \<and> namecmp name (de_name de) then do {
           (ip, s) \<leftarrow> iget (i_dev i) (ucast (de_inum de)) s;
           Some (Some (ip, off), s)
         } else dirlookup_loop dp name (off + 16) s
       }
     } else Some (None, s)
   }"

definition dirlookup :: "nat \<Rightarrow> byte list \<Rightarrow> kernel \<Rightarrow> ((nat \<times> uint) option \<times> kernel) option" where
  "dirlookup dp name s = do {
     i \<leftarrow> nth_opt (inodes s) dp;
     if i_type i \<noteq> T_DIR then None else dirlookup_loop dp name 0 s
   }"

partial_function (option) dirlink_slot :: "nat \<Rightarrow> uint \<Rightarrow> kernel \<Rightarrow> (uint \<times> kernel) option" where
  "dirlink_slot dp off s = do {
     i \<leftarrow> nth_opt (inodes s) dp;
     if off < i_size i then do {
       (r, bs, s) \<leftarrow> readi dp off 16 s;
       if r \<noteq> 16 then None
       else if de_inum (get_dirent bs) = 0 then Some (off, s)
       else dirlink_slot dp (off + 16) s
     } else Some (off, s)
   }"

definition dirlink :: "nat \<Rightarrow> byte list \<Rightarrow> uint \<Rightarrow> kernel \<Rightarrow> (int \<times> kernel) option" where
  "dirlink dp name inum s = do {
     (r, s) \<leftarrow> dirlookup dp name s;
     case r of
       Some (ip, _) \<Rightarrow> do {
         s \<leftarrow> iput ip s;
         Some (-1, s)
       }
     | None \<Rightarrow> do {
         (off, s) \<leftarrow> dirlink_slot dp 0 s;
         let de = \<lparr>de_inum = ucast inum, de_name = strncpy_l 0 name DIRSIZ\<rparr>;
         (r, s) \<leftarrow> writei dp (dirent_bytes de) off 16 s;
         if r \<noteq> 16 then None else Some (0, s)
       }
   }"

section \<open>Paths\<close>

definition skipelem :: "byte list \<Rightarrow> (byte list \<times> byte list) option" where
  "skipelem path =
     (let path = dropWhile (\<lambda>c. c = 47) path
      in if path = [] then None
         else let s = takeWhile (\<lambda>c. c \<noteq> 47) path;
                  path = dropWhile (\<lambda>c. c \<noteq> 47) path
              in Some (dropWhile (\<lambda>c. c = 47) path, take DIRSIZ s))"

text \<open>
  \<open>curproc\<close> is the result of \<open>myproc()\<close>; \<open>name\<close> is the caller's buffer.  The result is the
  inode with the final content of that buffer.
\<close>

partial_function (option) namex_loop ::
  "nat option \<Rightarrow> nat \<Rightarrow> byte list \<Rightarrow> bool \<Rightarrow> byte list \<Rightarrow> kernel \<Rightarrow> ((nat option \<times> byte list) \<times> kernel) option" where
  "namex_loop curproc ip path nameiparent name s =
     (case skipelem path of
        None \<Rightarrow>
          if nameiparent then do {
            s \<leftarrow> iput ip s;
            Some ((None, name), s)
          } else Some ((Some ip, name), s)
      | Some (path, name) \<Rightarrow> do {
          s \<leftarrow> ilock (Some ip) s;
          i \<leftarrow> nth_opt (inodes s) ip;
          if i_type i \<noteq> T_DIR then do {
            s \<leftarrow> iunlockput ip s;
            Some ((None, name), s)
          } else do {
            pr \<leftarrow> getp curproc s;
            if p_in_newroot pr \<noteq> 0 \<and> Some ip = p_newroot_inode pr \<and> namecmp name [46, 46] then
              (if nameiparent \<and> path = [] then do {
                 s \<leftarrow> iunlock (Some ip) s;
                 Some ((Some ip, name), s)
               } else do {
                 (next, s) \<leftarrow> idup ip s;
                 s \<leftarrow> iunlockput ip s;
                 namex_loop curproc next path nameiparent name s
               })
            else if nameiparent \<and> path = [] then do {
              s \<leftarrow> iunlock (Some ip) s;
              Some ((Some ip, name), s)
            } else do {
              (r, s) \<leftarrow> dirlookup ip name s;
              case r of
                None \<Rightarrow> do {
                  s \<leftarrow> iunlockput ip s;
                  Some ((None, name), s)
                }
              | Some (next, _) \<Rightarrow> do {
                  s \<leftarrow> iunlockput ip s;
                  namex_loop curproc next path nameiparent name s
                }
            }
          }
        })"

definition namex :: "byte list \<Rightarrow> bool \<Rightarrow> kernel \<Rightarrow> ((nat option \<times> byte list) \<times> kernel) option" where
  "namex path nameiparent s = do {
     (curproc, s) \<leftarrow> myproc s;
     let absolute = (path \<noteq> [] \<and> hd path = 47);
     (ip, s) \<leftarrow>
       (if curproc \<noteq> None \<and> map_option p_in_newroot (getp curproc s) = Some 1 then do {
          pr \<leftarrow> getp curproc s;
          cwd \<leftarrow> p_cwd pr;
          if absolute then do {
            c \<leftarrow> nth_opt (inodes s) cwd;
            iget (i_dev c) (i_inum c) s
          } else idup cwd s
        } else if absolute then iget ROOTDEV ROOTINO s
        else do {
          pr \<leftarrow> getp curproc s;
          cwd \<leftarrow> p_cwd pr;
          idup cwd s
        });
     namex_loop curproc ip path nameiparent [] s
   }"

definition namei :: "byte list \<Rightarrow> kernel \<Rightarrow> (nat option \<times> kernel) option" where
  "namei path s = do {
     ((ip, _), s) \<leftarrow> namex path False s;
     Some (ip, s)
   }"

definition nameiparent :: "byte list \<Rightarrow> kernel \<Rightarrow> ((nat option \<times> byte list) \<times> kernel) option" where
  "nameiparent path s = namex path True s"

definition is_inode_directory :: "nat option \<Rightarrow> kernel \<Rightarrow> (bool \<times> kernel) option" where
  "is_inode_directory ip s = do {
     s \<leftarrow> ilock ip s;
     i \<leftarrow> ip;
     i \<leftarrow> nth_opt (inodes s) i;
     let is_dir = (i_type i = T_DIR);
     s \<leftarrow> iunlock ip s;
     Some (is_dir, s)
   }"

end
