(* ===== verification/Pipe.thy ===== *)
theory Pipe
  imports UserAccess Ring
begin

text \<open>
  Pipes (\<open>pipe.c\<close>; \<open>pipealloc\<close> is with the file table).  A pipe is named by the address of the
  page it lives in.  \<open>pipewrite\<close> and \<open>piperead\<close> may block: they return, or they give up the
  processor with the number of bytes written so far.
\<close>

definition get_pipe :: "uint \<Rightarrow> kernel \<Rightarrow> pipe" where
  "get_pipe p s = pipes (fsys s) p"

definition upd_pipe :: "uint \<Rightarrow> (pipe \<Rightarrow> pipe) \<Rightarrow> kernel \<Rightarrow> kernel" where
  "upd_pipe p f s = s\<lparr>fsys := (fsys s)\<lparr>pipes := (pipes (fsys s))(p := f (pipes (fsys s) p))\<rparr>\<rparr>"

definition pipeclose :: "uint \<Rightarrow> bool \<Rightarrow> kernel \<Rightarrow> kernel option" where
  "pipeclose p writable s = do {
     s \<leftarrow> acquire (PipeLk p) s;
     s \<leftarrow> (if writable then wakeup (Some (ChPipeR p)) (upd_pipe p (\<lambda>q. q\<lparr>pi_writeopen := 0\<rparr>) s)
           else wakeup (Some (ChPipeW p)) (upd_pipe p (\<lambda>q. q\<lparr>pi_readopen := 0\<rparr>) s));
     if pi_readopen (get_pipe p s) = 0 \<and> pi_writeopen (get_pipe p s) = 0 then do {
       s \<leftarrow> release (PipeLk p) s;
       kfree p s
     } else release (PipeLk p) s
   }"

section \<open>Writing\<close>

datatype piperes = PipeDone int "byte list" | PipeAsleep nat bool

text \<open>\<open>p->data[p->nwrite++ % PIPESIZE] = b\<close> and \<open>p->data[p->nread++ % PIPESIZE]\<close>.\<close>

definition pipe_put :: "byte \<Rightarrow> pipe \<Rightarrow> pipe option" where
  "pipe_put b q = do {
     d \<leftarrow> upd_opt (pi_data q) (unat (pi_nwrite q) mod PIPESIZE) b;
     Some (q\<lparr>pi_data := d, pi_nwrite := pi_nwrite q + 1\<rparr>)
   }"

definition pipe_get :: "pipe \<Rightarrow> (byte \<times> pipe) option" where
  "pipe_get q = do {
     b \<leftarrow> nth_opt (pi_data q) (unat (pi_nread q) mod PIPESIZE);
     Some (b, q\<lparr>pi_nread := pi_nread q + 1\<rparr>)
   }"

definition pipe_full :: "pipe \<Rightarrow> bool" where
  "pipe_full q \<longleftrightarrow> pi_nwrite q = pi_nread q + of_nat PIPESIZE"

text \<open>The loop of \<open>pipewrite\<close>: \<open>i\<close> bytes are written, \<open>bs\<close> are left.\<close>

primrec pipewrite_loop :: "uint \<Rightarrow> nat \<Rightarrow> byte list \<Rightarrow> kernel \<Rightarrow> (piperes \<times> kernel) option" where
  "pipewrite_loop p i [] s = do {
     s \<leftarrow> wakeup (Some (ChPipeR p)) s;
     s \<leftarrow> release (PipeLk p) s;
     Some (PipeDone (int i) [], s)
   }"
| "pipewrite_loop p i (b # bs) s =
     (if pipe_full (get_pipe p s) then
        (if pi_readopen (get_pipe p s) = 0 then do {
           s \<leftarrow> release (PipeLk p) s;
           Some (PipeDone (-1) [], s)
         } else do {
           (pr, s) \<leftarrow> myproc s;
           pr \<leftarrow> getp pr s;
           if p_killed pr \<noteq> 0 then do {
             s \<leftarrow> release (PipeLk p) s;
             Some (PipeDone (-1) [], s)
           } else do {
             s \<leftarrow> wakeup (Some (ChPipeR p)) s;
             (intena, s) \<leftarrow> sleep_enter (ChPipeW p) (Some (PipeLk p)) s;
             Some (PipeAsleep i intena, s)
           }
         })
      else do {
        q \<leftarrow> pipe_put b (get_pipe p s);
        pipewrite_loop p (Suc i) bs (upd_pipe p (\<lambda>_. q) s)
      })"

definition pipewrite :: "uint \<Rightarrow> byte list \<Rightarrow> kernel \<Rightarrow> (piperes \<times> kernel) option" where
  "pipewrite p bs s = do {
     s \<leftarrow> acquire (PipeLk p) s;
     pipewrite_loop p 0 bs s
   }"

definition pipewrite_resume :: "nat \<Rightarrow> uint \<Rightarrow> nat \<Rightarrow> byte list \<Rightarrow> bool \<Rightarrow> kernel \<Rightarrow> (piperes \<times> kernel) option" where
  "pipewrite_resume pr p i bs intena s = do {
     s \<leftarrow> sleep_exit pr (PipeLk p) intena s;
     pipewrite_loop p i (drop i bs) s
   }"

section \<open>Reading\<close>

text \<open>Up to \<open>n\<close> bytes, as long as there are any.\<close>

primrec pipe_take :: "nat \<Rightarrow> pipe \<Rightarrow> (byte list \<times> pipe) option" where
  "pipe_take 0 q = Some ([], q)"
| "pipe_take (Suc n) q =
     (if pi_nread q = pi_nwrite q then Some ([], q)
      else do {
        (b, q) \<leftarrow> pipe_get q;
        (bs, q) \<leftarrow> pipe_take n q;
        Some (b # bs, q)
      })"

definition piperead_loop :: "uint \<Rightarrow> int \<Rightarrow> kernel \<Rightarrow> (piperes \<times> kernel) option" where
  "piperead_loop p n s =
     (if pi_nread (get_pipe p s) = pi_nwrite (get_pipe p s) \<and> pi_writeopen (get_pipe p s) \<noteq> 0 then do {
        (pr, s) \<leftarrow> myproc s;
        pr \<leftarrow> getp pr s;
        if p_killed pr \<noteq> 0 then do {
          s \<leftarrow> release (PipeLk p) s;
          Some (PipeDone (-1) [], s)
        } else do {
          (intena, s) \<leftarrow> sleep_enter (ChPipeR p) (Some (PipeLk p)) s;
          Some (PipeAsleep 0 intena, s)
        }
      } else do {
        (bs, q) \<leftarrow> pipe_take (nat n) (get_pipe p s);
        s \<leftarrow> wakeup (Some (ChPipeW p)) (upd_pipe p (\<lambda>_. q) s);
        s \<leftarrow> release (PipeLk p) s;
        Some (PipeDone (int (length bs)) bs, s)
      })"

definition piperead :: "uint \<Rightarrow> int \<Rightarrow> kernel \<Rightarrow> (piperes \<times> kernel) option" where
  "piperead p n s = do {
     s \<leftarrow> acquire (PipeLk p) s;
     piperead_loop p n s
   }"

definition piperead_resume :: "nat \<Rightarrow> uint \<Rightarrow> int \<Rightarrow> bool \<Rightarrow> kernel \<Rightarrow> (piperes \<times> kernel) option" where
  "piperead_resume pr p n intena s = do {
     s \<leftarrow> sleep_exit pr (PipeLk p) intena s;
     piperead_loop p n s
   }"

section \<open>The ring is a bounded queue\<close>

text \<open>The bytes in a pipe, oldest first.  The counters run freely and wrap around at $2^{32}$.\<close>

definition pipe_used :: "pipe \<Rightarrow> nat" where
  "pipe_used q = unat (pi_nwrite q - pi_nread q)"

definition pipe_bytes :: "pipe \<Rightarrow> byte list" where
  "pipe_bytes q = ring_seq PIPESIZE (pi_data q) (pi_nread q) (pipe_used q)"

definition pipe_ok :: "pipe \<Rightarrow> bool" where
  "pipe_ok q \<longleftrightarrow> length (pi_data q) = PIPESIZE \<and> pipe_used q \<le> PIPESIZE"

lemma length_pipe_bytes [simp]: "length (pipe_bytes q) = pipe_used q"
  by (simp add: pipe_bytes_def)

lemma pipe_full_iff: "pipe_full q \<longleftrightarrow> pipe_used q = PIPESIZE"
  using counter_eq [of 512 "pi_nwrite q" "pi_nread q"] by (simp add: pipe_full_def pipe_used_def)

lemma pipe_empty_iff: "pi_nread q = pi_nwrite q \<longleftrightarrow> pipe_used q = 0"
  by (auto simp: pipe_used_def unat_eq_0)

lemma pipe_put_ok:
  assumes "pipe_ok q" "pipe_used q < PIPESIZE"
  shows "\<exists>q'. pipe_put b q = Some q' \<and> pipe_ok q' \<and> pipe_bytes q' = pipe_bytes q @ [b] \<and>
    pi_readopen q' = pi_readopen q \<and> pi_writeopen q' = pi_writeopen q"
proof -
  let ?q = "q\<lparr>pi_data := (pi_data q)[unat (pi_nwrite q) mod 512 := b], pi_nwrite := pi_nwrite q + 1\<rparr>"
  have len: "length (pi_data q) = 512" using assms(1) by (simp add: pipe_ok_def)
  have used: "pipe_used ?q = Suc (pipe_used q)"
    using assms(2) unat_diff_Suc [of "pi_nwrite q" "pi_nread q"] by (simp add: pipe_used_def)
  have nw: "pi_nread q + of_nat (pipe_used q) = pi_nwrite q" by (simp add: pipe_used_def)
  have "pipe_bytes ?q = pipe_bytes q @ [b]"
    using ring_push [OF len, of "pipe_used q" "pi_nread q" b] assms(2) unfolding pipe_bytes_def used nw by simp
  then show ?thesis using assms len used by (auto simp: pipe_put_def pipe_ok_def)
qed

lemma pipe_get_ok:
  assumes "pipe_ok q" "pipe_bytes q = b # bs"
  shows "\<exists>q'. pipe_get q = Some (b, q') \<and> pipe_ok q' \<and> pipe_bytes q' = bs \<and>
    pi_readopen q' = pi_readopen q \<and> pi_writeopen q' = pi_writeopen q"
proof -
  let ?q = "q\<lparr>pi_nread := pi_nread q + 1\<rparr>"
  have u: "pipe_used q = Suc (length bs)" using assms(2) length_pipe_bytes [of q] by simp
  have used: "pipe_used ?q = length bs" using unat_diff_pred(1) [OF u [unfolded pipe_used_def]] by (simp add: pipe_used_def)
  have "pi_data q ! (unat (pi_nread q) mod 512) # ring_seq 512 (pi_data q) (pi_nread q + 1) (length bs) = b # bs"
    using assms(2) unfolding pipe_bytes_def u ring_pop .
  then have "pi_data q ! (unat (pi_nread q) mod 512) = b" "pipe_bytes ?q = bs"
    unfolding pipe_bytes_def used by simp_all
  then show ?thesis using assms(1) used u by (simp add: pipe_get_def pipe_ok_def)
qed

interpretation pipe_fifo: bounded_fifo pipe_bytes pipe_ok "\<lambda>_ q. pipe_used q < PIPESIZE" "\<lambda>_. True" "\<lambda>b. b" pipe_put pipe_get
proof unfold_locales
  fix q :: pipe and b assume "pipe_ok q" "pipe_used q < PIPESIZE"
  then show "\<exists>q'. pipe_put b q = Some q' \<and> pipe_ok q' \<and> pipe_bytes q' = pipe_bytes q @ [b] \<and> (True \<longrightarrow> True)"
    using pipe_put_ok by metis
next
  fix q :: pipe and b bs assume "pipe_ok q" True "pipe_bytes q = b # bs"
  then show "\<exists>q'. pipe_get q = Some (b, q') \<and> pipe_ok q' \<and> True \<and> pipe_bytes q' = bs"
    using pipe_get_ok by metis
qed

section \<open>Writing and reading under the lock\<close>

lemma upd_pipe_simps [simp]:
  "get_pipe p (upd_pipe p f s) = f (get_pipe p s)"
  "mach (upd_pipe p f s) = mach s" "ptable (upd_pipe p f s) = ptable s"
  "upd_pipe p f (upd_pipe p g s) = upd_pipe p (\<lambda>q. f (g q)) s"
  "upd_pipe p f (s\<lparr>mach := m\<rparr>) = (upd_pipe p f s)\<lparr>mach := m\<rparr>"
  "upd_pipe p f (s\<lparr>ptable := pt\<rparr>) = (upd_pipe p f s)\<lparr>ptable := pt\<rparr>"
  by (simp_all add: upd_pipe_def get_pipe_def)

lemma get_pipe_simps [simp]:
  "get_pipe p (s\<lparr>mach := m\<rparr>) = get_pipe p s" "get_pipe p (s\<lparr>ptable := pt\<rparr>) = get_pipe p s"
  by (simp_all add: get_pipe_def)

text \<open>As long as there is room, the loop stores byte after byte.\<close>

lemma pipewrite_loop_room:
  assumes "pipe_ok (get_pipe p s)" "pipe_used (get_pipe p s) + length bs \<le> PIPESIZE"
  shows "\<exists>q'. pipewrite_loop p i (bs @ cs) s = pipewrite_loop p (i + length bs) cs (upd_pipe p (\<lambda>_. q') s) \<and>
    pipe_ok q' \<and> pipe_bytes q' = pipe_bytes (get_pipe p s) @ bs \<and>
    pi_readopen q' = pi_readopen (get_pipe p s) \<and> pi_writeopen q' = pi_writeopen (get_pipe p s)"
  using assms
proof (induction bs arbitrary: i s)
  case Nil
  have "upd_pipe p (\<lambda>_. get_pipe p s) s = s" by (simp add: upd_pipe_def get_pipe_def)
  then show ?case using Nil by (intro exI [of _ "get_pipe p s"]) simp
next
  case (Cons b bs)
  then obtain q1 where q1: "pipe_put b (get_pipe p s) = Some q1" "pipe_ok q1"
    "pipe_bytes q1 = pipe_bytes (get_pipe p s) @ [b]" "pi_readopen q1 = pi_readopen (get_pipe p s)"
    "pi_writeopen q1 = pi_writeopen (get_pipe p s)"
    using pipe_put_ok [of "get_pipe p s" b] by auto
  have "pipe_used q1 = Suc (pipe_used (get_pipe p s))" using q1(3) by (metis length_append_singleton length_pipe_bytes)
  moreover have "\<not> pipe_full (get_pipe p s)" using Cons.prems by (simp add: pipe_full_iff)
  ultimately show ?case
    using Cons.IH [of "upd_pipe p (\<lambda>_. q1) s" "Suc i"] Cons.prems q1 by simp
qed

lemma pipe_take_ok:
  assumes "pipe_ok q"
  shows "\<exists>q'. pipe_take n q = Some (take n (pipe_bytes q), q') \<and> pipe_ok q' \<and> pipe_bytes q' = drop n (pipe_bytes q) \<and>
    pi_readopen q' = pi_readopen q \<and> pi_writeopen q' = pi_writeopen q"
  using assms
proof (induction n arbitrary: q)
  case (Suc n)
  show ?case
  proof (cases "pipe_bytes q")
    case Nil
    then have "pi_nread q = pi_nwrite q" using length_pipe_bytes [of q] by (simp add: pipe_empty_iff)
    then show ?thesis using Nil Suc.prems by simp
  next
    case (Cons b bs)
    then have "pi_nread q \<noteq> pi_nwrite q" using length_pipe_bytes [of q] by (simp add: pipe_empty_iff)
    moreover obtain q1 where q1: "pipe_get q = Some (b, q1)" "pipe_ok q1" "pipe_bytes q1 = bs"
      "pi_readopen q1 = pi_readopen q" "pi_writeopen q1 = pi_writeopen q"
      using pipe_get_ok [OF Suc.prems Cons] by blast
    moreover obtain q2 where "pipe_take n q1 = Some (take n bs, q2)" "pipe_ok q2" "pipe_bytes q2 = drop n bs"
      "pi_readopen q2 = pi_readopen q1" "pi_writeopen q2 = pi_writeopen q1"
      using Suc.IH [OF q1(2)] q1(3) by blast
    ultimately show ?thesis using Cons by simp
  qed
qed simp

text \<open>\<open>pipe_quiet\<close>: process \<open>i\<close> runs outside every lock, the lock of the pipe is free and its ring well-formed.\<close>

definition pipe_quiet :: "nat \<Rightarrow> uint \<Rightarrow> kernel \<Rightarrow> bool" where
  "pipe_quiet i p s \<longleftrightarrow> sched_ok s \<and> outside (mach s) i \<and> i < length (proc (ptable s)) \<and>
     lock_free (PipeLk p) (mach s) \<and> pipe_ok (get_pipe p s)"

lemma pipe_quietD:
  assumes "pipe_quiet i p s"
  shows "sched_ok s" "outside (mach s) i" "i < length (proc (ptable s))" "lock_free (PipeLk p) (mach s)"
    "pipe_ok (get_pipe p s)" "wf_machine (mach s)" "lock_free PtableLk (mach s)"
  using assms unfolding pipe_quiet_def sched_ok_def by blast+

lemma outside_settle [simp]: "outside (settle m) i = outside m i"
  by (simp add: outside_def)

lemma sched_ok_frame:
  "sched_ok s \<Longrightarrow> mach s' = acq lk (mach s) \<Longrightarrow> ptable s' = ptable s \<Longrightarrow> lk \<noteq> PtableLk \<Longrightarrow> sched_ok s'"
  by (simp add: sched_ok_def)

text \<open>A wakeup and the release of the lock, at the end of both operations.\<close>

lemma pipe_finish:
  assumes "pipe_quiet i p s" "pipe_ok q"
  shows "\<exists>s'. Option.bind (wakeup ch ((upd_pipe p (\<lambda>_. q) s)\<lparr>mach := acq (PipeLk p) (mach s)\<rparr>)) (release (PipeLk p)) = Some s' \<and>
    get_pipe p s' = q \<and> proc (ptable s') = map (wake ch) (proc (ptable s)) \<and> pipe_quiet i p s'"
proof -
  note d = pipe_quietD [OF assms(1)]
  let ?s = "(upd_pipe p (\<lambda>_. q) s)\<lparr>mach := acq (PipeLk p) (mach s)\<rparr>"
  have "sched_ok ?s" using d(1) by (rule sched_ok_frame [where lk = "PipeLk p"]) simp_all
  from wakeup_eq [OF this, of ch] obtain pt' where pt': "wakeup ch ?s = Some (?s\<lparr>mach := settle (mach ?s), ptable := pt'\<rparr>)"
    "wf_rings pt'" "prio_ok pt'" "proc pt' = map (wake ch) (proc (ptable s))" by auto
  then show ?thesis using d assms(2) by (simp add: pipe_quiet_def sched_ok_def)
qed

lemma pipewrite_room:
  assumes "pipe_quiet i p s" "pipe_used (get_pipe p s) + length bs \<le> PIPESIZE"
  shows "\<exists>s'. pipewrite p bs s = Some (PipeDone (int (length bs)) [], s') \<and>
    pipe_bytes (get_pipe p s') = pipe_bytes (get_pipe p s) @ bs \<and>
    pi_writeopen (get_pipe p s') = pi_writeopen (get_pipe p s) \<and>
    proc (ptable s') = map (wake (Some (ChPipeR p))) (proc (ptable s)) \<and> pipe_quiet i p s'"
proof -
  note d = pipe_quietD [OF assms(1)]
  let ?s = "s\<lparr>mach := acq (PipeLk p) (mach s)\<rparr>"
  obtain q' where q': "pipewrite_loop p 0 bs ?s = pipewrite_loop p (length bs) [] (upd_pipe p (\<lambda>_. q') ?s)"
    "pipe_ok q'" "pipe_bytes q' = pipe_bytes (get_pipe p s) @ bs" "pi_writeopen q' = pi_writeopen (get_pipe p s)"
    using pipewrite_loop_room [of p ?s bs 0 "[]"] d(5) assms(2) by auto
  from pipe_finish [OF assms(1) q'(2), of "Some (ChPipeR p)"] q' show ?thesis
    using d by (auto simp: pipewrite_def bind_eq_Some_conv)
qed

lemma piperead_some:
  assumes "pipe_quiet i p s" "pipe_bytes (get_pipe p s) \<noteq> [] \<or> pi_writeopen (get_pipe p s) = 0"
  shows "\<exists>s'. piperead p (int n) s =
      Some (PipeDone (int (min n (pipe_used (get_pipe p s)))) (take n (pipe_bytes (get_pipe p s))), s') \<and>
    pipe_bytes (get_pipe p s') = drop n (pipe_bytes (get_pipe p s)) \<and>
    proc (ptable s') = map (wake (Some (ChPipeW p))) (proc (ptable s)) \<and> pipe_quiet i p s'"
proof -
  note d = pipe_quietD [OF assms(1)]
  let ?q = "get_pipe p s"
  obtain q' where q': "pipe_take n ?q = Some (take n (pipe_bytes ?q), q')" "pipe_ok q'"
    "pipe_bytes q' = drop n (pipe_bytes ?q)"
    using pipe_take_ok [OF d(5), of n] by blast
  have "\<not> (pi_nread ?q = pi_nwrite ?q \<and> pi_writeopen ?q \<noteq> 0)"
    using assms(2) by (auto simp: pipe_empty_iff simp flip: length_pipe_bytes)
  with pipe_finish [OF assms(1) q'(2), of "Some (ChPipeW p)"] q' show ?thesis
    using d by (auto simp: piperead_def piperead_loop_def bind_eq_Some_conv min.commute)
qed

text \<open>A writer that fills the pipe and has to wait.\<close>

lemma pipewrite_full:
  assumes "pipe_quiet i p s" "pipe_used (get_pipe p s) + length bs > PIPESIZE"
    and "pi_readopen (get_pipe p s) \<noteq> 0" "p_killed (proc (ptable s) ! i) = 0"
  shows "\<exists>s' b. pipewrite p bs s = Some (PipeAsleep (PIPESIZE - pipe_used (get_pipe p s)) b, s') \<and>
    pipe_bytes (get_pipe p s') = pipe_bytes (get_pipe p s) @ take (PIPESIZE - pipe_used (get_pipe p s)) bs \<and>
    proc (ptable s') = (map (wake (Some (ChPipeR p))) (proc (ptable s)))
      [i := (wake (Some (ChPipeR p)) (proc (ptable s) ! i))\<lparr>p_chan := Some (ChPipeW p), p_state := SLEEPING\<rparr>]"
proof -
  note d = pipe_quietD [OF assms(1)]
  let ?s = "s\<lparr>mach := acq (PipeLk p) (mach s)\<rparr>" and ?k = "PIPESIZE - pipe_used (get_pipe p s)"
  have k: "pipe_used (get_pipe p s) \<le> PIPESIZE" using d(5) by (simp add: pipe_ok_def)
  have len: "length (take ?k bs) = ?k" using assms(2) k by simp
  obtain q' where q': "pipewrite_loop p 0 (take ?k bs @ drop ?k bs) ?s = pipewrite_loop p ?k (drop ?k bs) (upd_pipe p (\<lambda>_. q') ?s)"
    "pipe_ok q'" "pipe_bytes q' = pipe_bytes (get_pipe p s) @ take ?k bs" "pi_readopen q' = pi_readopen (get_pipe p s)"
    using pipewrite_loop_room [of p ?s "take ?k bs" 0 "drop ?k bs"] d(5) k len by auto
  have "pipe_used q' = PIPESIZE"
    using arg_cong [OF q'(3), of length] len k by simp
  then have full: "pipe_full q'" by (simp add: pipe_full_iff)
  obtain c cs where cs: "drop ?k bs = c # cs" using assms(2) k by (cases "drop ?k bs") auto
  let ?t = "(upd_pipe p (\<lambda>_. q') s)\<lparr>mach := acq (PipeLk p) (mach s)\<rparr>"
  have "sched_ok ?t" using d(1) by (rule sched_ok_frame [where lk = "PipeLk p"]) simp_all
  from wakeup_eq [OF this, of "Some (ChPipeR p)"] obtain pt' where
    pt': "wakeup (Some (ChPipeR p)) ?t = Some (?t\<lparr>mach := settle (mach ?t), ptable := pt'\<rparr>)"
      "proc pt' = map (wake (Some (ChPipeR p))) (proc (ptable s))" by auto
  let ?u = "?t\<lparr>ptable := pt'\<rparr>"
  have "sleep_enter (ChPipeW p) (Some (PipeLk p)) ?u = Some (m_IF (mach s), asleep (ChPipeW p) i (mach s) ?u)"
    using d pt'(2) by (intro sleep_enter_eq) simp_all
  moreover have "c_proc (here_cpu (mach s)) = Some i" using d(2) by (simp add: outside_def)
  ultimately have "pipewrite_loop p ?k (c # cs) ?t = Some (PipeAsleep ?k (m_IF (mach s)), asleep (ChPipeW p) i (mach s) ?u)"
    using q'(4) full pt' assms(3,4) d by simp
  then have "pipewrite p bs s = Some (PipeAsleep ?k (m_IF (mach s)), asleep (ChPipeW p) i (mach s) ?u)"
    using q'(1) [unfolded append_take_drop_id] d by (simp add: pipewrite_def cs del: pipewrite_loop.simps)
  then show ?thesis
    using q'(3) pt'(2) d(3) by (simp add: asleep_def upd_proc_def get_pipe_def setp_def upd_pipe_def)
qed

section \<open>Properties\<close>

text \<open>
  Property C31.  A pipe is a stream.  What is written comes out once and in order, after the bytes
  that were in the pipe already: if \<open>bs\<close> fits, \<open>pipewrite\<close> takes all of it, and a \<open>piperead\<close> of
  \<open>n\<close> bytes returns the first \<open>n\<close> bytes of the old content followed by \<open>bs\<close>, and leaves the rest.
  The counters may wrap around in between.
\<close>

theorem pipe_write_then_read:
  assumes "pipe_quiet i p s" "pipe_used (get_pipe p s) + length bs \<le> PIPESIZE" "bs \<noteq> []"
  shows "\<exists>s1 s2. pipewrite p bs s = Some (PipeDone (int (length bs)) [], s1) \<and>
    piperead p (int n) s1 = Some (PipeDone (int (min n (pipe_used (get_pipe p s) + length bs)))
      (take n (pipe_bytes (get_pipe p s) @ bs)), s2) \<and>
    pipe_bytes (get_pipe p s2) = drop n (pipe_bytes (get_pipe p s) @ bs)"
proof -
  obtain s1 where s1: "pipewrite p bs s = Some (PipeDone (int (length bs)) [], s1)"
    "pipe_bytes (get_pipe p s1) = pipe_bytes (get_pipe p s) @ bs" "pipe_quiet i p s1"
    using pipewrite_room [OF assms(1,2)] by blast
  then have "pipe_used (get_pipe p s1) = pipe_used (get_pipe p s) + length bs"
    by (metis length_append length_pipe_bytes)
  then show ?thesis using piperead_some [OF s1(3), of n] s1 assms(3) by auto
qed

text \<open>
  A writer waits only for room.  With more bytes than fit, \<open>pipewrite\<close> fills the pipe,
  makes the readers RUNNABLE and goes to sleep waiting for them; it remembers how many bytes it
  has stored.  A reader that then takes bytes makes the writer RUNNABLE again.
\<close>

theorem pipewrite_waits_for_room:
  assumes "pipe_quiet i p s" "pipe_used (get_pipe p s) + length bs > PIPESIZE"
    and "pi_readopen (get_pipe p s) \<noteq> 0" "p_killed (proc (ptable s) ! i) = 0"
  shows "\<exists>s' b. pipewrite p bs s = Some (PipeAsleep (PIPESIZE - pipe_used (get_pipe p s)) b, s') \<and>
    pipe_bytes (get_pipe p s') = pipe_bytes (get_pipe p s) @ take (PIPESIZE - pipe_used (get_pipe p s)) bs \<and>
    p_state (proc (ptable s') ! i) = SLEEPING \<and> p_chan (proc (ptable s') ! i) = Some (ChPipeW p) \<and>
    (\<forall>j < length (proc (ptable s)). j \<noteq> i \<longrightarrow>
       p_state (proc (ptable s) ! j) = SLEEPING \<longrightarrow> p_chan (proc (ptable s) ! j) = Some (ChPipeR p) \<longrightarrow>
       p_state (proc (ptable s') ! j) = RUNNABLE) \<and>
    (\<forall>r t n. pipe_quiet r p t \<longrightarrow> get_pipe p t = get_pipe p s' \<longrightarrow> ptable t = ptable s' \<longrightarrow>
       (\<exists>v t'. piperead p (int n) t = Some (v, t') \<and> p_state (proc (ptable t') ! i) = RUNNABLE))"
proof -
  obtain s' b where s': "pipewrite p bs s = Some (PipeAsleep (PIPESIZE - pipe_used (get_pipe p s)) b, s')"
    "pipe_bytes (get_pipe p s') = pipe_bytes (get_pipe p s) @ take (PIPESIZE - pipe_used (get_pipe p s)) bs"
    "proc (ptable s') = (map (wake (Some (ChPipeR p))) (proc (ptable s)))
      [i := (wake (Some (ChPipeR p)) (proc (ptable s) ! i))\<lparr>p_chan := Some (ChPipeW p), p_state := SLEEPING\<rparr>]"
    using pipewrite_full [OF assms] by blast
  note d = pipe_quietD [OF assms(1)]
  have "\<exists>v t'. piperead p (int n) t = Some (v, t') \<and> p_state (proc (ptable t') ! i) = RUNNABLE"
    if "pipe_quiet r p t" "get_pipe p t = get_pipe p s'" "ptable t = ptable s'" for r t n
  proof -
    have "pipe_used (get_pipe p t) \<noteq> 0"
      using arg_cong [OF s'(2), of length] that(2) assms(2) d(5) by (simp add: pipe_ok_def)
    then have "pipe_bytes (get_pipe p t) \<noteq> []" by (metis length_pipe_bytes list.size(3))
    then show ?thesis using piperead_some [OF that(1), of n] that(3) s'(3) d(3) by (fastforce simp: wake_def Let_def)
  qed
  then show ?thesis using s' d(3) by (intro exI [of _ s'] exI [of _ b]) (auto simp: wake_def Let_def nth_list_update)
qed

text \<open>For witnesses: process 0 runs, and the pipe at \<open>p\<close> has the given content and counters.\<close>

definition pipe_demo :: "uint \<Rightarrow> byte list \<Rightarrow> uint \<Rightarrow> uint \<Rightarrow> kernel" where
  "pipe_demo p d r w = upd_pipe p (\<lambda>_. \<lparr>pi_data = d, pi_nread = r, pi_nwrite = w, pi_readopen = 1, pi_writeopen = 1\<rparr>) family"

lemma pipe_demo_quiet:
  "length d = 512 \<Longrightarrow> unat (w - r) \<le> 512 \<Longrightarrow> pipe_quiet 0 p (pipe_demo p d r w)"
  using family_sched_ok by (simp add: pipe_quiet_def pipe_demo_def sched_ok_def outside_def pipe_ok_def pipe_used_def)

lemma pipe_demo_pipe [simp]:
  "get_pipe p (pipe_demo p d r w) = \<lparr>pi_data = d, pi_nread = r, pi_nwrite = w, pi_readopen = 1, pi_writeopen = 1\<rparr>"
  by (simp add: pipe_demo_def)

theorem pipe_write_then_read_witness:
  "\<exists>s1 s2. pipewrite 0x8DFF0000 [7, 8] (pipe_demo 0x8DFF0000 (replicate 512 5) (-1) 0) = Some (PipeDone 2 [], s1) \<and>
     piperead 0x8DFF0000 3 s1 = Some (PipeDone 3 [5, 7, 8], s2) \<and> pipe_bytes (get_pipe 0x8DFF0000 s2) = []"
proof -
  let ?s = "pipe_demo 0x8DFF0000 (replicate 512 5) (-1) 0"
  have q: "pipe_quiet 0 0x8DFF0000 ?s" by (rule pipe_demo_quiet) simp_all
  have u: "pipe_used (get_pipe 0x8DFF0000 ?s) = 1" by (simp add: pipe_used_def)
  then have b: "pipe_bytes (get_pipe 0x8DFF0000 ?s) = [5]" by (simp add: pipe_bytes_def ring_seq_def)
  show ?thesis using pipe_write_then_read [OF q, of "[7, 8]" 3, unfolded u b] by simp
qed

theorem pipewrite_waits_for_room_witness:
  "\<exists>s' b. pipewrite 0x8DFF0000 [7, 8] (pipe_demo 0x8DFF0000 (replicate 512 5) 0 511) = Some (PipeAsleep 1 b, s') \<and>
     p_state (proc (ptable s') ! 0) = SLEEPING"
proof -
  let ?s = "pipe_demo 0x8DFF0000 (replicate 512 5) 0 511"
  have q: "pipe_quiet 0 0x8DFF0000 ?s" by (rule pipe_demo_quiet) simp_all
  have u: "pipe_used (get_pipe 0x8DFF0000 ?s) = 511" by (simp add: pipe_used_def)
  have k: "p_killed (proc (ptable ?s) ! 0) = 0" by (simp add: pipe_demo_def family_proc proc0_def)
  show ?thesis using pipewrite_waits_for_room [OF q _ _ k, of "[7, 8]", unfolded u] by auto
qed

end
