(* ===== verification/File.thy ===== *)
theory File
  imports Fs Pipe
begin

text \<open>
  Open files (\<open>file.c\<close>, and \<open>pipealloc\<close> of \<open>pipe.c\<close>).  A \<open>struct file *\<close> is an index into
  \<open>ftable.file\<close>.  \<open>fileread\<close> and \<open>filewrite\<close> take the address of the caller's buffer, which they
  reach through the page table.  An operation that would have to wait for another process is \<open>None\<close>.
\<close>

abbreviation files :: "kernel \<Rightarrow> kfile list" where
  "files s \<equiv> ftable (fsys s)"

definition upd_file :: "nat \<Rightarrow> (kfile \<Rightarrow> kfile) \<Rightarrow> kernel \<Rightarrow> kernel" where
  "upd_file f g s = upd_fs (\<lambda>fs. fs\<lparr>ftable := (ftable fs)[f := g (ftable fs ! f)]\<rparr>) s"

definition fileinit :: "kernel \<Rightarrow> kernel" where
  "fileinit s = initlock FtableLk ''ftable'' s"

definition filealloc :: "kernel \<Rightarrow> (nat option \<times> kernel) option" where
  "filealloc s = do {
     s \<leftarrow> acquire FtableLk s;
     case first_ix (\<lambda>f. f_ref f = 0) (files s) of
       Some f \<Rightarrow> do {
         s \<leftarrow> release FtableLk (upd_file f (\<lambda>f. f\<lparr>f_ref := 1\<rparr>) s);
         Some (Some f, s)
       }
     | None \<Rightarrow> do {
         s \<leftarrow> release FtableLk s;
         Some (None, s)
       }
   }"

definition filedup :: "nat \<Rightarrow> kernel \<Rightarrow> (nat \<times> kernel) option" where
  "filedup f s = do {
     s \<leftarrow> acquire FtableLk s;
     fl \<leftarrow> nth_opt (files s) f;
     if f_ref fl < 1 then None
     else do {
       s \<leftarrow> release FtableLk (upd_file f (\<lambda>f. f\<lparr>f_ref := f_ref f + 1\<rparr>) s);
       Some (f, s)
     }
   }"

definition fileclose :: "nat \<Rightarrow> kernel \<Rightarrow> kernel option" where
  "fileclose f s = do {
     s \<leftarrow> acquire FtableLk s;
     fl \<leftarrow> nth_opt (files s) f;
     if f_ref fl < 1 then None
     else if f_ref fl - 1 > 0 then release FtableLk (upd_file f (\<lambda>f. f\<lparr>f_ref := f_ref f - 1\<rparr>) s)
     else do {
       s \<leftarrow> release FtableLk (upd_file f (\<lambda>f. f\<lparr>f_ref := 0, f_type := FD_NONE\<rparr>) s);
       case f_type fl of
         FD_PIPE \<Rightarrow> pipeclose (f_pipe fl) (f_writable fl) s
       | FD_INODE \<Rightarrow> do {
           s \<leftarrow> begin_op s;
           ip \<leftarrow> f_ip fl;
           s \<leftarrow> iput ip s;
           end_op s
         }
       | FD_NONE \<Rightarrow> Some s
     }
   }"

definition filestat :: "nat \<Rightarrow> kernel \<Rightarrow> (stat option \<times> kernel) option" where
  "filestat f s = do {
     fl \<leftarrow> nth_opt (files s) f;
     if f_type fl = FD_INODE then do {
       s \<leftarrow> ilock (f_ip fl) s;
       ip \<leftarrow> f_ip fl;
       st \<leftarrow> stati ip s;
       s \<leftarrow> iunlock (f_ip fl) s;
       Some (Some st, s)
     } else Some (None, s)
   }"

definition fileread :: "nat \<Rightarrow> uint \<Rightarrow> int \<Rightarrow> kernel \<Rightarrow> (int \<times> kernel) option" where
  "fileread f addr n s = do {
     fl \<leftarrow> nth_opt (files s) f;
     if \<not> f_readable fl then Some (-1, s)
     else case f_type fl of
       FD_PIPE \<Rightarrow> do {
         (r, s) \<leftarrow> piperead (f_pipe fl) n s;
         case r of
           PipeDone r bs \<Rightarrow> do {
             s \<leftarrow> kstores addr bs s;
             Some (r, s)
           }
         | PipeAsleep _ _ \<Rightarrow> None
       }
     | FD_INODE \<Rightarrow> do {
         s \<leftarrow> ilock (f_ip fl) s;
         ip \<leftarrow> f_ip fl;
         (r, bs, s) \<leftarrow> readi ip (f_off fl) (of_int n) s;
         s \<leftarrow> kstores addr bs s;
         let s = (if r > 0 then upd_file f (\<lambda>f. f\<lparr>f_off := f_off f + of_int r\<rparr>) s else s);
         s \<leftarrow> iunlock (f_ip fl) s;
         Some (r, s)
       }
     | FD_NONE \<Rightarrow> None
   }"

text \<open>The loop of \<open>filewrite\<close>: \<open>i\<close> of \<open>n\<close> bytes are written.\<close>

partial_function (option) filewrite_loop :: "nat \<Rightarrow> uint \<Rightarrow> int \<Rightarrow> int \<Rightarrow> kernel \<Rightarrow> (int \<times> kernel) option" where
  "filewrite_loop f addr n i s =
     (if i < n then do {
        let n1 = min (n - i) (((int LOGSIZE - 1 - 1 - 2) div 2) * 512);
        s \<leftarrow> begin_op s;
        fl \<leftarrow> nth_opt (files s) f;
        s \<leftarrow> ilock (f_ip fl) s;
        ip \<leftarrow> f_ip fl;
        src \<leftarrow> kloads (addr + of_int i) (nat n1) s;
        (r, s) \<leftarrow> writei ip src (f_off fl) (of_int n1) s;
        let s = (if r > 0 then upd_file f (\<lambda>f. f\<lparr>f_off := f_off f + of_int r\<rparr>) s else s);
        s \<leftarrow> iunlock (f_ip fl) s;
        s \<leftarrow> end_op s;
        if r < 0 then Some (i, s)
        else if r \<noteq> n1 then None
        else filewrite_loop f addr n (i + r) s
      } else Some (i, s))"

definition filewrite :: "nat \<Rightarrow> uint \<Rightarrow> int \<Rightarrow> kernel \<Rightarrow> (int \<times> kernel) option" where
  "filewrite f addr n s = do {
     fl \<leftarrow> nth_opt (files s) f;
     if \<not> f_writable fl then Some (-1, s)
     else case f_type fl of
       FD_PIPE \<Rightarrow> do {
         src \<leftarrow> kloads addr (nat n) s;
         (r, s) \<leftarrow> pipewrite (f_pipe fl) src s;
         case r of PipeDone r _ \<Rightarrow> Some (r, s) | PipeAsleep _ _ \<Rightarrow> None
       }
     | FD_INODE \<Rightarrow> do {
         (i, s) \<leftarrow> filewrite_loop f addr n 0 s;
         Some (if i = n then n else -1, s)
       }
     | FD_NONE \<Rightarrow> None
   }"

section \<open>Creating a pipe\<close>

text \<open>The label \<open>bad\<close>; the page \<open>p\<close> is always 0 there.\<close>

definition pipealloc_bad :: "nat option \<Rightarrow> nat option \<Rightarrow> kernel \<Rightarrow> ((nat \<times> nat) option \<times> kernel) option" where
  "pipealloc_bad f0 f1 s = do {
     s \<leftarrow> (case f0 of Some f \<Rightarrow> fileclose f s | None \<Rightarrow> Some s);
     s \<leftarrow> (case f1 of Some f \<Rightarrow> fileclose f s | None \<Rightarrow> Some s);
     Some (None, s)
   }"

definition pipealloc :: "kernel \<Rightarrow> ((nat \<times> nat) option \<times> kernel) option" where
  "pipealloc s = do {
     (f0, s) \<leftarrow> filealloc s;
     case f0 of
       None \<Rightarrow> pipealloc_bad None None s
     | Some f0 \<Rightarrow> do {
         (f1, s) \<leftarrow> filealloc s;
         case f1 of
           None \<Rightarrow> pipealloc_bad (Some f0) None s
         | Some f1 \<Rightarrow> do {
             (p, s) \<leftarrow> kalloc s;
             if p = 0 then pipealloc_bad (Some f0) (Some f1) s
             else do {
               let s = upd_pipe p (\<lambda>q. q\<lparr>pi_readopen := 1, pi_writeopen := 1, pi_nwrite := 0, pi_nread := 0\<rparr>) s;
               let s = initlock (PipeLk p) ''pipe'' s;
               let s = upd_file f0 (\<lambda>f. f\<lparr>f_type := FD_PIPE, f_readable := True, f_writable := False, f_pipe := p\<rparr>) s;
               let s = upd_file f1 (\<lambda>f. f\<lparr>f_type := FD_PIPE, f_readable := False, f_writable := True, f_pipe := p\<rparr>) s;
               Some (Some (f0, f1), s)
             }
           }
       }
   }"

end
