(* ===== verification/Container.thy ===== *)
theory Container
  imports File
begin

text \<open>
  The container calls of \<open>proc.c\<close>: \<open>do_maxproc\<close>, \<open>do_setroot\<close> and \<open>do_ce\<close> (create and
  enter).  The walk up the parents in \<open>do_maxproc\<close> and the search for an unused name space
  number in \<open>do_ce\<close> are loops without an obvious bound.
\<close>

section \<open>Operations\<close>

definition resolve_path_to_inode :: "byte list \<Rightarrow> kernel \<Rightarrow> (nat option \<times> kernel) option" where
  "resolve_path_to_inode path s = do {
     s \<leftarrow> begin_op s;
     (ip, s) \<leftarrow> namei path s;
     s \<leftarrow> end_op s;
     Some (ip, s)
   }"

partial_function (option) maxproc_set :: "nat option \<Rightarrow> kernel \<Rightarrow> bool option" where
  "maxproc_set p s =
     (case p of
        None \<Rightarrow> Some False
      | Some _ \<Rightarrow> do {
          pr \<leftarrow> getp p s;
          if p_maxprocset pr \<noteq> 0 then Some True else maxproc_set (p_parent pr) s
        })"

definition do_maxproc :: "int \<Rightarrow> kernel \<Rightarrow> (int \<times> kernel) option" where
  "do_maxproc nproc s = do {
     (p, s) \<leftarrow> myproc s;
     isset \<leftarrow> maxproc_set p s;
     if isset then Some (-1, s)
     else do {
       s \<leftarrow> acquire PtableLk s;
       i \<leftarrow> p;
       s \<leftarrow> release PtableLk (setp i (\<lambda>pr. pr\<lparr>p_maxproc := nproc, p_maxprocset := 1\<rparr>) s);
       Some (0, s)
     }
   }"

text \<open>\<open>path\<close> is the string the argument points to, without its terminating zero.\<close>

definition do_setroot :: "byte list \<Rightarrow> int \<Rightarrow> kernel \<Rightarrow> (int \<times> kernel) option" where
  "do_setroot path path_len s = do {
     (p, s) \<leftarrow> myproc s;
     pr \<leftarrow> getp p s;
     if p_in_newroot pr \<noteq> 0 then Some (-1, s)
     else if path = [] \<or> hd path \<noteq> 47 \<or> path_len \<ge> MAXPATH then Some (-1, s)
     else do {
       (ip, s) \<leftarrow> resolve_path_to_inode path s;
       case ip of
         None \<Rightarrow> Some (-1, s)
       | Some _ \<Rightarrow> do {
           (dir, s) \<leftarrow> is_inode_directory ip s;
           if \<not> dir then Some (-1, s)
           else do {
             s \<leftarrow> acquire PtableLk s;
             i \<leftarrow> p;
             s \<leftarrow> release PtableLk (setp i (\<lambda>pr. pr\<lparr>p_newroot_inode := ip, p_in_newroot := 1\<rparr>) s);
             Some (0, s)
           }
         }
     }
   }"

definition namespace_used :: "int \<Rightarrow> proc list \<Rightarrow> bool" where
  "namespace_used n ps \<longleftrightarrow> first_ix (\<lambda>p. p_state p \<noteq> UNUSED \<and> p_namespace p = n) ps \<noteq> None"

partial_function (option) find_namespace :: "proc list \<Rightarrow> int \<Rightarrow> int option" where
  "find_namespace ps n = (if namespace_used n ps then find_namespace ps (n + 1) else Some n)"

definition do_ce :: "kernel \<Rightarrow> (int \<times> kernel) option" where
  "do_ce s = do {
     (p, s) \<leftarrow> myproc s;
     pr \<leftarrow> getp p s;
     if p_in_container pr \<noteq> 0 then Some (-1, s)
     else do {
       s \<leftarrow> acquire PtableLk s;
       n \<leftarrow> find_namespace (proc (ptable s)) (namespace_id s);
       i \<leftarrow> p;
       let s = setp i (\<lambda>pr. pr\<lparr>p_in_container := 1, p_namespace := n\<rparr>) s;
       s \<leftarrow> release PtableLk (s\<lparr>namespace_id := n + 1\<rparr>);
       Some (0, s)
     }
   }"

section \<open>The search for a name space\<close>

lemma namespace_used_iff: "namespace_used n ps \<longleftrightarrow> (\<exists>p \<in> set ps. p_state p \<noteq> UNUSED \<and> p_namespace p = n)"
  by (auto simp: namespace_used_def first_ix_eq_None)

text \<open>Among \<open>length ps + 1\<close> consecutive numbers one is unused.\<close>

lemma some_namespace_free: "\<exists>k \<le> length ps. \<not> namespace_used (n + int k) ps"
proof (rule ccontr)
  assume "\<not> ?thesis"
  then have "\<exists>p \<in> set ps. p_namespace p = n + int k" if "k \<le> length ps" for k
    using that by (auto simp: namespace_used_iff)
  then have "(\<lambda>k. n + int k) ` {..length ps} \<subseteq> p_namespace ` set ps" by (force simp: image_iff)
  then have "card ((\<lambda>k. n + int k) ` {..length ps}) \<le> card (p_namespace ` set ps)"
    by (intro card_mono) simp_all
  also have "\<dots> \<le> length ps" by (metis card_image_le card_length finite_set le_trans)
  finally show False by (simp add: card_image inj_on_def)
qed

lemma find_namespace_upto:
  assumes "\<not> namespace_used (n + int k) ps"
  shows "\<exists>j \<le> k. find_namespace ps n = Some (n + int j) \<and> \<not> namespace_used (n + int j) ps"
  using assms
proof (induction k arbitrary: n)
  case 0
  then show ?case by (subst find_namespace.simps) simp
next
  case (Suc k)
  show ?case
  proof (cases "namespace_used n ps")
    case True
    then obtain j where "j \<le> k" "find_namespace ps (n + 1) = Some (n + 1 + int j)" "\<not> namespace_used (n + 1 + int j) ps"
      using Suc.IH [of "n + 1"] Suc.prems by (auto simp: algebra_simps)
    then show ?thesis using True by (intro exI [of _ "Suc j"]) (subst find_namespace.simps, simp add: algebra_simps)
  next
    case False
    then show ?thesis by (intro exI [of _ 0]) (subst find_namespace.simps, simp)
  qed
qed

lemma find_namespace_ok:
  "\<exists>n'. find_namespace ps n = Some n' \<and> n \<le> n' \<and> n' \<le> n + int (length ps) \<and> \<not> namespace_used n' ps"
  using some_namespace_free [of ps n] find_namespace_upto [of n _ ps] by force

lemma do_ce_eq:
  assumes "wf_machine (mach s)" "lock_free PtableLk (mach s)" "c_proc (here_cpu (mach s)) = Some i"
    and "i < length (proc (ptable s))" "p_in_container (proc (ptable s) ! i) = 0"
  shows "\<exists>n. do_ce s = Some (0, (setp i (\<lambda>pr. pr\<lparr>p_in_container := 1, p_namespace := n\<rparr>) s)
      \<lparr>namespace_id := n + 1, mach := settle (mach s)\<rparr>) \<and>
    namespace_id s \<le> n \<and> n \<le> namespace_id s + int (length (proc (ptable s))) \<and> \<not> namespace_used n (proc (ptable s))"
proof -
  obtain n where n: "find_namespace (proc (ptable s)) (namespace_id s) = Some n" "namespace_id s \<le> n"
    "n \<le> namespace_id s + int (length (proc (ptable s)))" "\<not> namespace_used n (proc (ptable s))"
    using find_namespace_ok by blast
  then show ?thesis using assms by (intro exI [of _ n]) (simp add: do_ce_def)
qed

section \<open>Properties\<close>

text \<open>
  Property C33.  Creating a container always succeeds for a process that is in none: the search ends
  within \<open>NPROC\<close> steps, the process gets a name space number that no other live process has, and
  that will not be given out again; nothing else of the process table changes.
\<close>

theorem do_ce_fresh_namespace:
  assumes "wf_machine (mach s)" "lock_free PtableLk (mach s)" "c_proc (here_cpu (mach s)) = Some i"
    and "i < length (proc (ptable s))" "p_in_container (proc (ptable s) ! i) = 0"
  shows "\<exists>s' n. do_ce s = Some (0, s') \<and>
    proc (ptable s') = (proc (ptable s))[i := (proc (ptable s) ! i)\<lparr>p_in_container := 1, p_namespace := n\<rparr>] \<and>
    (\<forall>p \<in> set (proc (ptable s)). p_state p \<noteq> UNUSED \<longrightarrow> p_namespace p \<noteq> n) \<and>
    namespace_id s \<le> n \<and> n < namespace_id s' \<and> n \<le> namespace_id s + int (length (proc (ptable s)))"
proof -
  from do_ce_eq [OF assms] obtain n where n: "do_ce s = Some (0, (setp i (\<lambda>pr. pr\<lparr>p_in_container := 1, p_namespace := n\<rparr>) s)
      \<lparr>namespace_id := n + 1, mach := settle (mach s)\<rparr>)" "namespace_id s \<le> n"
    "n \<le> namespace_id s + int (length (proc (ptable s)))" "\<not> namespace_used n (proc (ptable s))" by blast
  show ?thesis
    by (rule exI, rule exI [of _ n], rule conjI, rule n(1)) (use n(2-4) in \<open>auto simp: namespace_used_iff upd_proc_def\<close>)
qed

theorem do_ce_fresh_namespace_witness:
  "\<exists>s' n. do_ce (family\<lparr>namespace_id := 0\<rparr>) = Some (0, s') \<and> n \<noteq> 0 \<and>
     p_namespace (proc (ptable s') ! 0) = n \<and> p_namespace (proc (ptable s') ! 1) = 0"
proof -
  let ?s = "family\<lparr>namespace_id := 0\<rparr>"
  have "\<exists>s' n. do_ce ?s = Some (0, s') \<and>
    proc (ptable s') = (proc (ptable ?s))[0 := (proc (ptable ?s) ! 0)\<lparr>p_in_container := 1, p_namespace := n\<rparr>] \<and>
    (\<forall>p \<in> set (proc (ptable ?s)). p_state p \<noteq> UNUSED \<longrightarrow> p_namespace p \<noteq> n) \<and>
    namespace_id ?s \<le> n \<and> n < namespace_id s' \<and> n \<le> namespace_id ?s + int (length (proc (ptable ?s)))"
    by (rule do_ce_fresh_namespace) (simp_all add: family_proc proc0_def)
  then show ?thesis by (auto simp: family_proc proc0_def)
qed

end
