(* ===== verification/Mutex.thy ===== *)
theory Mutex
  imports UserAccess
begin

text \<open>
  Mutexes and condition variables (\<open>proc.c\<close>: \<open>mutex_init\<close> to \<open>wseq_remove\<close>).

  \<open>mutex_lock\<close> and \<open>cv_wait\<close> may give up the processor.  Their result is then \<open>Asleep\<close>; \<open>mutex_lock_resume\<close> and \<open>cv_wait_exit\<close> are the code
  that runs when the scheduler comes back.  A process id that is compared with the unsigned
  field \<open>pid\<close> of a mutex is converted to unsigned first, as C does.
\<close>

section \<open>Operations\<close>

definition get_mutex :: "int \<Rightarrow> kernel \<Rightarrow> mutex option" where
  "get_mutex i s = ith_opt (mutex_table s) i"

definition upd_mutex :: "nat \<Rightarrow> (mutex \<Rightarrow> mutex) \<Rightarrow> kernel \<Rightarrow> kernel" where
  "upd_mutex i f s = s\<lparr>mutex_table := (mutex_table s)[i := f (mutex_table s ! i)]\<rparr>"

definition mutex_init_one :: "nat \<Rightarrow> kernel \<Rightarrow> kernel" where
  "mutex_init_one i s =
     initlock (CvLk i) ''cv'' (initlock (MutexLk i) ''lock''
       (upd_mutex i (\<lambda>m. m\<lparr>mx_locked := 0, mx_used := 0, mx_muxid := of_nat i, mx_pid := -1, mx_nameSpace := 0,
          mx_cv := \<lparr>cv_waiters = replicate MUX_MAXNUM (-1), cv_num_waiters = 0\<rparr>\<rparr>) s))"

definition mutex_init :: "kernel \<Rightarrow> kernel option" where
  "mutex_init s = for_from MUX_MAXNUM 0 (\<lambda>i s. Some (mutex_init_one i s)) (initlock MutexTableLk ''mux_table'' s)"

text \<open>
  \<open>name\<close> is the string the argument points to.  \<open>sizeof(name)\<close> is the size of a pointer, and
  the destination is whatever the field \<open>name\<close> of the mutex points to.
\<close>

definition mutex_create :: "byte list \<Rightarrow> kernel \<Rightarrow> (int \<times> kernel) option" where
  "mutex_create name s = do {
     s \<leftarrow> acquire MutexTableLk s;
     case first_ix (\<lambda>m. mx_used m = 0) (mutex_table s) of
       Some i \<Rightarrow> do {
         let s = upd_mutex i (\<lambda>m. m\<lparr>mx_used := 1\<rparr>) s;
         s \<leftarrow> kstores (mx_name (mutex_table s ! i)) (strncpy_l 0 name 4) s;
         (p, s) \<leftarrow> myproc s;
         pr \<leftarrow> getp p s;
         let s = upd_mutex i (\<lambda>m. m\<lparr>mx_nameSpace := p_namespace pr\<rparr>) s;
         s \<leftarrow> release MutexTableLk s;
         Some (int i, s)
       }
     | None \<Rightarrow> do {
         s \<leftarrow> release MutexTableLk s;
         Some (-1, s)
       }
   }"

definition mutex_delete :: "int \<Rightarrow> kernel \<Rightarrow> (int \<times> kernel) option" where
  "mutex_delete muxid s =
     (if muxid > int MUX_MAXNUM \<or> muxid < 0 then Some (-2, s)
      else do {
        s \<leftarrow> acquire MutexTableLk s;
        m \<leftarrow> get_mutex muxid s;
        if mx_used m = 0 then do {
          s \<leftarrow> release MutexTableLk s;
          Some (-1, s)
        } else if mx_locked m \<noteq> 0 then do {
          s \<leftarrow> release MutexTableLk s;
          Some (-3, s)
        } else if cv_num_waiters (mx_cv m) > 0 then Some (-4, s)
        else do {
          s \<leftarrow> release MutexTableLk (upd_mutex (nat muxid) (\<lambda>m. m\<lparr>mx_locked := 0, mx_used := 0\<rparr>) s);
          Some (1, s)
        }
      })"

text \<open>Entering and removing a mutex in \<open>proc_mutexes\<close>: the first entry that matches is changed.\<close>

definition replace_first :: "uint \<Rightarrow> uint \<Rightarrow> uint list \<Rightarrow> uint list" where
  "replace_first a b xs = (case first_ix (\<lambda>x. x = a) xs of Some i \<Rightarrow> xs[i := b] | None \<Rightarrow> xs)"

definition mutex_take :: "nat \<Rightarrow> int \<Rightarrow> int \<Rightarrow> kernel \<Rightarrow> kernel" where
  "mutex_take p pid muxid s =
     setp p (\<lambda>pr. pr\<lparr>p_proc_mutexes := replace_first (-1) (of_int muxid) (p_proc_mutexes pr)\<rparr>)
       (upd_mutex (nat muxid) (\<lambda>m. m\<lparr>mx_locked := 1, mx_pid := of_int pid\<rparr>) s)"

text \<open>The loop of \<open>mutex_lock\<close>, reached with the lock of the mutex held.\<close>

definition mutex_lock_loop :: "nat \<Rightarrow> int \<Rightarrow> kernel \<Rightarrow> (outcome \<times> kernel) option" where
  "mutex_lock_loop p muxid s = do {
     m \<leftarrow> get_mutex muxid s;
     if mx_locked m \<noteq> 0 then do {
       (intena, s) \<leftarrow> sleep_enter (ChMutex (nat muxid)) (Some (MutexLk (nat muxid))) s;
       Some (Asleep intena, s)
     } else do {
       pr \<leftarrow> getp (Some p) s;
       s \<leftarrow> release (MutexLk (nat muxid)) (mutex_take p (p_pid pr) muxid s);
       Some (Done 1, s)
     }
   }"

definition mutex_lock :: "int \<Rightarrow> kernel \<Rightarrow> (outcome \<times> kernel) option" where
  "mutex_lock muxid s =
     (if muxid < 0 \<or> muxid > int MUX_MAXNUM then Some (Done (-1), s)
      else do {
        (p, s) \<leftarrow> myproc s;
        m \<leftarrow> get_mutex muxid s;
        if mx_used m = 0 then Some (Done (-1), s)
        else do {
          pr \<leftarrow> getp p s;
          if mx_nameSpace m \<noteq> p_namespace pr then Some (Done (-2), s)
          else if mx_pid m = of_int (p_pid pr) then Some (Done (-3), s)
          else do {
            p \<leftarrow> p;
            s \<leftarrow> acquire (MutexLk (nat muxid)) s;
            mutex_lock_loop p muxid s
          }
        }
      })"

definition mutex_lock_resume :: "nat \<Rightarrow> int \<Rightarrow> bool \<Rightarrow> kernel \<Rightarrow> (outcome \<times> kernel) option" where
  "mutex_lock_resume p muxid intena s = do {
     s \<leftarrow> sleep_exit p (MutexLk (nat muxid)) intena s;
     mutex_lock_loop p muxid s
   }"

definition mutex_unlock :: "int \<Rightarrow> kernel \<Rightarrow> (int \<times> kernel) option" where
  "mutex_unlock muxid s =
     (if muxid < 0 \<or> muxid > int MUX_MAXNUM then Some (-1, s)
      else do {
        s \<leftarrow> acquire (MutexLk (nat muxid)) s;
        m \<leftarrow> get_mutex muxid s;
        if mx_used m = 0 then do {
          s \<leftarrow> release (MutexLk (nat muxid)) s;
          Some (-1, s)
        } else do {
          (p, s) \<leftarrow> myproc s;
          p \<leftarrow> p;
          pr \<leftarrow> getp (Some p) s;
          if mx_pid m \<noteq> of_int (p_pid pr) then do {
            s \<leftarrow> release (MutexLk (nat muxid)) s;
            Some (-1, s)
          } else do {
            let s = setp p (\<lambda>pr. pr\<lparr>p_proc_mutexes := replace_first (of_int muxid) (-1) (p_proc_mutexes pr)\<rparr>) s;
            let s = upd_mutex (nat muxid) (\<lambda>m. m\<lparr>mx_locked := 0, mx_pid := -1\<rparr>) s;
            s \<leftarrow> release (MutexLk (nat muxid)) s;
            s \<leftarrow> wakeup (Some (ChMutex (nat muxid))) s;
            Some (1, s)
          }
        }
      })"

section \<open>Condition variables\<close>

text \<open>Adding a waiter at the end, and taking the first one off by moving the others up.\<close>

definition cv_push :: "int \<Rightarrow> cv \<Rightarrow> cv option" where
  "cv_push pid c = do {
     ws \<leftarrow> iupd_opt (cv_waiters c) (cv_num_waiters c) pid;
     Some \<lparr>cv_waiters = ws, cv_num_waiters = cv_num_waiters c + 1\<rparr>
   }"

definition cv_pop :: "cv \<Rightarrow> (int \<times> cv) option" where
  "cv_pop c = do {
     wseq_wakeup \<leftarrow> ith_opt (cv_waiters c) 0;
     ws \<leftarrow> for_from (nat (cv_num_waiters c - 1)) 0
       (\<lambda>i ws. do { x \<leftarrow> nth_opt ws (i + 1); upd_opt ws i x }) (cv_waiters c);
     Some (wseq_wakeup, \<lparr>cv_waiters = ws, cv_num_waiters = cv_num_waiters c - 1\<rparr>)
   }"

definition cv_wait :: "int \<Rightarrow> kernel \<Rightarrow> (outcome \<times> kernel) option" where
  "cv_wait muxid s =
     (if muxid < 0 \<or> muxid > int MUX_MAXNUM then Some (Done (-1), s)
      else do {
        (p, s) \<leftarrow> myproc s;
        p \<leftarrow> p;
        pr \<leftarrow> getp (Some p) s;
        s \<leftarrow> acquire (MutexLk (nat muxid)) s;
        s \<leftarrow> acquire PtableLk s;
        m \<leftarrow> get_mutex muxid s;
        if mx_used m = 0 then do {
          s \<leftarrow> release PtableLk s;
          s \<leftarrow> release (MutexLk (nat muxid)) s;
          Some (Done (-1), s)
        } else if mx_pid m = of_int (p_pid pr) then do {
          s \<leftarrow> release PtableLk s;
          s \<leftarrow> release (MutexLk (nat muxid)) s;
          Some (Done (-3), s)
        } else if cv_num_waiters (mx_cv m) = int MUX_MAXNUM then Some (Done (-1), s)
        else do {
          c \<leftarrow> cv_push (p_pid pr) (mx_cv m);
          let s = upd_mutex (nat muxid) (\<lambda>m. m\<lparr>mx_cv := c\<rparr>) s;
          let s = setp p (\<lambda>pr. pr\<lparr>p_state := SLEEPING\<rparr>) s;
          s \<leftarrow> release (MutexLk (nat muxid)) s;
          (intena, s) \<leftarrow> sched_enter s;
          Some (Asleep intena, s)
        }
      })"

text \<open>\<open>p\<close> and \<open>pid\<close> are the local variables \<open>currproc\<close> and \<open>pid\<close> of \<open>cv_wait\<close>.\<close>

definition cv_wait_exit :: "nat \<Rightarrow> int \<Rightarrow> int \<Rightarrow> bool \<Rightarrow> kernel \<Rightarrow> (int \<times> kernel) option" where
  "cv_wait_exit p pid muxid intena s = do {
     s \<leftarrow> sched_exit intena s;
     s \<leftarrow> acquire (MutexLk (nat muxid)) s;
     m \<leftarrow> get_mutex muxid s;
     s \<leftarrow> release (MutexLk (nat muxid)) (mutex_take p pid muxid s);
     s \<leftarrow> release PtableLk s;
     Some (1, s)
   }"

text \<open>The search through the process table at the end of \<open>cv_signal\<close>.\<close>

definition cv_wake :: "int \<Rightarrow> kernel \<Rightarrow> kernel option" where
  "cv_wake wseq_wakeup s =
     (case first_ix (\<lambda>p. p_pid p = wseq_wakeup \<and> p_state p = SLEEPING) (proc (ptable s)) of
        None \<Rightarrow> Some s
      | Some i \<Rightarrow> do {
          (_, pt) \<leftarrow> fp_enqueue i (upd_proc i (\<lambda>pr. pr\<lparr>p_state := RUNNABLE\<rparr>) (ptable s));
          Some (s\<lparr>ptable := pt\<rparr>)
        })"

definition cv_signal :: "int \<Rightarrow> kernel \<Rightarrow> (int \<times> kernel) option" where
  "cv_signal muxid s =
     (if muxid < 0 \<or> muxid > int MUX_MAXNUM then Some (-1, s)
      else do {
        s \<leftarrow> acquire (CvLk (nat muxid)) s;
        s \<leftarrow> acquire PtableLk s;
        m \<leftarrow> get_mutex muxid s;
        if cv_num_waiters (mx_cv m) = 0 then do {
          s \<leftarrow> release PtableLk s;
          s \<leftarrow> release (CvLk (nat muxid)) s;
          Some (0, s)
        } else do {
          (wseq_wakeup, c) \<leftarrow> cv_pop (mx_cv m);
          let s = upd_mutex (nat muxid) (\<lambda>m. m\<lparr>mx_cv := c\<rparr>) s;
          s \<leftarrow> cv_wake wseq_wakeup s;
          s \<leftarrow> release PtableLk s;
          s \<leftarrow> release (CvLk (nat muxid)) s;
          Some (1, s)
        }
      })"

text \<open>The two loops of \<open>wseq_remove\<close>; the inner one shortens the sequence while it runs.\<close>

partial_function (option) wseq_shift :: "int \<Rightarrow> int \<Rightarrow> cv \<Rightarrow> cv option" where
  "wseq_shift j i c =
     (if j < cv_num_waiters c - i - 1 then do {
        x \<leftarrow> ith_opt (cv_waiters c) (j + 1);
        ws \<leftarrow> iupd_opt (cv_waiters c) j x;
        wseq_shift (j + 1) i \<lparr>cv_waiters = ws, cv_num_waiters = cv_num_waiters c - 1\<rparr>
      } else Some c)"

partial_function (option) wseq_scan :: "int \<Rightarrow> int \<Rightarrow> cv \<Rightarrow> cv option" where
  "wseq_scan i pid c =
     (if i < cv_num_waiters c then do {
        w \<leftarrow> ith_opt (cv_waiters c) i;
        c \<leftarrow> (if w = pid then wseq_shift 0 i c else Some c);
        wseq_scan (i + 1) pid c
      } else Some c)"

definition wseq_remove :: "int \<Rightarrow> int \<Rightarrow> kernel \<Rightarrow> (int \<times> kernel) option" where
  "wseq_remove muxid pid s = do {
     _ \<leftarrow> get_mutex muxid s;
     s \<leftarrow> acquire (CvLk (nat muxid)) s;
     s \<leftarrow> acquire PtableLk s;
     m \<leftarrow> get_mutex muxid s;
     if cv_num_waiters (mx_cv m) = 0 then do {
       s \<leftarrow> release PtableLk s;
       s \<leftarrow> release (CvLk (nat muxid)) s;
       Some (0, s)
     } else do {
       c \<leftarrow> wseq_scan 0 pid (mx_cv m);
       let s = upd_mutex (nat muxid) (\<lambda>m. m\<lparr>mx_cv := c\<rparr>) s;
       s \<leftarrow> release PtableLk s;
       s \<leftarrow> release (CvLk (nat muxid)) s;
       Some (1, s)
     }
   }"

section \<open>What the primitives leave alone\<close>

text \<open>What the properties of mutexes depend on: the table of mutexes and the process ids.\<close>

definition mx_view :: "kernel \<Rightarrow> mutex list \<times> int list" where
  "mx_view s = (mutex_table s, map p_pid (proc (ptable s)))"

named_theorems mx_frame \<open>operations that leave the mutex table and the process ids alone\<close>

lemma upd_proc_pids [simp]:
  assumes "\<And>p. p_pid (f p) = p_pid p"
  shows "map p_pid (proc (upd_proc i f pt)) = map p_pid (proc pt)"
proof (cases "i < length (proc pt)")
  case True
  then have "(map p_pid (proc pt))[i := p_pid (proc pt ! i)] = map p_pid (proc pt)"
    by (metis list_update_id nth_map)
  then show ?thesis using assms by (simp add: upd_proc_def map_update)
qed (simp add: upd_proc_def list_update_beyond)

lemma mx_view_setp [simp]: "(\<And>p. p_pid (f p) = p_pid p) \<Longrightarrow> mx_view (setp i f s) = mx_view s"
  by (simp add: mx_view_def)

lemma mx_view_update [simp]: "mx_view (s\<lparr>mach := m\<rparr>) = mx_view s" "mx_view (s\<lparr>mem := w\<rparr>) = mx_view s"
  by (simp_all add: mx_view_def)

lemma lock_frame [mx_frame]:
  "acquire lk s = Some s' \<Longrightarrow> mx_view s' = mx_view s"
  "release lk s = Some s' \<Longrightarrow> mx_view s' = mx_view s"
  "myproc s = Some (p, s') \<Longrightarrow> mx_view s' = mx_view s"
  by (auto simp: acquire_def release_def myproc_def bind_eq_Some_conv Let_def)

lemma kstores_frame [mx_frame]: "kstores va bs s = Some s' \<Longrightarrow> mx_view s' = mx_view s"
  by (drule kstores_fields) (metis mx_view_update(2))

lemma sched_frame [mx_frame]:
  "sched_enter s = Some (b, s') \<Longrightarrow> mx_view s' = mx_view s"
  "sched_exit b s = Some s' \<Longrightarrow> mx_view s' = mx_view s"
  by (auto simp: sched_enter_def sched_exit_def bind_eq_Some_conv dest!: mx_frame split: if_splits)

lemma sleep_frame [mx_frame]:
  "sleep_enter ch lk s = Some (b, s') \<Longrightarrow> mx_view s' = mx_view s"
  "sleep_exit i l b s = Some s' \<Longrightarrow> mx_view s' = mx_view s"
  by (auto simp: sleep_enter_def sleep_exit_def bind_eq_Some_conv Let_def split: if_splits dest!: mx_frame)

lemma enqueue_pids:
  "fp_enqueue i pt = Some (r, pt') \<Longrightarrow> map p_pid (proc pt') = map p_pid (proc pt)"
  "hfs_enqueue i pt = Some (r, pt') \<Longrightarrow> map p_pid (proc pt') = map p_pid (proc pt)"
  by (auto simp: fp_enqueue_def hfs_enqueue_def bind_eq_Some_conv Let_def split: if_splits)

lemma wakeup_one_pids: "wakeup_one ch i pt = Some pt' \<Longrightarrow> map p_pid (proc pt') = map p_pid (proc pt)"
  by (auto simp: wakeup_one_def bind_eq_Some_conv Let_def dest!: enqueue_pids split: if_splits)

lemma wakeup_frame [mx_frame]: "wakeup ch s = Some s' \<Longrightarrow> mx_view s' = mx_view s"
proof -
  assume "wakeup ch s = Some s'"
  then obtain t pt where w: "acquire PtableLk s = Some t" "wakeup1 ch (ptable t) = Some pt"
      "release PtableLk (t\<lparr>ptable := pt\<rparr>) = Some s'"
    by (auto simp: wakeup_def bind_eq_Some_conv)
  have "map p_pid (proc pt) = map p_pid (proc (ptable t))"
    using w(2) unfolding wakeup1_def
    by (rule for_from_partial [where I = "\<lambda>_ q. map p_pid (proc q) = map p_pid (proc (ptable t))"])
      (simp_all add: wakeup_one_pids)
  then have "mx_view (t\<lparr>ptable := pt\<rparr>) = mx_view t" by (simp add: mx_view_def)
  then show ?thesis using w(1,3) by (auto dest!: mx_frame)
qed

section \<open>Effects\<close>

text \<open>Process \<open>p\<close> has taken mutex \<open>i\<close>, which was not locked.\<close>

definition taken_by :: "nat \<Rightarrow> int \<Rightarrow> mutex list \<times> int list \<Rightarrow> mutex list \<times> int list \<Rightarrow> bool" where
  "taken_by p i v v' \<longleftrightarrow> p < length (snd v) \<and> 0 \<le> i \<and> i < int (length (fst v)) \<and>
     mx_locked (fst v ! nat i) = 0 \<and> snd v' = snd v \<and>
     fst v' = (fst v)[nat i := (fst v ! nat i)\<lparr>mx_locked := 1, mx_pid := of_int (snd v ! p)\<rparr>]"

text \<open>Process \<open>p\<close>, recorded as the holder, has given mutex \<open>i\<close> back.\<close>

definition freed_by :: "nat \<Rightarrow> int \<Rightarrow> mutex list \<times> int list \<Rightarrow> mutex list \<times> int list \<Rightarrow> bool" where
  "freed_by p i v v' \<longleftrightarrow> p < length (snd v) \<and> 0 \<le> i \<and> i < int (length (fst v)) \<and>
     mx_pid (fst v ! nat i) = of_int (snd v ! p) \<and> snd v' = snd v \<and>
     fst v' = (fst v)[nat i := (fst v ! nat i)\<lparr>mx_locked := 0, mx_pid := -1\<rparr>]"

lemma get_mutex_view:
  "get_mutex i s = Some m \<longleftrightarrow> 0 \<le> i \<and> i < int (length (fst (mx_view s))) \<and> fst (mx_view s) ! nat i = m"
  by (simp add: get_mutex_def mx_view_def ith_opt_eq_Some)

lemma getp_view: "getp (Some p) s = Some pr \<Longrightarrow> p < length (snd (mx_view s)) \<and> p_pid pr = snd (mx_view s) ! p"
  by (auto simp: getp_def mx_view_def nth_opt_eq_Some)

lemma upd_mutex_view [simp]:
  "mx_view (upd_mutex i f s) = ((fst (mx_view s))[i := f (fst (mx_view s) ! i)], snd (mx_view s))"
  by (simp add: mx_view_def upd_mutex_def)

lemma lock_loop_effect:
  assumes "mutex_lock_loop p i s = Some (r, s')"
  shows "(r = Done 1 \<and> taken_by p i (mx_view s) (mx_view s')) \<or> (r \<noteq> Done 1 \<and> mx_view s' = mx_view s)"
  using assms
  by (auto simp: mutex_lock_loop_def bind_eq_Some_conv get_mutex_view mutex_take_def taken_by_def
      dest!: getp_view mx_frame split: if_splits)

lemma lock_effect:
  assumes "mutex_lock i s = Some (r, s')"
  shows "(\<exists>p t. r = Done 1 \<and> myproc s = Some (Some p, t) \<and> taken_by p i (mx_view s) (mx_view s')) \<or>
    (r \<noteq> Done 1 \<and> mx_view s' = mx_view s)"
  using assms
  by (auto simp: mutex_lock_def bind_eq_Some_conv dest!: lock_loop_effect split: if_splits)
    (auto dest!: mx_frame)

lemma resume_effect:
  assumes "mutex_lock_resume p i b s = Some (r, s')"
  shows "(r = Done 1 \<and> taken_by p i (mx_view s) (mx_view s')) \<or> (r \<noteq> Done 1 \<and> mx_view s' = mx_view s)"
  using assms
  by (auto simp: mutex_lock_resume_def bind_eq_Some_conv dest!: lock_loop_effect mx_frame)

lemma unlock_effect:
  assumes "mutex_unlock i s = Some (r, s')"
  shows "(\<exists>p t u. r = 1 \<and> acquire (MutexLk (nat i)) s = Some t \<and> myproc t = Some (Some p, u) \<and>
      freed_by p i (mx_view s) (mx_view s')) \<or>
    (r \<noteq> 1 \<and> mx_view s' = mx_view s)"
  using assms
  by (auto simp: mutex_unlock_def bind_eq_Some_conv get_mutex_view freed_by_def Let_def split: if_splits)
    (auto dest!: mx_frame getp_view)

text \<open>The other operations change neither who holds a mutex nor whether it is locked.\<close>

definition lock_view :: "kernel \<Rightarrow> (uint \<times> uint) list \<times> int list" where
  "lock_view s = (map (\<lambda>m. (mx_locked m, mx_pid m)) (fst (mx_view s)), snd (mx_view s))"

lemma lock_view_cong: "mx_view s' = mx_view s \<Longrightarrow> lock_view s' = lock_view s"
  by (simp add: lock_view_def)

lemma lock_view_upd:
  assumes "mx_view s' = ((fst (mx_view s))[i := m], snd (mx_view s))"
    "mx_locked m = mx_locked (fst (mx_view s) ! i)" "mx_pid m = mx_pid (fst (mx_view s) ! i)"
  shows "lock_view s' = lock_view s"
proof (cases "i < length (fst (mx_view s))")
  case True
  then have "(map (\<lambda>m. (mx_locked m, mx_pid m)) (fst (mx_view s)))
      [i := (mx_locked (fst (mx_view s) ! i), mx_pid (fst (mx_view s) ! i))] =
    map (\<lambda>m. (mx_locked m, mx_pid m)) (fst (mx_view s))"
    by (metis (no_types, lifting) list_update_id nth_map)
  then show ?thesis using assms by (simp add: lock_view_def map_update)
qed (use assms in \<open>simp add: lock_view_def list_update_beyond\<close>)

lemma cv_wake_frame [mx_frame]: "cv_wake w s = Some s' \<Longrightarrow> mx_view s' = mx_view s"
  by (auto simp: cv_wake_def bind_eq_Some_conv mx_view_def dest!: enqueue_pids split: option.splits)

lemma delete_effect: "mutex_delete i s = Some (r, s') \<Longrightarrow> lock_view s' = lock_view s"
  by (auto simp: mutex_delete_def bind_eq_Some_conv get_mutex_view dest!: mx_frame split: if_splits
      intro: lock_view_cong elim!: lock_view_upd)

lemma cv_signal_effect: "cv_signal i s = Some (r, s') \<Longrightarrow> lock_view s' = lock_view s"
  by (auto simp: cv_signal_def bind_eq_Some_conv get_mutex_view Let_def dest!: mx_frame
      split: if_splits intro: lock_view_cong elim!: lock_view_upd)

lemma wseq_remove_effect: "wseq_remove i pid s = Some (r, s') \<Longrightarrow> lock_view s' = lock_view s"
  by (auto simp: wseq_remove_def bind_eq_Some_conv get_mutex_view Let_def dest!: mx_frame
      split: if_splits intro: lock_view_cong elim!: lock_view_upd)

lemma mutex_table_view: "mutex_table s = fst (mx_view s)"
  by (simp add: mx_view_def)

lemma create_effect: "mutex_create nm s = Some (r, s') \<Longrightarrow> lock_view s' = lock_view s"
  by (auto simp: mutex_create_def bind_eq_Some_conv Let_def mutex_table_view dest!: mx_frame
      split: option.splits intro: lock_view_cong elim!: lock_view_upd)
    (auto dest!: first_ix_SomeD(1))

lemma cv_wait_effect:
  assumes "cv_wait i s = Some (r, s')"
  shows "lock_view s' = lock_view s"
proof (cases "i < 0 \<or> i > int MUX_MAXNUM")
  case True
  then show ?thesis using assms by (auto simp: cv_wait_def)
next
  case False
  then obtain p t pr u v m where a: "myproc s = Some (Some p, t)" "getp (Some p) t = Some pr"
      "acquire (MutexLk (nat i)) t = Some u" "acquire PtableLk u = Some v" "get_mutex i v = Some m"
    using assms unfolding cv_wait_def by (simp add: bind_eq_Some_conv) blast
  have v: "mx_view v = mx_view s" using a by (simp add: mx_frame)
  have ret: "mx_view s' = mx_view s"
    if "release PtableLk v = Some w" "release (MutexLk (nat i)) w = Some s'" for w
    using that v by (simp add: mx_frame)
  consider "mx_used m = 0 \<or> mx_pid m = of_int (p_pid pr) \<or> cv_num_waiters (mx_cv m) = 16"
    | "mx_used m \<noteq> 0" "mx_pid m \<noteq> of_int (p_pid pr)" "cv_num_waiters (mx_cv m) \<noteq> 16" by blast
  then show ?thesis
  proof cases
    case 1
    then show ?thesis
      using assms False a v by (intro lock_view_cong) (auto simp: cv_wait_def bind_eq_Some_conv intro: ret split: if_splits)
  next
    case 2
    then obtain c x y where
      "release (MutexLk (nat i)) (setp p (\<lambda>pr. pr\<lparr>p_state := SLEEPING\<rparr>)
         (upd_mutex (nat i) (\<lambda>m. m\<lparr>mx_cv := c\<rparr>) v)) = Some x"
      "sched_enter x = Some (y, s')"
      using assms False a by (auto simp: cv_wait_def bind_eq_Some_conv Let_def)
    then have "mx_view s' = ((fst (mx_view s))[nat i := (fst (mx_view s) ! nat i)\<lparr>mx_cv := c\<rparr>], snd (mx_view s))"
      using v by (simp add: mx_frame)
    then show ?thesis by (rule lock_view_upd) simp_all
  qed
qed

section \<open>Mutual exclusion\<close>

text \<open>
  Interleavings of the processes \<open>P\<close>, operation by operation.  The second component records
  who holds what as the processes see it: process \<open>p\<close> holds mutex \<open>i\<close> from the moment
  \<open>mutex_lock\<close> has returned 1 to it until \<open>mutex_unlock\<close> has.  Between two operations anything
  may happen that leaves the mutex table and the process ids alone.
\<close>

abbreviation current :: "kernel \<Rightarrow> nat option" where
  "current s \<equiv> c_proc (here_cpu (mach s))"

inductive mx_step :: "nat set \<Rightarrow> kernel \<times> (nat \<times> int) set \<Rightarrow> kernel \<times> (nat \<times> int) set \<Rightarrow> bool" for P where
  Lock: "wf_machine (mach s) \<Longrightarrow> current s = Some p \<Longrightarrow> p \<in> P \<Longrightarrow> mutex_lock i s = Some (r, s') \<Longrightarrow>
    mx_step P (s, H) (s', if r = Done 1 then insert (p, i) H else H)"
| Resume: "p \<in> P \<Longrightarrow> mutex_lock_resume p i b s = Some (r, s') \<Longrightarrow>
    mx_step P (s, H) (s', if r = Done 1 then insert (p, i) H else H)"
| Unlock: "wf_machine (mach s) \<Longrightarrow> current s = Some p \<Longrightarrow> p \<in> P \<Longrightarrow> mutex_unlock i s = Some (r, s') \<Longrightarrow>
    mx_step P (s, H) (s', if r = 1 then H - {(p, i)} else H)"
| Create: "mutex_create nm s = Some (r, s') \<Longrightarrow> mx_step P (s, H) (s', H)"
| Delete: "mutex_delete i s = Some (r, s') \<Longrightarrow> mx_step P (s, H) (s', H)"
| Wait: "cv_wait i s = Some (b, s') \<Longrightarrow> mx_step P (s, H) (s', H)"
| Signal: "cv_signal i s = Some (r, s') \<Longrightarrow> mx_step P (s, H) (s', H)"
| Remove: "wseq_remove i pid s = Some (r, s') \<Longrightarrow> mx_step P (s, H) (s', H)"
| Other: "mx_view s' = mx_view s \<Longrightarrow> mx_step P (s, H) (s', H)"

text \<open>A mutex that is held is locked, and its \<open>pid\<close> is that of the holder.\<close>

definition held_ok :: "(nat \<times> int) set \<Rightarrow> (uint \<times> uint) list \<times> int list \<Rightarrow> bool" where
  "held_ok H v \<longleftrightarrow> (\<forall>(p, i) \<in> H. 0 \<le> i \<and> i < int (length (fst v)) \<and>
     fst (fst v ! nat i) \<noteq> 0 \<and> snd (fst v ! nat i) = of_int (snd v ! p))"

definition pids_apart :: "nat set \<Rightarrow> kernel \<Rightarrow> bool" where
  "pids_apart P s \<longleftrightarrow> inj_on (\<lambda>p. of_int (p_pid (proc (ptable s) ! p)) :: uint) P \<and> P \<subseteq> {..<length (proc (ptable s))}"

lemma pids_apart_view: "snd (lock_view s') = snd (lock_view s) \<Longrightarrow> pids_apart P s' = pids_apart P s"
proof -
  assume a: "snd (lock_view s') = snd (lock_view s)"
  then have len: "length (proc (ptable s')) = length (proc (ptable s))"
    by (simp add: lock_view_def mx_view_def) (metis length_map)
  have "p_pid (proc (ptable s') ! p) = p_pid (proc (ptable s) ! p)" if "p < length (proc (ptable s))" for p
    using a that len by (simp add: lock_view_def mx_view_def) (metis nth_map)
  then have "inj_on (\<lambda>p. of_int (p_pid (proc (ptable s') ! p)) :: uint) P =
      inj_on (\<lambda>p. of_int (p_pid (proc (ptable s) ! p)) :: uint) P" if "P \<subseteq> {..<length (proc (ptable s))}"
    using that by (intro inj_on_cong) auto
  then show ?thesis using len by (auto simp: pids_apart_def)
qed

lemma held_okI:
  "(\<And>p i. (p, i) \<in> H \<Longrightarrow> 0 \<le> i \<and> i < int (length (fst v)) \<and> fst (fst v ! nat i) \<noteq> 0 \<and>
     snd (fst v ! nat i) = of_int (snd v ! p)) \<Longrightarrow> held_ok H v"
  by (auto simp: held_ok_def)

lemma held_okD:
  assumes "held_ok H v" "(p, i) \<in> H"
  shows "0 \<le> i" "i < int (length (fst v))" "fst (fst v ! nat i) \<noteq> 0" "snd (fst v ! nat i) = of_int (snd v ! p)"
  using assms by (auto simp: held_ok_def)

lemma taken_by_view:
  assumes "taken_by p i (mx_view s) (mx_view s')"
  shows "fst (lock_view s') = (fst (lock_view s))[nat i := (1, of_int (snd (lock_view s) ! p))]"
    "snd (lock_view s') = snd (lock_view s)" "0 \<le> i" "i < int (length (fst (lock_view s)))"
    "fst (fst (lock_view s) ! nat i) = 0"
  using assms by (auto simp: taken_by_def lock_view_def map_update)

lemma freed_by_view:
  assumes "freed_by p i (mx_view s) (mx_view s')"
  shows "fst (lock_view s') = (fst (lock_view s))[nat i := (0, -1)]"
    "snd (lock_view s') = snd (lock_view s)" "0 \<le> i" "i < int (length (fst (lock_view s)))"
    "snd (fst (lock_view s) ! nat i) = of_int (snd (lock_view s) ! p)"
  using assms by (auto simp: freed_by_def lock_view_def map_update)

lemma taken_by_held:
  assumes "taken_by p i (mx_view s) (mx_view s')" "held_ok H (lock_view s)"
  shows "held_ok (insert (p, i) H) (lock_view s')"
proof (rule held_okI)
  note v = taken_by_view [OF assms(1)]
  fix q j assume "(q, j) \<in> insert (p, i) H"
  moreover have "nat j \<noteq> nat i" if "(q, j) \<in> H" using held_okD [OF assms(2) that] v by auto
  ultimately show "0 \<le> j \<and> j < int (length (fst (lock_view s'))) \<and> fst (fst (lock_view s') ! nat j) \<noteq> 0 \<and>
      snd (fst (lock_view s') ! nat j) = of_int (snd (lock_view s') ! q)"
    using v held_okD [OF assms(2), of q j] by auto
qed

lemma freed_by_held:
  assumes "freed_by p i (mx_view s) (mx_view s')" "held_ok H (lock_view s)"
    "pids_apart P s" "p \<in> P" "fst ` H \<subseteq> P"
  shows "held_ok (H - {(p, i)}) (lock_view s')"
proof (rule held_okI)
  note v = freed_by_view [OF assms(1)]
  fix q j assume q: "(q, j) \<in> H - {(p, i)}"
  then have h: "(q, j) \<in> H" by simp
  note hq = held_okD [OF assms(2) h]
  have "j \<noteq> i"
  proof
    assume "j = i"
    have "q \<in> P" using h assms(5) by force
    moreover have "{p, q} \<subseteq> {..<length (proc (ptable s))}" using \<open>q \<in> P\<close> assms(3,4) by (auto simp: pids_apart_def)
    moreover have "of_int (snd (lock_view s) ! q) = (of_int (snd (lock_view s) ! p) :: uint)"
      using hq(4) v(5) \<open>j = i\<close> by simp
    ultimately have "q = p" using assms(3,4) by (auto simp: pids_apart_def lock_view_def mx_view_def inj_on_def)
    then show False using q \<open>j = i\<close> by simp
  qed
  then have "nat j \<noteq> nat i" using hq(1) v(3) by auto
  then show "0 \<le> j \<and> j < int (length (fst (lock_view s'))) \<and> fst (fst (lock_view s') ! nat j) \<noteq> 0 \<and>
      snd (fst (lock_view s') ! nat j) = of_int (snd (lock_view s') ! q)"
    using v hq by simp
qed

lemma acquire_m_Some:
  assumes "acquire_m lk m = Some m'" "wf_machine m"
  shows "m' = acq lk m"
proof -
  have "mycpu ((pushed m)\<lparr>m_locks := L\<rparr>) = Some (here m)" for L
    using wf_pushed [OF assms(2)] mycpu_wf [of "pushed m"] by (simp add: mycpu_def)
  then show ?thesis
    using assms by (auto simp: acquire_m_def pushcli_wf bind_eq_Some_conv Let_def acq_def split: if_splits)
qed

lemma acquire_current:
  assumes "acquire lk s = Some t" "wf_machine (mach s)"
  shows "wf_machine (mach t)" "current t = current s"
  using assms acquire_m_Some [of lk "mach s"] by (auto simp: acquire_def bind_eq_Some_conv)

text \<open>One step keeps the invariant.\<close>

definition mx_inv :: "nat set \<Rightarrow> kernel \<times> (nat \<times> int) set \<Rightarrow> bool" where
  "mx_inv P = (\<lambda>(s, H). pids_apart P s \<and> fst ` H \<subseteq> P \<and> held_ok H (lock_view s))"

lemma mx_inv_same: "lock_view s' = lock_view s \<Longrightarrow> mx_inv P (s', H) = mx_inv P (s, H)"
  using pids_apart_view [of s' s P] by (simp add: mx_inv_def)

lemma mx_inv_taken:
  "taken_by p i (mx_view s) (mx_view s') \<Longrightarrow> mx_inv P (s, H) \<Longrightarrow> p \<in> P \<Longrightarrow> mx_inv P (s', insert (p, i) H)"
  using pids_apart_view [of s' s P] taken_by_held [of p i s s' H] taken_by_view(2) [of p i s s']
  by (auto simp: mx_inv_def)

lemma mx_inv_freed:
  "freed_by p i (mx_view s) (mx_view s') \<Longrightarrow> mx_inv P (s, H) \<Longrightarrow> p \<in> P \<Longrightarrow> mx_inv P (s', H - {(p, i)})"
  using pids_apart_view [of s' s P] freed_by_held [of p i s s' H P] freed_by_view(2) [of p i s s']
  by (auto simp: mx_inv_def)

lemma mx_step_inv:
  assumes "mx_step P c c'" "mx_inv P c"
  shows "mx_inv P c'"
  using assms
proof (induction rule: mx_step.induct)
  case (Lock s p i r s' H)
  then consider "r = Done 1" "taken_by p i (mx_view s) (mx_view s')" | "r \<noteq> Done 1" "mx_view s' = mx_view s"
    using lock_effect [OF Lock(4)] by auto
  then show ?case
  proof cases
    case 1
    then show ?thesis using mx_inv_taken [OF 1(2) Lock(5,3)] by simp
  next
    case 2
    then show ?thesis using mx_inv_same [OF lock_view_cong [OF 2(2)], of P H] Lock(5) by simp
  qed
next
  case (Resume p i b s r s' H)
  from resume_effect [OF Resume(2)] show ?case
  proof (elim disjE conjE)
    assume "r = Done 1" "taken_by p i (mx_view s) (mx_view s')"
    then show ?thesis using mx_inv_taken [OF _ Resume(3,1)] by simp
  next
    assume "r \<noteq> Done 1" "mx_view s' = mx_view s"
    then show ?thesis using mx_inv_same [OF lock_view_cong, of s' s P H] Resume(3) by simp
  qed
next
  case (Unlock s p i r s' H)
  have "q = p" if "acquire (MutexLk (nat i)) s = Some t" "myproc t = Some (Some q, u)" for t q u
    using acquire_current [OF that(1) Unlock(1)] that(2) Unlock(2) by simp
  then consider "r = 1" "freed_by p i (mx_view s) (mx_view s')" | "r \<noteq> 1" "mx_view s' = mx_view s"
    using unlock_effect [OF Unlock(4)] by blast
  then show ?case
  proof cases
    case 1
    then show ?thesis using mx_inv_freed [OF 1(2) Unlock(5,3)] by simp
  next
    case 2
    then show ?thesis using mx_inv_same [OF lock_view_cong [OF 2(2)], of P H] Unlock(5) by simp
  qed
next
  case (Create nm s r s' H)
  then show ?case using mx_inv_same [OF create_effect] by blast
next
  case (Delete i s r s' H)
  then show ?case using mx_inv_same [OF delete_effect] by blast
next
  case (Wait i s b s' H)
  then show ?case using mx_inv_same [OF cv_wait_effect] by blast
next
  case (Signal i s r s' H)
  then show ?case using mx_inv_same [OF cv_signal_effect] by blast
next
  case (Remove i pid s r s' H)
  then show ?case using mx_inv_same [OF wseq_remove_effect] by blast
next
  case (Other s' s H)
  then show ?case using mx_inv_same [OF lock_view_cong] by blast
qed

lemma mx_steps_inv:
  assumes "(mx_step P)\<^sup>*\<^sup>* c c'" "mx_inv P c"
  shows "mx_inv P c'"
  using assms by (induction rule: rtranclp_induct) (auto intro: mx_step_inv)

section \<open>Behaviour of each operation\<close>

lemma mutex_lock_free:
  assumes "wf_machine (mach s)" "current s = Some p" "p < length (proc (ptable s))"
    and "lock_free (MutexLk (nat i)) (mach s)" "0 \<le> i" "i < int (length (mutex_table s))" "i \<le> 16"
    and "mx_used (mutex_table s ! nat i) \<noteq> 0" "mx_locked (mutex_table s ! nat i) = 0"
    and "mx_nameSpace (mutex_table s ! nat i) = p_namespace (proc (ptable s) ! p)"
    and "mx_pid (mutex_table s ! nat i) \<noteq> of_int (p_pid (proc (ptable s) ! p))"
  shows "mutex_lock i s = Some (Done 1, (mutex_take p (p_pid (proc (ptable s) ! p)) i s)\<lparr>mach := settle (mach s)\<rparr>)"
  using assms by (simp add: mutex_lock_def mutex_lock_loop_def get_mutex_def mutex_take_def upd_mutex_def)

lemma mutex_lock_busy:
  assumes "outside (mach s) p" "p < length (proc (ptable s))" "lock_free PtableLk (mach s)"
    and "lock_free (MutexLk (nat i)) (mach s)" "0 \<le> i" "i < int (length (mutex_table s))" "i \<le> 16"
    and "mx_used (mutex_table s ! nat i) \<noteq> 0" "mx_locked (mutex_table s ! nat i) \<noteq> 0"
    and "mx_nameSpace (mutex_table s ! nat i) = p_namespace (proc (ptable s) ! p)"
    and "mx_pid (mutex_table s ! nat i) \<noteq> of_int (p_pid (proc (ptable s) ! p))"
  shows "mutex_lock i s = Some (Asleep (m_IF (mach s)), asleep (ChMutex (nat i)) p (mach s) s)"
proof -
  have m: "wf_machine (mach s)" "current s = Some p" using assms(1) by (simp_all add: outside_def)
  have "sleep_enter (ChMutex (nat i)) (Some (MutexLk (nat i))) (s\<lparr>mach := acq (MutexLk (nat i)) (mach s)\<rparr>) =
      Some (m_IF (mach s), asleep (ChMutex (nat i)) p (mach s) (s\<lparr>mach := acq (MutexLk (nat i)) (mach s)\<rparr>))"
    by (rule sleep_enter_eq) (use assms in simp_all)
  then show ?thesis
    using assms m by (simp add: mutex_lock_def mutex_lock_loop_def get_mutex_def asleep_def)
qed

lemma mutex_unlock_eq:
  assumes "sched_ok s" "current s = Some p" "p < length (proc (ptable s))"
    and "lock_free (MutexLk (nat i)) (mach s)" "0 \<le> i" "i < int (length (mutex_table s))" "i \<le> 16"
    and "mx_used (mutex_table s ! nat i) \<noteq> 0"
    and "mx_pid (mutex_table s ! nat i) = of_int (p_pid (proc (ptable s) ! p))"
  shows "\<exists>pt'. mutex_unlock i s = Some (1, s\<lparr>mach := settle (mach s), ptable := pt',
      mutex_table := (mutex_table s)[nat i := (mutex_table s ! nat i)\<lparr>mx_locked := 0, mx_pid := -1\<rparr>]\<rparr>) \<and>
    wf_rings pt' \<and> prio_ok pt' \<and> proc pt' = map (wake (Some (ChMutex (nat i))))
      (proc (upd_proc p (\<lambda>pr. pr\<lparr>p_proc_mutexes := replace_first (of_int i) (-1) (p_proc_mutexes pr)\<rparr>) (ptable s)))"
proof -
  note d = sched_okD [OF assms(1)]
  let ?pt = "upd_proc p (\<lambda>pr. pr\<lparr>p_proc_mutexes := replace_first (of_int i) (-1) (p_proc_mutexes pr)\<rparr>) (ptable s)"
  let ?s = "s\<lparr>ptable := ?pt, mutex_table := (mutex_table s)[nat i := (mutex_table s ! nat i)\<lparr>mx_locked := 0, mx_pid := -1\<rparr>],
    mach := settle (mach s)\<rparr>"
  have "wf_rings ?pt"
    by (rule wf_rings_upd_proc [OF d(3)]) (auto simp: wf_proc_def replace_first_def split: option.splits)
  moreover have "prio_ok ?pt" using d(4) assms(3) by (auto simp: prio_ok_def all_set_conv_all_nth)
  ultimately have "sched_ok ?s" using d by (simp add: sched_ok_def)
  from wakeup_eq [OF this, of "Some (ChMutex (nat i))"] obtain pt' where w:
    "wakeup (Some (ChMutex (nat i))) ?s = Some (?s\<lparr>mach := settle (mach ?s), ptable := pt'\<rparr>)"
    "wf_rings pt'" "prio_ok pt'" "proc pt' = map (wake (Some (ChMutex (nat i)))) (proc ?pt)" by auto
  have "mutex_unlock i s = Some (1, ?s\<lparr>mach := settle (mach ?s), ptable := pt'\<rparr>)"
    using assms d w(1) by (simp add: mutex_unlock_def get_mutex_def upd_mutex_def setp_def)
  then show ?thesis using w(2-4) by (intro exI [of _ pt']) simp
qed

section \<open>The wait sequence of a condition variable\<close>

text \<open>\<open>wseq\<close> is the sequence of waiting process ids, the next to be woken first.\<close>

definition wseq :: "cv \<Rightarrow> int list" where
  "wseq c = take (nat (cv_num_waiters c)) (cv_waiters c)"

definition cv_ok :: "cv \<Rightarrow> bool" where
  "cv_ok c \<longleftrightarrow> length (cv_waiters c) = MUX_MAXNUM \<and> 0 \<le> cv_num_waiters c \<and> cv_num_waiters c \<le> int MUX_MAXNUM"

lemma shift_loop:
  assumes "n < length ws"
  shows "\<exists>ws'. for_from n 0 (\<lambda>i ws. do { x \<leftarrow> nth_opt ws (i + 1); upd_opt ws i x }) ws = Some ws' \<and>
    length ws' = length ws \<and> take n ws' = take n (tl ws)"
proof -
  let ?I = "\<lambda>k us. length us = length ws \<and> (\<forall>j < k. us ! j = ws ! Suc j) \<and> (\<forall>j \<ge> k. j < length ws \<longrightarrow> us ! j = ws ! j)"
  have "\<exists>ws'. for_from n 0 (\<lambda>i ws. do { x \<leftarrow> nth_opt ws (i + 1); upd_opt ws i x }) ws = Some ws' \<and> ?I (0 + n) ws'"
    by (rule for_from_total) (use assms in \<open>auto simp: nth_list_update less_Suc_eq\<close>)
  then obtain ws' where "for_from n 0 (\<lambda>i ws. do { x \<leftarrow> nth_opt ws (i + 1); upd_opt ws i x }) ws = Some ws'" "?I n ws'"
    by auto
  then show ?thesis using assms by (auto intro!: nth_equalityI simp: nth_tl)
qed

interpretation cv_fifo: bounded_fifo wseq cv_ok "\<lambda>_ c. cv_num_waiters c < int MUX_MAXNUM" "\<lambda>_. True" "\<lambda>pid. pid" cv_push cv_pop
proof
  fix c pid assume c: "cv_ok c" "cv_num_waiters c < int MUX_MAXNUM"
  then have "nat (cv_num_waiters c + 1) = Suc (nat (cv_num_waiters c))" by (auto simp: cv_ok_def nat_add_distrib)
  then show "\<exists>c'. cv_push pid c = Some c' \<and> cv_ok c' \<and> wseq c' = wseq c @ [pid] \<and> (True \<longrightarrow> True)"
    using c by (auto simp: cv_push_def cv_ok_def wseq_def take_Suc_conv_app_nth)
next
  fix c y ys assume c: "cv_ok c" "wseq c = y # ys"
  let ?n = "nat (cv_num_waiters c)"
  have "?n \<noteq> 0" using c(2) by (auto simp: wseq_def)
  then have n: "0 < ?n" "?n \<le> 16" using c(1) by (auto simp: cv_ok_def)
  have len: "length (cv_waiters c) = 16" using c(1) by (simp add: cv_ok_def)
  have lt: "?n - 1 < 16" using n by linarith
  obtain ws' where ws: "for_from (?n - 1) 0 (\<lambda>i ws. do { x \<leftarrow> nth_opt ws (i + 1); upd_opt ws i x }) (cv_waiters c) = Some ws'"
    "length ws' = 16" "take (?n - 1) ws' = take (?n - 1) (tl (cv_waiters c))"
    using shift_loop [of "?n - 1" "cv_waiters c", unfolded len] lt by blast
  have e: "nat (cv_num_waiters c - 1) = ?n - 1" by simp
  have "take ?n (cv_waiters c) = hd (cv_waiters c) # take (?n - 1) (tl (cv_waiters c))"
    using n len by (cases "cv_waiters c"; cases ?n) auto
  moreover have "cv_waiters c ! 0 = hd (cv_waiters c)" using len by (cases "cv_waiters c") auto
  ultimately show "\<exists>c'. cv_pop c = Some (y, c') \<and> cv_ok c' \<and> True \<and> wseq c' = ys"
    using c ws n len e by (auto simp: cv_pop_def cv_ok_def wseq_def)
qed

text \<open>The process table after the first sleeping process with id \<open>w\<close> has been woken.\<close>

definition cv_woken :: "int \<Rightarrow> proc list \<Rightarrow> proc list" where
  "cv_woken w ps = (case first_ix (\<lambda>p. p_pid p = w \<and> p_state p = SLEEPING) ps of
     None \<Rightarrow> ps | Some j \<Rightarrow> ps[j := (ps ! j)\<lparr>p_state := RUNNABLE\<rparr>])"

lemma cv_wake_eq:
  assumes "wf_rings (ptable s)" "prio_ok (ptable s)"
  shows "\<exists>pt'. cv_wake w s = Some (s\<lparr>ptable := pt'\<rparr>) \<and>
    proc pt' = cv_woken w (proc (ptable s))"
proof (cases "first_ix (\<lambda>p. p_pid p = w \<and> p_state p = SLEEPING) (proc (ptable s))")
  case None
  then show ?thesis by (intro exI [of _ "ptable s"]) (simp add: cv_wake_def cv_woken_def)
next
  case (Some j)
  note j = first_ix_SomeD [OF Some]
  let ?pt = "yielding j (ptable s)"
  have "wf_rings ?pt" by (rule wf_rings_upd_proc [OF assms(1)]) (simp add: wf_proc_def)
  moreover have "prio_ok ?pt" using assms(2) j(1) by (auto simp: prio_ok_def all_set_conv_all_nth)
  ultimately obtain r pt' where "fp_enqueue j ?pt = Some (r, pt')" "proc pt' = proc ?pt"
    using fp_enqueue_total [of ?pt j] j(1) assms(1) prio_okD [OF assms(2) j(1)] by auto
  then show ?thesis
    using Some by (intro exI [of _ pt']) (simp add: cv_wake_def cv_woken_def upd_proc_def)
qed

lemma cv_signal_eq:
  assumes "sched_ok s" "lock_free (CvLk (nat i)) (mach s)" "0 \<le> i" "i < int (length (mutex_table s))" "i \<le> 16"
    and "cv_ok (mx_cv (mutex_table s ! nat i))" "wseq (mx_cv (mutex_table s ! nat i)) = w # ws"
  shows "\<exists>pt' c'. cv_signal i s = Some (1, s\<lparr>mach := settle (mach s), ptable := pt',
      mutex_table := (mutex_table s)[nat i := (mutex_table s ! nat i)\<lparr>mx_cv := c'\<rparr>]\<rparr>) \<and> cv_ok c' \<and> wseq c' = ws \<and>
    proc pt' = cv_woken w (proc (ptable s))"
proof -
  note d = sched_okD [OF assms(1)]
  let ?c = "mx_cv (mutex_table s ! nat i)" and ?m = "mach s"
  obtain c' where c: "cv_pop ?c = Some (w, c')" "cv_ok c'" "wseq c' = ws"
    using cv_fifo.deq_ok [OF assms(6) _ assms(7)] by auto
  have num: "cv_num_waiters ?c \<noteq> 0" using assms(7) by (auto simp: wseq_def)
  let ?T = "(mutex_table s)[nat i := (mutex_table s ! nat i)\<lparr>mx_cv := c'\<rparr>]"
  let ?s = "s\<lparr>mutex_table := ?T, mach := acq PtableLk (acq (CvLk (nat i)) ?m)\<rparr>"
  have "wf_rings (ptable ?s)" "prio_ok (ptable ?s)" using d by simp_all
  from cv_wake_eq [OF this, of w] obtain pt' where
    p: "cv_wake w ?s = Some (?s\<lparr>ptable := pt'\<rparr>)" "proc pt' = cv_woken w (proc (ptable ?s))" by blast
  have "cv_signal i s = Some (1, s\<lparr>mutex_table := ?T, ptable := pt', mach := settle ?m\<rparr>)"
    using assms d num c(1) p(1) by (simp add: cv_signal_def get_mutex_def upd_mutex_def)
  then show ?thesis using c p(2) by (intro exI [of _ pt'] exI [of _ c']) simp
qed

section \<open>Properties\<close>


text \<open>Two processes (pids 1 and 2, the first one running) and mutex 0, for witnesses.\<close>

definition mx_family :: "mutex \<Rightarrow> kernel" where
  "mx_family m = family\<lparr>mutex_table := m # replicate 15 mutex0\<rparr>"

definition mx_open :: mutex where
  "mx_open = mutex0\<lparr>mx_used := 1, mx_pid := -1\<rparr>"

lemma mx_family_simps [simp]:
  "mutex_table (mx_family m) = m # replicate 15 mutex0"
  "ptable (mx_family m) = ptable family" "mach (mx_family m) = mach family"
  by (simp_all add: mx_family_def)

lemma mx_family_sched_ok [simp]: "sched_ok (mx_family m)"
  using family_sched_ok by (simp add: sched_ok_def)


text \<open>
  \<open>mutex_unlock\<close> by the process recorded as the holder returns 1 with the mutex
  free, and every process that sleeps waiting for this mutex is RUNNABLE; no other process
  changes its state.
\<close>

theorem mutex_unlock_wakes_waiters:
  assumes "sched_ok s" "current s = Some p" "p < length (proc (ptable s))"
    and "lock_free (MutexLk (nat i)) (mach s)" "0 \<le> i" "i < int (length (mutex_table s))" "i \<le> 16"
    and "mx_used (mutex_table s ! nat i) \<noteq> 0"
    and "mx_pid (mutex_table s ! nat i) = of_int (p_pid (proc (ptable s) ! p))"
  shows "\<exists>s'. mutex_unlock i s = Some (1, s') \<and> sched_ok s' \<and>
    mx_locked (mutex_table s' ! nat i) = 0 \<and> mx_pid (mutex_table s' ! nat i) = -1 \<and>
    (\<forall>q < NPROC. p_state (proc (ptable s') ! q) =
       (if p_state (proc (ptable s) ! q) = SLEEPING \<and> p_chan (proc (ptable s) ! q) = Some (ChMutex (nat i))
        then RUNNABLE else p_state (proc (ptable s) ! q)))"
proof -
  obtain pt' where u: "mutex_unlock i s = Some (1, s\<lparr>mach := settle (mach s), ptable := pt',
      mutex_table := (mutex_table s)[nat i := (mutex_table s ! nat i)\<lparr>mx_locked := 0, mx_pid := -1\<rparr>]\<rparr>)"
    "wf_rings pt'" "prio_ok pt'" "proc pt' = map (wake (Some (ChMutex (nat i))))
      (proc (upd_proc p (\<lambda>pr. pr\<lparr>p_proc_mutexes := replace_first (of_int i) (-1) (p_proc_mutexes pr)\<rparr>) (ptable s)))"
    using mutex_unlock_eq [OF assms] by blast
  moreover have "p_state (proc pt' ! q) =
       (if p_state (proc (ptable s) ! q) = SLEEPING \<and> p_chan (proc (ptable s) ! q) = Some (ChMutex (nat i))
        then RUNNABLE else p_state (proc (ptable s) ! q))" if "q < NPROC" for q
    using that sched_okD(3) [OF assms(1)] by (simp add: u(4))
  ultimately show ?thesis
    using sched_okD [OF assms(1)] assms(5,6) by (simp add: sched_ok_def)
qed

theorem mutex_unlock_wakes_waiters_witness:
  "\<exists>s'. mutex_unlock 0 (mx_family (mx_open\<lparr>mx_locked := 1, mx_pid := 1\<rparr>)) = Some (1, s') \<and>
     mx_locked (mutex_table s' ! 0) = 0"
  using mutex_unlock_wakes_waiters [of "mx_family (mx_open\<lparr>mx_locked := 1, mx_pid := 1\<rparr>)" 0 0]
  by (auto simp: mx_open_def family_proc proc0_def)

text \<open>
  The wait sequence of a condition variable is first in, first out: a process
  that joins it while fewer than \<open>MUX_MAXNUM\<close> wait is taken off exactly after all those that
  were waiting before it, in their order.
\<close>

theorem cv_waiters_fifo:
  assumes "cv_ok c" "cv_num_waiters c < int MUX_MAXNUM"
  shows "\<exists>c1 c2 c3. cv_push pid c = Some c1 \<and> deqs cv_pop (length (wseq c)) c1 = Some (wseq c, c2) \<and>
    cv_pop c2 = Some (pid, c3) \<and> wseq c3 = []"
  using cv_fifo.fifo_order [OF assms(1) TrueI assms(2), of pid] by blast

theorem cv_waiters_fifo_witness:
  "\<exists>c1 c2 c3. cv_push 9 \<lparr>cv_waiters = [7, 8] @ replicate 14 (-1), cv_num_waiters = 2\<rparr> = Some c1 \<and>
     deqs cv_pop 2 c1 = Some ([7, 8], c2) \<and> cv_pop c2 = Some (9, c3)"
proof -
  let ?c = "\<lparr>cv_waiters = [7, 8] @ replicate 14 (-1), cv_num_waiters = 2\<rparr>"
  have ok: "cv_ok ?c" "cv_num_waiters ?c < int MUX_MAXNUM" by (simp_all add: cv_ok_def)
  have w: "wseq ?c = [7, 8]" by (simp add: wseq_def)
  have len: "length [7, 8 :: int] = 2" by simp
  from cv_waiters_fifo [OF ok, of 9] show ?thesis unfolding w len by blast
qed

text \<open>
  Property C28.  \<open>cv_signal\<close> takes the first process id off the wait sequence and makes the
  first sleeping process with that id RUNNABLE; nothing else in the process table changes.
\<close>

theorem cv_signal_wakes_first:
  assumes "sched_ok s" "lock_free (CvLk (nat i)) (mach s)" "0 \<le> i" "i < int (length (mutex_table s))" "i \<le> 16"
    and "cv_ok (mx_cv (mutex_table s ! nat i))" "wseq (mx_cv (mutex_table s ! nat i)) = w # ws"
  shows "\<exists>s'. cv_signal i s = Some (1, s') \<and> cv_ok (mx_cv (mutex_table s' ! nat i)) \<and>
    wseq (mx_cv (mutex_table s' ! nat i)) = ws \<and> proc (ptable s') = cv_woken w (proc (ptable s))"
proof -
  obtain pt' c' where "cv_signal i s = Some (1, s\<lparr>mach := settle (mach s), ptable := pt',
      mutex_table := (mutex_table s)[nat i := (mutex_table s ! nat i)\<lparr>mx_cv := c'\<rparr>]\<rparr>)" "cv_ok c'" "wseq c' = ws"
    "proc pt' = cv_woken w (proc (ptable s))"
    using cv_signal_eq [OF assms] by blast
  then show ?thesis using assms(3,4) by (intro exI conjI) (assumption | simp)+
qed

theorem cv_signal_wakes_first_witness:
  "\<exists>s'. cv_signal 0 (mx_family (mx_open\<lparr>mx_cv := \<lparr>cv_waiters = 2 # replicate 15 (-1), cv_num_waiters = 1\<rparr>\<rparr>)) = Some (1, s') \<and>
     p_state (proc (ptable s') ! 1) = RUNNABLE"
  using cv_signal_wakes_first [of "mx_family (mx_open\<lparr>mx_cv := \<lparr>cv_waiters = 2 # replicate 15 (-1), cv_num_waiters = 1\<rparr>\<rparr>)" 0 2 "[]"]
  by (auto simp: cv_ok_def wseq_def cv_woken_def family_proc proc0_def)

text \<open>
  Property C29.  A process that returns from \<open>cv_wait\<close> records itself as the holder of the
  mutex and marks it locked without looking whether another process holds it: mutual exclusion
  does not survive \<open>cv_wait\<close>.
\<close>

theorem cv_wait_takes_held_mutex:
  assumes "mach s = acq PtableLk m" "wf_machine m" "c_ncli (here_cpu m) = 0"
    and "lock_free PtableLk m" "lock_free (MutexLk (nat i)) m" "0 \<le> i" "i < int (length (mutex_table s))"
    and "mx_locked (mutex_table s ! nat i) \<noteq> 0" "mx_pid (mutex_table s ! nat i) = of_int q" "q \<noteq> pid"
  shows "\<exists>s'. cv_wait_exit p pid i b s = Some (1, s') \<and> mx_locked (mutex_table s' ! nat i) = 1 \<and>
    mx_pid (mutex_table s' ! nat i) = of_int pid"
proof -
  have wf: "wf_machine (m\<lparr>m_IF := b\<rparr>)" using assms(2,3) by (simp add: wf_machine_def)
  have "lock_free l (m\<lparr>m_IF := b\<rparr>) = lock_free l m" for l by (simp add: lock_free_def)
  then show ?thesis
    using assms sched_exit_eq [OF assms(1-3), of b] wf
    by (simp add: cv_wait_exit_def get_mutex_def mutex_take_def upd_mutex_def)
qed

theorem cv_wait_takes_held_mutex_witness:
  "\<exists>s'. cv_wait_exit 1 2 0 False ((mx_family (mx_open\<lparr>mx_locked := 1, mx_pid := 1\<rparr>))\<lparr>mach := acq PtableLk (mach family)\<rparr>)
     = Some (1, s') \<and> mx_pid (mutex_table s' ! 0) = 2"
  using cv_wait_takes_held_mutex [of "(mx_family (mx_open\<lparr>mx_locked := 1, mx_pid := 1\<rparr>))\<lparr>mach := acq PtableLk (mach family)\<rparr>"
      "mach family" 0 1 2 1 False]
  by auto

end
