(* ===== verification/Shm.thy ===== *)
theory Shm
  imports File Mutex
begin

text \<open>
  Shared memory (\<open>vm.c\<close>: \<open>shm_get\<close>, \<open>shm_rem\<close>).  \<open>shm_get\<close> takes the address of the name
  in user memory and copies 16 bytes from it.  \<open>shm_rem\<close> only compares the name, so it takes
  the bytes; the null pointer is \<open>None\<close>.
\<close>

section \<open>Operations\<close>

text \<open>Printing a message without arguments.\<close>

definition kputs :: "string \<Rightarrow> kernel \<Rightarrow> kernel option" where
  "kputs msg s = cprintf (map (\<lambda>c. int (of_char c :: nat)) msg) [] s"

text \<open>Whether \<open>strncmp(va, q, n)\<close> is 0 for a string at \<open>va\<close> in user memory.\<close>

primrec user_strneq :: "nat \<Rightarrow> uint \<Rightarrow> byte list \<Rightarrow> kernel \<Rightarrow> bool option" where
  "user_strneq 0 va q s = Some True"
| "user_strneq (Suc n) va q s = do {
     c \<leftarrow> kload va s;
     d \<leftarrow> nth_opt q 0;
     if c \<noteq> 0 \<and> c = d then user_strneq n (va + 1) (tl q) s else Some (c = d)
   }"

abbreviation shms :: "kernel \<Rightarrow> shm_block list" where
  "shms s \<equiv> shm_mems (shared_memory s)"

definition add_shm_num :: "int \<Rightarrow> kernel \<Rightarrow> kernel" where
  "add_shm_num k s = s\<lparr>shared_memory := (shared_memory s)\<lparr>shm_num := shm_num (shared_memory s) + k\<rparr>\<rparr>"

text \<open>The search for the name among the blocks in use: the index of the first match.\<close>

definition shm_find :: "uint \<Rightarrow> kernel \<Rightarrow> (nat option \<times> kernel) option" where
  "shm_find name s = for_ret SHM_MAXNUM 0 (\<lambda>i s. do {
     b \<leftarrow> nth_opt (shms s) i;
     if sb_ref b > 0 then do {
       eq \<leftarrow> user_strneq SHM_NAME_LEN name (sb_name b) s;
       Some (if eq then Some i else None, s)
     } else Some (None, s)
   }) s"

text \<open>
  A new block.  When \<open>kalloc\<close> fails, \<open>V2P\<close> of the null pointer is not 0, the code goes on and
  clears the page at virtual address 0.
\<close>

definition shm_new :: "uint \<Rightarrow> kernel \<Rightarrow> (uint \<times> kernel) option" where
  "shm_new name s = do {
     (v, s) \<leftarrow> kalloc s;
     let pa = V2P v;
     if pa = 0 then do {
       s \<leftarrow> kputs (''MAX MEM'' @ [CHR 0x0A]) s;
       Some (0, s)
     } else do {
       s \<leftarrow> (if v = 0 then kstores 0 (replicate 4096 0) s else Some (memset_page v 0 s));
       s \<leftarrow> mutex_init s;
       s \<leftarrow> (case first_ix (\<lambda>b. sb_ref b = 0) (shms s) of
               Some i \<Rightarrow> do {
                 nm \<leftarrow> kloads name 16 s;
                 let s = upd_shm i (\<lambda>b. b\<lparr>sb_name := nm, sb_ref := 1, sb_pa := pa\<rparr>) s;
                 (mutex_id, s) \<leftarrow> mutex_create (map of_char ''shm_mutex'') s;
                 if mutex_id = -1 then kputs (''NO MUTEX ID'' @ [CHR 0x0A]) s
                 else Some (upd_shm i (\<lambda>b. b\<lparr>sb_mutex_index := mutex_id\<rparr>) s)
               }
             | None \<Rightarrow> Some s);
       Some (pa, add_shm_num 1 s)
     }
   }"

text \<open>The end of \<open>shm_get\<close>: map the page at \<open>a\<close> and enter it in the table of the process.\<close>

definition shm_attach :: "nat \<Rightarrow> uint \<Rightarrow> uint \<Rightarrow> kernel \<Rightarrow> (int \<times> kernel) option" where
  "shm_attach p name pa s = do {
     pr \<leftarrow> getp (Some p) s;
     let sz = p_sz pr;
     let a = PGROUNDUP sz;
     let newsz = sz + PGSIZE;
     (r, s) \<leftarrow> mappages (p_pgdir pr) a PGSIZE pa (PTE_W OR PTE_U) s;
     if r < 0 then do {
       s \<leftarrow> kputs (''allocuvm out of memory (2)'' @ [CHR 0x0A]) s;
       s \<leftarrow> kfree (P2V pa) s;
       Some (0, s)
     } else if newsz \<noteq> 0 then do {
       s \<leftarrow> switchuvm (Some p) (setp p (\<lambda>pr. pr\<lparr>p_sz := newsz\<rparr>) s);
       s \<leftarrow> (case first_ix (\<lambda>e. sm_va e = 0) (p_shm pr) of
               Some i \<Rightarrow> do {
                 nm \<leftarrow> kloads name 16 s;
                 Some (setp p (\<lambda>pr. pr\<lparr>p_shm := (p_shm pr)[i := \<lparr>sm_name = nm, sm_va = sz\<rparr>]\<rparr>) s)
               }
             | None \<Rightarrow> Some s);
       Some (sint a, s)
     } else Some (-1, s)
   }"

definition shm_get :: "uint \<Rightarrow> kernel \<Rightarrow> (int \<times> kernel) option" where
  "shm_get name s =
     (if name = 0 then Some (-1, s)
      else do {
        (p, s) \<leftarrow> myproc s;
        pr \<leftarrow> getp p s;
        if p_sz pr + PGSIZE \<ge> KERNBASE then Some (-1, s)
        else do {
          (i, s) \<leftarrow> shm_find name s;
          let s = (case i of Some i \<Rightarrow> upd_shm i (\<lambda>b. b\<lparr>sb_ref := sb_ref b + 1\<rparr>) s | None \<Rightarrow> s);
          let pa = (case i of Some i \<Rightarrow> sb_pa (shms s ! i) | None \<Rightarrow> 0);
          i \<leftarrow> p;
          if pa = 0 then
            if shm_num (shared_memory s) + 1 \<ge> int SHM_MAXNUM then do {
              s \<leftarrow> kputs (''MAX SHARED MEM'' @ [CHR 0x0A]) s;
              Some (0, s)
            } else do {
              (pa, s) \<leftarrow> shm_new name s;
              if pa = 0 then Some (0, s) else shm_attach i name pa s
            }
          else shm_attach i name pa s
        }
      })"

text \<open>The part of \<open>shm_rem\<close> that drops a reference to the block.\<close>

definition shm_drop :: "byte list \<Rightarrow> kernel \<Rightarrow> (int \<times> kernel) option" where
  "shm_drop name s =
     (case first_ix (\<lambda>b. sb_ref b > 0 \<and> strneq_l 0 name (sb_name b) SHM_NAME_LEN) (shms s) of
        None \<Rightarrow> Some (0, s)
      | Some i \<Rightarrow> do {
          let s = upd_shm i (\<lambda>b. b\<lparr>sb_ref := sb_ref b - 1\<rparr>) s;
          if sb_ref (shms s ! i) = 0 then do {
            s \<leftarrow> kfree (P2V (sb_pa (shms s ! i))) s;
            let s = upd_shm i (\<lambda>b. b\<lparr>sb_pa := 0, sb_name := replicate 16 0\<rparr>) s;
            (r, s) \<leftarrow> mutex_delete (sb_mutex_index (shms s ! i)) s;
            if r \<noteq> 1 then do {
              s \<leftarrow> kputs (''Failed to delete mutex'' @ [CHR 0x0A]) s;
              Some (-1, s)
            } else Some (0, add_shm_num (-1) s)
          } else Some (0, s)
        })"

text \<open>\<open>memset(name, 16, 0)\<close> writes nothing: its length is 0.\<close>

definition shm_rem :: "byte list option \<Rightarrow> kernel \<Rightarrow> (int \<times> kernel) option" where
  "shm_rem name s =
     (case name of
        None \<Rightarrow> Some (-1, s)
      | Some name \<Rightarrow> do {
          (p, s) \<leftarrow> myproc s;
          pr \<leftarrow> getp p s;
          case first_ix (\<lambda>e. strneq_l 0 name (sm_name e) SHM_NAME_LEN) (p_shm pr) of
            None \<Rightarrow> do {
              s \<leftarrow> kputs (''Name not found'' @ [CHR 0x0A]) s;
              Some (-1, s)
            }
          | Some i \<Rightarrow> do {
              (pte, s) \<leftarrow> walkpgdir (p_pgdir pr) (sm_va (p_shm pr ! i)) False s;
              s \<leftarrow> (case pte of
                      Some pte \<Rightarrow> if get_pte pte s \<noteq> 0 then Some (set_pte pte 0 s)
                                  else kputs (''PTE not found'' @ [CHR 0x0A]) s
                    | None \<Rightarrow> kputs (''PTE not found'' @ [CHR 0x0A]) s);
              p \<leftarrow> p;
              let s = setp p (\<lambda>pr. pr\<lparr>p_shm := (p_shm pr)[i := (p_shm pr ! i)\<lparr>sm_va := 0\<rparr>],
                p_sz := p_sz pr - PGSIZE\<rparr>) s;
              shm_drop name s
            }
        })"

end
