(* ===== verification/Process.thy ===== *)
theory Process
  imports Container Shm
begin

text \<open>
  The life of a process (\<open>proc.c\<close>: \<open>allocproc\<close> to \<open>wait\<close>, \<open>forkret\<close>).

  \<open>exit\<close> does not return: \<open>exit_enter\<close> is the code up to the switch to the scheduler.  \<open>wait\<close>
  either returns or has gone to sleep (\<open>Asleep\<close>); \<open>wait_resume\<close> is the code after the wakeup.
\<close>

section \<open>Operations\<close>

definition pinit :: "kernel \<Rightarrow> kernel" where
  "pinit s = initlock PtableLk ''ptable'' s"

text \<open>\<open>memset(p->shm, ..., 0)\<close> has length 0 and leaves the table as the last process left it.\<close>

definition init_proc :: "uint \<Rightarrow> linksyms \<Rightarrow> proc \<Rightarrow> proc" where
  "init_proc v l pr = pr\<lparr>p_kstack := v,
     p_context := ctx0\<lparr>ctx_eip := ls_forkret l, ctx_ret := ls_trapret l\<rparr>,
     p_maxproc := 0, p_maxprocset := 0, p_newroot_inode := None, p_in_newroot := 0,
     p_in_container := 0, p_namespace := 0\<rparr>"

definition allocproc :: "kernel \<Rightarrow> (nat option \<times> kernel) option" where
  "allocproc s = do {
     s \<leftarrow> acquire PtableLk s;
     case first_ix (\<lambda>p. p_state p = UNUSED) (proc (ptable s)) of
       None \<Rightarrow> do {
         s \<leftarrow> release PtableLk s;
         Some (None, s)
       }
     | Some p \<Rightarrow> do {
         let s = setp p (\<lambda>pr. pr\<lparr>p_state := EMBRYO, p_pid := nextpid s\<rparr>) s;
         s \<leftarrow> release PtableLk (s\<lparr>nextpid := nextpid s + 1\<rparr>);
         (v, s) \<leftarrow> kalloc s;
         if v = 0 then Some (None, setp p (\<lambda>pr. pr\<lparr>p_kstack := 0, p_state := UNUSED\<rparr>) s)
         else Some (Some p, setp p (init_proc v (link s)) s)
       }
   }"

text \<open>\<open>initcode\<close> is the binary of the first user program.\<close>

definition userinit :: "byte list \<Rightarrow> kernel \<Rightarrow> kernel option" where
  "userinit initcode s = do {
     (p, s) \<leftarrow> allocproc s;
     let s = s\<lparr>initproc := p\<rparr>;
     (d, s) \<leftarrow> setupkvm s;
     p \<leftarrow> p;
     if d = 0 then None
     else do {
       let s = setp p (\<lambda>pr. pr\<lparr>p_pgdir := d\<rparr>) s;
       s \<leftarrow> inituvm d initcode s;
       let s = setp p (\<lambda>pr. pr\<lparr>p_sz := PGSIZE,
         p_tf := trapframe0\<lparr>tf_cs := 27, tf_ds := 35, tf_es := 35, tf_ss := 35,
           tf_eflags := 0x200, tf_esp := PGSIZE, tf_eip := 0\<rparr>,
         p_name := safestrcpy_l 0 (p_name pr) (map of_char ''initcode'') 16\<rparr>) s;
       (cwd, s) \<leftarrow> namei [47] s;
       s \<leftarrow> acquire PtableLk (setp p (\<lambda>pr. pr\<lparr>p_cwd := cwd\<rparr>) s);
       let s = setp p (\<lambda>pr. pr\<lparr>p_queueType := HFS_POLICY, p_hfs_priority := 0\<rparr>) s;
       (_, pt) \<leftarrow> hfs_enqueue p (ptable s);
       release PtableLk (setp p (\<lambda>pr. pr\<lparr>p_state := RUNNABLE\<rparr>) (s\<lparr>ptable := pt\<rparr>))
     }
   }"

definition growproc :: "int \<Rightarrow> kernel \<Rightarrow> (int \<times> kernel) option" where
  "growproc n s = do {
     (p, s) \<leftarrow> myproc s;
     pr \<leftarrow> getp p s;
     let sz = p_sz pr;
     (sz', s) \<leftarrow> (if n > 0 then allocuvm (p_pgdir pr) sz (sz + of_int n) s
                else if n < 0 then deallocuvm (p_pgdir pr) sz (sz + of_int n) s
                else Some (sz, s));
     if n \<noteq> 0 \<and> sz' = 0 then Some (-1, s)
     else do {
       i \<leftarrow> p;
       s \<leftarrow> switchuvm p (setp i (\<lambda>pr. pr\<lparr>p_sz := sz'\<rparr>) s);
       Some (0, s)
     }
   }"

text \<open>The copying of open files in \<open>fork\<close>: entry \<open>i\<close> of the table of \<open>p\<close> goes to \<open>np\<close>.\<close>

definition fork_file :: "nat \<Rightarrow> nat \<Rightarrow> nat \<Rightarrow> kernel \<Rightarrow> kernel option" where
  "fork_file p np i s = do {
     pr \<leftarrow> getp (Some p) s;
     f \<leftarrow> nth_opt (p_ofile pr) i;
     case f of
       None \<Rightarrow> Some s
     | Some f \<Rightarrow> do {
         (f, s) \<leftarrow> filedup f s;
         Some (setp np (\<lambda>pr. pr\<lparr>p_ofile := (p_ofile pr)[i := Some f]\<rparr>) s)
       }
   }"

text \<open>Making the child RUNNABLE and entering it in the queue of the parent's policy.\<close>

definition fork_enqueue :: "nat \<Rightarrow> nat \<Rightarrow> ptable \<Rightarrow> ptable option" where
  "fork_enqueue p np pt = do {
     let pt = upd_proc np (\<lambda>pr. pr\<lparr>p_state := RUNNABLE\<rparr>) pt;
     pr \<leftarrow> nth_opt (proc pt) p;
     if p_queueType pr = FP_POLICY then do {
       (_, pt) \<leftarrow> fp_enqueue np (upd_proc np (\<lambda>c. c\<lparr>p_fp_priority := p_fp_priority pr, p_queueType := FP_POLICY\<rparr>) pt);
       Some pt
     } else if p_queueType pr = HFS_POLICY then do {
       (_, pt) \<leftarrow> hfs_enqueue np (upd_proc np (\<lambda>c. c\<lparr>p_hfs_priority := p_hfs_priority pr, p_queueType := HFS_POLICY\<rparr>) pt);
       Some pt
     } else Some pt
   }"

definition fork :: "kernel \<Rightarrow> (int \<times> kernel) option" where
  "fork s = do {
     (p, s) \<leftarrow> myproc s;
     (np, s) \<leftarrow> allocproc s;
     case np of
       None \<Rightarrow> Some (-1, s)
     | Some np \<Rightarrow> do {
         p \<leftarrow> p;
         pr \<leftarrow> getp (Some p) s;
         let s = setp np (\<lambda>c. c\<lparr>p_maxprocset := p_maxprocset pr, p_maxproc := p_maxproc pr,
           p_in_newroot := p_in_newroot pr, p_in_container := p_in_container pr, p_namespace := p_namespace pr\<rparr>) s;
         s \<leftarrow> (if p_in_newroot pr \<noteq> 0 then do {
                  ip \<leftarrow> p_newroot_inode pr;
                  (ip, s) \<leftarrow> idup ip s;
                  Some (setp np (\<lambda>c. c\<lparr>p_newroot_inode := Some ip\<rparr>) s)
                } else Some (setp np (\<lambda>c. c\<lparr>p_newroot_inode := None\<rparr>) s));
         (d, s) \<leftarrow> copyuvm (p_pgdir pr) (p_sz pr) s;
         let s = setp np (\<lambda>c. c\<lparr>p_pgdir := d\<rparr>) s;
         ch \<leftarrow> getp (Some np) s;
         if d = 0 then do {
           s \<leftarrow> kfree (p_kstack ch) s;
           Some (-1, setp np (\<lambda>c. c\<lparr>p_kstack := 0, p_state := UNUSED\<rparr>) s)
         } else do {
           let s = setp np (\<lambda>c. c\<lparr>p_sz := p_sz pr, p_parent := Some p, p_tf := (p_tf pr)\<lparr>tf_eax := 0\<rparr>, p_shm := p_shm pr\<rparr>) s;
           s \<leftarrow> for_from NOFILE 0 (fork_file p np) s;
           cwd \<leftarrow> p_cwd pr;
           (cwd, s) \<leftarrow> idup cwd s;
           let s = setp np (\<lambda>c. c\<lparr>p_cwd := Some cwd, p_name := safestrcpy_l 0 (p_name c) (p_name pr) 16\<rparr>) s;
           s \<leftarrow> acquire PtableLk s;
           pt \<leftarrow> fork_enqueue p np (ptable s);
           s \<leftarrow> release PtableLk (s\<lparr>ptable := pt\<rparr>);
           Some (p_pid ch, s)
         }
       }
   }"

definition exit_file :: "nat \<Rightarrow> nat \<Rightarrow> kernel \<Rightarrow> kernel option" where
  "exit_file p fd s = do {
     pr \<leftarrow> getp (Some p) s;
     f \<leftarrow> nth_opt (p_ofile pr) fd;
     case f of
       None \<Rightarrow> Some s
     | Some f \<Rightarrow> do {
         s \<leftarrow> fileclose f s;
         Some (setp p (\<lambda>pr. pr\<lparr>p_ofile := (p_ofile pr)[fd := None]\<rparr>) s)
       }
   }"

definition exit_shm :: "nat \<Rightarrow> nat \<Rightarrow> kernel \<Rightarrow> kernel option" where
  "exit_shm p i s = do {
     pr \<leftarrow> getp (Some p) s;
     e \<leftarrow> nth_opt (p_shm pr) i;
     if sm_va e \<noteq> 0 then do {
       (_, s) \<leftarrow> shm_rem (Some (sm_name e)) s;
       Some s
     } else Some s
   }"

text \<open>An abandoned child of \<open>p\<close> becomes a child of \<open>init\<close>.\<close>

definition exit_child :: "nat \<Rightarrow> nat option \<Rightarrow> nat \<Rightarrow> ptable \<Rightarrow> ptable option" where
  "exit_child p init q pt = do {
     pr \<leftarrow> nth_opt (proc pt) q;
     if p_parent pr = Some p then do {
       let pt = upd_proc q (\<lambda>pr. pr\<lparr>p_parent := init\<rparr>) pt;
       if p_state pr = ZOMBIE then wakeup1 (map_option ChProc init) pt else Some pt
     } else Some pt
   }"

definition exit_enter :: "kernel \<Rightarrow> (bool \<times> kernel) option" where
  "exit_enter s = do {
     (p, s) \<leftarrow> myproc s;
     if p = initproc s then None
     else do {
       p \<leftarrow> p;
       s \<leftarrow> for_from NOFILE 0 (exit_file p) s;
       s \<leftarrow> for_from SHM_MAXNUM 0 (exit_shm p) s;
       s \<leftarrow> begin_op s;
       pr \<leftarrow> getp (Some p) s;
       cwd \<leftarrow> p_cwd pr;
       s \<leftarrow> iput cwd s;
       s \<leftarrow> end_op s;
       let s = setp p (\<lambda>pr. pr\<lparr>p_cwd := None\<rparr>) s;
       s \<leftarrow> acquire PtableLk s;
       pr \<leftarrow> getp (Some p) s;
       pt \<leftarrow> wakeup1 (map_option ChProc (p_parent pr)) (ptable s);
       pt \<leftarrow> for_from NPROC 0 (exit_child p (initproc s)) pt;
       sched_enter (s\<lparr>ptable := upd_proc p (\<lambda>pr. pr\<lparr>p_state := ZOMBIE\<rparr>) pt\<rparr>)
     }
   }"

text \<open>\<open>reap\<close> frees the zombie child \<open>q\<close>; the result is its pid.\<close>

definition reap :: "nat \<Rightarrow> kernel \<Rightarrow> (int \<times> kernel) option" where
  "reap q s = do {
     pr \<leftarrow> getp (Some q) s;
     s \<leftarrow> kfree (p_kstack pr) s;
     let s = setp q (\<lambda>pr. pr\<lparr>p_kstack := 0\<rparr>) s;
     s \<leftarrow> freevm (p_pgdir pr) s;
     let s = setp q (\<lambda>pr. pr\<lparr>p_pid := 0, p_parent := None, p_name := (p_name pr)[0 := 0],
       p_killed := 0, p_state := UNUSED\<rparr>) s;
     Some (p_pid pr, s)
   }"

definition wait_loop :: "nat \<Rightarrow> kernel \<Rightarrow> (outcome \<times> kernel) option" where
  "wait_loop p s =
     (case first_ix (\<lambda>c. p_parent c = Some p \<and> p_state c = ZOMBIE) (proc (ptable s)) of
        Some q \<Rightarrow> do {
          (pid, s) \<leftarrow> reap q s;
          s \<leftarrow> release PtableLk s;
          Some (Done pid, s)
        }
      | None \<Rightarrow> do {
          pr \<leftarrow> getp (Some p) s;
          if first_ix (\<lambda>c. p_parent c = Some p) (proc (ptable s)) = None \<or> p_killed pr \<noteq> 0 then do {
            s \<leftarrow> release PtableLk s;
            Some (Done (-1), s)
          } else do {
            (intena, s) \<leftarrow> sleep_enter (ChProc p) (Some PtableLk) s;
            Some (Asleep intena, s)
          }
        })"

definition wait :: "kernel \<Rightarrow> (outcome \<times> kernel) option" where
  "wait s = do {
     (p, s) \<leftarrow> myproc s;
     s \<leftarrow> acquire PtableLk s;
     p \<leftarrow> p;
     wait_loop p s
   }"

definition wait_resume :: "nat \<Rightarrow> bool \<Rightarrow> kernel \<Rightarrow> (outcome \<times> kernel) option" where
  "wait_resume p intena s = do {
     s \<leftarrow> sleep_exit p PtableLk intena s;
     wait_loop p s
   }"

text \<open>\<open>first\<close> is the static variable of \<open>forkret\<close>.\<close>

definition forkret :: "bool \<Rightarrow> kernel \<Rightarrow> (bool \<times> kernel) option" where
  "forkret first s = do {
     s \<leftarrow> release PtableLk s;
     if first then do {
       s \<leftarrow> iinit 1 s;
       s \<leftarrow> initlog 1 s;
       Some (False, s)
     } else Some (False, s)
   }"

end
