(* ===== verification/Syscall.thy ===== *)
theory Syscall
  imports Process
begin

text \<open>
  Fetching system call arguments (\<open>syscall.c\<close>) and the system calls of \<open>sysproc.c\<close>.  A
  fetch yields \<open>None\<close> where the C function returns -1.  \<open>fetchstr\<close> also yields the bytes of
  the string.
\<close>

section \<open>Arguments\<close>

definition fetchint :: "uint \<Rightarrow> kernel \<Rightarrow> (int option \<times> kernel) option" where
  "fetchint addr s = do {
     (p, s) \<leftarrow> myproc s;
     pr \<leftarrow> getp p s;
     if addr \<ge> p_sz pr \<or> addr + 4 > p_sz pr then Some (None, s)
     else do {
       w \<leftarrow> kload32 addr s;
       Some (Some (sint w), s)
     }
   }"

partial_function (option) fetchstr_loop :: "uint \<Rightarrow> uint \<Rightarrow> byte list \<Rightarrow> kernel \<Rightarrow> byte list option option" where
  "fetchstr_loop a ep acc s =
     (if a < ep then do {
        c \<leftarrow> kload a s;
        if c = 0 then Some (Some acc) else fetchstr_loop (a + 1) ep (acc @ [c]) s
      } else Some None)"

definition fetchstr :: "uint \<Rightarrow> kernel \<Rightarrow> (byte list option \<times> kernel) option" where
  "fetchstr addr s = do {
     (p, s) \<leftarrow> myproc s;
     pr \<leftarrow> getp p s;
     if addr \<ge> p_sz pr then Some (None, s)
     else do {
       r \<leftarrow> fetchstr_loop addr (p_sz pr) [] s;
       Some (r, s)
     }
   }"

definition argint :: "int \<Rightarrow> kernel \<Rightarrow> (int option \<times> kernel) option" where
  "argint n s = do {
     (p, s) \<leftarrow> myproc s;
     pr \<leftarrow> getp p s;
     fetchint (tf_esp (p_tf pr) + 4 + 4 * of_int n) s
   }"

definition argptr :: "int \<Rightarrow> int \<Rightarrow> kernel \<Rightarrow> (uint option \<times> kernel) option" where
  "argptr n sz s = do {
     (p, s) \<leftarrow> myproc s;
     (i, s) \<leftarrow> argint n s;
     case i of
       None \<Rightarrow> Some (None, s)
     | Some i \<Rightarrow> do {
         pr \<leftarrow> getp p s;
         if sz < 0 \<or> of_int i \<ge> p_sz pr \<or> of_int i + of_int sz > p_sz pr then Some (None, s)
         else Some (Some (of_int i), s)
       }
   }"

text \<open>The result is the address together with the string.\<close>

definition argstr :: "int \<Rightarrow> kernel \<Rightarrow> ((uint \<times> byte list) option \<times> kernel) option" where
  "argstr n s = do {
     (addr, s) \<leftarrow> argint n s;
     case addr of
       None \<Rightarrow> Some (None, s)
     | Some addr \<Rightarrow> do {
         (str, s) \<leftarrow> fetchstr (of_int addr) s;
         Some (map_option (Pair (of_int addr)) str, s)
       }
   }"

text \<open>\<open>if (arg... < 0) return -1;\<close> followed by \<open>k\<close>.\<close>

definition or_fail :: "'a option \<times> kernel \<Rightarrow> ('a \<Rightarrow> kernel \<Rightarrow> (outcome \<times> kernel) option) \<Rightarrow> (outcome \<times> kernel) option" where
  "or_fail a k = (case a of (None, s) \<Rightarrow> Some (Done (-1), s) | (Some x, s) \<Rightarrow> k x s)"

definition ret :: "(int \<times> kernel) option \<Rightarrow> (outcome \<times> kernel) option" where
  "ret r = map_option (\<lambda>(v, s). (Done v, s)) r"

section \<open>Processes\<close>

definition sys_fork :: "kernel \<Rightarrow> (outcome \<times> kernel) option" where
  "sys_fork s = ret (fork s)"

definition sys_exit :: "kernel \<Rightarrow> (outcome \<times> kernel) option" where
  "sys_exit s = do {
     (intena, s) \<leftarrow> exit_enter s;
     Some (Asleep intena, s)
   }"

definition sys_wait :: "kernel \<Rightarrow> (outcome \<times> kernel) option" where
  "sys_wait s = wait s"

definition sys_kill :: "kernel \<Rightarrow> (outcome \<times> kernel) option" where
  "sys_kill s = do {
     a \<leftarrow> argint 0 s;
     or_fail a (\<lambda>pid s. ret (kill pid s))
   }"

definition sys_getpid :: "kernel \<Rightarrow> (outcome \<times> kernel) option" where
  "sys_getpid s = do {
     (p, s) \<leftarrow> myproc s;
     pr \<leftarrow> getp p s;
     Some (Done (p_pid pr), s)
   }"

definition sys_sbrk :: "kernel \<Rightarrow> (outcome \<times> kernel) option" where
  "sys_sbrk s = do {
     a \<leftarrow> argint 0 s;
     or_fail a (\<lambda>n s. do {
       (p, s) \<leftarrow> myproc s;
       pr \<leftarrow> getp p s;
       let addr = sint (p_sz pr);
       (r, s) \<leftarrow> growproc n s;
       Some (Done (if r < 0 then -1 else addr), s)
     })
   }"

text \<open>The loop of \<open>sys_sleep\<close>; \<open>n\<close> is converted to unsigned in the comparison.\<close>

definition sys_sleep_loop :: "int \<Rightarrow> uint \<Rightarrow> kernel \<Rightarrow> (outcome \<times> kernel) option" where
  "sys_sleep_loop n ticks0 s =
     (if ticks s - ticks0 < of_int n then do {
        (p, s) \<leftarrow> myproc s;
        pr \<leftarrow> getp p s;
        if p_killed pr \<noteq> 0 then do {
          s \<leftarrow> release TicksLk s;
          Some (Done (-1), s)
        } else do {
          (intena, s) \<leftarrow> sleep_enter ChTicks (Some TicksLk) s;
          Some (Asleep intena, s)
        }
      } else do {
        s \<leftarrow> release TicksLk s;
        Some (Done 0, s)
      })"

definition sys_sleep :: "kernel \<Rightarrow> (outcome \<times> kernel) option" where
  "sys_sleep s = do {
     a \<leftarrow> argint 0 s;
     or_fail a (\<lambda>n s. do {
       s \<leftarrow> acquire TicksLk s;
       sys_sleep_loop n (ticks s) s
     })
   }"

definition sys_sleep_resume :: "nat \<Rightarrow> bool \<Rightarrow> int \<Rightarrow> uint \<Rightarrow> kernel \<Rightarrow> (outcome \<times> kernel) option" where
  "sys_sleep_resume p intena n ticks0 s = do {
     s \<leftarrow> sleep_exit p TicksLk intena s;
     sys_sleep_loop n ticks0 s
   }"

definition sys_uptime :: "kernel \<Rightarrow> (outcome \<times> kernel) option" where
  "sys_uptime s = do {
     s \<leftarrow> acquire TicksLk s;
     let xticks = ticks s;
     s \<leftarrow> release TicksLk s;
     Some (Done (sint xticks), s)
   }"

section \<open>Containers\<close>

definition sys_cm_maxproc :: "kernel \<Rightarrow> (outcome \<times> kernel) option" where
  "sys_cm_maxproc s = do {
     a \<leftarrow> argint 0 s;
     or_fail a (\<lambda>nproc s. ret (do_maxproc nproc s))
   }"

definition sys_cm_setroot :: "kernel \<Rightarrow> (outcome \<times> kernel) option" where
  "sys_cm_setroot s = do {
     a \<leftarrow> argstr 0 s;
     or_fail a (\<lambda>(_, path) s. do {
       a \<leftarrow> argint 1 s;
       or_fail a (\<lambda>path_len s. ret (do_setroot path path_len s))
     })
   }"

definition sys_cm_create_and_enter :: "kernel \<Rightarrow> (outcome \<times> kernel) option" where
  "sys_cm_create_and_enter s = ret (do_ce s)"

definition sys_test_newroot :: "kernel \<Rightarrow> (outcome \<times> kernel) option" where
  "sys_test_newroot s = do {
     (p, s) \<leftarrow> myproc s;
     a \<leftarrow> argstr 0 s;
     or_fail a (\<lambda>(_, path) s. do {
       a \<leftarrow> argint 1 s;
       or_fail a (\<lambda>path_len s. do {
         (ip, s) \<leftarrow> resolve_path_to_inode path s;
         case ip of
           None \<Rightarrow> Some (Done (-1), s)
         | Some i \<Rightarrow> do {
             pr \<leftarrow> getp p s;
             s \<leftarrow> iput i s;
             pr' \<leftarrow> getp p s;
             Some (Done (if p_newroot_inode pr \<noteq> Some i then -1
                         else if p_in_newroot pr' = 0 then -1 else 0), s)
           }
       })
     })
   }"

definition sys_test_dotdot :: "kernel \<Rightarrow> (outcome \<times> kernel) option" where
  "sys_test_dotdot s = do {
     (p, s) \<leftarrow> myproc s;
     pr \<leftarrow> getp p s;
     Some (Done (if p_in_newroot pr \<noteq> 0 \<and> p_newroot_inode pr \<noteq> None \<and> p_cwd pr \<noteq> None
                   \<and> p_newroot_inode pr = p_cwd pr then 0 else -1), s)
   }"

section \<open>Shared memory, mutexes, priorities\<close>

definition sys_shm_get :: "kernel \<Rightarrow> (outcome \<times> kernel) option" where
  "sys_shm_get s = do {
     a \<leftarrow> argstr 0 s;
     or_fail a (\<lambda>(name, _) s. ret (shm_get name s))
   }"

definition sys_shm_rem :: "kernel \<Rightarrow> (outcome \<times> kernel) option" where
  "sys_shm_rem s = do {
     a \<leftarrow> argstr 0 s;
     or_fail a (\<lambda>(addr, name) s. ret (shm_rem (if addr = 0 then None else Some name) s))
   }"

definition sys_mutex_init :: "kernel \<Rightarrow> (outcome \<times> kernel) option" where
  "sys_mutex_init s = do {
     s \<leftarrow> mutex_init s;
     Some (Done 0, s)
   }"

text \<open>The bytes that \<open>strncpy(_, va, n)\<close> reads at \<open>va\<close>: up to a zero byte, at most \<open>n\<close>.\<close>

primrec user_prefix :: "nat \<Rightarrow> uint \<Rightarrow> kernel \<Rightarrow> byte list option" where
  "user_prefix 0 va s = Some []"
| "user_prefix (Suc n) va s = do {
     c \<leftarrow> kload va s;
     if c = 0 then Some []
     else do {
       cs \<leftarrow> user_prefix n (va + 1) s;
       Some (c # cs)
     }
   }"

text \<open>
  The third argument of \<open>argptr\<close> is \<open>sizeof(*name) < 0\<close>, that is 0.  \<open>mutex_create\<close> reads the
  name only when a mutex is unused.
\<close>

definition sys_mutex_create :: "kernel \<Rightarrow> (outcome \<times> kernel) option" where
  "sys_mutex_create s = do {
     a \<leftarrow> argptr 0 0 s;
     or_fail a (\<lambda>name s. do {
       nm \<leftarrow> (if \<exists>m \<in> set (mutex_table s). mx_used m = 0 then user_prefix 4 name s else Some []);
       ret (mutex_create nm s)
     })
   }"

definition sys_mutex_delete :: "kernel \<Rightarrow> (outcome \<times> kernel) option" where
  "sys_mutex_delete s = do {
     a \<leftarrow> argint 0 s;
     or_fail a (\<lambda>muxid s. ret (mutex_delete muxid s))
   }"

definition sys_mutex_lock :: "kernel \<Rightarrow> (outcome \<times> kernel) option" where
  "sys_mutex_lock s = do {
     a \<leftarrow> argint 0 s;
     or_fail a mutex_lock
   }"

definition sys_mutex_unlock :: "kernel \<Rightarrow> (outcome \<times> kernel) option" where
  "sys_mutex_unlock s = do {
     a \<leftarrow> argint 0 s;
     or_fail a (\<lambda>muxid s. ret (mutex_unlock muxid s))
   }"

definition sys_cv_wait :: "kernel \<Rightarrow> (outcome \<times> kernel) option" where
  "sys_cv_wait s = do {
     a \<leftarrow> argint 0 s;
     or_fail a cv_wait
   }"

definition sys_cv_signal :: "kernel \<Rightarrow> (outcome \<times> kernel) option" where
  "sys_cv_signal s = do {
     a \<leftarrow> argint 0 s;
     or_fail a (\<lambda>muxid s. ret (cv_signal muxid s))
   }"

definition sys_prio_set :: "kernel \<Rightarrow> (outcome \<times> kernel) option" where
  "sys_prio_set s = do {
     a \<leftarrow> argint 0 s;
     or_fail a (\<lambda>pid s. do {
       a \<leftarrow> argint 1 s;
       or_fail a (\<lambda>priority s. ret (prio_set pid priority s))
     })
   }"

section \<open>Arguments stay inside the process\<close>

lemma translate_mach [simp]: "m_cr3 m = m_cr3 (mach s) \<Longrightarrow> translate a (s\<lparr>mach := m\<rparr>) = translate a s"
  by (simp add: translate_def Let_def)

lemma kload_mach [simp]: "m_cr3 m = m_cr3 (mach s) \<Longrightarrow> kload a (s\<lparr>mach := m\<rparr>) = kload a s"
  by (simp add: kload_def get_byte_def)

lemma kloads_mach [simp]: "m_cr3 m = m_cr3 (mach s) \<Longrightarrow> kloads a n (s\<lparr>mach := m\<rparr>) = kloads a n s"
  by (induction n arbitrary: a) simp_all

lemma next_addr:
  fixes a ep :: uint
  assumes "a < ep"
  shows "unat (a + 1) = Suc (unat a)"
proof -
  have "unat a < unat ep" using assms by (simp add: word_less_nat_alt)
  moreover have "unat ep < 2 ^ 32" using unsigned_less [of ep] by simp
  ultimately show ?thesis by (simp add: unat_word_ariths)
qed

text \<open>A string that was accepted lies below \<open>ep\<close>, with its terminating zero.\<close>

lemma fetchstr_loop_string:
  assumes "fetchstr_loop a ep acc s = Some (Some str)"
  shows "\<exists>t. str = acc @ t \<and> 0 \<notin> set t \<and> unat a + length t < unat ep \<and> kloads a (Suc (length t)) s = Some (t @ [0])"
  using assms
proof (induction "unat ep - unat a" arbitrary: a acc rule: less_induct)
  case less
  from less.prems have lt: "a < ep" by (subst (asm) fetchstr_loop.simps) (auto split: if_splits)
  with less.prems obtain c where c: "kload a s = Some c" by (subst (asm) fetchstr_loop.simps) (auto simp: bind_eq_Some_conv)
  have u: "unat a < unat ep" using lt by (simp add: word_less_nat_alt)
  show ?case
  proof (cases "c = 0")
    case True
    then show ?thesis using less.prems lt c u by (subst (asm) fetchstr_loop.simps) simp
  next
    case False
    then have "fetchstr_loop (a + 1) ep (acc @ [c]) s = Some (Some str)"
      using less.prems lt c by (subst (asm) fetchstr_loop.simps) simp
    moreover have "unat ep - unat (a + 1) < unat ep - unat a" using u next_addr [OF lt] by simp
    ultimately obtain t where t: "str = acc @ c # t" "0 \<notin> set t" "unat (a + 1) + length t < unat ep"
      "kloads (a + 1) (Suc (length t)) s = Some (t @ [0])"
      using less.hyps [of "a + 1" "acc @ [c]"] by auto
    then show ?thesis using False c next_addr [OF lt] by (intro exI [of _ "c # t"]) simp
  qed
qed

text \<open>The scan ends when every byte below \<open>ep\<close> can be read.\<close>

lemma fetchstr_loop_ends:
  assumes "\<And>x. a \<le> x \<Longrightarrow> x < ep \<Longrightarrow> kload x s \<noteq> None"
  shows "fetchstr_loop a ep acc s \<noteq> None"
  using assms
proof (induction "unat ep - unat a" arbitrary: a acc rule: less_induct)
  case less
  show ?case
  proof (cases "a < ep")
    case True
    note n = next_addr [OF True]
    have "a \<le> x" if "a + 1 \<le> x" for x using that n by (simp add: word_le_nat_alt)
    moreover have "unat ep - unat (a + 1) < unat ep - unat a" using True n by (simp add: word_less_nat_alt)
    ultimately have "fetchstr_loop (a + 1) ep acc s \<noteq> None" for acc using less by blast
    then show ?thesis using True less.prems [of a] by (subst fetchstr_loop.simps) auto
  qed (subst fetchstr_loop.simps, simp)
qed

lemma argint_state:
  assumes "wf_machine (mach s)" "argint n s = Some (r, s')"
  shows "s' = s\<lparr>mach := settle (mach s)\<rparr>"
  using assms by (auto simp: argint_def fetchint_def bind_eq_Some_conv split: if_splits)


text \<open>
  For witnesses: process 0 with one page of user memory, whose words are \<open>U\<close>; its stack
  pointer is 0, so system call argument \<open>n\<close> is word \<open>n + 1\<close>.
\<close>

definition user_demo :: "(nat \<Rightarrow> uint) \<Rightarrow> kernel" where
  "user_demo U = (setp 0 (\<lambda>p. p\<lparr>p_sz := 4096\<rparr>) family)
     \<lparr>mem := (\<lambda>_ _. 0)(0x8DFFD000 := (\<lambda>_. 0)(0 := 0xDFFC007), 0x8DFFC000 := (\<lambda>_. 0)(0 := 0xDFFB007), 0x8DFFB000 := U),
      mach := (mach family)\<lparr>m_cr3 := 0xDFFD000\<rparr>\<rparr>"

lemma user_demo_translate: "PDX a = 0 \<Longrightarrow> PTX a = 0 \<Longrightarrow> translate a (user_demo U) = Some (0x8DFFB000, 0xDFF8007)"
  by (simp add: translate_def user_demo_def P2V_def PTE_ADDR_def)

lemma user_demo_byte: "PDX a = 0 \<Longrightarrow> PTX a = 0 \<Longrightarrow>
  kload a (user_demo U) = Some (ucast (drop_bit (8 * (unat a mod 4096 mod 4)) (U (unat a mod 4096 div 4))))"
  by (simp add: kload_def user_demo_translate get_byte_def) (simp add: user_demo_def)

lemma user_demo_simps [simp]:
  "wf_machine (mach (user_demo U))" "lock_free lk (mach (user_demo U))" "here (mach (user_demo U)) = 0"
  "c_proc (m_cpus (mach (user_demo U)) ! 0) = Some 0" "m_cr3 (mach (user_demo U)) = 0xDFFD000"
  "length (proc (ptable (user_demo U))) = 64" "p_sz (proc (ptable (user_demo U)) ! 0) = 4096"
  "tf_esp (p_tf (proc (ptable (user_demo U)) ! 0)) = 0"
proof -
  have "wf_machine ((mach family)\<lparr>m_cr3 := c\<rparr>) = wf_machine (mach family)" for c by (simp add: wf_machine_def)
  then show "wf_machine (mach (user_demo U))" by (simp add: user_demo_def)
qed (simp_all add: user_demo_def lock_free_def family_proc proc0_def trapframe0_def, simp_all flip: lock_free_def)

lemma user_demo_settle [simp]: "c_proc (m_cpus (settle (mach (user_demo U))) ! 0) = Some 0"
  using settle_cpu(2) [of "mach (user_demo U)"] by simp

lemma kload32_bytes:
  "kload32 a s = do { b0 \<leftarrow> kload a s; b1 \<leftarrow> kload (a + 1) s; b2 \<leftarrow> kload (a + 2) s; b3 \<leftarrow> kload (a + 3) s;
     Some (get_u32 [b0, b1, b2, b3] 0) }"
proof -
  have "kloads a (Suc (Suc (Suc (Suc 0)))) s = do { b0 \<leftarrow> kload a s; b1 \<leftarrow> kload (a + 1) s;
      b2 \<leftarrow> kload (a + 1 + 1) s; b3 \<leftarrow> kload (a + 1 + 1 + 1) s; Some [b0, b1, b2, b3] }"
    by (simp cong: bind_option_cong)
  moreover have "Suc (Suc (Suc (Suc 0))) = 4" by simp
  ultimately show ?thesis unfolding kload32_def by (simp add: add.assoc)
qed


end
