(* ===== verification/Exec.thy ===== *)
theory Exec
  imports Syscall
begin

text \<open>
  Loading a program (\<open>exec.c\<close>, and \<open>loaduvm\<close> of \<open>vm.c\<close>).  \<open>argv\<close> is the list of the argument
  strings.  The jump to \<open>bad\<close> is the function \<open>exec_bad\<close>.
\<close>

abbreviation (input) MAXARG :: nat where "MAXARG \<equiv> 32"
abbreviation (input) ELF_MAGIC :: uint where "ELF_MAGIC \<equiv> 0x464C457F"

text \<open>The fields of the two headers that the loader reads.\<close>

record elfhdr =
  elf_magic :: uint
  elf_entry :: uint
  elf_phoff :: uint
  elf_phnum :: "16 word"

record proghdr =
  ph_type :: uint
  ph_off :: uint
  ph_vaddr :: uint
  ph_filesz :: uint
  ph_memsz :: uint

definition get_elfhdr :: "byte list \<Rightarrow> elfhdr" where
  "get_elfhdr bs = \<lparr>elf_magic = get_u32 bs 0, elf_entry = get_u32 bs 24, elf_phoff = get_u32 bs 28,
     elf_phnum = get_u16 bs 44\<rparr>"

definition get_proghdr :: "byte list \<Rightarrow> proghdr" where
  "get_proghdr bs = \<lparr>ph_type = get_u32 bs 0, ph_off = get_u32 bs 4, ph_vaddr = get_u32 bs 8,
     ph_filesz = get_u32 bs 16, ph_memsz = get_u32 bs 20\<rparr>"

partial_function (option) loaduvm_loop ::
  "uint \<Rightarrow> uint \<Rightarrow> nat \<Rightarrow> uint \<Rightarrow> uint \<Rightarrow> uint \<Rightarrow> kernel \<Rightarrow> (int \<times> kernel) option" where
  "loaduvm_loop pgdir addr ip offset sz i s =
     (if i < sz then do {
        (pte, s) \<leftarrow> walkpgdir pgdir (addr + i) False s;
        pte \<leftarrow> pte;
        let pa = PTE_ADDR (get_pte pte s);
        let n = (if sz - i < PGSIZE then sz - i else PGSIZE);
        (r, bs, s) \<leftarrow> readi ip (offset + i) n s;
        let s = put_bytes (P2V pa) 0 bs s;
        if r \<noteq> sint n then Some (-1, s)
        else loaduvm_loop pgdir addr ip offset sz (i + PGSIZE) s
      } else Some (0, s))"

definition loaduvm :: "uint \<Rightarrow> uint \<Rightarrow> nat \<Rightarrow> uint \<Rightarrow> uint \<Rightarrow> kernel \<Rightarrow> (int \<times> kernel) option" where
  "loaduvm pgdir addr ip offset sz s =
     (if addr mod PGSIZE \<noteq> 0 then None else loaduvm_loop pgdir addr ip offset sz 0 s)"

text \<open>The loop over the program headers: the new size, or \<open>None\<close> for a jump to \<open>bad\<close>.\<close>

primrec exec_load :: "nat \<Rightarrow> uint \<Rightarrow> nat \<Rightarrow> uint \<Rightarrow> uint \<Rightarrow> kernel \<Rightarrow> (uint option \<times> kernel) option" where
  "exec_load 0 pgdir ip off sz s = Some (Some sz, s)"
| "exec_load (Suc n) pgdir ip off sz s = do {
     (r, bs, s) \<leftarrow> readi ip off 32 s;
     if r \<noteq> 32 then Some (None, s)
     else do {
       let ph = get_proghdr bs;
       if ph_type ph \<noteq> 1 then exec_load n pgdir ip (off + 32) sz s
       else if ph_memsz ph < ph_filesz ph then Some (None, s)
       else if ph_vaddr ph + ph_memsz ph < ph_vaddr ph then Some (None, s)
       else do {
         (sz, s) \<leftarrow> allocuvm pgdir sz (ph_vaddr ph + ph_memsz ph) s;
         if sz = 0 then Some (None, s)
         else if ph_vaddr ph mod PGSIZE \<noteq> 0 then Some (None, s)
         else do {
           (r, s) \<leftarrow> loaduvm pgdir (ph_vaddr ph) ip (ph_off ph) (ph_filesz ph) s;
           if r < 0 then Some (None, s) else exec_load n pgdir ip (off + 32) sz s
         }
       }
     }
   }"

text \<open>
  The loop that pushes the argument strings: the stack pointer and the addresses of the
  strings in order, or \<open>None\<close> for a jump to \<open>bad\<close>.
\<close>

fun exec_push :: "uint \<Rightarrow> byte list list \<Rightarrow> uint \<Rightarrow> uint list \<Rightarrow> kernel \<Rightarrow> ((uint \<times> uint list) option \<times> kernel) option" where
  "exec_push pgdir [] sp ustack s = Some (Some (sp, ustack), s)"
| "exec_push pgdir (arg # argv) sp ustack s =
     (if length ustack \<ge> MAXARG then Some (None, s)
      else do {
        let sp = (sp - of_nat (length arg + 1)) AND NOT 3;
        (r, s) \<leftarrow> copyout pgdir sp (arg @ [0]) s;
        if r < 0 then Some (None, s)
        else exec_push pgdir argv sp (ustack @ [sp]) s
      })"

definition exec_bad :: "uint \<Rightarrow> nat option \<Rightarrow> kernel \<Rightarrow> (int \<times> kernel) option" where
  "exec_bad pgdir ip s = do {
     s \<leftarrow> (if pgdir \<noteq> 0 then freevm pgdir s else Some s);
     s \<leftarrow> (case ip of
             Some ip \<Rightarrow> do {
               s \<leftarrow> iunlockput ip s;
               end_op s
             }
           | None \<Rightarrow> Some s);
     Some (-1, s)
   }"

text \<open>The part of a path after its last slash.\<close>

definition base_name :: "byte list \<Rightarrow> byte list" where
  "base_name path = rev (takeWhile (\<lambda>c. c \<noteq> 47) (rev path))"

definition exec_commit :: "nat \<Rightarrow> byte list \<Rightarrow> uint \<Rightarrow> uint \<Rightarrow> uint \<Rightarrow> uint \<Rightarrow> kernel \<Rightarrow> (int \<times> kernel) option" where
  "exec_commit p path pgdir sz entry sp s = do {
     pr \<leftarrow> getp (Some p) s;
     let s = setp p (\<lambda>pr. pr\<lparr>p_name := safestrcpy_l 0 (p_name pr) (base_name path) 16,
       p_proc_mutexes := replicate MUX_MAXNUM (-1), p_pgdir := pgdir, p_sz := sz,
       p_tf := (p_tf pr)\<lparr>tf_eip := entry, tf_esp := sp\<rparr>\<rparr>) s;
     s \<leftarrow> switchuvm (Some p) s;
     s \<leftarrow> freevm (p_pgdir pr) s;
     Some (0, s)
   }"

definition exec_stack :: "nat \<Rightarrow> byte list \<Rightarrow> byte list list \<Rightarrow> uint \<Rightarrow> uint \<Rightarrow> uint \<Rightarrow> kernel \<Rightarrow> (int \<times> kernel) option" where
  "exec_stack p path argv pgdir sz entry s = do {
     let sz = PGROUNDUP sz;
     (sz, s) \<leftarrow> allocuvm pgdir sz (sz + 2 * PGSIZE) s;
     if sz = 0 then exec_bad pgdir None s
     else do {
       s \<leftarrow> clearpteu pgdir (sz - 2 * PGSIZE) s;
       (r, s) \<leftarrow> exec_push pgdir argv sz [] s;
       case r of
         None \<Rightarrow> exec_bad pgdir None s
       | Some (sp, args) \<Rightarrow> do {
           let argc = of_nat (length args);
           let ustack = [0xffffffff, argc, sp - (argc + 1) * 4] @ args @ [0];
           let sp = sp - (3 + argc + 1) * 4;
           (r, s) \<leftarrow> copyout pgdir sp (concat (map bytes32 ustack)) s;
           if r < 0 then exec_bad pgdir None s else exec_commit p path pgdir sz entry sp s
         }
     }
   }"

definition exec :: "byte list \<Rightarrow> byte list list \<Rightarrow> kernel \<Rightarrow> (int \<times> kernel) option" where
  "exec path argv s = do {
     (p, s) \<leftarrow> myproc s;
     s \<leftarrow> begin_op s;
     (ip, s) \<leftarrow> namei path s;
     case ip of
       None \<Rightarrow> do {
         s \<leftarrow> end_op s;
         s \<leftarrow> kputs (''exec: fail'' @ [CHR 0x0A]) s;
         Some (-1, s)
       }
     | Some ip \<Rightarrow> do {
         s \<leftarrow> ilock (Some ip) s;
         (r, bs, s) \<leftarrow> readi ip 0 52 s;
         if r \<noteq> 52 \<or> elf_magic (get_elfhdr bs) \<noteq> ELF_MAGIC then exec_bad 0 (Some ip) s
         else do {
           let elf = get_elfhdr bs;
           (pgdir, s) \<leftarrow> setupkvm s;
           if pgdir = 0 then exec_bad 0 (Some ip) s
           else do {
             (sz, s) \<leftarrow> exec_load (unat (elf_phnum elf)) pgdir ip (elf_phoff elf) 0 s;
             case sz of
               None \<Rightarrow> exec_bad pgdir (Some ip) s
             | Some sz \<Rightarrow> do {
                 s \<leftarrow> iunlockput ip s;
                 s \<leftarrow> end_op s;
                 p \<leftarrow> p;
                 exec_stack p path argv pgdir sz (elf_entry elf) s
               }
           }
         }
       }
   }"

end
