(* ===== verification/Sysfile.thy ===== *)
theory Sysfile
  imports Exec
begin

text \<open>The file system calls (\<open>sysfile.c\<close>).  \<open>fork\<close>, \<open>wait\<close> and the other calls are in \<open>Syscall\<close>.\<close>

section \<open>File descriptors\<close>

definition argfd :: "int \<Rightarrow> kernel \<Rightarrow> ((nat \<times> nat) option \<times> kernel) option" where
  "argfd n s = do {
     (fd, s) \<leftarrow> argint n s;
     case fd of
       None \<Rightarrow> Some (None, s)
     | Some fd \<Rightarrow>
         if fd < 0 \<or> fd \<ge> int NOFILE then Some (None, s)
         else do {
           (p, s) \<leftarrow> myproc s;
           pr \<leftarrow> getp p s;
           f \<leftarrow> nth_opt (p_ofile pr) (nat fd);
           Some (map_option (Pair (nat fd)) f, s)
         }
   }"

definition fdalloc :: "nat \<Rightarrow> kernel \<Rightarrow> (nat option \<times> kernel) option" where
  "fdalloc f s = do {
     (p, s) \<leftarrow> myproc s;
     pr \<leftarrow> getp p s;
     i \<leftarrow> p;
     case first_ix (\<lambda>e. e = None) (p_ofile pr) of
       Some fd \<Rightarrow> Some (Some fd, setp i (\<lambda>pr. pr\<lparr>p_ofile := (p_ofile pr)[fd := Some f]\<rparr>) s)
     | None \<Rightarrow> Some (None, s)
   }"

definition sys_dup :: "kernel \<Rightarrow> (outcome \<times> kernel) option" where
  "sys_dup s = do {
     a \<leftarrow> argfd 0 s;
     or_fail a (\<lambda>(_, f) s. do {
       a \<leftarrow> fdalloc f s;
       or_fail a (\<lambda>fd s. do {
         (_, s) \<leftarrow> filedup f s;
         Some (Done (int fd), s)
       })
     })
   }"

definition sys_read :: "kernel \<Rightarrow> (outcome \<times> kernel) option" where
  "sys_read s = do {
     a \<leftarrow> argfd 0 s;
     or_fail a (\<lambda>(_, f) s. do {
       a \<leftarrow> argint 2 s;
       or_fail a (\<lambda>n s. do {
         a \<leftarrow> argptr 1 n s;
         or_fail a (\<lambda>p s. ret (fileread f p n s))
       })
     })
   }"

definition sys_write :: "kernel \<Rightarrow> (outcome \<times> kernel) option" where
  "sys_write s = do {
     a \<leftarrow> argfd 0 s;
     or_fail a (\<lambda>(_, f) s. do {
       a \<leftarrow> argint 2 s;
       or_fail a (\<lambda>n s. do {
         a \<leftarrow> argptr 1 n s;
         or_fail a (\<lambda>p s. ret (filewrite f p n s))
       })
     })
   }"

definition sys_close :: "kernel \<Rightarrow> (outcome \<times> kernel) option" where
  "sys_close s = do {
     a \<leftarrow> argfd 0 s;
     or_fail a (\<lambda>(fd, f) s. do {
       (p, s) \<leftarrow> myproc s;
       i \<leftarrow> p;
       s \<leftarrow> fileclose f (setp i (\<lambda>pr. pr\<lparr>p_ofile := (p_ofile pr)[fd := None]\<rparr>) s);
       Some (Done 0, s)
     })
   }"

text \<open>\<open>struct stat\<close> has two bytes of padding after each of its short fields.\<close>

definition sys_fstat :: "kernel \<Rightarrow> (outcome \<times> kernel) option" where
  "sys_fstat s = do {
     a \<leftarrow> argfd 0 s;
     or_fail a (\<lambda>(_, f) s. do {
       a \<leftarrow> argptr 1 20 s;
       or_fail a (\<lambda>st s. do {
         (r, s) \<leftarrow> filestat f s;
         case r of
           None \<Rightarrow> Some (Done (-1), s)
         | Some v \<Rightarrow> do {
             s \<leftarrow> kstores st (bytes16 (st_type v)) s;
             s \<leftarrow> kstores (st + 4) (bytes32 (st_dev v) @ bytes32 (st_ino v) @ bytes16 (st_nlink v)) s;
             s \<leftarrow> kstores (st + 16) (bytes32 (st_size v)) s;
             Some (Done 0, s)
           }
       })
     })
   }"

section \<open>Links\<close>

definition add_nlink :: "16 word \<Rightarrow> nat \<Rightarrow> kernel \<Rightarrow> kernel option" where
  "add_nlink k ip s = do {
     i \<leftarrow> nth_opt (inodes s) ip;
     iupdate ip (upd_inode ip (\<lambda>i. i\<lparr>i_nlink := i_nlink i + k\<rparr>) s)
   }"

text \<open>The label \<open>bad\<close> of \<open>sys_link\<close>.\<close>

definition link_bad :: "nat \<Rightarrow> kernel \<Rightarrow> (outcome \<times> kernel) option" where
  "link_bad ip s = do {
     s \<leftarrow> ilock (Some ip) s;
     s \<leftarrow> add_nlink (-1) ip s;
     s \<leftarrow> iunlockput ip s;
     s \<leftarrow> end_op s;
     Some (Done (-1), s)
   }"

definition fail_op :: "kernel \<Rightarrow> (outcome \<times> kernel) option" where
  "fail_op s = do {
     s \<leftarrow> end_op s;
     Some (Done (-1), s)
   }"

definition link_paths :: "byte list \<Rightarrow> byte list \<Rightarrow> kernel \<Rightarrow> (outcome \<times> kernel) option" where
  "link_paths old new s = do {
     s \<leftarrow> begin_op s;
     (ip, s) \<leftarrow> namei old s;
     case ip of
       None \<Rightarrow> fail_op s
     | Some ip \<Rightarrow> do {
         s \<leftarrow> ilock (Some ip) s;
         i \<leftarrow> nth_opt (inodes s) ip;
         if i_type i = T_DIR then do {
           s \<leftarrow> iunlockput ip s;
           fail_op s
         } else do {
           s \<leftarrow> add_nlink 1 ip s;
           s \<leftarrow> iunlock (Some ip) s;
           ((dp, name), s) \<leftarrow> nameiparent new s;
           case dp of
             None \<Rightarrow> link_bad ip s
           | Some dp \<Rightarrow> do {
               s \<leftarrow> ilock (Some dp) s;
               d \<leftarrow> nth_opt (inodes s) dp;
               i \<leftarrow> nth_opt (inodes s) ip;
               (r, s) \<leftarrow> (if i_dev d \<noteq> i_dev i then Some (-1, s) else dirlink dp name (i_inum i) s);
               s \<leftarrow> iunlockput dp s;
               if r < 0 then link_bad ip s
               else do {
                 s \<leftarrow> iput ip s;
                 s \<leftarrow> end_op s;
                 Some (Done 0, s)
               }
             }
         }
       }
   }"

definition sys_link :: "kernel \<Rightarrow> (outcome \<times> kernel) option" where
  "sys_link s = do {
     a \<leftarrow> argstr 0 s;
     or_fail a (\<lambda>(_, old) s. do {
       a \<leftarrow> argstr 1 s;
       or_fail a (\<lambda>(_, new) s. link_paths old new s)
     })
   }"

partial_function (option) isdirempty_loop :: "nat \<Rightarrow> uint \<Rightarrow> kernel \<Rightarrow> (bool \<times> kernel) option" where
  "isdirempty_loop dp off s = do {
     d \<leftarrow> nth_opt (inodes s) dp;
     if off < i_size d then do {
       (r, bs, s) \<leftarrow> readi dp off 16 s;
       if r \<noteq> 16 then None
       else if de_inum (get_dirent bs) \<noteq> 0 then Some (False, s)
       else isdirempty_loop dp (off + 16) s
     } else Some (True, s)
   }"

definition isdirempty :: "nat \<Rightarrow> kernel \<Rightarrow> (bool \<times> kernel) option" where
  "isdirempty dp s = isdirempty_loop dp 32 s"

text \<open>The label \<open>bad\<close> of \<open>sys_unlink\<close>.\<close>

definition unlink_bad :: "nat \<Rightarrow> kernel \<Rightarrow> (outcome \<times> kernel) option" where
  "unlink_bad dp s = do {
     s \<leftarrow> iunlockput dp s;
     fail_op s
   }"

definition unlink_entry :: "nat \<Rightarrow> nat \<Rightarrow> uint \<Rightarrow> kernel \<Rightarrow> (outcome \<times> kernel) option" where
  "unlink_entry dp ip off s = do {
     (r, s) \<leftarrow> writei dp (replicate 16 0) off 16 s;
     if r \<noteq> 16 then None
     else do {
       i \<leftarrow> nth_opt (inodes s) ip;
       s \<leftarrow> (if i_type i = T_DIR then add_nlink (-1) dp s else Some s);
       s \<leftarrow> iunlockput dp s;
       s \<leftarrow> add_nlink (-1) ip s;
       s \<leftarrow> iunlockput ip s;
       s \<leftarrow> end_op s;
       Some (Done 0, s)
     }
   }"

definition unlink_path :: "byte list \<Rightarrow> kernel \<Rightarrow> (outcome \<times> kernel) option" where
  "unlink_path path s = do {
     s \<leftarrow> begin_op s;
     ((dp, name), s) \<leftarrow> nameiparent path s;
     case dp of
       None \<Rightarrow> fail_op s
     | Some dp \<Rightarrow> do {
         s \<leftarrow> ilock (Some dp) s;
         if namecmp name [46] \<or> namecmp name [46, 46] then unlink_bad dp s
         else do {
           (r, s) \<leftarrow> dirlookup dp name s;
           case r of
             None \<Rightarrow> unlink_bad dp s
           | Some (ip, off) \<Rightarrow> do {
               s \<leftarrow> ilock (Some ip) s;
               i \<leftarrow> nth_opt (inodes s) ip;
               if sint (i_nlink i) < 1 then None
               else do {
                 (empty, s) \<leftarrow> (if i_type i = T_DIR then isdirempty ip s else Some (True, s));
                 if \<not> empty then do {
                   s \<leftarrow> iunlockput ip s;
                   unlink_bad dp s
                 } else unlink_entry dp ip off s
               }
             }
         }
       }
   }"

definition sys_unlink :: "kernel \<Rightarrow> (outcome \<times> kernel) option" where
  "sys_unlink s = do {
     a \<leftarrow> argstr 0 s;
     or_fail a (\<lambda>(_, path) s. unlink_path path s)
   }"

section \<open>Creating and opening\<close>

definition create :: "byte list \<Rightarrow> 16 word \<Rightarrow> 16 word \<Rightarrow> 16 word \<Rightarrow> kernel \<Rightarrow> (nat option \<times> kernel) option" where
  "create path type major minor s = do {
     ((dp, name), s) \<leftarrow> nameiparent path s;
     case dp of
       None \<Rightarrow> Some (None, s)
     | Some dp \<Rightarrow> do {
         s \<leftarrow> ilock (Some dp) s;
         (r, s) \<leftarrow> dirlookup dp name s;
         case r of
           Some (ip, _) \<Rightarrow> do {
             s \<leftarrow> iunlockput dp s;
             s \<leftarrow> ilock (Some ip) s;
             i \<leftarrow> nth_opt (inodes s) ip;
             if type = T_FILE \<and> i_type i = T_FILE then Some (Some ip, s)
             else do {
               s \<leftarrow> iunlockput ip s;
               Some (None, s)
             }
           }
         | None \<Rightarrow> do {
             d \<leftarrow> nth_opt (inodes s) dp;
             (ip, s) \<leftarrow> ialloc (i_dev d) type s;
             s \<leftarrow> ilock (Some ip) s;
             s \<leftarrow> iupdate ip (upd_inode ip (\<lambda>i. i\<lparr>i_major := major, i_minor := minor, i_nlink := 1\<rparr>) s);
             i \<leftarrow> nth_opt (inodes s) ip;
             s \<leftarrow> (if type = T_DIR then do {
                      s \<leftarrow> add_nlink 1 dp s;
                      (r, s) \<leftarrow> dirlink ip [46] (i_inum i) s;
                      if r < 0 then None
                      else do {
                        (r, s) \<leftarrow> dirlink ip [46, 46] (i_inum d) s;
                        if r < 0 then None else Some s
                      }
                    } else Some s);
             (r, s) \<leftarrow> dirlink dp name (i_inum i) s;
             if r < 0 then None
             else do {
               s \<leftarrow> iunlockput dp s;
               Some (Some ip, s)
             }
           }
       }
   }"

text \<open>The inode that \<open>sys_open\<close> opens, locked; \<open>None\<close> where it returns -1.\<close>

definition open_inode :: "byte list \<Rightarrow> uint \<Rightarrow> kernel \<Rightarrow> (nat option \<times> kernel) option" where
  "open_inode path omode s =
     (if omode AND 0x200 \<noteq> 0 then create path T_FILE 0 0 s
      else do {
        (ip, s) \<leftarrow> namei path s;
        case ip of
          None \<Rightarrow> Some (None, s)
        | Some i \<Rightarrow> do {
            s \<leftarrow> ilock ip s;
            ino \<leftarrow> nth_opt (inodes s) i;
            if i_type ino = T_DIR \<and> omode \<noteq> 0 then do {
              s \<leftarrow> iunlockput i s;
              Some (None, s)
            } else Some (ip, s)
          }
      })"

definition open_path :: "byte list \<Rightarrow> uint \<Rightarrow> kernel \<Rightarrow> (outcome \<times> kernel) option" where
  "open_path path omode s = do {
     s \<leftarrow> begin_op s;
     (ip, s) \<leftarrow> open_inode path omode s;
     case ip of
       None \<Rightarrow> fail_op s
     | Some ip \<Rightarrow> do {
         (f, s) \<leftarrow> filealloc s;
         (fd, s) \<leftarrow> (case f of None \<Rightarrow> Some (None, s) | Some f \<Rightarrow> fdalloc f s);
         case (f, fd) of
           (Some f, Some fd) \<Rightarrow> do {
             s \<leftarrow> iunlock (Some ip) s;
             s \<leftarrow> end_op s;
             let s = upd_file f (\<lambda>f. f\<lparr>f_type := FD_INODE, f_ip := Some ip, f_off := 0,
               f_readable := (omode AND 1 = 0), f_writable := (omode AND 1 \<noteq> 0 \<or> omode AND 2 \<noteq> 0)\<rparr>) s;
             Some (Done (int fd), s)
           }
         | _ \<Rightarrow> do {
             s \<leftarrow> (case f of None \<Rightarrow> Some s | Some f \<Rightarrow> fileclose f s);
             s \<leftarrow> iunlockput ip s;
             fail_op s
           }
       }
   }"

definition sys_open :: "kernel \<Rightarrow> (outcome \<times> kernel) option" where
  "sys_open s = do {
     a \<leftarrow> argstr 0 s;
     or_fail a (\<lambda>(_, path) s. do {
       a \<leftarrow> argint 1 s;
       or_fail a (\<lambda>omode s. open_path path (of_int omode) s)
     })
   }"

text \<open>The common end of \<open>sys_mkdir\<close> and \<open>sys_mknod\<close>.\<close>

definition made :: "nat option \<Rightarrow> kernel \<Rightarrow> (outcome \<times> kernel) option" where
  "made ip s = (case ip of
       None \<Rightarrow> fail_op s
     | Some ip \<Rightarrow> do {
         s \<leftarrow> iunlockput ip s;
         s \<leftarrow> end_op s;
         Some (Done 0, s)
       })"

definition sys_mkdir :: "kernel \<Rightarrow> (outcome \<times> kernel) option" where
  "sys_mkdir s = do {
     s \<leftarrow> begin_op s;
     (a, s) \<leftarrow> argstr 0 s;
     (ip, s) \<leftarrow> (case a of None \<Rightarrow> Some (None, s) | Some (_, path) \<Rightarrow> create path T_DIR 0 0 s);
     made ip s
   }"

definition sys_mknod :: "kernel \<Rightarrow> (outcome \<times> kernel) option" where
  "sys_mknod s = do {
     s \<leftarrow> begin_op s;
     (a, s) \<leftarrow> argstr 0 s;
     case a of
       None \<Rightarrow> fail_op s
     | Some (_, path) \<Rightarrow> do {
         (major, s) \<leftarrow> argint 1 s;
         case major of
           None \<Rightarrow> fail_op s
         | Some major \<Rightarrow> do {
             (minor, s) \<leftarrow> argint 2 s;
             case minor of
               None \<Rightarrow> fail_op s
             | Some minor \<Rightarrow> do {
                 (ip, s) \<leftarrow> create path T_DEV (of_int major) (of_int minor) s;
                 made ip s
               }
           }
       }
   }"

definition sys_chdir :: "kernel \<Rightarrow> (outcome \<times> kernel) option" where
  "sys_chdir s = do {
     (p, s) \<leftarrow> myproc s;
     s \<leftarrow> begin_op s;
     (a, s) \<leftarrow> argstr 0 s;
     (ip, s) \<leftarrow> (case a of None \<Rightarrow> Some (None, s) | Some (_, path) \<Rightarrow> namei path s);
     case ip of
       None \<Rightarrow> fail_op s
     | Some i \<Rightarrow> do {
         s \<leftarrow> ilock ip s;
         ino \<leftarrow> nth_opt (inodes s) i;
         if i_type ino \<noteq> T_DIR then do {
           s \<leftarrow> iunlockput i s;
           fail_op s
         } else do {
           s \<leftarrow> iunlock ip s;
           pr \<leftarrow> getp p s;
           cwd \<leftarrow> p_cwd pr;
           s \<leftarrow> iput cwd s;
           s \<leftarrow> end_op s;
           p \<leftarrow> p;
           Some (Done 0, setp p (\<lambda>pr. pr\<lparr>p_cwd := ip\<rparr>) s)
         }
       }
   }"

text \<open>\<open>n\<close> is the number of entries of \<open>argv\<close> still free.\<close>

primrec exec_args :: "nat \<Rightarrow> uint \<Rightarrow> byte list list \<Rightarrow> kernel \<Rightarrow> (byte list list option \<times> kernel) option" where
  "exec_args 0 uargv acc s = Some (None, s)"
| "exec_args (Suc n) uargv acc s = do {
     (uarg, s) \<leftarrow> fetchint uargv s;
     case uarg of
       None \<Rightarrow> Some (None, s)
     | Some uarg \<Rightarrow>
         if of_int uarg = (0 :: uint) then Some (Some acc, s)
         else do {
           (str, s) \<leftarrow> fetchstr (of_int uarg) s;
           case str of
             None \<Rightarrow> Some (None, s)
           | Some str \<Rightarrow> exec_args n (uargv + 4) (acc @ [str]) s
         }
   }"

definition sys_exec :: "kernel \<Rightarrow> (outcome \<times> kernel) option" where
  "sys_exec s = do {
     a \<leftarrow> argstr 0 s;
     or_fail a (\<lambda>(_, path) s. do {
       a \<leftarrow> argint 1 s;
       or_fail a (\<lambda>uargv s. do {
         a \<leftarrow> exec_args MAXARG (of_int uargv) [] s;
         or_fail a (\<lambda>argv s. ret (exec path argv s))
       })
     })
   }"

definition sys_pipe :: "kernel \<Rightarrow> (outcome \<times> kernel) option" where
  "sys_pipe s = do {
     a \<leftarrow> argptr 0 8 s;
     or_fail a (\<lambda>fd s. do {
       a \<leftarrow> pipealloc s;
       or_fail a (\<lambda>(rf, wf) s. do {
         (fd0, s) \<leftarrow> fdalloc rf s;
         (fd1, s) \<leftarrow> (case fd0 of None \<Rightarrow> Some (None, s) | Some _ \<Rightarrow> fdalloc wf s);
         case (fd0, fd1) of
           (Some fd0, Some fd1) \<Rightarrow> do {
             s \<leftarrow> kstore32 fd (of_nat fd0) s;
             s \<leftarrow> kstore32 (fd + 4) (of_nat fd1) s;
             Some (Done 0, s)
           }
         | _ \<Rightarrow> do {
             (p, s) \<leftarrow> myproc s;
             i \<leftarrow> p;
             let s = (case fd0 of None \<Rightarrow> s
                      | Some fd0 \<Rightarrow> setp i (\<lambda>pr. pr\<lparr>p_ofile := (p_ofile pr)[fd0 := None]\<rparr>) s);
             s \<leftarrow> fileclose rf s;
             s \<leftarrow> fileclose wf s;
             Some (Done (-1), s)
           }
       })
     })
   }"

end
