(* ===== verification/Trap.thy ===== *)
theory Trap
  imports Sysfile
begin

text \<open>
  System call dispatch (\<open>syscall.c\<close>) and the trap handler (\<open>trap.c\<close>).  \<open>keys\<close> is what the
  keyboard or the serial port delivers, \<open>cr2\<close> the faulting address.  A trap handler that
  switches to another process before it is done yields \<open>Asleep\<close>.  Acknowledging an interrupt
  (\<open>lapiceoi\<close>) and \<open>ideintr\<close> of \<open>memide.c\<close> have no effect on the state.
\<close>

abbreviation (input) DPL_USER :: "16 word" where "DPL_USER \<equiv> 3"

section \<open>Operations\<close>

definition syscalls :: "(kernel \<Rightarrow> (outcome \<times> kernel) option) option list" where
  "syscalls = [None, Some sys_fork, Some sys_exit, Some sys_wait, Some sys_pipe, Some sys_read,
     Some sys_kill, Some sys_exec, Some sys_fstat, Some sys_chdir, Some sys_dup, Some sys_getpid,
     Some sys_sbrk, Some sys_sleep, Some sys_uptime, Some sys_open, Some sys_write, Some sys_mknod,
     Some sys_unlink, Some sys_link, Some sys_mkdir, Some sys_close, Some sys_cm_maxproc,
     Some sys_cm_setroot, Some sys_test_newroot, Some sys_test_dotdot, Some sys_cm_create_and_enter,
     Some sys_shm_get, Some sys_shm_rem, Some sys_mutex_create, Some sys_mutex_delete,
     Some sys_mutex_lock, Some sys_mutex_unlock, Some sys_cv_wait, Some sys_cv_signal,
     Some sys_mutex_init, Some sys_prio_set]"

definition set_eax :: "nat \<Rightarrow> int \<Rightarrow> kernel \<Rightarrow> kernel" where
  "set_eax p r s = setp p (\<lambda>pr. pr\<lparr>p_tf := (p_tf pr)\<lparr>tf_eax := of_int r\<rparr>\<rparr>) s"

text \<open>A string for \<open>cprintf\<close>: the bytes before the first zero.\<close>

definition cstr :: "byte list \<Rightarrow> int list" where
  "cstr bs = map uint (takeWhile (\<lambda>c. c \<noteq> 0) bs)"

definition fmt :: "string \<Rightarrow> int list" where
  "fmt f = map (\<lambda>c. int (of_char c :: nat)) f"

definition syscall :: "kernel \<Rightarrow> (outcome \<times> kernel) option" where
  "syscall s = do {
     (p, s) \<leftarrow> myproc s;
     pr \<leftarrow> getp p s;
     p \<leftarrow> p;
     let num = sint (tf_eax (p_tf pr));
     case (if num > 0 then Option.bind (ith_opt syscalls num) id else None) of
       Some f \<Rightarrow> do {
         (r, s) \<leftarrow> f s;
         case r of
           Done r \<Rightarrow> Some (Done 0, set_eax p r s)
         | Asleep intena \<Rightarrow> Some (Asleep intena, s)
       }
     | None \<Rightarrow> do {
         s \<leftarrow> cprintf (fmt ''%d %s: unknown sys call %d'' @ [10])
           [VInt (of_int (p_pid pr)), VStr (Some (cstr (p_name pr))), VInt (of_int num)] s;
         Some (Done 0, set_eax p (-1) s)
       }
   }"

definition tvinit :: "kernel \<Rightarrow> kernel" where
  "tvinit s = initlock TicksLk ''time'' s"

text \<open>\<open>if (myproc() && myproc()->killed && ...) exit();\<close> followed by \<open>k\<close>.\<close>

definition exit_if :: "(proc \<Rightarrow> bool) \<Rightarrow> kernel \<Rightarrow> (kernel \<Rightarrow> (outcome \<times> kernel) option) \<Rightarrow> (outcome \<times> kernel) option" where
  "exit_if c s k = do {
     (p, s) \<leftarrow> myproc s;
     case p of
       None \<Rightarrow> k s
     | Some _ \<Rightarrow> do {
         pr \<leftarrow> getp p s;
         if c pr then do {
           (intena, s) \<leftarrow> exit_enter s;
           Some (Asleep intena, s)
         } else k s
       }
   }"

text \<open>The system call branch of \<open>trap\<close>; \<open>trap_syscall_end\<close> is what follows the call.\<close>

definition trap_syscall_end :: "kernel \<Rightarrow> (outcome \<times> kernel) option" where
  "trap_syscall_end s = do {
     (p, s) \<leftarrow> myproc s;
     pr \<leftarrow> getp p s;
     exit_if (\<lambda>pr. p_killed pr \<noteq> 0) s (\<lambda>s. Some (Done 0, s))
   }"

definition trap_syscall :: "trapframe \<Rightarrow> kernel \<Rightarrow> (outcome \<times> kernel) option" where
  "trap_syscall tf s = do {
     (p, s) \<leftarrow> myproc s;
     p \<leftarrow> p;
     exit_if (\<lambda>pr. p_killed pr \<noteq> 0) s (\<lambda>s. do {
       (r, s) \<leftarrow> syscall (setp p (\<lambda>pr. pr\<lparr>p_tf := tf\<rparr>) s);
       case r of
         Done _ \<Rightarrow> trap_syscall_end s
       | Asleep intena \<Rightarrow> Some (Asleep intena, s)
     })
   }"

text \<open>Iteration \<open>i\<close> of the loop that gives up the mutexes of a process that faulted.\<close>

definition fault_mutex :: "nat \<Rightarrow> nat \<Rightarrow> kernel \<Rightarrow> kernel option" where
  "fault_mutex p i s = do {
     pr \<leftarrow> getp (Some p) s;
     m \<leftarrow> nth_opt (p_proc_mutexes pr) i;
     if m \<noteq> -1 then do {
       (_, s) \<leftarrow> mutex_unlock (sint m) s;
       (_, s) \<leftarrow> wseq_remove (int i) (p_pid pr) s;
       Some s
     } else Some s
   }"

definition trap_fault :: "trapframe \<Rightarrow> uint \<Rightarrow> kernel \<Rightarrow> kernel option" where
  "trap_fault tf cr2 s = do {
     (p, s) \<leftarrow> myproc s;
     if p = None \<or> tf_cs tf AND 3 = 0 then None
     else do {
       pr \<leftarrow> getp p s;
       c \<leftarrow> mycpu (mach s);
       s \<leftarrow> cprintf (fmt ''pid %d %s: trap %d err %d on cpu %d eip 0x%x addr 0x%x--kill proc'' @ [10])
         [VInt (of_int (p_pid pr)), VStr (Some (cstr (p_name pr))), VInt (tf_trapno tf), VInt (tf_err tf),
          VInt (of_nat c), VInt (tf_eip tf), VInt cr2] s;
       p \<leftarrow> p;
       for_from MUX_MAXNUM 0 (fault_mutex p) (setp p (\<lambda>pr. pr\<lparr>p_killed := 1\<rparr>) s)
     }
   }"

definition trap_timer :: "kernel \<Rightarrow> kernel option" where
  "trap_timer s = do {
     c \<leftarrow> mycpu (mach s);
     if c = 0 then do {
       s \<leftarrow> acquire TicksLk s;
       s \<leftarrow> wakeup (Some ChTicks) (s\<lparr>ticks := ticks s + 1\<rparr>);
       release TicksLk s
     } else Some s
   }"

text \<open>The \<open>switch\<close> over the trap number.\<close>

definition trap_switch :: "trapframe \<Rightarrow> int list \<Rightarrow> uint \<Rightarrow> kernel \<Rightarrow> kernel option" where
  "trap_switch tf keys cr2 s =
     (if tf_trapno tf = 32 then trap_timer s
      else if tf_trapno tf = 32 + 14 then Some s
      else if tf_trapno tf = 32 + 15 then Some s
      else if tf_trapno tf = 32 + 1 \<or> tf_trapno tf = 32 + 4 then do {
        (_, s) \<leftarrow> consoleintr keys s;
        Some s
      }
      else if tf_trapno tf = 32 + 7 \<or> tf_trapno tf = 32 + 31 then do {
        c \<leftarrow> mycpu (mach s);
        cprintf (fmt ''cpu%d: spurious interrupt at %x:%x'' @ [10])
          [VInt (of_nat c), VInt (ucast (tf_cs tf)), VInt (tf_eip tf)] s
      }
      else trap_fault tf cr2 s)"

definition user_killed :: "trapframe \<Rightarrow> proc \<Rightarrow> bool" where
  "user_killed tf pr \<longleftrightarrow> p_killed pr \<noteq> 0 \<and> tf_cs tf AND 3 = DPL_USER"

definition trap_end :: "trapframe \<Rightarrow> kernel \<Rightarrow> (outcome \<times> kernel) option" where
  "trap_end tf s = exit_if (user_killed tf) s (\<lambda>s. Some (Done 0, s))"

definition trap :: "trapframe \<Rightarrow> int list \<Rightarrow> uint \<Rightarrow> kernel \<Rightarrow> (outcome \<times> kernel) option" where
  "trap tf keys cr2 s =
     (if tf_trapno tf = 64 then trap_syscall tf s
      else do {
        s \<leftarrow> trap_switch tf keys cr2 s;
        exit_if (user_killed tf) s (\<lambda>s. do {
          (p, s) \<leftarrow> myproc s;
          running \<leftarrow> (case p of None \<Rightarrow> Some False | Some _ \<Rightarrow> do {
                        pr \<leftarrow> getp p s;
                        Some (p_state pr = RUNNING)
                      });
          if running \<and> tf_trapno tf = 32 then do {
            (intena, s) \<leftarrow> yield_enter s;
            Some (Asleep intena, s)
          } else trap_end tf s
        })
      })"

text \<open>What follows the switch back to a process that yielded.\<close>

definition trap_resume :: "trapframe \<Rightarrow> bool \<Rightarrow> kernel \<Rightarrow> (outcome \<times> kernel) option" where
  "trap_resume tf intena s = do {
     s \<leftarrow> yield_exit intena s;
     trap_end tf s
   }"

end
