(* ===== verification/Jsmn.thy ===== *)
theory Jsmn
  imports FsState
begin

text \<open>
  The JSON tokenizer of the container manager (\<open>jsmn.h\<close>, compiled without \<open>JSMN_STRICT\<close> and
  without \<open>JSMN_PARENT_LINKS\<close>).  \<open>js\<close> is the text, \<open>len\<close> its length; \<open>tokens\<close> is the array of
  tokens, \<open>None\<close> for the null pointer.  Reading outside of \<open>js\<close> or \<open>tokens\<close> makes the model
  \<open>None\<close>.  A position is a natural number: the text is shorter than $2^{31}$ bytes.
\<close>

datatype jsmntype = JSMN_UNDEFINED | JSMN_OBJECT | JSMN_ARRAY | JSMN_STRING | JSMN_PRIMITIVE

abbreviation (input) JSMN_ERROR_NOMEM :: int where "JSMN_ERROR_NOMEM \<equiv> -1"
abbreviation (input) JSMN_ERROR_INVAL :: int where "JSMN_ERROR_INVAL \<equiv> -2"
abbreviation (input) JSMN_ERROR_PART :: int where "JSMN_ERROR_PART \<equiv> -3"

record jsmntok =
  tok_type :: jsmntype
  tok_start :: int
  tok_end :: int
  tok_size :: int

record jsmn_parser =
  j_pos :: nat
  j_toknext :: nat
  j_toksuper :: int

type_synonym toks = "jsmntok list option"

section \<open>Operations\<close>

definition jsmn_init :: jsmn_parser where
  "jsmn_init = \<lparr>j_pos = 0, j_toknext = 0, j_toksuper = -1\<rparr>"

text \<open>The result is the index of the new token.\<close>

definition jsmn_alloc_token :: "jsmn_parser \<Rightarrow> jsmntok list \<Rightarrow> nat \<Rightarrow> (nat option \<times> jsmn_parser \<times> jsmntok list) option" where
  "jsmn_alloc_token p tokens num_tokens =
     (if j_toknext p \<ge> num_tokens then Some (None, p, tokens)
      else do {
        tok \<leftarrow> nth_opt tokens (j_toknext p);
        Some (Some (j_toknext p), p\<lparr>j_toknext := j_toknext p + 1\<rparr>,
          tokens[j_toknext p := tok\<lparr>tok_start := -1, tok_end := -1, tok_size := 0\<rparr>])
      })"

definition jsmn_fill_token :: "jsmntok \<Rightarrow> jsmntype \<Rightarrow> int \<Rightarrow> int \<Rightarrow> jsmntok" where
  "jsmn_fill_token token type start stop = token\<lparr>tok_type := type, tok_start := start, tok_end := stop, tok_size := 0\<rparr>"

text \<open>
  Storing the token for the text from \<open>start\<close> to \<open>stop\<close>, the common end of the two functions
  below; \<open>home\<close> is the position they go back to when there is no room.
\<close>

definition new_token :: "jsmntype \<Rightarrow> nat \<Rightarrow> nat \<Rightarrow> nat \<Rightarrow> jsmn_parser \<Rightarrow> jsmntok list \<Rightarrow> nat \<Rightarrow> (int \<times> jsmn_parser \<times> jsmntok list) option" where
  "new_token type start stop home p tokens num_tokens = do {
     (i, p, tokens) \<leftarrow> jsmn_alloc_token p tokens num_tokens;
     case i of
       None \<Rightarrow> Some (JSMN_ERROR_NOMEM, p\<lparr>j_pos := home\<rparr>, tokens)
     | Some i \<Rightarrow> Some (0, p, tokens[i := jsmn_fill_token (tokens ! i) type (int start) (int stop)])
   }"

text \<open>The scan over an unquoted value: where it stops, \<open>None\<close> for an invalid character.\<close>

function prim_scan :: "byte list \<Rightarrow> nat \<Rightarrow> nat \<Rightarrow> nat option option" where
  "prim_scan js len pos =
     (if pos < len then do {
        c \<leftarrow> nth_opt js pos;
        if c \<in> {0, 58, 9, 13, 10, 32, 44, 93, 125} then Some (Some pos)
        else if c < 32 \<or> c \<ge> 127 then Some None
        else prim_scan js len (pos + 1)
      } else Some (Some pos))"
  by auto
termination by (relation "measure (\<lambda>(js, len, pos). len - pos)") auto

definition jsmn_parse_primitive :: "jsmn_parser \<Rightarrow> byte list \<Rightarrow> nat \<Rightarrow> toks \<Rightarrow> nat \<Rightarrow> (int \<times> jsmn_parser \<times> toks) option" where
  "jsmn_parse_primitive p js len tokens num_tokens = do {
     let start = j_pos p;
     r \<leftarrow> prim_scan js len start;
     case r of
       None \<Rightarrow> Some (JSMN_ERROR_INVAL, p\<lparr>j_pos := start\<rparr>, tokens)
     | Some pos \<Rightarrow>
         (case tokens of
            None \<Rightarrow> Some (0, p\<lparr>j_pos := pos - 1\<rparr>, None)
          | Some tokens \<Rightarrow> do {
              (r, p, tokens) \<leftarrow> new_token JSMN_PRIMITIVE start pos start p tokens num_tokens;
              Some (r, if r < 0 then p else p\<lparr>j_pos := pos - 1\<rparr>, Some tokens)
            })
   }"

text \<open>Up to four hexadecimal digits: the position after them, \<open>None\<close> for another character.\<close>

primrec hex_scan :: "nat \<Rightarrow> byte list \<Rightarrow> nat \<Rightarrow> nat \<Rightarrow> nat option option" where
  "hex_scan 0 js len pos = Some (Some pos)"
| "hex_scan (Suc n) js len pos =
     (if pos < len then do {
        c \<leftarrow> nth_opt js pos;
        if c = 0 then Some (Some pos)
        else if \<not> (48 \<le> c \<and> c \<le> 57 \<or> 65 \<le> c \<and> c \<le> 70 \<or> 97 \<le> c \<and> c \<le> 102) then Some None
        else hex_scan n js len (pos + 1)
      } else Some (Some pos))"

text \<open>The scan over a string: the position of the closing quote, or the error.\<close>

datatype strscan = Quote nat | Invalid | Unfinished

partial_function (option) str_scan :: "byte list \<Rightarrow> nat \<Rightarrow> nat \<Rightarrow> strscan option" where
  "str_scan js len pos =
     (if pos < len then do {
        c \<leftarrow> nth_opt js pos;
        if c = 0 then Some Unfinished
        else if c = 34 then Some (Quote pos)
        else if c = 92 \<and> pos + 1 < len then do {
          d \<leftarrow> nth_opt js (pos + 1);
          if d \<in> {34, 47, 92, 98, 102, 114, 110, 116} then str_scan js len (pos + 2)
          else if d = 117 then do {
            r \<leftarrow> hex_scan 4 js len (pos + 2);
            case r of
              None \<Rightarrow> Some Invalid
            | Some pos \<Rightarrow> str_scan js len pos
          } else Some Invalid
        } else str_scan js len (pos + 1)
      } else Some Unfinished)"

definition jsmn_parse_string :: "jsmn_parser \<Rightarrow> byte list \<Rightarrow> nat \<Rightarrow> toks \<Rightarrow> nat \<Rightarrow> (int \<times> jsmn_parser \<times> toks) option" where
  "jsmn_parse_string p js len tokens num_tokens = do {
     let start = j_pos p;
     r \<leftarrow> str_scan js len (start + 1);
     case r of
       Quote pos \<Rightarrow>
         (case tokens of
            None \<Rightarrow> Some (0, p\<lparr>j_pos := pos\<rparr>, None)
          | Some tokens \<Rightarrow> do {
              (r, p, tokens) \<leftarrow> new_token JSMN_STRING (start + 1) pos start p tokens num_tokens;
              Some (r, if r < 0 then p else p\<lparr>j_pos := pos\<rparr>, Some tokens)
            })
     | Invalid \<Rightarrow> Some (JSMN_ERROR_INVAL, p\<lparr>j_pos := start\<rparr>, tokens)
     | Unfinished \<Rightarrow> Some (JSMN_ERROR_PART, p\<lparr>j_pos := start\<rparr>, tokens)
   }"

definition is_open :: "jsmntok \<Rightarrow> bool" where
  "is_open t \<longleftrightarrow> tok_start t \<noteq> -1 \<and> tok_end t = -1"

definition is_container :: "jsmntok \<Rightarrow> bool" where
  "is_container t \<longleftrightarrow> tok_type t = JSMN_ARRAY \<or> tok_type t = JSMN_OBJECT"

text \<open>\<open>for (i = k - 1; i >= 0; i--) if (P(tokens[i])) ...\<close>: the index at which the loop stops.\<close>

primrec last_ix :: "(jsmntok \<Rightarrow> bool) \<Rightarrow> jsmntok list \<Rightarrow> nat \<Rightarrow> nat option option" where
  "last_ix P tokens 0 = Some None"
| "last_ix P tokens (Suc i) = do {
     t \<leftarrow> nth_opt tokens i;
     if P t then Some (Some i) else last_ix P tokens i
   }"

text \<open>\<open>tokens[toksuper].size++\<close>, unless \<open>toksuper\<close> is -1.\<close>

definition super_size :: "jsmn_parser \<Rightarrow> jsmntok list \<Rightarrow> jsmntok list option" where
  "super_size p tokens =
     (if j_toksuper p \<noteq> -1 then do {
        t \<leftarrow> ith_opt tokens (j_toksuper p);
        iupd_opt tokens (j_toksuper p) (t\<lparr>tok_size := tok_size t + 1\<rparr>)
      } else Some tokens)"

text \<open>
  The cases of the \<open>switch\<close> in \<open>jsmn_parse\<close>.  The first component of the result is \<open>Some r\<close>
  where the function returns \<open>r\<close>.
\<close>

definition jsmn_open :: "byte \<Rightarrow> jsmn_parser \<Rightarrow> jsmntok list \<Rightarrow> nat \<Rightarrow> (int option \<times> jsmn_parser \<times> jsmntok list) option" where
  "jsmn_open c p tokens num_tokens = do {
     (i, p, tokens) \<leftarrow> jsmn_alloc_token p tokens num_tokens;
     case i of
       None \<Rightarrow> Some (Some JSMN_ERROR_NOMEM, p, tokens)
     | Some i \<Rightarrow> do {
         tokens \<leftarrow> super_size p tokens;
         let tokens = tokens[i := (tokens ! i)\<lparr>tok_type := if c = 123 then JSMN_OBJECT else JSMN_ARRAY, tok_start := int (j_pos p)\<rparr>];
         Some (None, p\<lparr>j_toksuper := int (j_toknext p) - 1\<rparr>, tokens)
       }
   }"

definition jsmn_close :: "byte \<Rightarrow> jsmn_parser \<Rightarrow> jsmntok list \<Rightarrow> (int option \<times> jsmn_parser \<times> jsmntok list) option" where
  "jsmn_close c p tokens = do {
     let type = (if c = 125 then JSMN_OBJECT else JSMN_ARRAY);
     i \<leftarrow> last_ix is_open tokens (j_toknext p);
     case i of
       None \<Rightarrow> Some (Some JSMN_ERROR_INVAL, p, tokens)
     | Some i \<Rightarrow>
         if tok_type (tokens ! i) \<noteq> type then Some (Some JSMN_ERROR_INVAL, p, tokens)
         else do {
           let tokens = tokens[i := (tokens ! i)\<lparr>tok_end := int (j_pos p) + 1\<rparr>];
           k \<leftarrow> last_ix is_open tokens (i + 1);
           Some (None, p\<lparr>j_toksuper := (case k of Some k \<Rightarrow> int k | None \<Rightarrow> -1)\<rparr>, tokens)
         }
   }"

definition jsmn_comma :: "jsmn_parser \<Rightarrow> jsmntok list \<Rightarrow> jsmn_parser option" where
  "jsmn_comma p tokens =
     (if j_toksuper p \<noteq> -1 then do {
        t \<leftarrow> ith_opt tokens (j_toksuper p);
        if is_container t then Some p
        else do {
          k \<leftarrow> last_ix (\<lambda>t. is_container t \<and> is_open t) tokens (j_toknext p);
          Some (case k of Some k \<Rightarrow> p\<lparr>j_toksuper := int k\<rparr> | None \<Rightarrow> p)
        }
      } else Some p)"

text \<open>After a string or a primitive: return its error, or count it in its parent.\<close>

definition jsmn_value :: "int \<times> jsmn_parser \<times> toks \<Rightarrow> int \<Rightarrow> (int option \<times> jsmn_parser \<times> toks \<times> int) option" where
  "jsmn_value rpt count = (case rpt of (r, p, tokens) \<Rightarrow>
     if r < 0 then Some (Some r, p, tokens, count)
     else case tokens of
         None \<Rightarrow> Some (None, p, None, count + 1)
       | Some ts \<Rightarrow> do {
           ts \<leftarrow> super_size p ts;
           Some (None, p, Some ts, count + 1)
         })"

definition jsmn_step :: "byte \<Rightarrow> byte list \<Rightarrow> nat \<Rightarrow> nat \<Rightarrow> jsmn_parser \<Rightarrow> toks \<Rightarrow> int \<Rightarrow>
    (int option \<times> jsmn_parser \<times> toks \<times> int) option" where
  "jsmn_step c js len num_tokens p tokens count =
     (if c = 123 \<or> c = 91 then
        (case tokens of
           None \<Rightarrow> Some (None, p, None, count + 1)
         | Some ts \<Rightarrow> do {
             (r, p, ts) \<leftarrow> jsmn_open c p ts num_tokens;
             Some (r, p, Some ts, count + 1)
           })
      else if c = 125 \<or> c = 93 then
        (case tokens of
           None \<Rightarrow> Some (None, p, None, count)
         | Some ts \<Rightarrow> do {
             (r, p, ts) \<leftarrow> jsmn_close c p ts;
             Some (r, p, Some ts, count)
           })
      else if c = 34 then do {
        r \<leftarrow> jsmn_parse_string p js len tokens num_tokens;
        jsmn_value r count
      }
      else if c \<in> {9, 13, 10, 32} then Some (None, p, tokens, count)
      else if c = 58 then Some (None, p\<lparr>j_toksuper := int (j_toknext p) - 1\<rparr>, tokens, count)
      else if c = 44 then
        (case tokens of
           None \<Rightarrow> Some (None, p, None, count)
         | Some ts \<Rightarrow> do {
             p \<leftarrow> jsmn_comma p ts;
             Some (None, p, Some ts, count)
           })
      else do {
        r \<leftarrow> jsmn_parse_primitive p js len tokens num_tokens;
        jsmn_value r count
      })"

definition jsmn_end :: "jsmn_parser \<Rightarrow> toks \<Rightarrow> int \<Rightarrow> (int \<times> jsmn_parser \<times> toks) option" where
  "jsmn_end p tokens count =
     (case tokens of
        None \<Rightarrow> Some (count, p, None)
      | Some ts \<Rightarrow> do {
          i \<leftarrow> last_ix is_open ts (j_toknext p);
          Some (if i = None then count else JSMN_ERROR_PART, p, Some ts)
        })"

partial_function (option) jsmn_loop :: "byte list \<Rightarrow> nat \<Rightarrow> nat \<Rightarrow> jsmn_parser \<Rightarrow> toks \<Rightarrow> int \<Rightarrow> (int \<times> jsmn_parser \<times> toks) option" where
  "jsmn_loop js len num_tokens p tokens count =
     (if j_pos p < len then do {
        c \<leftarrow> nth_opt js (j_pos p);
        if c = 0 then jsmn_end p tokens count
        else do {
          (r, p, tokens, count) \<leftarrow> jsmn_step c js len num_tokens p tokens count;
          case r of
            Some r \<Rightarrow> Some (r, p, tokens)
          | None \<Rightarrow> jsmn_loop js len num_tokens (p\<lparr>j_pos := j_pos p + 1\<rparr>) tokens count
        }
      } else jsmn_end p tokens count)"

definition jsmn_parse :: "jsmn_parser \<Rightarrow> byte list \<Rightarrow> nat \<Rightarrow> toks \<Rightarrow> nat \<Rightarrow> (int \<times> jsmn_parser \<times> toks) option" where
  "jsmn_parse p js len tokens num_tokens = jsmn_loop js len num_tokens p tokens (int (j_toknext p))"

section \<open>Scanning\<close>

declare prim_scan.simps [simp del]

lemma prim_scan_ok:
  assumes "len \<le> length js" "pos \<le> len"
  shows "\<exists>r. prim_scan js len pos = Some r \<and> (\<forall>q. r = Some q \<longrightarrow> pos \<le> q \<and> q \<le> len)"
  using assms
proof (induction js len pos rule: prim_scan.induct)
  case (1 js len pos)
  show ?case
  proof (cases "pos < len")
    case True
    have "\<exists>r. prim_scan js len (pos + 1) = Some r \<and> (\<forall>q. r = Some q \<longrightarrow> pos + 1 \<le> q \<and> q \<le> len)"
      if "js ! pos \<notin> {0, 58, 9, 13, 10, 32, 44, 93, 125}" "\<not> (js ! pos < 32 \<or> js ! pos \<ge> 127)"
      using 1 that True by simp
    then show ?thesis using 1 True by (subst prim_scan.simps) auto
  next
    case False
    then show ?thesis using 1 by (subst prim_scan.simps) simp
  qed
qed

text \<open>An unquoted value has at least one character when its first one is not a delimiter.\<close>

lemma prim_scan_progress:
  assumes "pos < len" "len \<le> length js" "js ! pos \<notin> {0, 58, 9, 13, 10, 32, 44, 93, 125}" "prim_scan js len pos = Some (Some q)"
  shows "pos < q" "q \<le> len"
proof -
  have "prim_scan js len (pos + 1) = Some (Some q)"
    using assms by (subst (asm) prim_scan.simps) (auto split: if_splits)
  then show "pos < q" "q \<le> len" using prim_scan_ok [of len js "pos + 1"] assms by auto
qed

lemma hex_scan_ok:
  assumes "len \<le> length js" "pos \<le> len"
  shows "\<exists>r. hex_scan n js len pos = Some r \<and> (\<forall>q. r = Some q \<longrightarrow> pos \<le> q \<and> q \<le> len)"
  using assms
proof (induction n arbitrary: pos)
  case (Suc n)
  show ?case using Suc.IH [of "pos + 1"] Suc.prems by (cases "pos < len") fastforce+
qed simp

lemma str_scan_ok:
  assumes "len \<le> length js"
  shows "\<exists>r. str_scan js len pos = Some r \<and> (\<forall>q. r = Quote q \<longrightarrow> pos \<le> q \<and> q < len)"
proof (induction "len - pos" arbitrary: pos rule: less_induct)
  case less
  show ?case
  proof (cases "pos < len")
    case False
    then show ?thesis by (subst str_scan.simps) simp
  next
    case True
    have IH: "\<exists>r. str_scan js len p' = Some r \<and> (\<forall>q. r = Quote q \<longrightarrow> pos \<le> q \<and> q < len)" if "pos < p'" for p'
    proof -
      have "len - p' < len - pos" using that True by simp
      from less [OF this] that show ?thesis by auto
    qed
    have c: "nth_opt js pos = Some (js ! pos)" using assms True by simp
    show ?thesis
    proof (cases "js ! pos = 92 \<and> pos + 1 < len")
      case False
      then show ?thesis using True c IH [of "pos + 1"] by (subst str_scan.simps) auto
    next
      case esc: True
      have d: "nth_opt js (pos + 1) = Some (js ! (pos + 1))" using assms esc by simp
      obtain h where h: "hex_scan 4 js len (pos + 2) = Some h" "\<And>q. h = Some q \<Longrightarrow> pos + 2 \<le> q"
        using hex_scan_ok [OF assms, of "pos + 2" 4] esc by auto
      show ?thesis
      proof (cases h)
        case None
        then show ?thesis using True esc c d h(1) IH [of "pos + 2"] by (subst str_scan.simps) auto
      next
        case (Some q)
        then have "pos < q" using h(2) by force
        then show ?thesis using True esc c d h(1) Some IH [of "pos + 2"] IH [of q] by (subst str_scan.simps) auto
      qed
    qed
  qed
qed

section \<open>Tokens\<close>

text \<open>
  A stored token lies in the part of the text before \<open>b\<close>.  A container may still be open.  Two
  tokens start in the order in which they are stored, and either the first is still open, or
  they do not overlap, or the second lies inside of the first.
\<close>

definition tok_ok :: "int \<Rightarrow> jsmntok \<Rightarrow> bool" where
  "tok_ok b t \<longleftrightarrow> (case tok_type t of
     JSMN_UNDEFINED \<Rightarrow> False
   | JSMN_STRING \<Rightarrow> 0 < tok_start t \<and> tok_start t \<le> tok_end t \<and> tok_end t < b
   | JSMN_PRIMITIVE \<Rightarrow> 0 \<le> tok_start t \<and> tok_start t < tok_end t \<and> tok_end t \<le> b
   | _ \<Rightarrow> 0 \<le> tok_start t \<and> tok_start t < b \<and> (tok_end t = -1 \<or> tok_start t < tok_end t \<and> tok_end t \<le> b))"

definition tok_pair :: "jsmntok \<Rightarrow> jsmntok \<Rightarrow> bool" where
  "tok_pair t u \<longleftrightarrow> tok_start t < tok_start u \<and>
     (tok_end t = -1 \<or> tok_end t \<le> tok_start u \<or> tok_end u \<noteq> -1 \<and> tok_end u \<le> tok_end t)"

definition toks_ok :: "int \<Rightarrow> nat \<Rightarrow> jsmntok list \<Rightarrow> bool" where
  "toks_ok b n ts \<longleftrightarrow> (\<forall>i<n. tok_ok b (ts ! i)) \<and> (\<forall>j<n. \<forall>i<j. tok_pair (ts ! i) (ts ! j))"

lemma tok_okD:
  assumes "tok_ok b t"
  shows "0 \<le> tok_start t" "tok_start t < b" "tok_end t \<le> b" "tok_end t \<noteq> -1 \<Longrightarrow> tok_start t \<le> tok_end t"
  using assms by (auto simp: tok_ok_def split: jsmntype.splits)

lemma tok_ok_mono: "tok_ok b t \<Longrightarrow> b \<le> b' \<Longrightarrow> tok_ok b' t"
  by (auto simp: tok_ok_def split: jsmntype.splits)

lemma toks_ok_mono: "toks_ok b n ts \<Longrightarrow> b \<le> b' \<Longrightarrow> toks_ok b' n ts"
  using tok_ok_mono by (auto simp: toks_ok_def)

lemma tok_size_irrelevant [simp]:
  "tok_ok b (t\<lparr>tok_size := k\<rparr>) = tok_ok b t"
  "tok_pair (t\<lparr>tok_size := k\<rparr>) u = tok_pair t u"
  "tok_pair u (t\<lparr>tok_size := k\<rparr>) = tok_pair u t"
  by (simp_all add: tok_ok_def tok_pair_def cong: jsmntype.case_cong)

lemma toks_ok_size: "toks_ok b n ts \<Longrightarrow> toks_ok b n (ts[i := (ts ! i)\<lparr>tok_size := k\<rparr>])"
  by (cases "i < length ts") (auto simp: toks_ok_def nth_list_update list_update_beyond not_less)

lemma toks_ok_add:
  assumes "toks_ok b n ts" "n < length ts" "tok_ok b' t" "b \<le> tok_start t" "b \<le> b'"
  shows "toks_ok b' (Suc n) (ts[n := t])"
proof -
  have "tok_pair (ts ! i) t" if "i < n" for i
    using assms(1,4) that tok_okD [of b "ts ! i"] by (force simp: toks_ok_def tok_pair_def)
  then show ?thesis using assms tok_ok_mono by (auto simp: toks_ok_def nth_list_update less_Suc_eq)
qed

lemma toks_ok_close:
  assumes "toks_ok b n ts" "i < n" "n \<le> length ts" "is_open (ts ! i)" "\<And>j. i < j \<Longrightarrow> j < n \<Longrightarrow> \<not> is_open (ts ! j)"
  shows "toks_ok (b + 1) n (ts[i := (ts ! i)\<lparr>tok_end := b + 1\<rparr>])"
proof -
  let ?t = "(ts ! i)\<lparr>tok_end := b + 1\<rparr>"
  have ok: "\<And>j. j < n \<Longrightarrow> tok_ok b (ts ! j)" and pair: "\<And>j k. k < n \<Longrightarrow> j < k \<Longrightarrow> tok_pair (ts ! j) (ts ! k)"
    using assms(1) by (auto simp: toks_ok_def)
  have t: "tok_ok (b + 1) ?t"
    using ok [OF assms(2)] assms(4) by (auto simp: tok_ok_def is_open_def split: jsmntype.splits)
  have after: "tok_pair ?t (ts ! j)" if "i < j" "j < n" for j
    using pair [OF that(2,1)] assms(5) [OF that] tok_okD [OF ok [OF that(2)]] by (auto simp: tok_pair_def is_open_def)
  have before: "tok_pair (ts ! j) ?t" if "j < i" for j
    using pair [OF assms(2) that] assms(4) by (auto simp: tok_pair_def is_open_def)
  have "tok_ok (b + 1) ((ts[i := ?t]) ! j)" if "j < n" for j
    using t tok_ok_mono [OF ok [OF that], of "b + 1"] that assms(2,3) by (cases "j = i") auto
  moreover have "tok_pair ((ts[i := ?t]) ! j) ((ts[i := ?t]) ! k)" if "k < n" "j < k" for j k
    using that after before pair assms(2,3) by (cases "j = i"; cases "k = i") auto
  ultimately show ?thesis by (simp add: toks_ok_def)
qed

lemma last_ix_ok:
  assumes "k \<le> length ts"
  shows "\<exists>r. last_ix P ts k = Some r \<and> (\<forall>i. r = Some i \<longrightarrow> i < k \<and> P (ts ! i) \<and> (\<forall>j. i < j \<longrightarrow> j < k \<longrightarrow> \<not> P (ts ! j)))
    \<and> (r = None \<longrightarrow> (\<forall>j<k. \<not> P (ts ! j)))"
  using assms
proof (induction k)
  case (Suc k)
  then show ?case by (cases "P (ts ! k)") (auto simp: less_Suc_eq)
qed simp

section \<open>The parser\<close>

definition parser_ok :: "nat \<Rightarrow> int \<Rightarrow> jsmn_parser \<Rightarrow> jsmntok list \<Rightarrow> bool" where
  "parser_ok num b p ts \<longleftrightarrow> num \<le> length ts \<and> j_toknext p \<le> num \<and> -1 \<le> j_toksuper p \<and>
     j_toksuper p < int (j_toknext p) \<and> toks_ok b (j_toknext p) ts"

lemma parser_okD:
  assumes "parser_ok num b p ts"
  shows "num \<le> length ts" "j_toknext p \<le> num" "-1 \<le> j_toksuper p" "j_toksuper p < int (j_toknext p)"
    "toks_ok b (j_toknext p) ts" "j_toknext p \<le> length ts"
  using assms by (auto simp: parser_ok_def)

lemma parser_ok_mono: "parser_ok num b p ts \<Longrightarrow> b \<le> b' \<Longrightarrow> parser_ok num b' p ts"
  using toks_ok_mono by (auto simp: parser_ok_def)

lemma parser_ok_pos [simp]: "parser_ok num b (p\<lparr>j_pos := k\<rparr>) ts = parser_ok num b p ts"
  by (simp add: parser_ok_def)

lemma super_size_toknext [simp]: "super_size (p\<lparr>j_toknext := k\<rparr>) ts = super_size p ts"
  by (simp add: super_size_def)

lemma super_size_ok:
  assumes "parser_ok num b p ts"
  shows "\<exists>ts'. super_size p ts = Some ts' \<and> parser_ok num b p ts' \<and> length ts' = length ts \<and>
    (\<forall>i. int i > j_toksuper p \<longrightarrow> ts' ! i = ts ! i)"
proof (cases "j_toksuper p = -1")
  case False
  let ?i = "nat (j_toksuper p)"
  have "0 \<le> j_toksuper p" "?i < length ts" using False parser_okD [OF assms] by linarith+
  then show ?thesis using toks_ok_size [OF parser_okD(5) [OF assms], of ?i "tok_size (ts ! ?i) + 1"] parser_okD [OF assms]
    by (auto simp: super_size_def parser_ok_def)
qed (use assms in \<open>simp add: super_size_def\<close>)

lemma new_token_ok:
  assumes "parser_ok num b p ts" "b \<le> int start" "b \<le> b'" "tok_ok b' (jsmn_fill_token t0 type (int start) (int stop))"
  shows "\<exists>r p' ts'. new_token type start stop home p ts num = Some (r, p', ts') \<and> length ts' = length ts \<and>
    (r = -1 \<or> r = 0 \<and> parser_ok num b' p' ts' \<and> j_toknext p' = j_toknext p + 1)"
proof (cases "j_toknext p < num")
  case True
  note D = parser_okD [OF assms(1)]
  let ?t = "(ts ! j_toknext p)\<lparr>tok_start := -1, tok_end := -1, tok_size := 0\<rparr>"
  have "tok_ok b' (jsmn_fill_token ?t type (int start) (int stop))"
    using assms(4) by (simp add: jsmn_fill_token_def tok_ok_def cong: jsmntype.case_cong)
  from toks_ok_add [OF D(5) _ this] have "toks_ok b' (Suc (j_toknext p)) (ts[j_toknext p := jsmn_fill_token ?t type (int start) (int stop)])"
    using D True assms(2,3) by (simp add: jsmn_fill_token_def)
  then show ?thesis using D True by (simp add: new_token_def jsmn_alloc_token_def parser_ok_def)
qed (simp add: new_token_def jsmn_alloc_token_def)

text \<open>What one iteration of the loop promises.\<close>

definition step_ok :: "nat \<Rightarrow> nat \<Rightarrow> nat \<Rightarrow> nat \<Rightarrow> (int option \<times> jsmn_parser \<times> toks \<times> int) option \<Rightarrow> bool" where
  "step_ok len num pos n x \<longleftrightarrow> (\<exists>r p ts count. x = Some (r, p, Some ts, count) \<and> length ts = n \<and>
     (case r of
        Some e \<Rightarrow> e \<in> {-1, -2, -3}
      | None \<Rightarrow> parser_ok num (int (j_pos p) + 1) p ts \<and> pos \<le> j_pos p \<and> j_pos p < len \<and> count = int (j_toknext p)))"

lemma step_okI:
  assumes "parser_ok num (int (j_pos p) + 1) p ts" "pos \<le> j_pos p" "j_pos p < len" "count = int (j_toknext p)" "length ts = n"
  shows "step_ok len num pos n (Some (None, p, Some ts, count))"
  using assms by (simp add: step_ok_def)

lemma step_ok_error: "e \<in> {-1, -2, -3} \<Longrightarrow> length ts = n \<Longrightarrow> step_ok len num pos n (Some (Some e, p, Some ts, count))"
  by (auto simp: step_ok_def)

lemma jsmn_value_ok:
  assumes "r = 0 \<and> parser_ok num (int (j_pos p) + 1) p ts \<and> pos \<le> j_pos p \<and> j_pos p < len \<and> count + 1 = int (j_toknext p) \<or> r \<in> {-1, -2, -3}" "length ts = n"
  shows "step_ok len num pos n (jsmn_value (r, p, Some ts) count)"
proof (cases "r = 0")
  case True
  then show ?thesis using assms super_size_ok [of num "int (j_pos p) + 1" p ts] by (auto simp: jsmn_value_def intro!: step_okI)
qed (use assms in \<open>auto simp: jsmn_value_def intro!: step_ok_error\<close>)

lemma jsmn_open_ok:
  assumes "parser_ok num (int (j_pos p)) p ts"
  shows "\<exists>r p' ts'. jsmn_open c p ts num = Some (r, p', ts') \<and> length ts' = length ts \<and>
    (r = Some (-1) \<or> r = None \<and> parser_ok num (int (j_pos p') + 1) p' ts' \<and> j_pos p' = j_pos p \<and> j_toknext p' = j_toknext p + 1)"
proof (cases "j_toknext p < num")
  case True
  note D = parser_okD [OF assms]
  let ?n = "j_toknext p"
  let ?t = "(ts ! ?n)\<lparr>tok_start := -1, tok_end := -1, tok_size := 0\<rparr>"
  let ?u = "?t\<lparr>tok_type := if c = 123 then JSMN_OBJECT else JSMN_ARRAY, tok_start := int (j_pos p)\<rparr>"
  have "toks_ok (int (j_pos p)) ?n (ts[?n := ?t])" using D(5) by (auto simp: toks_ok_def)
  then have "parser_ok num (int (j_pos p)) p (ts[?n := ?t])" using D by (simp add: parser_ok_def)
  from super_size_ok [OF this] obtain ts' where ts': "super_size p (ts[?n := ?t]) = Some ts'"
    "parser_ok num (int (j_pos p)) p ts'" "length ts' = length ts" "ts' ! ?n = ?t"
    using D True by auto
  have "super_size (p\<lparr>j_toknext := ?n + 1\<rparr>) (ts[?n := ?t]) = Some ts'" using ts'(1) by simp
  moreover have "toks_ok (int (j_pos p) + 1) (Suc ?n) (ts'[?n := ?u])"
    using toks_ok_add [OF parser_okD(5) [OF ts'(2)], of "int (j_pos p) + 1" ?u] ts'(3) D True by (simp add: tok_ok_def)
  ultimately show ?thesis using True D ts'(3,4) by (simp add: jsmn_open_def jsmn_alloc_token_def parser_ok_def)
qed (simp add: jsmn_open_def jsmn_alloc_token_def)

lemma jsmn_close_ok:
  assumes "parser_ok num (int (j_pos p)) p ts"
  shows "\<exists>r p' ts'. jsmn_close c p ts = Some (r, p', ts') \<and> length ts' = length ts \<and>
    (r = Some (-2) \<or> r = None \<and> parser_ok num (int (j_pos p') + 1) p' ts' \<and> j_pos p' = j_pos p \<and> j_toknext p' = j_toknext p)"
proof -
  note D = parser_okD [OF assms]
  obtain r where r: "last_ix is_open ts (j_toknext p) = Some r"
    "\<And>i. r = Some i \<Longrightarrow> i < j_toknext p \<and> is_open (ts ! i) \<and> (\<forall>j. i < j \<longrightarrow> j < j_toknext p \<longrightarrow> \<not> is_open (ts ! j))"
    using last_ix_ok [OF D(6), of is_open] by blast
  show ?thesis
  proof (cases r)
    case (Some i)
    let ?ts = "ts[i := (ts ! i)\<lparr>tok_end := int (j_pos p) + 1\<rparr>]"
    have i: "i < j_toknext p" "is_open (ts ! i)" "\<And>j. i < j \<Longrightarrow> j < j_toknext p \<Longrightarrow> \<not> is_open (ts ! j)"
      using r(2) [OF Some] by auto
    have "i + 1 \<le> length ?ts" using i(1) D(6) by simp
    then obtain k where k: "last_ix is_open ?ts (i + 1) = Some k" "\<And>j. k = Some j \<Longrightarrow> j < i + 1"
      using last_ix_ok [of "i + 1" ?ts is_open] by blast
    have "(case k of Some k \<Rightarrow> int k | None \<Rightarrow> -1) < int (j_toknext p)" "-1 \<le> (case k of Some k \<Rightarrow> int k | None \<Rightarrow> -1)"
      using k(2) i(1) by (force split: option.split)+
    moreover have "toks_ok (int (j_pos p) + 1) (j_toknext p) ?ts" by (rule toks_ok_close [OF D(5) i(1) D(6) i(2,3)])
    ultimately show ?thesis using r(1) Some k(1) D by (simp add: jsmn_close_def Let_def parser_ok_def del: last_ix.simps Suc_eq_plus1 add_Suc_right)
  qed (use r(1) in \<open>simp add: jsmn_close_def\<close>)
qed

lemma jsmn_comma_ok:
  assumes "parser_ok num b p ts"
  shows "\<exists>p'. jsmn_comma p ts = Some p' \<and> parser_ok num b p' ts \<and> j_pos p' = j_pos p \<and> j_toknext p' = j_toknext p"
proof (cases "j_toksuper p = -1")
  case False
  note D = parser_okD [OF assms]
  have "0 \<le> j_toksuper p" "nat (j_toksuper p) < length ts" using False D by linarith+
  moreover obtain k where "last_ix (\<lambda>t. is_container t \<and> is_open t) ts (j_toknext p) = Some k" "\<And>j. k = Some j \<Longrightarrow> j < j_toknext p"
    using last_ix_ok [OF D(6), of "\<lambda>t. is_container t \<and> is_open t"] by blast
  ultimately show ?thesis using assms by (auto simp: jsmn_comma_def parser_ok_def split: option.split)
qed (use assms in \<open>simp add: jsmn_comma_def\<close>)

lemma string_step:
  assumes "parser_ok num (int (j_pos p)) p ts" "j_pos p < len" "len \<le> length js" "count = int (j_toknext p)"
  shows "step_ok len num (j_pos p) (length ts) (do { r \<leftarrow> jsmn_parse_string p js len (Some ts) num; jsmn_value r count })"
proof -
  obtain r where r: "str_scan js len (j_pos p + 1) = Some r" "\<And>q. r = Quote q \<Longrightarrow> j_pos p + 1 \<le> q \<and> q < len"
    using str_scan_ok [OF assms(3), of "j_pos p + 1"] by blast
  show ?thesis
  proof (cases r)
    case (Quote q)
    then have q: "j_pos p + 1 \<le> q" "q < len" using r(2) by auto
    obtain e p' ts' where n: "new_token JSMN_STRING (j_pos p + 1) q (j_pos p) p ts num = Some (e, p', ts')" "length ts' = length ts"
      "e = -1 \<or> e = 0 \<and> parser_ok num (int q + 1) p' ts' \<and> j_toknext p' = j_toknext p + 1"
      using new_token_ok [OF assms(1), of "j_pos p + 1" "int q + 1" undefined JSMN_STRING q "j_pos p"] q
      by (auto simp: tok_ok_def jsmn_fill_token_def)
    then show ?thesis using r(1) Quote q assms(4)
      by (auto simp: jsmn_parse_string_def intro!: jsmn_value_ok)
  qed (use r(1) in \<open>auto simp: jsmn_parse_string_def intro!: jsmn_value_ok\<close>)
qed

lemma primitive_step:
  assumes "parser_ok num (int (j_pos p)) p ts" "j_pos p < len" "len \<le> length js" "count = int (j_toknext p)"
    "js ! j_pos p \<notin> {0, 58, 9, 13, 10, 32, 44, 93, 125}"
  shows "step_ok len num (j_pos p) (length ts) (do { r \<leftarrow> jsmn_parse_primitive p js len (Some ts) num; jsmn_value r count })"
proof -
  obtain r where r: "prim_scan js len (j_pos p) = Some r"
    using prim_scan_ok [OF assms(3), of "j_pos p"] assms(2) by auto
  show ?thesis
  proof (cases r)
    case (Some q)
    then have q: "j_pos p < q" "q \<le> len" using prim_scan_progress [OF assms(2,3,5)] r by auto
    obtain e p' ts' where n: "new_token JSMN_PRIMITIVE (j_pos p) q (j_pos p) p ts num = Some (e, p', ts')" "length ts' = length ts"
      "e = -1 \<or> e = 0 \<and> parser_ok num (int q) p' ts' \<and> j_toknext p' = j_toknext p + 1"
      using new_token_ok [OF assms(1), of "j_pos p" "int q" undefined JSMN_PRIMITIVE q "j_pos p"] q
      by (auto simp: tok_ok_def jsmn_fill_token_def)
    have "int (q - 1) + 1 = int q" using q(1) by simp
    then show ?thesis using r(1) Some q n assms(4)
      by (auto simp: jsmn_parse_primitive_def intro!: jsmn_value_ok)
  qed (use r(1) in \<open>auto simp: jsmn_parse_primitive_def intro!: jsmn_value_ok\<close>)
qed

lemma jsmn_step_ok:
  assumes "parser_ok num (int (j_pos p)) p ts" "j_pos p < len" "len \<le> length js" "js ! j_pos p \<noteq> 0" "count = int (j_toknext p)"
  shows "step_ok len num (j_pos p) (length ts) (jsmn_step (js ! j_pos p) js len num p (Some ts) count)"
proof -
  let ?c = "js ! j_pos p"
  have ok: "parser_ok num (int (j_pos p) + 1) p ts" using parser_ok_mono [OF assms(1)] by simp
  have colon: "parser_ok num (int (j_pos p) + 1) (p\<lparr>j_toksuper := int (j_toknext p) - 1\<rparr>) ts"
    using ok by (simp add: parser_ok_def)
  consider "?c = 123 \<or> ?c = 91" | "?c = 125 \<or> ?c = 93" | "?c = 34" | "?c \<in> {9, 13, 10, 32}" | "?c = 58" | "?c = 44"
    | "?c \<notin> {123, 91, 125, 93, 34, 9, 13, 10, 32, 58, 44}" by blast
  then show ?thesis
  proof cases
    case 1
    then show ?thesis using jsmn_open_ok [OF assms(1), of ?c] assms(2,5)
      by (auto simp: jsmn_step_def intro!: step_okI step_ok_error)
  next
    case 2
    then show ?thesis using jsmn_close_ok [OF assms(1), of ?c] assms(2,5)
      by (auto simp: jsmn_step_def intro!: step_okI step_ok_error)
  next
    case 3
    then show ?thesis using string_step [OF assms(1-3,5)] by (simp add: jsmn_step_def)
  next
    case 4
    then show ?thesis using ok assms(2,5) by (auto simp: jsmn_step_def intro!: step_okI)
  next
    case 5
    then show ?thesis using colon assms(2,5) by (auto simp: jsmn_step_def intro!: step_okI)
  next
    case 6
    then show ?thesis using jsmn_comma_ok [OF ok] assms(2,5) by (auto simp: jsmn_step_def intro!: step_okI)
  next
    case 7
    then show ?thesis using primitive_step [OF assms(1-3,5)] assms(4) by (simp add: jsmn_step_def)
  qed
qed

text \<open>What the parser promises: an error code, or that all tokens are closed, in order and nested.\<close>

definition parse_ok :: "nat \<Rightarrow> nat \<Rightarrow> nat \<Rightarrow> (int \<times> jsmn_parser \<times> toks) option \<Rightarrow> bool" where
  "parse_ok len num n x \<longleftrightarrow> (\<exists>r p ts. x = Some (r, p, Some ts) \<and> length ts = n \<and>
     (r \<in> {-1, -2, -3} \<or> r = int (j_toknext p) \<and> j_toknext p \<le> num \<and> toks_ok (int len) (j_toknext p) ts \<and>
        (\<forall>i<j_toknext p. tok_end (ts ! i) \<noteq> -1)))"

lemma jsmn_end_ok:
  assumes "parser_ok num b p ts" "b \<le> int len" "count = int (j_toknext p)"
  shows "parse_ok len num (length ts) (jsmn_end p (Some ts) count)"
proof -
  note D = parser_okD [OF assms(1)]
  obtain r where r: "last_ix is_open ts (j_toknext p) = Some r" "r = None \<longrightarrow> (\<forall>j<j_toknext p. \<not> is_open (ts ! j))"
    using last_ix_ok [OF D(6), of is_open] by blast
  have "tok_start (ts ! i) \<noteq> -1" if "i < j_toknext p" for i
    using D(5) that tok_okD(1) [of b "ts ! i"] by (force simp: toks_ok_def)
  then show ?thesis using r D(2) toks_ok_mono [OF D(5) assms(2)] assms(3)
    by (cases r) (auto simp: jsmn_end_def parse_ok_def is_open_def)
qed

lemma jsmn_loop_ok:
  assumes "parser_ok num (int (j_pos p)) p ts" "j_pos p \<le> len" "len \<le> length js" "count = int (j_toknext p)"
  shows "parse_ok len num (length ts) (jsmn_loop js len num p (Some ts) count)"
  using assms
proof (induction "len - j_pos p" arbitrary: p ts count rule: less_induct)
  case less
  note ended = jsmn_end_ok [OF less.prems(1) _ less.prems(4), of len]
  show ?case
  proof (cases "j_pos p < len \<and> js ! j_pos p \<noteq> 0")
    case False
    then show ?thesis using less.prems(2,3) ended by (subst jsmn_loop.simps) auto
  next
    case True
    then have "step_ok len num (j_pos p) (length ts) (jsmn_step (js ! j_pos p) js len num p (Some ts) count)"
      by (intro jsmn_step_ok less.prems) auto
    then obtain r p' ts' count' where s: "jsmn_step (js ! j_pos p) js len num p (Some ts) count = Some (r, p', Some ts', count')"
      "length ts' = length ts" "case r of Some e \<Rightarrow> e \<in> {-1, -2, -3}
        | None \<Rightarrow> parser_ok num (int (j_pos p') + 1) p' ts' \<and> j_pos p \<le> j_pos p' \<and> j_pos p' < len \<and> count' = int (j_toknext p')"
      unfolding step_ok_def by blast
    have c: "nth_opt js (j_pos p) = Some (js ! j_pos p)" using True less.prems(3) by simp
    show ?thesis
    proof (cases r)
      case (Some e)
      then show ?thesis using True s c by (subst jsmn_loop.simps) (auto simp: parse_ok_def)
    next
      case None
      let ?p = "p'\<lparr>j_pos := j_pos p' + 1\<rparr>"
      have "parse_ok len num (length ts') (jsmn_loop js len num ?p (Some ts') count')"
        using less.prems(3) True s(3) None by (intro less.hyps) (auto simp: add.commute)
      then show ?thesis using True s c None by (subst jsmn_loop.simps) simp
    qed
  qed
qed

section \<open>Properties\<close>

text \<open>
  Property C35.  Parsing a text with an array of \<open>num\<close> tokens always ends, without reading or
  writing outside of the text and the array.  The result is one of the three error codes or the
  number of tokens; then all tokens lie in the text, are in the order of their positions, are
  closed, and any two of them are disjoint or one contains the other.
\<close>

theorem jsmn_parse_tokens:
  assumes "len \<le> length js" "num \<le> length ts0"
  shows "\<exists>r p ts. jsmn_parse jsmn_init js len (Some ts0) num = Some (r, p, Some ts) \<and> length ts = length ts0 \<and>
    (r \<in> {JSMN_ERROR_NOMEM, JSMN_ERROR_INVAL, JSMN_ERROR_PART} \<or>
     r = int (j_toknext p) \<and> j_toknext p \<le> num \<and>
     (\<forall>i<j_toknext p. 0 \<le> tok_start (ts ! i) \<and> tok_start (ts ! i) \<le> tok_end (ts ! i) \<and> tok_end (ts ! i) \<le> int len) \<and>
     (\<forall>j<j_toknext p. \<forall>i<j. tok_start (ts ! i) < tok_start (ts ! j) \<and>
        (tok_end (ts ! i) \<le> tok_start (ts ! j) \<or> tok_end (ts ! j) \<le> tok_end (ts ! i))))"
proof -
  have "parser_ok num (int (j_pos jsmn_init)) jsmn_init ts0"
    using assms(2) by (simp add: parser_ok_def jsmn_init_def toks_ok_def)
  then have "parse_ok len num (length ts0) (jsmn_parse jsmn_init js len (Some ts0) num)"
    unfolding jsmn_parse_def by (intro jsmn_loop_ok assms) (auto simp: jsmn_init_def)
  then obtain r p ts where r: "jsmn_parse jsmn_init js len (Some ts0) num = Some (r, p, Some ts)" "length ts = length ts0"
    "r \<in> {-1, -2, -3} \<or> r = int (j_toknext p) \<and> j_toknext p \<le> num \<and> toks_ok (int len) (j_toknext p) ts \<and>
      (\<forall>i<j_toknext p. tok_end (ts ! i) \<noteq> -1)"
    unfolding parse_ok_def by blast
  show ?thesis
  proof (cases "r \<in> {-1, -2, -3}")
    case False
    then have t: "toks_ok (int len) (j_toknext p) ts" "\<And>i. i < j_toknext p \<Longrightarrow> tok_end (ts ! i) \<noteq> -1"
      "r = int (j_toknext p)" "j_toknext p \<le> num"
      using r(3) by auto
    have "0 \<le> tok_start (ts ! i) \<and> tok_start (ts ! i) \<le> tok_end (ts ! i) \<and> tok_end (ts ! i) \<le> int len" if "i < j_toknext p" for i
      using t(1) tok_okD [of "int len" "ts ! i"] t(2) [OF that] that by (auto simp: toks_ok_def)
    moreover have "tok_start (ts ! i) < tok_start (ts ! j) \<and> (tok_end (ts ! i) \<le> tok_start (ts ! j) \<or> tok_end (ts ! j) \<le> tok_end (ts ! i))"
      if "j < j_toknext p" "i < j" for i j
      using t(1) t(2) [of i] that by (auto simp: toks_ok_def tok_pair_def)
    ultimately show ?thesis using r(1,2) t(3,4) by blast
  qed (use r in auto)
qed

theorem jsmn_parse_tokens_witness:
  "\<exists>r p ts. jsmn_parse jsmn_init [91, 49, 93] 3 (Some (replicate 2 \<lparr>tok_type = JSMN_UNDEFINED, tok_start = 0, tok_end = 0, tok_size = 0\<rparr>)) 2
    = Some (r, p, Some ts) \<and> length ts = 2"
  using jsmn_parse_tokens [of 3 "[91, 49, 93]" 2 "replicate 2 \<lparr>tok_type = JSMN_UNDEFINED, tok_start = 0, tok_end = 0, tok_size = 0\<rparr>"]
  by fastforce

end
