(* ===== verification/JsonText.thy ===== *)
theory JsonText
  imports Jsmn
begin

text \<open>
  What the tokenizer of \<open>jsmn.h\<close> does on JSON texts: the texts of a JSON value, with any white
  space between their parts, and the tokens of a value in the order of the text.  The tokenizer
  finds exactly these tokens.
\<close>

section \<open>JSON texts\<close>

datatype json = JStr "byte list" | JPrim "byte list" | JArr "json list" | JObj "(byte list \<times> json) list"

definition ws :: "byte \<Rightarrow> bool" where
  "ws c \<longleftrightarrow> c \<in> {9, 13, 10, 32}"

definition plain :: "byte list \<Rightarrow> bool" where
  "plain s \<longleftrightarrow> (\<forall>c\<in>set s. c \<noteq> 0 \<and> c \<noteq> 34 \<and> c \<noteq> 92)"

definition bare :: "byte list \<Rightarrow> bool" where
  "bare s \<longleftrightarrow> s \<noteq> [] \<and> (\<forall>c\<in>set s. 32 < c \<and> c < 127 \<and> c \<notin> {58, 44, 93, 125}) \<and> hd s \<notin> {123, 91, 34}"

inductive json_text :: "json \<Rightarrow> byte list \<Rightarrow> bool"
  and json_items :: "json list \<Rightarrow> byte list \<Rightarrow> bool"
  and json_members :: "(byte list \<times> json) list \<Rightarrow> byte list \<Rightarrow> bool" where
  str: "plain s \<Longrightarrow> json_text (JStr s) (34 # s @ [34])"
| prim: "bare s \<Longrightarrow> json_text (JPrim s) s"
| lead: "ws w \<Longrightarrow> json_text v t \<Longrightarrow> json_text v (w # t)"
| trail: "ws w \<Longrightarrow> json_text v t \<Longrightarrow> json_text v (t @ [w])"
| arr0: "list_all ws w \<Longrightarrow> json_text (JArr []) (91 # w @ [93])"
| arr: "json_items vs t \<Longrightarrow> json_text (JArr vs) (91 # t @ [93])"
| obj0: "list_all ws w \<Longrightarrow> json_text (JObj []) (123 # w @ [125])"
| obj: "json_members ms t \<Longrightarrow> json_text (JObj ms) (123 # t @ [125])"
| item: "json_text v t \<Longrightarrow> json_items [v] t"
| items: "json_text v t \<Longrightarrow> json_items vs u \<Longrightarrow> json_items (v # vs) (t @ 44 # u)"
| member: "list_all ws w \<Longrightarrow> plain k \<Longrightarrow> list_all ws w' \<Longrightarrow> json_text v t \<Longrightarrow>
    json_members [(k, v)] (w @ 34 # k @ 34 # w' @ 58 # t)"
| members: "list_all ws w \<Longrightarrow> plain k \<Longrightarrow> list_all ws w' \<Longrightarrow> json_text v t \<Longrightarrow> json_members ms u \<Longrightarrow>
    json_members ((k, v) # ms) (w @ 34 # k @ 34 # w' @ 58 # t @ 44 # u)"

text \<open>The tokens of a value: strings and primitives with their text, containers open or closed.\<close>

datatype atok = AStr "byte list" | APrim "byte list" | AOpen jsmntype | AClosed jsmntype

fun flat :: "json \<Rightarrow> atok list" where
  "flat (JStr s) = [AStr s]"
| "flat (JPrim s) = [APrim s]"
| "flat (JArr vs) = AClosed JSMN_ARRAY # concat (map flat vs)"
| "flat (JObj ms) = AClosed JSMN_OBJECT # concat (map (\<lambda>(k, v). AStr k # flat v) ms)"

definition covers :: "byte list \<Rightarrow> jsmntok \<Rightarrow> byte list \<Rightarrow> bool" where
  "covers txt t s \<longleftrightarrow> 0 \<le> tok_start t \<and> tok_end t = tok_start t + int (length s) \<and>
     take (length s) (drop (nat (tok_start t)) txt) = s \<and> tok_end t \<le> int (length txt)"

fun tok_rel :: "byte list \<Rightarrow> jsmntok \<Rightarrow> atok \<Rightarrow> bool" where
  "tok_rel txt t (AStr s) \<longleftrightarrow> tok_type t = JSMN_STRING \<and> covers txt t s"
| "tok_rel txt t (APrim s) \<longleftrightarrow> tok_type t = JSMN_PRIMITIVE \<and> covers txt t s"
| "tok_rel txt t (AOpen ty) \<longleftrightarrow> tok_type t = ty \<and> 0 \<le> tok_start t \<and> tok_end t = -1"
| "tok_rel txt t (AClosed ty) \<longleftrightarrow> tok_type t = ty \<and> 0 \<le> tok_start t \<and> 0 \<le> tok_end t"

definition toks_are :: "byte list \<Rightarrow> jsmntok list \<Rightarrow> atok list \<Rightarrow> bool" where
  "toks_are txt ts sh \<longleftrightarrow> length sh \<le> length ts \<and> (\<forall>i<length sh. tok_rel txt (ts ! i) (sh ! i))"

lemma tok_rel_size [simp]: "tok_rel txt (t\<lparr>tok_size := k\<rparr>) a = tok_rel txt t a"
  by (cases a) (auto simp: covers_def)

lemma toks_are_size: "toks_are txt ts sh \<Longrightarrow> toks_are txt (ts[i := (ts ! i)\<lparr>tok_size := k\<rparr>]) sh"
  by (cases "i < length ts") (auto simp: toks_are_def nth_list_update list_update_beyond not_less)

lemma toks_are_super: "toks_are txt ts sh \<Longrightarrow> super_size p ts = Some ts' \<Longrightarrow> toks_are txt ts' sh"
  by (auto simp: super_size_def ith_opt_eq_Some iupd_opt_eq_Some toks_are_size split: if_splits bind_splits)

lemma toks_are_snoc:
  "toks_are txt ts sh \<Longrightarrow> length sh < length ts \<Longrightarrow> tok_rel txt t a \<Longrightarrow> toks_are txt (ts[length sh := t]) (sh @ [a])"
  by (auto simp: toks_are_def nth_append less_Suc_eq)

lemma is_open_rel: "tok_rel txt t a \<Longrightarrow> is_open t \<longleftrightarrow> (\<exists>ty. a = AOpen ty)"
  by (cases a) (auto simp: is_open_def covers_def)

section \<open>Positions reached by the parser\<close>

lemma drop_ConsD:
  assumes "drop pos (take len js) = c # r" "len \<le> length js"
  shows "pos < len" "js ! pos = c" "drop (Suc pos) (take len js) = r"
proof -
  show "pos < len" using assms by (metis drop_all length_take list.distinct(1) min.absorb2 not_less)
  then show "js ! pos = c" "drop (Suc pos) (take len js) = r"
    using assms by (metis Cons_nth_drop_Suc length_take list.inject min.absorb2 nth_take)+
qed

text \<open>
  \<open>reach js len num ts0 r sh\<close>: the parser gets to the place where the rest of the text is \<open>r\<close>
  with the tokens \<open>sh\<close> stored.
\<close>

definition at :: "byte list \<Rightarrow> nat \<Rightarrow> nat \<Rightarrow> nat \<Rightarrow> byte list \<Rightarrow> atok list \<Rightarrow> jsmn_parser \<Rightarrow> jsmntok list \<Rightarrow> bool" where
  "at js len num n r sh p ts \<longleftrightarrow> j_toknext p = length sh \<and> parser_ok num (int (j_pos p)) p ts \<and> j_pos p \<le> len \<and>
     drop (j_pos p) (take len js) = r \<and> toks_are (take len js) ts sh \<and> length ts = n"

definition reach :: "byte list \<Rightarrow> nat \<Rightarrow> nat \<Rightarrow> jsmntok list \<Rightarrow> byte list \<Rightarrow> atok list \<Rightarrow> bool" where
  "reach js len num ts0 r sh \<longleftrightarrow> (\<exists>p ts. at js len num (length ts0) r sh p ts \<and>
     jsmn_parse jsmn_init js len (Some ts0) num = jsmn_loop js len num p (Some ts) (int (length sh)))"

lemma reach_step:
  assumes "reach js len num ts0 (c # r) sh" "c \<noteq> 0" "len \<le> length js"
    and step: "\<And>p ts. at js len num (length ts0) (c # r) sh p ts \<Longrightarrow>
      \<exists>p' ts'. jsmn_step c js len num p (Some ts) (int (length sh)) = Some (None, p', Some ts', int (length sh')) \<and>
        drop (Suc (j_pos p')) (take len js) = r' \<and> toks_are (take len js) ts' sh'"
  shows "reach js len num ts0 r' sh'"
proof -
  obtain p ts where p: "at js len num (length ts0) (c # r) sh p ts"
    "jsmn_parse jsmn_init js len (Some ts0) num = jsmn_loop js len num p (Some ts) (int (length sh))"
    using assms(1) by (auto simp: reach_def)
  obtain p' ts' where s: "jsmn_step c js len num p (Some ts) (int (length sh)) = Some (None, p', Some ts', int (length sh'))"
    "drop (Suc (j_pos p')) (take len js) = r'" "toks_are (take len js) ts' sh'"
    using step [OF p(1)] by blast
  have c: "j_pos p < len" "js ! j_pos p = c" and n: "j_toknext p = length sh" "length ts = length ts0"
    "parser_ok num (int (j_pos p)) p ts"
    using p(1) drop_ConsD [OF _ assms(3)] by (auto simp: at_def)
  have "step_ok len num (j_pos p) (length ts) (jsmn_step (js ! j_pos p) js len num p (Some ts) (int (length sh)))"
    using c n assms(2,3) by (intro jsmn_step_ok) auto
  then have ok: "length ts' = length ts0" "parser_ok num (int (j_pos p') + 1) p' ts'" "j_pos p' < len" "length sh' = j_toknext p'"
    using s(1) c(2) n(2) by (auto simp: step_ok_def)
  have "jsmn_loop js len num p (Some ts) (int (length sh)) =
      jsmn_loop js len num (p'\<lparr>j_pos := Suc (j_pos p')\<rparr>) (Some ts') (int (length sh'))"
    using c s(1) assms(2,3) by (subst jsmn_loop.simps) simp
  moreover have "at js len num (length ts0) r' sh' (p'\<lparr>j_pos := Suc (j_pos p')\<rparr>) ts'"
    using ok s(2,3) by (simp add: at_def add.commute)
  ultimately show ?thesis using p(2) unfolding reach_def by metis
qed

text \<open>White space, colons and commas leave the tokens as they are.\<close>

lemma reach_ws:
  assumes "reach js len num ts0 (c # r) sh" "ws c" "len \<le> length js"
  shows "reach js len num ts0 r sh"
proof (rule reach_step [OF assms(1) _ assms(3)])
  fix p ts
  assume "at js len num (length ts0) (c # r) sh p ts"
  then show "\<exists>p' ts'. jsmn_step c js len num p (Some ts) (int (length sh)) = Some (None, p', Some ts', int (length sh)) \<and>
      drop (Suc (j_pos p')) (take len js) = r \<and> toks_are (take len js) ts' sh"
    using assms(2) drop_ConsD [OF _ assms(3)] by (auto simp: at_def jsmn_step_def ws_def)
qed (use assms(2) in \<open>auto simp: ws_def\<close>)

lemma reach_wss:
  assumes "list_all ws w" "len \<le> length js" "reach js len num ts0 (w @ r) sh"
  shows "reach js len num ts0 r sh"
  using assms by (induction w) (auto intro: reach_ws)

lemma reach_colon:
  assumes "reach js len num ts0 (58 # r) sh" "len \<le> length js"
  shows "reach js len num ts0 r sh"
proof (rule reach_step [OF assms(1) _ assms(2)])
  fix p ts
  assume "at js len num (length ts0) (58 # r) sh p ts"
  then show "\<exists>p' ts'. jsmn_step 58 js len num p (Some ts) (int (length sh)) = Some (None, p', Some ts', int (length sh)) \<and>
      drop (Suc (j_pos p')) (take len js) = r \<and> toks_are (take len js) ts' sh"
    using drop_ConsD [OF _ assms(2)] by (auto simp: at_def jsmn_step_def)
qed simp

lemma reach_comma:
  assumes "reach js len num ts0 (44 # r) sh" "len \<le> length js"
  shows "reach js len num ts0 r sh"
proof (rule reach_step [OF assms(1) _ assms(2)])
  fix p ts
  assume "at js len num (length ts0) (44 # r) sh p ts"
  then show "\<exists>p' ts'. jsmn_step 44 js len num p (Some ts) (int (length sh)) = Some (None, p', Some ts', int (length sh)) \<and>
      drop (Suc (j_pos p')) (take len js) = r \<and> toks_are (take len js) ts' sh"
    using drop_ConsD [OF _ assms(2)] jsmn_comma_ok [of num "int (j_pos p)" p ts] by (auto simp: at_def jsmn_step_def)
qed simp

section \<open>Strings and primitives\<close>

lemma str_scan_plain:
  assumes "len \<le> length js" "plain s" "drop pos (take len js) = s @ 34 # r"
  shows "str_scan js len pos = Some (Quote (pos + length s))"
  using assms(2,3)
proof (induction s arbitrary: pos)
  case Nil
  then show ?case using drop_ConsD [OF _ assms(1), of pos 34 r] assms(1) by (subst str_scan.simps) simp
next
  case (Cons c s)
  then have c: "pos < len" "js ! pos = c" "drop (Suc pos) (take len js) = s @ 34 # r" "c \<noteq> 0" "c \<noteq> 34" "c \<noteq> 92"
    using drop_ConsD [OF _ assms(1), of pos c "s @ 34 # r"] by (auto simp: plain_def)
  moreover have "str_scan js len (pos + 1) = Some (Quote (pos + 1 + length s))"
    using Cons.IH [of "pos + 1"] c(3) Cons.prems(1) by (simp add: plain_def)
  ultimately show ?case using assms(1) by (subst str_scan.simps) simp
qed

definition delim :: "byte list \<Rightarrow> bool" where
  "delim r \<longleftrightarrow> r = [] \<or> hd r \<in> {58, 9, 13, 10, 32, 44, 93, 125}"

lemma prim_scan_bare:
  assumes "len \<le> length js" "\<forall>c\<in>set s. 32 < c \<and> c < 127 \<and> c \<notin> {58, 44, 93, 125}" "delim r"
    "drop pos (take len js) = s @ r" "pos \<le> len"
  shows "prim_scan js len pos = Some (Some (pos + length s))"
  using assms(2,4,5)
proof (induction s arbitrary: pos)
  case Nil
  show ?case
  proof (cases r)
    case Nil
    then have "\<not> pos < len" using Nil.prems assms(1) by simp
    then show ?thesis by (subst prim_scan.simps) simp
  next
    case (Cons c r')
    then have "pos < len" "js ! pos \<in> {0, 58, 9, 13, 10, 32, 44, 93, 125}"
      using drop_ConsD [OF _ assms(1), of pos c r'] Nil.prems assms(3) by (auto simp: delim_def)
    then show ?thesis using assms(1) by (subst prim_scan.simps) simp
  qed
next
  case (Cons c s)
  then have c: "pos < len" "js ! pos = c" "drop (Suc pos) (take len js) = s @ r" "32 < c" "c < 127" "c \<notin> {58, 44, 93, 125}"
    using drop_ConsD [OF _ assms(1), of pos c "s @ r"] by auto
  have "c \<notin> {0, 58, 9, 13, 10, 32, 44, 93, 125}" "\<not> (c < 32 \<or> c \<ge> 127)" using c(4-6) by auto
  moreover have "prim_scan js len (pos + 1) = Some (Some (pos + 1 + length s))"
    using Cons.IH [of "pos + 1"] Cons.prems(1) c(1,3) by simp
  ultimately show ?case using assms(1) c(1,2) by (subst prim_scan.simps) simp
qed

lemma covers_fill:
  assumes "drop start txt = s @ r" "start \<le> length txt"
  shows "covers txt (jsmn_fill_token t ty (int start) (int (start + length s))) s"
proof -
  have "length s + length r = length txt - start" using assms by (metis length_append length_drop)
  then show ?thesis using assms by (simp add: covers_def jsmn_fill_token_def)
qed

lemma new_token_are:
  assumes "toks_are txt ts sh" "j_toknext p = length sh" "length sh < num" "parser_ok num b p ts" "b \<le> int start" "b \<le> b'"
    and rel: "\<And>t. tok_rel txt (jsmn_fill_token t ty (int start) (int stop)) a"
    and ok: "\<And>t. tok_ok b' (jsmn_fill_token t ty (int start) (int stop))"
  shows "\<exists>ts'. new_token ty start stop home p ts num = Some (0, p\<lparr>j_toknext := length sh + 1\<rparr>, ts') \<and>
    toks_are txt ts' (sh @ [a]) \<and> parser_ok num b' (p\<lparr>j_toknext := length sh + 1\<rparr>) ts'"
proof -
  have n: "num \<le> length ts" using assms(4) by (simp add: parser_ok_def)
  have "\<exists>ts'. new_token ty start stop home p ts num = Some (0, p\<lparr>j_toknext := length sh + 1\<rparr>, ts') \<and> toks_are txt ts' (sh @ [a])"
    using assms(2,3) n toks_are_snoc [OF assms(1) _ rel] by (simp add: new_token_def jsmn_alloc_token_def)
  then show ?thesis using new_token_ok [OF assms(4-6) ok, of home] by fastforce
qed

lemma jsmn_value_are:
  assumes "parser_ok num b p ts" "toks_are txt ts sh" "count = int (length sh) - 1"
  shows "\<exists>ts'. jsmn_value (0, p, Some ts) count = Some (None, p, Some ts', int (length sh)) \<and> toks_are txt ts' sh"
  using super_size_ok [OF assms(1)] toks_are_super [OF assms(2)] assms(3) by (auto simp: jsmn_value_def)

lemma reach_string:
  assumes "reach js len num ts0 (34 # s @ 34 # r) sh" "plain s" "length sh < num" "len \<le> length js"
  shows "reach js len num ts0 r (sh @ [AStr s])"
proof (rule reach_step [OF assms(1) _ assms(4)])
  fix p :: jsmn_parser and ts :: "jsmntok list"
  let ?txt = "take len js" and ?k = "j_pos p + 1"
  assume p: "at js len num (length ts0) (34 # s @ 34 # r) sh p ts"
  then have D: "drop ?k ?txt = s @ 34 # r" "j_pos p < len" and n: "j_toknext p = length sh" "toks_are ?txt ts sh"
    "parser_ok num (int (j_pos p)) p ts" "num \<le> length ts"
    using drop_ConsD [OF _ assms(4)] by (auto simp: at_def parser_ok_def)
  have q: "str_scan js len ?k = Some (Quote (?k + length s))" by (rule str_scan_plain [OF assms(4,2) D(1)])
  have cov: "covers ?txt (jsmn_fill_token t JSMN_STRING (int ?k) (int (?k + length s))) s" for t
    using D assms(4) by (intro covers_fill) auto
  have "drop (?k + length s) ?txt = 34 # r" using arg_cong [OF D(1), of "drop (length s)"] by (simp add: add.commute)
  note E = drop_ConsD [OF this assms(4)]
  obtain ts' where t: "new_token JSMN_STRING ?k (?k + length s) (j_pos p) p ts num = Some (0, p\<lparr>j_toknext := length sh + 1\<rparr>, ts')"
    "toks_are ?txt ts' (sh @ [AStr s])" and ok: "parser_ok num (int (?k + length s) + 1) (p\<lparr>j_toknext := length sh + 1\<rparr>) ts'"
    using new_token_are [OF n(2,1) assms(3) n(3), of ?k "int (?k + length s) + 1" JSMN_STRING "?k + length s" "AStr s" "j_pos p"] cov
    by (auto simp: jsmn_fill_token_def tok_ok_def)
  let ?p = "p\<lparr>j_toknext := length sh + 1, j_pos := ?k + length s\<rparr>"
  obtain ts'' where v: "jsmn_value (0, ?p, Some ts') (int (length sh)) = Some (None, ?p, Some ts'', int (length (sh @ [AStr s])))"
    "toks_are ?txt ts'' (sh @ [AStr s])"
    using jsmn_value_are [OF _ t(2), of num "int (?k + length s) + 1" ?p "int (length sh)"] ok by auto
  then show "\<exists>p' ts'. jsmn_step 34 js len num p (Some ts) (int (length sh)) = Some (None, p', Some ts', int (length (sh @ [AStr s]))) \<and>
      drop (Suc (j_pos p')) ?txt = r \<and> toks_are ?txt ts' (sh @ [AStr s])"
    using q t(1) E(3) by (auto simp: jsmn_step_def jsmn_parse_string_def)
qed simp

lemma bare_head:
  assumes "bare s"
  shows "\<exists>c s'. s = c # s' \<and> c \<notin> {0, 58, 9, 13, 10, 32, 44, 93, 125, 123, 91, 34}"
proof -
  obtain c s' where s: "s = c # s'" using assms by (cases s) (auto simp: bare_def)
  then have "32 < c" "c \<notin> {58, 44, 93, 125, 123, 91, 34}" using assms by (auto simp: bare_def)
  then have "c \<notin> {0, 58, 9, 13, 10, 32, 44, 93, 125, 123, 91, 34}" by auto
  then show ?thesis using s by blast
qed

lemma reach_prim:
  assumes "reach js len num ts0 (s @ r) sh" "bare s" "delim r" "length sh < num" "len \<le> length js"
  shows "reach js len num ts0 r (sh @ [APrim s])"
proof -
  obtain c s' where s: "s = c # s'" and c: "c \<notin> {0, 58, 9, 13, 10, 32, 44, 93, 125, 123, 91, 34}" using bare_head [OF assms(2)] by blast
  show ?thesis
  proof (rule reach_step [of js len num ts0 c "s' @ r"])
    fix p :: jsmn_parser and ts :: "jsmntok list"
    let ?txt = "take len js" and ?k = "j_pos p"
    assume "at js len num (length ts0) (c # s' @ r) sh p ts"
    then have D: "drop ?k ?txt = s @ r" "?k < len" and n: "j_toknext p = length sh" "toks_are ?txt ts sh"
      "parser_ok num (int ?k) p ts"
      using drop_ConsD [OF _ assms(5)] s by (auto simp: at_def)
    have q: "prim_scan js len ?k = Some (Some (?k + length s))"
      using assms(2) D(2) by (intro prim_scan_bare [OF assms(5) _ assms(3) D(1)]) (auto simp: bare_def)
    have cov: "covers ?txt (jsmn_fill_token t JSMN_PRIMITIVE (int ?k) (int (?k + length s))) s" for t
      using D assms(5) by (intro covers_fill) auto
    have E: "drop (?k + length s) ?txt = r" using arg_cong [OF D(1), of "drop (length s)"] by (simp add: add.commute)
    obtain ts' where t: "new_token JSMN_PRIMITIVE ?k (?k + length s) ?k p ts num = Some (0, p\<lparr>j_toknext := length sh + 1\<rparr>, ts')"
      "toks_are ?txt ts' (sh @ [APrim s])" and ok: "parser_ok num (int (?k + length s)) (p\<lparr>j_toknext := length sh + 1\<rparr>) ts'"
      using new_token_are [OF n(2,1) assms(4) n(3), of ?k "int (?k + length s)" JSMN_PRIMITIVE "?k + length s" "APrim s" ?k] cov s
      by (auto simp: jsmn_fill_token_def tok_ok_def)
    let ?p = "p\<lparr>j_toknext := length sh + 1, j_pos := ?k + length s - 1\<rparr>"
    obtain ts'' where v: "jsmn_value (0, ?p, Some ts') (int (length sh)) = Some (None, ?p, Some ts'', int (length (sh @ [APrim s])))"
      "toks_are ?txt ts'' (sh @ [APrim s])"
      using jsmn_value_are [OF _ t(2), of num "int (?k + length s)" ?p "int (length sh)"] ok by auto
    then show "\<exists>p' ts'. jsmn_step c js len num p (Some ts) (int (length sh)) = Some (None, p', Some ts', int (length (sh @ [APrim s]))) \<and>
        drop (Suc (j_pos p')) ?txt = r \<and> toks_are ?txt ts' (sh @ [APrim s])"
      using q t(1) E s c by (auto simp: jsmn_step_def jsmn_parse_primitive_def)
  qed (use assms s c in auto)
qed

section \<open>Containers\<close>

lemma reach_open:
  assumes "reach js len num ts0 (c # r) sh" "c = 123 \<and> ty = JSMN_OBJECT \<or> c = 91 \<and> ty = JSMN_ARRAY" "length sh < num" "len \<le> length js"
  shows "reach js len num ts0 r (sh @ [AOpen ty])"
proof (rule reach_step [OF assms(1) _ assms(4)])
  fix p :: jsmn_parser and ts :: "jsmntok list"
  let ?txt = "take len js" and ?n = "length sh"
  let ?t = "(ts ! ?n)\<lparr>tok_start := -1, tok_end := -1, tok_size := 0\<rparr>"
  assume "at js len num (length ts0) (c # r) sh p ts"
  then have n: "drop (Suc (j_pos p)) ?txt = r" "j_toknext p = ?n" "toks_are ?txt ts sh" "parser_ok num (int (j_pos p)) p ts"
    using drop_ConsD [OF _ assms(4)] by (auto simp: at_def)
  note D = parser_okD [OF n(4)]
  have "parser_ok num (int (j_pos p)) p (ts[?n := ?t])" using n(4) by (auto simp: parser_ok_def n(2) toks_ok_def)
  then obtain ts' where ts': "super_size p (ts[?n := ?t]) = Some ts'" "length ts' = length ts" "ts' ! ?n = ?t"
    using super_size_ok [of num "int (j_pos p)" p "ts[?n := ?t]"] D n(2) assms(3) by auto
  have "toks_are ?txt (ts[?n := ?t]) sh" using n(3) by (auto simp: toks_are_def)
  then have "toks_are ?txt ts' sh" using ts'(1) by (rule toks_are_super)
  then have "toks_are ?txt (ts'[?n := ?t\<lparr>tok_type := ty, tok_start := int (j_pos p)\<rparr>]) (sh @ [AOpen ty])"
    using ts'(2) D(1) assms(3) by (intro toks_are_snoc) auto
  then show "\<exists>p' ts'. jsmn_step c js len num p (Some ts) (int ?n) = Some (None, p', Some ts', int (length (sh @ [AOpen ty]))) \<and>
      drop (Suc (j_pos p')) ?txt = r \<and> toks_are ?txt ts' (sh @ [AOpen ty])"
    using assms(2,3) n(1,2) D(1) ts' by (auto simp: jsmn_step_def jsmn_open_def jsmn_alloc_token_def)
qed (use assms(2) in auto)

definition shut :: "atok list \<Rightarrow> bool" where
  "shut sh \<longleftrightarrow> (\<forall>a\<in>set sh. \<forall>ty. a \<noteq> AOpen ty)"

lemma last_open:
  assumes "toks_are txt ts (sh @ AOpen ty # inner)" "shut inner"
  shows "last_ix is_open ts (length sh + Suc (length inner)) = Some (Some (length sh))"
proof -
  let ?sh = "sh @ AOpen ty # inner"
  have rel: "i < length ?sh \<Longrightarrow> is_open (ts ! i) \<longleftrightarrow> (\<exists>ty. ?sh ! i = AOpen ty)" for i
    using assms(1) is_open_rel unfolding toks_are_def by blast
  have closed: "\<not> is_open (ts ! i)" if "length sh < i" "i < length ?sh" for i
    using rel [OF that(2)] that assms(2) by (auto simp: nth_append nth_Cons' shut_def)
  have "length ?sh \<le> length ts" using assms(1) by (simp add: toks_are_def)
  then obtain r where r: "last_ix is_open ts (length ?sh) = Some r"
    "\<forall>i. r = Some i \<longrightarrow> i < length ?sh \<and> is_open (ts ! i) \<and> (\<forall>j. i < j \<longrightarrow> j < length ?sh \<longrightarrow> \<not> is_open (ts ! j))"
    "r = None \<longrightarrow> (\<forall>j<length ?sh. \<not> is_open (ts ! j))"
    using last_ix_ok [of "length ?sh" ts is_open] by blast
  have "is_open (ts ! length sh)" using rel [of "length sh"] by simp
  then obtain i where i: "r = Some i" using r(3) by (cases r) auto
  then have "i < length ?sh" "is_open (ts ! i)" "\<not> i < length sh" using r(2) \<open>is_open (ts ! length sh)\<close> by auto
  then have "i = length sh" using closed by (metis nat_neq_iff)
  then show ?thesis using r(1) i by simp
qed

lemma reach_close:
  assumes "reach js len num ts0 (c # r) (sh @ AOpen ty # inner)" "c = 125 \<and> ty = JSMN_OBJECT \<or> c = 93 \<and> ty = JSMN_ARRAY"
    "shut inner" "len \<le> length js"
  shows "reach js len num ts0 r (sh @ AClosed ty # inner)"
proof (rule reach_step [OF assms(1) _ assms(4)])
  fix p :: jsmn_parser and ts :: "jsmntok list"
  let ?txt = "take len js" and ?i = "length sh"
  assume "at js len num (length ts0) (c # r) (sh @ AOpen ty # inner) p ts"
  then have n: "drop (Suc (j_pos p)) ?txt = r" "j_toknext p = ?i + Suc (length inner)" "toks_are ?txt ts (sh @ AOpen ty # inner)"
    using drop_ConsD [OF _ assms(4)] by (auto simp: at_def)
  let ?ts = "ts[?i := (ts ! ?i)\<lparr>tok_end := int (j_pos p) + 1\<rparr>]"
  have ty: "tok_type (ts ! ?i) = ty" "?i < length ts"
    using n(3) unfolding toks_are_def by (auto dest!: spec [of _ ?i])
  have "tok_rel ?txt (?ts ! i) ((sh @ AClosed ty # inner) ! i)" if "i < length (sh @ AClosed ty # inner)" for i
    using n(3) that ty(2) unfolding toks_are_def by (cases "i = ?i") (auto simp: nth_append nth_Cons' dest!: spec [of _ i] split: if_splits)
  then have "toks_are ?txt ?ts (sh @ AClosed ty # inner)" using n(3) by (simp add: toks_are_def)
  moreover obtain k where "last_ix is_open ?ts (?i + 1) = Some k" using last_ix_ok [of "?i + 1" ?ts is_open] ty(2) by auto
  ultimately show "\<exists>p' ts'. jsmn_step c js len num p (Some ts) (int (length (sh @ AOpen ty # inner))) =
      Some (None, p', Some ts', int (length (sh @ AClosed ty # inner))) \<and>
      drop (Suc (j_pos p')) ?txt = r \<and> toks_are ?txt ts' (sh @ AClosed ty # inner)"
    using assms(2) n(1,2) ty last_open [OF n(3) assms(3)]
    by (auto simp: jsmn_step_def jsmn_close_def Let_def simp del: last_ix.simps)
qed (use assms(2) in auto)

section \<open>Whole texts\<close>

lemma shut_flat: "shut (flat v)"
  by (induction v rule: flat.induct) (fastforce simp: shut_def)+

lemma shut_concat: "(\<And>x. x \<in> set xs \<Longrightarrow> shut (f x)) \<Longrightarrow> shut (concat (map f xs))"
  by (auto simp: shut_def)

abbreviation flats :: "json list \<Rightarrow> atok list" where
  "flats vs \<equiv> concat (map flat vs)"

abbreviation flatm :: "(byte list \<times> json) list \<Rightarrow> atok list" where
  "flatm ms \<equiv> concat (map (\<lambda>(k, v). AStr k # flat v) ms)"

lemma shut_flats: "shut (flats vs)" "shut (flatm ms)"
proof -
  show "shut (flats vs)" using shut_flat by (rule shut_concat)
  have "shut (AStr k # flat v)" for k v using shut_flat [of v] by (simp add: shut_def)
  then show "shut (flatm ms)" by (intro shut_concat) auto
qed

lemma reach_key:
  assumes "list_all ws w" "plain k" "list_all ws w'" "len \<le> length js" "length sh < num"
    "reach js len num ts0 (w @ 34 # k @ 34 # w' @ 58 # r) sh"
  shows "reach js len num ts0 r (sh @ [AStr k])"
  using reach_colon [OF reach_wss [OF assms(3,4) reach_string [OF reach_wss [OF assms(1,4,6)] assms(2,5,4)]] assms(4)] .

lemma reach_container:
  assumes "reach js len num ts0 (c # t @ d # r) sh"
    "c = 123 \<and> d = 125 \<and> ty = JSMN_OBJECT \<or> c = 91 \<and> d = 93 \<and> ty = JSMN_ARRAY"
    "length sh < num" "len \<le> length js" "shut inner"
    "reach js len num ts0 (t @ d # r) (sh @ [AOpen ty]) \<Longrightarrow> reach js len num ts0 (d # r) ((sh @ [AOpen ty]) @ inner)"
  shows "reach js len num ts0 r (sh @ AClosed ty # inner)"
proof -
  have "reach js len num ts0 (t @ d # r) (sh @ [AOpen ty])" using assms(2) by (intro reach_open [OF assms(1) _ assms(3,4)]) auto
  from assms(6) [OF this] have "reach js len num ts0 (d # r) (sh @ AOpen ty # inner)" by simp
  then show ?thesis using assms(2) by (intro reach_close [OF _ _ assms(5,4)]) auto
qed

lemma reach_text:
  assumes len: "len \<le> length js"
  shows "json_text v t \<Longrightarrow> reach js len num ts0 (t @ r) sh \<Longrightarrow> delim r \<Longrightarrow> length sh + length (flat v) \<le> num \<Longrightarrow>
      reach js len num ts0 r (sh @ flat v)"
    and "json_items vs t \<Longrightarrow> reach js len num ts0 (t @ r) sh \<Longrightarrow> delim r \<Longrightarrow> length sh + length (flats vs) \<le> num \<Longrightarrow>
      reach js len num ts0 r (sh @ flats vs)"
    and "json_members ms t \<Longrightarrow> reach js len num ts0 (t @ r) sh \<Longrightarrow> delim r \<Longrightarrow> length sh + length (flatm ms) \<le> num \<Longrightarrow>
      reach js len num ts0 r (sh @ flatm ms)"
proof (induction arbitrary: r sh and r sh and r sh rule: json_text_json_items_json_members.inducts)
  case (str s)
  then show ?case using reach_string [OF _ _ _ len, of num ts0 s r sh] by simp
next
  case (prim s)
  then show ?case using reach_prim [OF _ _ _ _ len, of num ts0 s r sh] by simp
next
  case (lead w v t)
  then show ?case using reach_ws [OF _ _ len, of num ts0 w "t @ r" sh] by simp
next
  case (trail w v t)
  have "delim (w # r)" using trail(1) by (auto simp: delim_def ws_def)
  then show ?case using trail reach_ws [OF _ _ len, of num ts0 w r] by simp
next
  case (arr0 w)
  then show ?case using reach_container [of js len num ts0 91 w 93 r sh JSMN_ARRAY "[]"] len reach_wss [OF arr0(1) len]
    by (simp add: shut_def)
next
  case (arr vs t)
  show ?case using reach_container [of js len num ts0 91 t 93 r sh JSMN_ARRAY "flats vs"] arr.IH [of "93 # r" "sh @ [AOpen JSMN_ARRAY]"]
      arr.prems len shut_flats(1) [of vs] by (simp add: delim_def)
next
  case (obj0 w)
  then show ?case using reach_container [of js len num ts0 123 w 125 r sh JSMN_OBJECT "[]"] len reach_wss [OF obj0(1) len]
    by (simp add: shut_def)
next
  case (obj ms t)
  show ?case using reach_container [of js len num ts0 123 t 125 r sh JSMN_OBJECT "flatm ms"] obj.IH [of "125 # r" "sh @ [AOpen JSMN_OBJECT]"]
      obj.prems len shut_flats(2) [of ms] by (simp add: delim_def)
next
  case (item v t)
  then show ?case by simp
next
  case (items v t vs u)
  have "reach js len num ts0 (44 # u @ r) (sh @ flat v)" using items by (intro items.IH(1)) (auto simp: delim_def)
  then have "reach js len num ts0 (u @ r) (sh @ flat v)" using len by (rule reach_comma)
  from items.IH(2) [OF this items.prems(2)] show ?case using items.prems(3) by simp
next
  case (member w k w' v t)
  have "reach js len num ts0 (t @ r) (sh @ [AStr k])" using member by (intro reach_key [OF member(1-3) len]) auto
  from member.IH [OF this member.prems(2)] show ?case using member.prems(3) by simp
next
  case (members w k w' v t ms u)
  have "reach js len num ts0 (t @ 44 # u @ r) (sh @ [AStr k])" using members by (intro reach_key [OF members(1-3) len]) auto
  from members.IH(1) [OF this] have "reach js len num ts0 (44 # u @ r) ((sh @ [AStr k]) @ flat v)"
    using members.prems(3) by (simp add: delim_def)
  from members.IH(2) [OF reach_comma [OF this len] members.prems(2)] show ?case using members.prems(3) by simp
qed

lemma reach_start:
  assumes "num \<le> length ts0" "len \<le> length js"
  shows "reach js len num ts0 (take len js) []"
proof -
  have "at js len num (length ts0) (take len js) [] jsmn_init ts0"
    using assms by (simp add: at_def jsmn_init_def parser_ok_def toks_ok_def toks_are_def)
  then show ?thesis unfolding reach_def jsmn_parse_def by (force simp: jsmn_init_def)
qed

lemma reach_end:
  assumes "reach js len num ts0 [] sh" "shut sh" "len \<le> length js"
  shows "\<exists>p ts. jsmn_parse jsmn_init js len (Some ts0) num = Some (int (length sh), p, Some ts) \<and>
    toks_are (take len js) ts sh \<and> length ts = length ts0"
proof -
  obtain p ts where p: "at js len num (length ts0) [] sh p ts"
    "jsmn_parse jsmn_init js len (Some ts0) num = jsmn_loop js len num p (Some ts) (int (length sh))"
    using assms(1) by (auto simp: reach_def)
  then have t: "toks_are (take len js) ts sh" "j_toknext p = length sh" "\<not> j_pos p < len" "length ts = length ts0"
    using assms(3) by (auto simp: at_def)
  have "\<not> is_open (ts ! i)" if "i < length sh" for i
    using t(1) that assms(2) is_open_rel [of "take len js" "ts ! i" "sh ! i"] by (auto simp: toks_are_def shut_def)
  then have "last_ix is_open ts (length sh) = Some None"
    using last_ix_ok [of "length sh" ts is_open] t(1) unfolding toks_are_def by (metis option.exhaust)
  then show ?thesis using p(2) t by (subst (asm) jsmn_loop.simps) (simp add: jsmn_end_def)
qed

lemma jsmn_parse_text:
  assumes "json_text v t" "length (flat v) \<le> num" "num \<le> length ts0"
  shows "\<exists>p ts. jsmn_parse jsmn_init (t @ u) (length t) (Some ts0) num = Some (int (length (flat v)), p, Some ts) \<and>
    toks_are t ts (flat v) \<and> length ts = length ts0"
proof -
  have "reach (t @ u) (length t) num ts0 (t @ []) []" using reach_start [OF assms(3), of "length t" "t @ u"] by simp
  from reach_text(1) [OF _ assms(1) this] have "reach (t @ u) (length t) num ts0 [] (flat v)"
    using assms(2) by (simp add: delim_def)
  from reach_end [OF this shut_flat] show ?thesis by simp
qed

section \<open>Properties\<close>



end
