(* ===== verification/Ulib.thy ===== *)
theory Ulib
  imports FsState
begin

text \<open>
  The string and memory routines of the user library (\<open>ulib.c\<close>).  A pointer to characters is
  the list of bytes from there to the end of its array, so that reading past the array makes the
  model \<open>None\<close>.  Arrays that are written are lists, indexed from their start.
\<close>

text \<open>The bytes of a string constant.\<close>

definition ascii :: "string \<Rightarrow> byte list" where
  "ascii s = map (\<lambda>c. of_nat (of_char c)) s"

section \<open>Operations\<close>

fun strcpy_loop :: "nat \<Rightarrow> byte list \<Rightarrow> byte list \<Rightarrow> byte list option" where
  "strcpy_loop i s [] = None"
| "strcpy_loop i s (c # t) = do {
     s \<leftarrow> upd_opt s i c;
     if c \<noteq> 0 then strcpy_loop (i + 1) s t else Some s
   }"

definition strcpy :: "byte list \<Rightarrow> byte list \<Rightarrow> byte list option" where
  "strcpy s t = strcpy_loop 0 s t"

fun strcmp :: "byte list \<Rightarrow> byte list \<Rightarrow> int option" where
  "strcmp (a # p) (b # q) = (if a \<noteq> 0 \<and> a = b then strcmp p q else Some (uint a - uint b))"
| "strcmp _ _ = None"

fun strlen_u :: "byte list \<Rightarrow> nat option" where
  "strlen_u [] = None"
| "strlen_u (c # s) = (if c = 0 then Some 0 else map_option Suc (strlen_u s))"

definition memset_u :: "byte list \<Rightarrow> byte \<Rightarrow> nat \<Rightarrow> byte list option" where
  "memset_u dst c n = for_from n 0 (\<lambda>i a. upd_opt a i c) dst"

text \<open>The index of the first \<open>c\<close>, \<open>None\<close> for the null pointer.\<close>

fun strchr :: "byte list \<Rightarrow> byte \<Rightarrow> nat option option" where
  "strchr [] c = None"
| "strchr (x # s) c =
     (if x = 0 then Some None
      else if x = c then Some (Some 0)
      else map_option (map_option Suc) (strchr s c))"

text \<open>
  \<open>inp\<close> holds the bytes that the calls of \<open>read\<close> deliver one by one; at its end \<open>read\<close> returns
  less than 1.  The result has the buffer, and the input that is left.
\<close>

fun gets_loop :: "int \<Rightarrow> nat \<Rightarrow> byte list \<Rightarrow> byte list \<Rightarrow> (nat \<times> byte list \<times> byte list) option" where
  "gets_loop maxn i buf [] = Some (i, buf, [])"
| "gets_loop maxn i buf (c # inp) =
     (if int i + 1 < maxn then do {
        buf \<leftarrow> upd_opt buf i c;
        if c = 10 \<or> c = 13 then Some (i + 1, buf, inp) else gets_loop maxn (i + 1) buf inp
      } else Some (i, buf, c # inp))"

definition gets :: "byte list \<Rightarrow> int \<Rightarrow> byte list \<Rightarrow> (byte list \<times> byte list) option" where
  "gets buf maxn inp = do {
     (i, buf, inp) \<leftarrow> gets_loop maxn 0 buf inp;
     buf \<leftarrow> upd_opt buf i 0;
     Some (buf, inp)
   }"

text \<open>The arithmetic is on \<open>int\<close>; where it would overflow the model is \<open>None\<close>.\<close>

fun atoi_loop :: "int \<Rightarrow> byte list \<Rightarrow> int option" where
  "atoi_loop n [] = None"
| "atoi_loop n (c # s) =
     (if 48 \<le> c \<and> c \<le> 57 then
        (if n * 10 + uint c < 2 ^ 31 then atoi_loop (n * 10 + uint c - 48) s else None)
      else Some n)"

definition atoi :: "byte list \<Rightarrow> int option" where
  "atoi s = atoi_loop 0 s"

text \<open>Copying upwards inside one array.\<close>

definition memmove_u :: "byte list \<Rightarrow> nat \<Rightarrow> nat \<Rightarrow> nat \<Rightarrow> byte list option" where
  "memmove_u a dst src n = for_from n 0 (\<lambda>i a. do {
     c \<leftarrow> nth_opt a (src + i);
     upd_opt a (dst + i) c
   }) a"

fun strncmp_u :: "byte list \<Rightarrow> byte list \<Rightarrow> int \<Rightarrow> int option" where
  "strncmp_u (a # p) (b # q) n =
     (if n = 0 then Some 0
      else if a \<noteq> 0 \<and> a = b then strncmp_u p q (n - 1)
      else Some (uint a - uint b))"
| "strncmp_u _ _ n = (if n = 0 then Some 0 else None)"

fun safe_strcpy_loop :: "nat \<Rightarrow> byte list \<Rightarrow> byte list \<Rightarrow> int \<Rightarrow> byte list option" where
  "safe_strcpy_loop i dest [] n = (if int i < n then None else Some dest)"
| "safe_strcpy_loop i dest (c # src) n =
     (if int i < n then do {
        dest \<leftarrow> upd_opt dest i c;
        if c \<noteq> 0 then safe_strcpy_loop (i + 1) dest src n else Some dest
      } else Some dest)"

definition safe_strcpy :: "byte list \<Rightarrow> byte list \<Rightarrow> int \<Rightarrow> byte list option" where
  "safe_strcpy dest src n = safe_strcpy_loop 0 dest src n"

text \<open>One of the loops of \<open>strconcat\<close>: the index after the copied string, and the array.\<close>

fun append_loop :: "nat \<Rightarrow> byte list \<Rightarrow> byte list \<Rightarrow> (nat \<times> byte list) option" where
  "append_loop i dest [] = None"
| "append_loop i dest (c # s) =
     (if c \<noteq> 0 then do {
        dest \<leftarrow> upd_opt dest i c;
        append_loop (i + 1) dest s
      } else Some (i, dest))"

definition strconcat :: "byte list \<Rightarrow> byte list \<Rightarrow> byte list \<Rightarrow> byte list option" where
  "strconcat dest s1 s2 = do {
     (i, dest) \<leftarrow> append_loop 0 dest s1;
     (i, dest) \<leftarrow> append_loop i dest s2;
     upd_opt dest i 0
   }"

section \<open>Strings\<close>

definition no_nul :: "byte list \<Rightarrow> bool" where
  "no_nul s \<longleftrightarrow> 0 \<notin> set s"

text \<open>The string at a pointer.\<close>

definition cstr_of :: "byte list \<Rightarrow> byte list" where
  "cstr_of s = takeWhile (\<lambda>c. c \<noteq> 0) s"

lemma uint_zero_iff [simp]: "uint (a :: byte) = 0 \<longleftrightarrow> a = 0"
  by (simp add: unsigned_eq_0_iff)

lemma strlen_u_eq: "no_nul s \<Longrightarrow> strlen_u (s @ 0 # r) = Some (length s)"
  by (induction s) (auto simp: no_nul_def)

lemma strchr_eq:
  "strchr (s @ 0 # r) c = Some (if c \<in> set s then Some (length (takeWhile (\<lambda>x. x \<noteq> c) s)) else None)" if "no_nul s"
  using that by (induction s) (auto simp: no_nul_def)

lemma strcmp_zero_iff: "no_nul s \<Longrightarrow> no_nul t \<Longrightarrow> \<exists>r. strcmp (s @ 0 # u) (t @ 0 # v) = Some r \<and> (r = 0 \<longleftrightarrow> s = t)"
proof (induction s arbitrary: t)
  case Nil
  then show ?case by (cases t) (auto simp: no_nul_def)
next
  case (Cons a s)
  then show ?case by (cases t) (auto simp: no_nul_def word_uint_eq_iff [symmetric])
qed

lemma strncmp_u_take:
  assumes "no_nul s" "length s \<le> length p"
  shows "\<exists>r. strncmp_u p (s @ 0 # v) (int (length s)) = Some r \<and> (r = 0 \<longleftrightarrow> take (length s) p = s)"
  using assms
proof (induction s arbitrary: p)
  case Nil
  then show ?case by (cases p) auto
next
  case (Cons a s)
  then obtain b q where p: "p = b # q" by (cases p) auto
  then obtain r where r: "strncmp_u q (s @ 0 # v) (int (length s)) = Some r" "r = 0 \<longleftrightarrow> take (length s) q = s"
    using Cons by (force simp: no_nul_def)
  show ?case using p r Cons.prems by (cases "b = a") (auto simp: no_nul_def word_uint_eq_iff [symmetric])
qed

lemma append_loop_eq:
  assumes "no_nul s" "i + length s \<le> length dest"
  shows "append_loop i dest (s @ 0 # r) = Some (i + length s, take i dest @ s @ drop (i + length s) dest)"
  using assms
proof (induction s arbitrary: i dest)
  case (Cons c s)
  have "append_loop (i + 1) (dest[i := c]) (s @ 0 # r) =
      Some (i + 1 + length s, take (i + 1) (dest[i := c]) @ s @ drop (i + 1 + length s) (dest[i := c]))"
    using Cons by (intro Cons.IH) (auto simp: no_nul_def)
  moreover have "take (i + 1) (dest[i := c]) = take i dest @ [c]" using Cons.prems by (simp add: take_Suc_conv_app_nth)
  ultimately show ?case using Cons.prems by (auto simp: no_nul_def)
qed simp

lemma strcpy_loop_eq:
  assumes "no_nul s" "i + length s < length dest"
  shows "strcpy_loop i dest (s @ 0 # r) = Some (take i dest @ s @ 0 # drop (i + length s + 1) dest)"
  using assms
proof (induction s arbitrary: i dest)
  case Nil
  then show ?case by (simp add: upd_conv_take_nth_drop)
next
  case (Cons c s)
  have "strcpy_loop (i + 1) (dest[i := c]) (s @ 0 # r) =
      Some (take (i + 1) (dest[i := c]) @ s @ 0 # drop (i + 1 + length s + 1) (dest[i := c]))"
    using Cons by (intro Cons.IH) (auto simp: no_nul_def)
  moreover have "take (i + 1) (dest[i := c]) = take i dest @ [c]" using Cons.prems by (simp add: take_Suc_conv_app_nth)
  ultimately show ?case using Cons.prems by (auto simp: no_nul_def)
qed

text \<open>\<open>safe_strcpy\<close> of \<open>n\<close> characters that are there and not zero.\<close>

lemma safe_strcpy_loop_eq:
  assumes "no_nul s" "i + length s \<le> length dest" "n = int (i + length s)"
  shows "safe_strcpy_loop i dest (s @ r) n = Some (take i dest @ s @ drop (i + length s) dest)"
  using assms
proof (induction s arbitrary: i dest)
  case Nil
  then show ?case by (cases r) auto
next
  case (Cons c s)
  have "safe_strcpy_loop (i + 1) (dest[i := c]) (s @ r) n =
      Some (take (i + 1) (dest[i := c]) @ s @ drop (i + 1 + length s) (dest[i := c]))"
    using Cons by (intro Cons.IH) (auto simp: no_nul_def)
  moreover have "take (i + 1) (dest[i := c]) = take i dest @ [c]" using Cons.prems by (simp add: take_Suc_conv_app_nth)
  ultimately show ?case using Cons.prems by (auto simp: no_nul_def)
qed

lemma cstr_of_eq: "no_nul s \<Longrightarrow> cstr_of (s @ 0 # r) = s"
  by (induction s) (auto simp: cstr_of_def no_nul_def)

end
