(* ===== verification/ContainerManager.thy ===== *)
theory ContainerManager
  imports JsonText Ulib
begin

text \<open>
  The container manager (\<open>cm.h\<close>): reading the description of a container and starting it.
  The results of the system calls are arguments.  \<open>t0\<close> is what the array of tokens on the stack
  holds before it is written, \<open>malloc j n\<close> the block that the \<open>j\<close>th allocation of \<open>n\<close> bytes
  returns, \<open>None\<close> for the null pointer.  The model is \<open>None\<close> where the code reads outside of
  an array or an entry of \<open>specs\<close> that was never set.
\<close>

section \<open>Operations\<close>

text \<open>\<open>json + i\<close>\<close>

definition ptr_at :: "byte list \<Rightarrow> int \<Rightarrow> byte list option" where
  "ptr_at json i = (if 0 \<le> i \<and> i \<le> int (length json) then Some (drop (nat i) json) else None)"

definition jsoneq :: "byte list \<Rightarrow> jsmntok \<Rightarrow> byte list \<Rightarrow> int option" where
  "jsoneq json tok s =
     (if tok_type tok = JSMN_STRING then do {
        n \<leftarrow> strlen_u s;
        if int n = tok_end tok - tok_start tok then do {
          p \<leftarrow> ptr_at json (tok_start tok);
          r \<leftarrow> strncmp_u p s (tok_end tok - tok_start tok);
          Some (if r = 0 then 0 else -1)
        } else Some (-1)
      } else Some (-1))"

text \<open>The three comparisons of the loop.\<close>

definition is_spec_key :: "byte list \<Rightarrow> jsmntok \<Rightarrow> bool option" where
  "is_spec_key buffer tok = do {
     a \<leftarrow> jsoneq buffer tok (ascii ''init'' @ [0]);
     if a = 0 then Some True
     else do {
       b \<leftarrow> jsoneq buffer tok (ascii ''fs'' @ [0]);
       if b = 0 then Some True
       else do {
         c \<leftarrow> jsoneq buffer tok (ascii ''nproc'' @ [0]);
         Some (c = 0)
       }
     }
   }"

text \<open>One entry: allocate a block and copy the value token \<open>tok\<close> into it.\<close>

definition copy_spec :: "(nat \<Rightarrow> nat \<Rightarrow> byte list option) \<Rightarrow> nat \<Rightarrow> byte list \<Rightarrow> jsmntok \<Rightarrow> byte list option option" where
  "copy_spec malloc j buffer tok = do {
     let len = tok_end tok - tok_start tok;
     if len < 0 then None
     else case malloc (j + 1) (nat len + 1) of
         None \<Rightarrow> Some None
       | Some blk \<Rightarrow> do {
           src \<leftarrow> ptr_at buffer (tok_start tok);
           blk \<leftarrow> safe_strcpy blk src len;
           blk \<leftarrow> iupd_opt blk len 0;
           Some (Some blk)
         }
   }"

function specs_loop :: "(nat \<Rightarrow> nat \<Rightarrow> byte list option) \<Rightarrow> byte list \<Rightarrow> jsmntok list \<Rightarrow> nat \<Rightarrow> nat \<Rightarrow> byte list list \<Rightarrow> byte list list option option" where
  "specs_loop malloc buffer t count i specs =
     (if i < count \<and> length specs < 3 then do {
        tok \<leftarrow> nth_opt t i;
        m \<leftarrow> is_spec_key buffer tok;
        if m then do {
          val \<leftarrow> nth_opt t (i + 1);
          r \<leftarrow> copy_spec malloc (length specs) buffer val;
          case r of
            None \<Rightarrow> Some None
          | Some s \<Rightarrow> specs_loop malloc buffer t count (i + 2) (specs @ [s])
        } else specs_loop malloc buffer t count (i + 1) specs
      } else Some (Some specs))"
  by auto
termination by (relation "measure (\<lambda>(malloc, buffer, t, count, i, specs). count - i)") auto

text \<open>\<open>fd\<close>, \<open>(n_read, bytes)\<close> and \<open>closed\<close> are the results of \<open>open\<close>, \<open>read\<close> and \<open>close\<close>.\<close>

definition parse_specs :: "(nat \<Rightarrow> nat \<Rightarrow> byte list option) \<Rightarrow> jsmntok list \<Rightarrow> int \<Rightarrow> int \<times> byte list \<Rightarrow> int \<Rightarrow> byte list list option option" where
  "parse_specs malloc t0 fd rd closed =
     (if fd < 0 then Some None
      else case rd of (n_read, bytes) \<Rightarrow>
        if n_read < 0 then Some None
        else if closed < 0 then Some None
        else do {
          let buffer = bytes @ [0];
          n \<leftarrow> strlen_u buffer;
          (count, _, t) \<leftarrow> jsmn_parse jsmn_init buffer n (Some t0) 128;
          t \<leftarrow> t;
          tok \<leftarrow> nth_opt t 0;
          if count < 1 \<or> tok_type tok \<noteq> JSMN_OBJECT then Some None
          else case malloc 0 12 of
              None \<Rightarrow> Some None
            | Some _ \<Rightarrow> specs_loop malloc buffer t (nat count) 1 []
        })"

text \<open>
  The system calls \<open>containerstart\<close> makes, in order.  \<open>addr j\<close> is the address of \<open>specs[j]\<close>; the
  other arguments are the results of \<open>fork\<close>, \<open>parse_specs\<close>, \<open>chdir\<close> and
  \<open>cm_create_and_enter\<close>, and whether \<open>exec\<close> comes back.
\<close>

datatype ucall = CmSetroot "byte list" int | Chdir "byte list" | CmMaxproc uint | CmCreateEnter
  | Exec "byte list" "byte list list" | Printf "byte list" | Wait | Exit

definition containerstart :: "int \<Rightarrow> byte list list option option \<Rightarrow> (nat \<Rightarrow> uint) \<Rightarrow> int \<Rightarrow> int \<Rightarrow> bool \<Rightarrow> ucall list option" where
  "containerstart pid specs addr chdir_r ce_r exec_back =
     (if pid < 0 then Some [Printf (ascii ''Fork failed'' @ [10])]
      else if pid > 0 then Some [Wait]
      else do {
        specs \<leftarrow> specs;
        case specs of
          None \<Rightarrow> Some [Printf (ascii ''Failed to parse JSON file'' @ [10]), Exit]
        | Some specs \<Rightarrow> do {
            fs \<leftarrow> nth_opt specs 1;
            n \<leftarrow> strlen_u fs;
            let calls = [CmSetroot (cstr_of fs) (int n), Chdir (cstr_of fs)];
            if chdir_r \<noteq> 0 then
              Some (calls @ [Printf (ascii ''Failed to change directory to '' @ cstr_of fs @ [10]), Exit])
            else do {
              _ \<leftarrow> nth_opt specs 2;
              let calls = calls @ [CmMaxproc (addr 2), CmCreateEnter];
              if ce_r < 0 then
                Some (calls @ [Printf (ascii ''Failed to set namespace (c and e syscall)'' @ [10]), Exit])
              else do {
                cmd \<leftarrow> nth_opt specs 0;
                let calls = calls @ [Exec (cstr_of cmd) [cstr_of cmd]];
                Some (if exec_back then calls @ [Printf (ascii ''Exec failed'' @ [10]), Exit] else calls)
              }
            }
          }
      })"

section \<open>Reading one entry\<close>

declare specs_loop.simps [simp del]

lemma covers_append:
  assumes "covers txt t s"
  shows "covers (txt @ r) t s"
proof -
  have "nat (tok_start t) + length s \<le> length txt" using assms by (auto simp: covers_def)
  then show ?thesis using assms by (auto simp: covers_def)
qed

lemma covers_ptr:
  assumes "covers txt t s"
  shows "\<exists>r. ptr_at txt (tok_start t) = Some (s @ r)"
proof -
  have "drop (nat (tok_start t)) txt = s @ drop (length s) (drop (nat (tok_start t)) txt)"
    using assms by (metis append_take_drop_id covers_def)
  then show ?thesis using assms by (auto simp: ptr_at_def covers_def)
qed

lemma covers_no_nul: "covers txt t s \<Longrightarrow> no_nul txt \<Longrightarrow> no_nul s"
  unfolding covers_def no_nul_def by (metis in_set_dropD in_set_takeD)

lemma jsoneq_string:
  assumes "tok_rel txt t (AStr s)" "no_nul k"
  shows "jsoneq txt t (k @ [0]) = Some (if s = k then 0 else -1)"
proof -
  obtain r where r: "ptr_at txt (tok_start t) = Some (s @ r)" using covers_ptr [of "txt" t s] assms(1) by auto
  have l: "tok_end t - tok_start t = int (length s)" "tok_type t = JSMN_STRING" using assms(1) by (auto simp: covers_def)
  show ?thesis
  proof (cases "length k = length s")
    case True
    then obtain x where "strncmp_u (s @ r) (k @ [0]) (int (length s)) = Some x" "x = 0 \<longleftrightarrow> s = k"
      using strncmp_u_take [OF assms(2), of "s @ r" "[]"] by auto
    then show ?thesis using r l True strlen_u_eq [OF assms(2), of "[]"] by (auto simp: jsoneq_def)
  qed (use l strlen_u_eq [OF assms(2), of "[]"] in \<open>auto simp: jsoneq_def\<close>)
qed

lemma no_nul_keys [simp]: "no_nul (ascii ''init'')" "no_nul (ascii ''fs'')" "no_nul (ascii ''nproc'')"
  by (simp_all add: no_nul_def ascii_def)

lemma spec_key:
  assumes "tok_rel txt t (AStr s)"
  shows "is_spec_key txt t = Some (s \<in> {ascii ''init'', ascii ''fs'', ascii ''nproc''})"
  using jsoneq_string [OF assms] by (auto simp: is_spec_key_def)

definition well_behaved :: "(nat \<Rightarrow> nat \<Rightarrow> byte list option) \<Rightarrow> bool" where
  "well_behaved malloc \<longleftrightarrow> (\<forall>j n. \<exists>blk. malloc j n = Some blk \<and> n \<le> length blk)"

lemma copy_spec_value:
  assumes "covers txt t s" "no_nul s" "well_behaved malloc"
  shows "\<exists>blk. copy_spec malloc j txt t = Some (Some blk) \<and> cstr_of blk = s"
proof -
  obtain r where r: "ptr_at txt (tok_start t) = Some (s @ r)" using covers_ptr [OF assms(1)] by auto
  have l: "tok_end t - tok_start t = int (length s)" using assms(1) by (auto simp: covers_def)
  obtain blk where b: "malloc (j + 1) (length s + 1) = Some blk" "length s + 1 \<le> length blk"
    using assms(3) by (auto simp: well_behaved_def)
  have c: "safe_strcpy blk (s @ r) (int (length s)) = Some (s @ drop (length s) blk)"
    using safe_strcpy_loop_eq [OF assms(2), of 0 blk "int (length s)" r] b(2) by (simp add: safe_strcpy_def)
  obtain x y where d: "drop (length s) blk = x # y" using b(2) by (cases "drop (length s) blk") auto
  have "iupd_opt (s @ x # y) (int (length s)) 0 = Some (s @ 0 # y)" by simp
  then show ?thesis using r l b(1) c d cstr_of_eq [OF assms(2)] by (auto simp: copy_spec_def)
qed

lemma specs_loop_key:
  assumes "j = i + 1" "i' = i + 2" "j < count" "length specs < 3" "count \<le> length t"
    "tok_rel buffer (t ! i) (AStr k)" "k \<in> {ascii ''init'', ascii ''fs'', ascii ''nproc''}"
    "covers buffer (t ! j) s" "no_nul s" "well_behaved malloc"
  shows "\<exists>blk. cstr_of blk = s \<and> specs_loop malloc buffer t count i specs = specs_loop malloc buffer t count i' (specs @ [blk])"
proof -
  obtain blk where "copy_spec malloc (length specs) buffer (t ! j) = Some (Some blk)" "cstr_of blk = s"
    using copy_spec_value [OF assms(8-10)] by blast
  then show ?thesis using assms(1-5,7) spec_key [OF assms(6)]
    by (subst (1) specs_loop.simps) auto
qed

section \<open>Properties\<close>


text \<open>The description in \<open>cmspec.json\<close>.\<close>

definition cmspec :: "byte list" where
  "cmspec = 123 # (34 # ascii ''init'' @ 34 # 58 # (32 # 34 # ascii ''/sh'' @ [34]) @ 44 #
     ([32] @ 34 # ascii ''fs'' @ 34 # 58 # (32 # 34 # ascii ''/test'' @ [34]) @ 44 #
     ([32] @ 34 # ascii ''nproc'' @ 34 # 58 # 32 # ascii ''4''))) @ [125]"

lemma cmspec_text:
  "json_text (JObj [(ascii ''init'', JStr (ascii ''/sh'')), (ascii ''fs'', JStr (ascii ''/test'')), (ascii ''nproc'', JPrim (ascii ''4''))]) cmspec"
proof -
  have s: "json_text (JStr (ascii ''/sh'')) (32 # 34 # ascii ''/sh'' @ [34])" "json_text (JStr (ascii ''/test'')) (32 # 34 # ascii ''/test'' @ [34])"
    by (intro lead str; simp add: ws_def plain_def ascii_def)+
  have n: "json_text (JPrim (ascii ''4'')) (32 # ascii ''4'')"
    by (intro lead prim; simp add: ws_def bare_def ascii_def)
  have p: "plain (ascii ''init'')" "plain (ascii ''fs'')" "plain (ascii ''nproc'')" "list_all ws [32]" "list_all ws []"
    by (simp_all add: plain_def ascii_def ws_def)
  have "json_members [(ascii ''nproc'', JPrim (ascii ''4''))] ([32] @ 34 # ascii ''nproc'' @ 34 # 58 # 32 # ascii ''4'')"
    using member [OF p(4,3,5) n] by simp
  from obj [OF members [OF p(5,1,5) s(1) members [OF p(4,2,5) s(2) this]]] show ?thesis
    unfolding cmspec_def by simp
qed


end
