(* ===== verification/Grep.thy ===== *)
theory Grep
  imports Ulib
begin

text \<open>
  The pattern search of \<open>grep.c\<close>.  Patterns and lines are strings with their zero byte.  The
  input of \<open>grep\<close> is the list of the bytes that are still to be read, and \<open>ks\<close> says how many bytes
  the next calls of \<open>read\<close> return at most (\<open>k + 1\<close>, or as many as there is room for when the list
  is at its end).  \<open>out\<close> collects what is written to the standard output.
\<close>

section \<open>Operations\<close>

function matchhere :: "byte list \<Rightarrow> byte list \<Rightarrow> bool option"
  and matchstar :: "byte \<Rightarrow> byte list \<Rightarrow> byte list \<Rightarrow> bool option" where
  "matchhere [] line = None"
| "matchhere (r0 # re) line =
     (if r0 = 0 then Some True
      else case re of
        [] \<Rightarrow> None
      | r1 # re' \<Rightarrow>
          if r1 = 42 then matchstar r0 re' line
          else case line of
            [] \<Rightarrow> None
          | c # line' \<Rightarrow>
              if r0 = 36 \<and> r1 = 0 then Some (c = 0)
              else if c \<noteq> 0 \<and> (r0 = 46 \<or> r0 = c) then matchhere re line'
              else Some False)"
| "matchstar c re line =
     (case matchhere re line of
        None \<Rightarrow> None
      | Some True \<Rightarrow> Some True
      | Some False \<Rightarrow>
          (case line of
             [] \<Rightarrow> None
           | t # line' \<Rightarrow> if t \<noteq> 0 \<and> (t = c \<or> c = 46) then matchstar c re line' else Some False))"
  by pat_completeness auto
termination
  by (relation "measures [\<lambda>x. case x of Inl (re, line) \<Rightarrow> 2 * length re | Inr (c, re, line) \<Rightarrow> 2 * length re + 1,
       \<lambda>x. case x of Inl (re, line) \<Rightarrow> length line | Inr (c, re, line) \<Rightarrow> length line]") auto

fun match_loop :: "byte list \<Rightarrow> byte list \<Rightarrow> bool option" where
  "match_loop re [] = None"
| "match_loop re (c # line) =
     (case matchhere re (c # line) of
        None \<Rightarrow> None
      | Some m \<Rightarrow> if m then Some True else if c \<noteq> 0 then match_loop re line else Some False)"

definition match :: "byte list \<Rightarrow> byte list \<Rightarrow> bool option" where
  "match re line = do {
     c \<leftarrow> nth_opt re 0;
     if c = 94 then matchhere (tl re) line else match_loop re line
   }"

text \<open>The inner loop of \<open>grep\<close>, over the complete lines in the buffer from \<open>p\<close> on.\<close>

partial_function (option) lines_loop :: "byte list \<Rightarrow> byte list \<Rightarrow> nat \<Rightarrow> byte list \<Rightarrow> (byte list \<times> nat \<times> byte list) option" where
  "lines_loop pattern buf p out = do {
     q \<leftarrow> strchr (drop p buf) 10;
     case q of
       None \<Rightarrow> Some (buf, p, out)
     | Some d \<Rightarrow> do {
         let q = p + d;
         buf \<leftarrow> upd_opt buf q 0;
         m \<leftarrow> match pattern (drop p buf);
         if m then do {
           buf \<leftarrow> upd_opt buf q 10;
           lines_loop pattern buf (q + 1) (out @ take (q + 1 - p) (drop p buf))
         } else lines_loop pattern buf (q + 1) out
       }
   }"

definition store_at :: "byte list \<Rightarrow> nat \<Rightarrow> byte list \<Rightarrow> byte list option" where
  "store_at buf m xs =
     (if m + length xs \<le> length buf then Some (take m buf @ xs @ drop (m + length xs) buf) else None)"

partial_function (option) grep_loop ::
  "byte list \<Rightarrow> nat list \<Rightarrow> byte list \<Rightarrow> nat \<Rightarrow> byte list \<Rightarrow> byte list \<Rightarrow> byte list option" where
  "grep_loop pattern ks buf m inp out = do {
     let room = 1024 - m - 1;
     let chunk = take (min room (case ks of [] \<Rightarrow> room | k # _ \<Rightarrow> k + 1)) inp;
     let n = length chunk;
     if n > 0 then do {
       buf \<leftarrow> store_at buf m chunk;
       let m = m + n;
       buf \<leftarrow> upd_opt buf m 0;
       (buf, p, out) \<leftarrow> lines_loop pattern buf 0 out;
       let m = (if p = 0 then 0 else m);
       if m > 0 then do {
         let m = m - p;
         buf \<leftarrow> memmove_u buf 0 p m;
         grep_loop pattern (tl ks) buf m (drop n inp) out
       } else grep_loop pattern (tl ks) buf m (drop n inp) out
     } else Some out
   }"

definition grep :: "byte list \<Rightarrow> nat list \<Rightarrow> byte list \<Rightarrow> byte list \<Rightarrow> byte list option" where
  "grep pattern ks buf inp = grep_loop pattern ks buf 0 inp []"

section \<open>The language of a pattern\<close>

text \<open>
  A pattern is a list of atoms, a character or any character, once or any number of times; a
  dollar sign at its end asks for the end of the line.
\<close>

datatype atom = One byte | Star byte

fun atoms :: "byte list \<Rightarrow> atom list" where
  "atoms [] = []"
| "atoms [c] = (if c = 36 then [] else [One c])"
| "atoms (c # d # re) = (if d = 42 then Star c # atoms re else One c # atoms (d # re))"

fun anchored :: "byte list \<Rightarrow> bool" where
  "anchored [] = False"
| "anchored [c] = (c = 36)"
| "anchored (c # d # re) = (if d = 42 then anchored re else anchored (d # re))"

definition accepts :: "byte \<Rightarrow> byte \<Rightarrow> bool" where
  "accepts p c \<longleftrightarrow> p = 46 \<or> p = c"

fun lang :: "atom list \<Rightarrow> byte list set" where
  "lang [] = {[]}"
| "lang (One p # as) = {c # w |c w. accepts p c \<and> w \<in> lang as}"
| "lang (Star p # as) = {u @ w |u w. list_all (accepts p) u \<and> w \<in> lang as}"

text \<open>Some prefix of the line is in the language; with a dollar sign, the whole line.\<close>

definition prefix_in :: "byte list \<Rightarrow> byte list \<Rightarrow> bool" where
  "prefix_in re line \<longleftrightarrow> (\<exists>u v. line = u @ v \<and> u \<in> lang (atoms re) \<and> (anchored re \<longrightarrow> v = []))"

definition search :: "byte list \<Rightarrow> byte list \<Rightarrow> bool" where
  "search re line \<longleftrightarrow>
     (if re \<noteq> [] \<and> hd re = 94 then prefix_in (tl re) line
      else \<exists>x y. line = x @ y \<and> prefix_in re y)"

lemma prefix_in_star:
  "prefix_in (p # 42 # re) line \<longleftrightarrow> (\<exists>u v. line = u @ v \<and> list_all (accepts p) u \<and> prefix_in re v)"
proof
  assume "prefix_in (p # 42 # re) line"
  then obtain x v where x: "line = x @ v" "x \<in> lang (atoms (p # 42 # re))" "anchored (p # 42 # re) \<longrightarrow> v = []"
    unfolding prefix_in_def by blast
  then obtain a w where "x = a @ w" "list_all (accepts p) a" "w \<in> lang (atoms re)" by auto
  then show "\<exists>u v. line = u @ v \<and> list_all (accepts p) u \<and> prefix_in re v" using x(1,3) unfolding prefix_in_def by auto
next
  assume "\<exists>u v. line = u @ v \<and> list_all (accepts p) u \<and> prefix_in re v"
  then obtain u w v where w: "line = u @ w @ v" "list_all (accepts p) u" "w \<in> lang (atoms re)" "anchored re \<longrightarrow> v = []"
    unfolding prefix_in_def by blast
  then have "line = (u @ w) @ v" "u @ w \<in> lang (atoms (p # 42 # re))" "anchored (p # 42 # re) \<longrightarrow> v = []" by auto
  then show "prefix_in (p # 42 # re) line" unfolding prefix_in_def by blast
qed

lemma prefix_in_one:
  assumes "d \<noteq> 42"
  shows "prefix_in (p # d # re) line \<longleftrightarrow> (\<exists>c w. line = c # w \<and> accepts p c \<and> prefix_in (d # re) w)"
proof
  assume "prefix_in (p # d # re) line"
  then obtain x v where x: "line = x @ v" "x \<in> lang (atoms (p # d # re))" "anchored (p # d # re) \<longrightarrow> v = []"
    unfolding prefix_in_def by blast
  then obtain c w where "x = c # w" "accepts p c" "w \<in> lang (atoms (d # re))" using assms by auto
  then show "\<exists>c w. line = c # w \<and> accepts p c \<and> prefix_in (d # re) w" using x(1,3) assms unfolding prefix_in_def by auto
next
  assume "\<exists>c w. line = c # w \<and> accepts p c \<and> prefix_in (d # re) w"
  then obtain c w v where w: "line = c # w @ v" "accepts p c" "w \<in> lang (atoms (d # re))" "anchored (d # re) \<longrightarrow> v = []"
    unfolding prefix_in_def by (metis append_Cons)
  then have "line = (c # w) @ v" "c # w \<in> lang (atoms (p # d # re))" "anchored (p # d # re) \<longrightarrow> v = []" using assms by auto
  then show "prefix_in (p # d # re) line" unfolding prefix_in_def by blast
qed

lemma prefix_in_star_Cons:
  "prefix_in (c # 42 # re) (t # line) \<longleftrightarrow> prefix_in re (t # line) \<or> accepts c t \<and> prefix_in (c # 42 # re) line"
proof
  assume "prefix_in (c # 42 # re) (t # line)"
  then obtain u v where u: "t # line = u @ v" "list_all (accepts c) u" "prefix_in re v" by (auto simp: prefix_in_star)
  then show "prefix_in re (t # line) \<or> accepts c t \<and> prefix_in (c # 42 # re) line"
    by (cases u) (auto simp: prefix_in_star)
next
  assume "prefix_in re (t # line) \<or> accepts c t \<and> prefix_in (c # 42 # re) line"
  then obtain u v where "t # line = u @ v" "list_all (accepts c) u" "prefix_in re v"
    unfolding prefix_in_star by (metis append_Cons append_Nil list.pred_inject)
  then show "prefix_in (c # 42 # re) (t # line)" by (auto simp: prefix_in_star)
qed

lemma prefix_in_last:
  "prefix_in [] line" "prefix_in [p] line \<longleftrightarrow> (if p = 36 then line = [] else \<exists>c w. line = c # w \<and> accepts p c)"
proof -
  show "prefix_in [] line" by (simp add: prefix_in_def)
  show "prefix_in [p] line \<longleftrightarrow> (if p = 36 then line = [] else \<exists>c w. line = c # w \<and> accepts p c)"
    by (cases line) (auto simp: prefix_in_def intro: exI [of _ "[hd line]"])
qed

section \<open>The matcher finds the language\<close>

lemma matchstar_eq:
  assumes "no_nul line" and here: "\<And>line. no_nul line \<Longrightarrow> matchhere (re @ [0]) (line @ 0 # z) = Some (prefix_in re line)"
  shows "matchstar c (re @ [0]) (line @ 0 # z) = Some (prefix_in (c # 42 # re) line)"
  using assms(1)
proof (induction line)
  case Nil
  then show ?case using here [of "[]"] by (auto simp: prefix_in_star no_nul_def split: bool.split)
next
  case (Cons t line)
  then have IH: "matchstar c (re @ [0]) (line @ 0 # z) = Some (prefix_in (c # 42 # re) line)" "t \<noteq> 0"
    by (auto simp: no_nul_def)
  have "prefix_in (c # 42 # re) (t # line) \<longleftrightarrow> prefix_in re (t # line) \<or> accepts c t \<and> prefix_in (c # 42 # re) line"
    by (rule prefix_in_star_Cons)
  then show ?case using here [OF Cons.prems] IH by (auto simp: accepts_def split: bool.split)
qed

lemma matchhere_eq:
  assumes "no_nul re" "no_nul line"
  shows "matchhere (re @ [0]) (line @ 0 # z) = Some (prefix_in re line)"
  using assms
proof (induction re arbitrary: line rule: atoms.induct)
  case 1
  then show ?case by (simp add: prefix_in_last)
next
  case (2 c)
  then show ?case by (cases line) (auto simp: prefix_in_last accepts_def no_nul_def)
next
  case (3 c d re)
  show ?case
  proof (cases "d = 42")
    case True
    have "matchstar c (re @ [0]) (line @ 0 # z) = Some (prefix_in (c # 42 # re) line)"
      using 3 True by (intro matchstar_eq) (auto simp: no_nul_def)
    then show ?thesis using True 3 by (auto simp: no_nul_def)
  next
    case False
    have "matchhere ((d # re) @ [0]) (w @ 0 # z) = Some (prefix_in (d # re) w)" if "no_nul w" for w
      using 3 False that by (intro "3.IH"(2)) (auto simp: no_nul_def)
    then show ?thesis using False 3(3,4) by (cases line) (auto simp: no_nul_def prefix_in_one accepts_def)
  qed
qed

lemma match_loop_eq:
  assumes "no_nul re" "no_nul line"
  shows "match_loop (re @ [0]) (line @ 0 # z) = Some (\<exists>x y. line = x @ y \<and> prefix_in re y)"
  using assms(2)
proof (induction line)
  case Nil
  then show ?case using matchhere_eq [OF assms(1), of "[]" z] by (auto simp: no_nul_def)
next
  case (Cons c line)
  have "(\<exists>x y. c # line = x @ y \<and> prefix_in re y) \<longleftrightarrow> prefix_in re (c # line) \<or> (\<exists>x y. line = x @ y \<and> prefix_in re y)"
    by (metis append_Cons append_Nil append_eq_Cons_conv)
  then show ?case using matchhere_eq [OF assms(1) Cons.prems, of z] Cons by (auto simp: no_nul_def)
qed

lemma match_eq:
  assumes "no_nul re" "no_nul line"
  shows "match (re @ [0]) (line @ 0 # z) = Some (search re line)"
proof (cases "re \<noteq> [] \<and> hd re = 94")
  case True
  then obtain re' where "re = 94 # re'" by (cases re) auto
  then show ?thesis using matchhere_eq [of re' line z] assms by (simp add: match_def search_def no_nul_def)
next
  case False
  then have "hd (re @ [0]) \<noteq> 94" by (cases re) auto
  then show ?thesis using match_loop_eq [OF assms, of z] False by (auto simp: match_def search_def hd_conv_nth)
qed

section \<open>The lines of the input\<close>

definition unl :: "byte list list \<Rightarrow> byte list" where
  "unl ls = concat (map (\<lambda>l. l @ [10]) ls)"

definition one_line :: "byte list \<Rightarrow> bool" where
  "one_line l \<longleftrightarrow> 0 \<notin> set l \<and> 10 \<notin> set l"

lemma unl_simps [simp]: "unl [] = []" "unl (l # ls) = l @ 10 # unl ls" "unl (ls @ ls') = unl ls @ unl ls'"
  by (simp_all add: unl_def)

lemma unl_eq_Nil [simp]: "unl ls = [] \<longleftrightarrow> ls = []"
  by (cases ls) auto

lemma one_line_no_nul: "one_line l \<Longrightarrow> no_nul l"
  by (simp add: one_line_def no_nul_def)

lemma strchr_line: "one_line l \<Longrightarrow> strchr (l @ 10 # r) 10 = Some (Some (length l))"
  by (induction l) (auto simp: one_line_def)

lemma strchr_no_line: "one_line l \<Longrightarrow> strchr (l @ 0 # r) 10 = Some None"
  by (induction l) (auto simp: one_line_def)

lemma lines_loop_eq:
  assumes "list_all one_line ls" "one_line rest" "no_nul re" "drop p buf = unl ls @ rest @ 0 # z" "p \<le> length buf"
  shows "\<exists>buf'. lines_loop (re @ [0]) buf p out = Some (buf', p + length (unl ls), out @ unl (filter (search re) ls)) \<and>
    drop (p + length (unl ls)) buf' = rest @ 0 # z \<and> length buf' = length buf"
  using assms(1,4,5)
proof (induction ls arbitrary: p buf out)
  case Nil
  then show ?case using strchr_no_line [OF assms(2), of z] by (subst lines_loop.simps) auto
next
  case (Cons l ls)
  let ?r = "unl ls @ rest @ 0 # z" and ?q = "p + length l"
  have l: "one_line l" "no_nul l" and d: "drop p buf = l @ 10 # ?r" using Cons.prems one_line_no_nul by auto
  have len: "length buf = p + length l + 1 + length ?r"
    using arg_cong [OF d, of length] Cons.prems(3) by simp
  have b: "buf = take p buf @ l @ 10 # ?r" using d by (metis append_take_drop_id)
  have b0: "buf[?q := c] = take p buf @ l @ c # ?r" for c
    using b Cons.prems(3) by (metis append.assoc length_append length_take list_update_length min.absorb2)
  have p0: "drop p (buf[?q := c]) = l @ c # ?r" "drop (Suc ?q) (buf[?q := c]) = ?r" for c
    using Cons.prems(3) by (simp_all add: b0)
  have m: "match (re @ [0]) (l @ 0 # ?r) = Some (search re l)" by (rule match_eq [OF assms(3) l(2)])
  have s: "strchr (drop p buf) 10 = Some (Some (length l))" using d strchr_line [OF l(1)] by simp
  show ?case
  proof (cases "search re l")
    case True
    obtain buf' where IH: "lines_loop (re @ [0]) (buf[?q := 10]) (Suc ?q) (out @ l @ [10]) =
        Some (buf', Suc ?q + length (unl ls), (out @ l @ [10]) @ unl (filter (search re) ls))"
      "drop (Suc ?q + length (unl ls)) buf' = rest @ 0 # z" "length buf' = length buf"
      using Cons.IH [of "Suc ?q" "buf[?q := 10]" "out @ l @ [10]"] Cons.prems(1) p0(2) len by auto
    have "lines_loop (re @ [0]) buf p out = lines_loop (re @ [0]) (buf[?q := 10]) (Suc ?q) (out @ l @ [10])"
      using s m True len p0(1) by (subst lines_loop.simps) (simp add: Let_def)
    then show ?thesis using IH True by (simp add: algebra_simps)
  next
    case False
    obtain buf' where IH: "lines_loop (re @ [0]) (buf[?q := 0]) (Suc ?q) out =
        Some (buf', Suc ?q + length (unl ls), out @ unl (filter (search re) ls))"
      "drop (Suc ?q + length (unl ls)) buf' = rest @ 0 # z" "length buf' = length buf"
      using Cons.IH [of "Suc ?q" "buf[?q := 0]" out] Cons.prems(1) p0(2) len by auto
    have "lines_loop (re @ [0]) buf p out = lines_loop (re @ [0]) (buf[?q := 0]) (Suc ?q) out"
      using s m False len p0(1) by (subst lines_loop.simps) (simp add: Let_def)
    then show ?thesis using IH False by (simp add: algebra_simps)
  qed
qed

lemma memmove_u_down:
  assumes "src + n \<le> length a" "dst \<le> src"
  shows "\<exists>b. memmove_u a dst src n = Some b \<and> length b = length a \<and> (\<forall>k<n. b ! (dst + k) = a ! (src + k))"
proof -
  let ?I = "\<lambda>i b. length b = length a \<and> (\<forall>k<i. b ! (dst + k) = a ! (src + k)) \<and> (\<forall>k\<ge>dst + i. b ! k = a ! k)"
  have "\<exists>b. memmove_u a dst src n = Some b \<and> ?I (0 + n) b"
    unfolding memmove_u_def
  proof (rule for_from_total)
    fix i b
    assume i: "0 \<le> i" "i < 0 + n" "?I i b"
    then have "src + i < length b" "dst + i < length b" "b ! (src + i) = a ! (src + i)" using assms by auto
    then show "\<exists>b'. do { c \<leftarrow> nth_opt b (src + i); upd_opt b (dst + i) c } = Some b' \<and> ?I (Suc i) b'"
      using i by (auto simp: nth_list_update less_Suc_eq)
  qed auto
  then show ?thesis by auto
qed

text \<open>A prefix of the input consists of complete lines and the beginning of one more.\<close>

lemma prefix_lines:
  assumes "xs @ ys = unl ls @ rest" "list_all one_line ls" "one_line rest"
  shows "\<exists>ls1 ls2 r. ls = ls1 @ ls2 \<and> xs = unl ls1 @ r \<and> one_line r \<and> r @ ys = unl ls2 @ rest"
  using assms(1,2)
proof (induction ls arbitrary: xs)
  case Nil
  then show ?case using assms(3) by (auto simp: one_line_def)
next
  case (Cons l ls)
  show ?case
  proof (cases "length xs \<le> length l")
    case True
    then obtain z where "l = xs @ z" using Cons.prems(1) by (auto simp: append_eq_append_conv2)
    then show ?thesis using Cons.prems by (intro exI [of _ "[]"] exI [of _ "l # ls"] exI [of _ xs]) (auto simp: one_line_def)
  next
    case False
    then obtain us where "xs = l @ us" "us @ ys = 10 # unl ls @ rest" using Cons.prems(1) by (auto simp: append_eq_append_conv2)
    then obtain vs where v: "xs = l @ 10 # vs" "vs @ ys = unl ls @ rest" using False by (cases us) auto
    obtain ls1 ls2 r where "ls = ls1 @ ls2" "vs = unl ls1 @ r" "one_line r" "r @ ys = unl ls2 @ rest"
      using Cons.IH [OF v(2)] Cons.prems(2) by auto
    then show ?thesis using v(1) by (intro exI [of _ "l # ls1"] exI [of _ ls2] exI [of _ r]) auto
  qed
qed

section \<open>Reading\<close>

lemma store_at_eq: "m + length xs \<le> length buf \<Longrightarrow> store_at buf m xs = Some (take m buf @ xs @ drop (m + length xs) buf)"
  by (simp add: store_at_def)

text \<open>One round of the outer loop: the buffer holds \<open>pend\<close>, and \<open>chunk\<close> arrives.\<close>

lemma grep_round:
  assumes "length buf = 1024" "take (length pend) buf = pend" "chunk \<noteq> []" "length pend + length chunk \<le> 1023"
    "pend @ chunk = unl ls @ r" "list_all one_line ls" "one_line r" "no_nul re"
    "take (min (1023 - length pend) (case ks of [] \<Rightarrow> 1023 - length pend | k # _ \<Rightarrow> k + 1)) inp = chunk"
  shows "\<exists>buf'. length buf' = 1024 \<and>
    grep_loop (re @ [0]) ks buf (length pend) inp out =
      (if ls = [] then grep_loop (re @ [0]) (tl ks) buf' 0 (drop (length chunk) inp) out
       else grep_loop (re @ [0]) (tl ks) buf' (length r) (drop (length chunk) inp) (out @ unl (filter (search re) ls))) \<and>
    (ls \<noteq> [] \<longrightarrow> take (length r) buf' = r)"
proof -
  let ?m = "length pend" and ?n = "length chunk"
  define b1 where "b1 = (pend @ chunk @ drop (?m + ?n) buf)[?m + ?n := 0]"
  have s: "store_at buf ?m chunk = Some (pend @ chunk @ drop (?m + ?n) buf)"
    using assms(1,2,4) by (simp add: store_at_eq)
  obtain x y where xy: "drop (?m + ?n) buf = x # y" using assms(1,4) by (cases "drop (?m + ?n) buf") auto
  have "b1 = (pend @ chunk) @ 0 # y"
    using xy list_update_length [of "pend @ chunk" x y 0] by (simp add: b1_def)
  then have b1: "b1 = unl ls @ r @ 0 # y" using assms(5) by (metis append.assoc)
  have len: "length b1 = 1024" using assms(1,4) by (simp add: b1_def)
  obtain b2 where b2: "lines_loop (re @ [0]) b1 0 out = Some (b2, length (unl ls), out @ unl (filter (search re) ls))"
    "drop (length (unl ls)) b2 = r @ 0 # y" "length b2 = 1024"
    using lines_loop_eq [OF assms(6-8), of 0 b1 y out] b1 len by auto
  have mn: "?m + ?n = length (unl ls) + length r" using arg_cong [OF assms(5), of length] by simp
  have step: "grep_loop (re @ [0]) ks buf ?m inp out = (do {
       let p = length (unl ls);
       let out = out @ unl (filter (search re) ls);
       let m = (if p = 0 then 0 else ?m + ?n);
       if m > 0 then do {
         let m = m - p;
         buf \<leftarrow> memmove_u b2 0 p m;
         grep_loop (re @ [0]) (tl ks) buf m (drop ?n inp) out
       } else grep_loop (re @ [0]) (tl ks) b2 m (drop ?n inp) out
     })"
  proof -
    have e: "1024 - ?m - 1 = 1023 - ?m" by simp
    show ?thesis
      by (subst grep_loop.simps, unfold Let_def e assms(9)) (use assms(1,3,4) s b2(1) in \<open>simp add: b1_def [symmetric]\<close>)
  qed
  show ?thesis
  proof (cases "ls = []")
    case True
    then show ?thesis using step b2(3) by (intro exI [of _ b2]) simp
  next
    case False
    have "length (unl ls) + length r \<le> length b2" using b2(3) mn assms(4) by simp
    from memmove_u_down [OF this, of 0] obtain b3 where b3: "memmove_u b2 0 (length (unl ls)) (length r) = Some b3"
      "length b3 = 1024" "\<forall>k<length r. b3 ! k = b2 ! (length (unl ls) + k)"
      using b2(3) by auto
    have "b2 ! (length (unl ls) + k) = r ! k" if "k < length r" for k
      using arg_cong [OF b2(2), of "\<lambda>xs. xs ! k"] that b2(3) mn assms(4) by (simp add: nth_append)
    then have "take (length r) b3 = r" using b3(2,3) mn assms(4) by (intro nth_equalityI) auto
    then show ?thesis using step b3 mn False by (intro exI [of _ b3]) simp
  qed
qed

lemma grep_file:
  assumes "length buf = 1024" "take (length pend) buf = pend" "length pend \<le> 1022" "one_line pend"
    "pend @ inp = unl ls @ rest" "list_all one_line ls" "one_line rest" "\<forall>l\<in>set ls. length l \<le> 1022" "no_nul re"
  shows "grep_loop (re @ [0]) [] buf (length pend) inp out = Some (out @ unl (filter (search re) ls))"
  using assms(1-8)
proof (induction "length inp" arbitrary: buf pend inp ls rest out rule: less_induct)
  case less
  have newline_free: "ls' = []" if "one_line (unl ls' @ z)" for ls' z
    using that by (cases ls') (auto simp: one_line_def)
  show ?case
  proof (cases "inp = []")
    case True
    then have "ls = []" using less.prems(4,5) newline_free by simp
    then show ?thesis using True by (subst grep_loop.simps) simp
  next
    case False
    let ?k = "1023 - length pend"
    let ?chunk = "take ?k inp" and ?rest = "drop ?k inp"
    have e: "drop (length ?chunk) inp = ?rest" by (cases "?k \<le> length inp") auto
    have c: "?chunk \<noteq> []" "length pend + length ?chunk \<le> 1023" "?chunk @ ?rest = inp" "length ?rest < length inp"
      using less.prems(3) False by (auto, cases inp, auto)
    have "(pend @ ?chunk) @ ?rest = unl ls @ rest" using less.prems(5) c(3) by simp
    from prefix_lines [OF this less.prems(6,7)] obtain ls1 ls2 r where
      l: "ls = ls1 @ ls2" "pend @ ?chunk = unl ls1 @ r" "one_line r" "r @ ?rest = unl ls2 @ rest" by auto
    have ok: "list_all one_line ls1" "list_all one_line ls2" using l(1) less.prems(6) by auto
    have pre: "take (min ?k (case [] of [] \<Rightarrow> ?k | k # _ \<Rightarrow> k + 1)) inp = ?chunk" by simp
    obtain buf' where b: "length buf' = 1024" "ls1 \<noteq> [] \<longrightarrow> take (length r) buf' = r"
      "grep_loop (re @ [0]) [] buf (length pend) inp out =
        (if ls1 = [] then grep_loop (re @ [0]) [] buf' 0 ?rest out
         else grep_loop (re @ [0]) [] buf' (length r) ?rest (out @ unl (filter (search re) ls1)))"
      using grep_round [OF less.prems(1,2) c(1,2) l(2) ok(1) l(3) assms(9) pre, of out, unfolded e list.sel(2)] by blast
    show ?thesis
    proof (cases "ls1 = []")
      case True
      have "ls2 = []"
      proof (cases ls2)
        case (Cons a as)
        have "length r \<le> 1022"
        proof -
          have "length r \<le> length a"
          proof (rule ccontr)
            assume "\<not> length r \<le> length a"
            then have "(r @ ?rest) ! length a = r ! length a" "length a < length r" by (auto simp: nth_append)
            moreover have "(r @ ?rest) ! length a = 10" using l(4) Cons by simp
            ultimately show False using l(3) nth_mem [of "length a" r] by (simp add: one_line_def)
          qed
          then show ?thesis using less.prems(8) l(1) Cons by auto
        qed
        then have "length ?chunk < ?k" using arg_cong [OF l(2), of length] True less.prems(3) by auto
        then have "?rest = []" by auto
        then show ?thesis using l(3,4) newline_free [of ls2 rest] by simp
      qed simp
      then have "?rest = drop (length r) rest" using l(4) by (metis append.left_neutral append_eq_conv_conj unl_simps(1))
      then have "one_line ?rest" using less.prems(7) by (auto simp: one_line_def dest: in_set_dropD)
      then have "grep_loop (re @ [0]) [] buf' (length ([] :: byte list)) ?rest out = Some (out @ unl (filter (search re) []))"
        using b(1) less.prems(8) by (intro less.hyps [OF c(4), where rest = ?rest]) (auto simp: one_line_def)
      then show ?thesis using b(3) True l(1) \<open>ls2 = []\<close> by simp
    next
      case False
      then have "length r \<le> 1022" using arg_cong [OF l(2), of length] c(2) by (cases ls1) auto
      then have "grep_loop (re @ [0]) [] buf' (length r) ?rest (out @ unl (filter (search re) ls1)) =
          Some ((out @ unl (filter (search re) ls1)) @ unl (filter (search re) ls2))"
        using b(1,2) False l ok less.prems(7,8) by (intro less.hyps [OF c(4), where rest = rest]) auto
      then show ?thesis using b(3) False l(1) by simp
    qed
  qed
qed

section \<open>Properties\<close>

text \<open>
  Property C14.  The matcher decides the language of the pattern: \<open>match\<close> returns and says
  whether some part of the line is in the language of the pattern, at the beginning of the
  line for a pattern with \<open>^\<close> and up to its end for a pattern with \<open>$\<close>.
\<close>

theorem match_decides_language:
  assumes "no_nul re" "no_nul line"
  shows "match (re @ [0]) (line @ 0 # z) = Some (search re line)"
  using assms by (rule match_eq)

theorem match_decides_language_witness:
  "match ([97, 42, 98, 36] @ [0]) ([97, 97, 98] @ 0 # []) = Some (search [97, 42, 98, 36] [97, 97, 98]) \<and>
   search [97, 42, 98, 36] [97, 97, 98]"
proof -
  have "match ([97, 42, 98, 36] @ [0]) ([97, 97, 98] @ 0 # []) = Some True" by (simp add: match_def)
  then show ?thesis using match_decides_language [of "[97, 42, 98, 36]" "[97, 97, 98]" "[]"] by (simp add: no_nul_def)
qed

text \<open>
  Property C37.  On a file, where each \<open>read\<close> fills the buffer as long as there is input,
  \<open>grep\<close> returns and prints exactly the complete lines that match, in order and unchanged,
  provided that no line has more than 1022 characters and the file has no zero bytes.
\<close>

theorem grep_prints_matching_lines:
  assumes "list_all one_line ls" "one_line rest" "\<forall>l\<in>set ls. length l \<le> 1022" "no_nul re" "length buf = 1024"
  shows "grep (re @ [0]) [] buf (unl ls @ rest) = Some (unl (filter (search re) ls))"
  using grep_file [of buf "[]" "unl ls @ rest" ls rest re "[]"] assms by (simp add: grep_def one_line_def)

theorem grep_prints_matching_lines_witness:
  "grep ([98] @ [0]) [] (replicate 1024 0) (unl [[97, 98], [97]] @ [99]) = Some (unl (filter (search [98]) [[97, 98], [97]]))"
  using grep_prints_matching_lines [of "[[97, 98], [97]]" "[99]" "[98]" "replicate 1024 0"]
  by (simp add: one_line_def no_nul_def)

text \<open>
  Property C38.  When a \<open>read\<close> returns part of a line and no complete line, as it does for a
  pipe or the console, \<open>grep\<close> forgets that part: the rest of the input is searched as if it
  had not been there.
\<close>

theorem grep_drops_partial_line:
  assumes "one_line part" "part \<noteq> []" "length part \<le> 1023" "no_nul re" "length buf = 1024" "k + 1 = length part"
  shows "\<exists>buf'. length buf' = 1024 \<and> grep (re @ [0]) (k # ks) buf (part @ inp) = grep (re @ [0]) ks buf' inp"
proof -
  have "min 1023 (k + 1) = length part" using assms(3,6) by simp
  then show ?thesis using grep_round [of buf "[]" part "[]" part re "k # ks" "part @ inp" "[]"] assms
    by (auto simp: grep_def)
qed

theorem grep_drops_partial_line_witness:
  "\<exists>buf'. length buf' = 1024 \<and> grep ([98] @ [0]) (1 # []) (replicate 1024 0) ([97, 98] @ [99, 10]) = grep ([98] @ [0]) [] buf' [99, 10]"
  by (rule grep_drops_partial_line) (simp_all add: one_line_def no_nul_def)

end
