(* ===== verification/Tools.thy ===== *)
theory Tools
  imports Console Grep
begin

text \<open>
  The user program library's \<open>printf.c\<close> and small programs: \<open>wc.c\<close>, \<open>cat.c\<close>, \<open>echo.c\<close> and \<open>main\<close> of
  \<open>grep.c\<close>.  What a program prints is a list of bytes.  An open file is the list of what the calls
  of \<open>read\<close> on it return, with a flag for a last call that fails; opening a file is a function from
  names.  Messages for the error output are part of the list too.  The boolean in the result of a program says that it has called \<open>exit\<close> on an error.
\<close>

section \<open>printf\<close>

definition udigit :: "nat \<Rightarrow> byte" where
  "udigit d = of_char (''0123456789ABCDEF'' ! d)"

definition uprintint :: "uint \<Rightarrow> nat \<Rightarrow> bool \<Rightarrow> byte list" where
  "uprintint xx base sg =
     (let neg = sg \<and> sint xx < 0;
          x = (if neg then - xx else xx)
      in rev (map udigit (digits_rev base (unat x)) @ (if neg then [45] else [])))"

text \<open>
  An argument is an integer or a string, with \<open>None\<close> for the null pointer.  The format is given
  without its zero byte; a missing argument or one of the wrong type has the result \<open>None\<close>.
\<close>

datatype uarg = UInt uint | UStr "byte list option"

fun uprintf :: "byte list \<Rightarrow> uarg list \<Rightarrow> byte list option" where
  "uprintf [] args = Some []"
| "uprintf [c] args = (if c = 37 then Some [] else Some [c])"
| "uprintf (c # d # fmt) args =
     (if c \<noteq> 37 then map_option ((#) c) (uprintf (d # fmt) args)
      else if d = 100 then
        (case args of UInt x # args \<Rightarrow> map_option ((@) (uprintint x 10 True)) (uprintf fmt args) | _ \<Rightarrow> None)
      else if d = 120 \<or> d = 112 then
        (case args of UInt x # args \<Rightarrow> map_option ((@) (uprintint x 16 False)) (uprintf fmt args) | _ \<Rightarrow> None)
      else if d = 115 then
        (case args of
           UStr s # args \<Rightarrow>
             map_option ((@) (case s of None \<Rightarrow> map of_char ''(null)'' | Some s \<Rightarrow> takeWhile (\<lambda>b. b \<noteq> 0) s)) (uprintf fmt args)
         | _ \<Rightarrow> None)
      else if d = 99 then
        (case args of UInt x # args \<Rightarrow> map_option ((#) (ucast x)) (uprintf fmt args) | _ \<Rightarrow> None)
      else if d = 37 then map_option ((#) 37) (uprintf fmt args)
      else map_option (\<lambda>out. 37 # d # out) (uprintf fmt args))"

section \<open>wc\<close>

type_synonym ufile = "byte list list \<times> bool"

definition blank :: "byte \<Rightarrow> bool" where
  "blank b \<longleftrightarrow> (case strchr [32, 13, 9, 10, 11, 0] b of Some (Some _) \<Rightarrow> True | _ \<Rightarrow> False)"

definition wc_char :: "int \<times> int \<times> int \<times> bool \<Rightarrow> byte \<Rightarrow> int \<times> int \<times> int \<times> bool" where
  "wc_char x b =
     (let (l, w, c, inword) = x;
          c = c + 1;
          l = (if b = 10 then l + 1 else l)
      in if blank b then (l, w, c, False)
         else if \<not> inword then (l, w + 1, c, True)
         else (l, w, c, inword))"

fun wc_loop :: "byte list list \<Rightarrow> int \<times> int \<times> int \<times> bool \<Rightarrow> int \<times> int \<times> int \<times> bool" where
  "wc_loop [] x = x"
| "wc_loop (rd # rds) x = (if rd = [] then x else wc_loop rds (foldl wc_char x rd))"

definition wc :: "ufile \<Rightarrow> byte list \<Rightarrow> (byte list \<times> bool) option" where
  "wc fd name =
     (let (rds, fails) = fd;
          (l, w, c, inword) = wc_loop rds (0, 0, 0, False)
      in if fails then map_option (\<lambda>out. (out, True)) (uprintf (map of_char ''wc: read error'' @ [10]) [])
         else map_option (\<lambda>out. (out, False))
           (uprintf (map of_char ''%d %d %d %s'' @ [10]) [UInt (of_int l), UInt (of_int w), UInt (of_int c), UStr (Some name)]))"

text \<open>\<open>each\<close> runs a program on the files of the command line until one calls \<open>exit\<close>.\<close>

fun each ::
  "string \<Rightarrow> (byte list \<Rightarrow> 'f option) \<Rightarrow> ('f \<Rightarrow> byte list \<Rightarrow> (byte list \<times> bool) option) \<Rightarrow> byte list list \<Rightarrow> byte list option"
where
  "each prog opens run [] = Some []"
| "each prog opens run (name # names) =
     (case opens name of
        None \<Rightarrow> uprintf (map of_char (prog @ '': cannot open %s'') @ [10]) [UStr (Some name)]
      | Some fd \<Rightarrow> do {
          (out, stop) \<leftarrow> run fd name;
          if stop then Some out else map_option ((@) out) (each prog opens run names)
        })"

definition wc_main :: "ufile \<Rightarrow> (byte list \<Rightarrow> ufile option) \<Rightarrow> byte list list \<Rightarrow> byte list option" where
  "wc_main stdin opens names =
     (if names = [] then map_option fst (wc stdin []) else each ''wc'' opens wc names)"

section \<open>cat, echo and the main function of grep\<close>

text \<open>For \<open>cat\<close> each result of \<open>read\<close> comes with what \<open>write\<close> returns for it, the number of bytes it has written.\<close>

fun cat_loop :: "(byte list \<times> int) list \<Rightarrow> byte list \<times> bool" where
  "cat_loop [] = ([], False)"
| "cat_loop ((rd, wr) # rds) =
     (if rd = [] then ([], False)
      else if wr \<noteq> int (length rd) then (take (nat wr) rd @ map of_char ''cat: write error'' @ [10], True)
      else let (out, stop) = cat_loop rds in (rd @ out, stop))"

definition cat :: "(byte list \<times> int) list \<times> bool \<Rightarrow> byte list \<times> bool" where
  "cat fd =
     (let (rds, fails) = fd;
          (out, stop) = cat_loop rds
      in if stop then (out, True)
         else if fails then (out @ map of_char ''cat: read error'' @ [10], True)
         else (out, False))"

definition cat_main ::
  "(byte list \<times> int) list \<times> bool \<Rightarrow> (byte list \<Rightarrow> ((byte list \<times> int) list \<times> bool) option) \<Rightarrow> byte list list \<Rightarrow> byte list option"
where
  "cat_main stdin opens names =
     (if names = [] then Some (fst (cat stdin)) else each ''cat'' opens (\<lambda>fd name. Some (cat fd)) names)"

fun echo_main :: "byte list list \<Rightarrow> byte list option" where
  "echo_main [] = Some []"
| "echo_main (w # ws) = do {
     out \<leftarrow> uprintf [37, 115, 37, 115] [UStr (Some w), UStr (Some (if ws \<noteq> [] then [32] else [10]))];
     map_option ((@) out) (echo_main ws)
   }"

text \<open>
  A file of \<open>grep\<close> is the triple of the sizes of the pieces in which it is read, what the global
  buffer holds when \<open>grep\<close> starts on it, and its bytes.
\<close>

definition grep_main ::
  "nat list \<times> byte list \<times> byte list \<Rightarrow> (byte list \<Rightarrow> (nat list \<times> byte list \<times> byte list) option) \<Rightarrow> byte list list \<Rightarrow> byte list option"
where
  "grep_main stdin opens argv =
     (case argv of
        [] \<Rightarrow> uprintf (map of_char ''usage: grep pattern [file ...]'' @ [10]) []
      | pattern # names \<Rightarrow>
          let run = (\<lambda>(ks, buf, inp). grep (pattern @ [0]) ks buf inp)
          in if names = [] then run stdin
             else each ''grep'' opens (\<lambda>fd name. map_option (\<lambda>out. (out, False)) (run fd)) names)"

section \<open>Properties\<close>

lemma digits_rev_length: "x < 10 ^ Suc k \<Longrightarrow> length (digits_rev 10 x) \<le> Suc k"
proof (induction k arbitrary: x)
  case 0
  then show ?case by (subst digits_rev.simps) simp
next
  case (Suc k)
  from Suc.prems have "x div 10 < 10 ^ Suc k" by (simp add: div_less_iff_less_mult)
  from Suc.IH [OF this] show ?case by (subst digits_rev.simps) simp
qed

text \<open>The buffer of \<open>printint\<close> has sixteen characters; a decimal number needs at most eleven of them.\<close>

lemma uprintint_fits: "length (uprintint xx 10 sg) \<le> 11"
proof -
  have fits: "length (digits_rev 10 (unat x)) \<le> Suc 9" for x :: uint
    using unsigned_less [of x, where ?'a = nat] by (intro digits_rev_length) simp
  show ?thesis using fits [of xx] fits [of "- xx"] by (simp add: uprintint_def Let_def)
qed

lemma udigit_decimal: "d < 10 \<Longrightarrow> uint (udigit d) = digit_char d"
proof -
  assume "d < 10"
  then have "d \<in> {0, 1, 2, 3, 4, 5, 6, 7, 8, 9}" by auto
  then show ?thesis by (auto simp: udigit_def digit_char_def)
qed

lemma uprintint_decimal: "map uint (uprintint xx 10 sg) = printint_chars xx 10 sg"
  using digits_rev_less [of 10]
  by (auto simp: uprintint_def printint_chars_def Let_def rev_map [symmetric] udigit_decimal)

lemma uprintint_reads_back: "0 \<le> n \<Longrightarrow> n < 2 ^ 31 \<Longrightarrow> read_num 10 (map uint (uprintint (of_int n) 10 True)) = n"
  using printint_chars_value(1) [of 10 "of_int n" True]
  by (simp add: uprintint_decimal sint_sbintrunc' signed_take_bit_int_eq_self)

text \<open>A word begins at a character that is not blank and does not follow one that is not blank.\<close>

definition word_starts :: "byte list \<Rightarrow> nat" where
  "word_starts bs = length (filter (\<lambda>i. \<not> blank (bs ! i) \<and> (i = 0 \<or> blank (bs ! (i - 1)))) [0..<length bs])"

lemma word_starts_snoc:
  "word_starts (bs @ [b]) = word_starts bs + (if \<not> blank b \<and> (bs = [] \<or> blank (last bs)) then 1 else 0)"
proof -
  have old: "filter (\<lambda>i. \<not> blank ((bs @ [b]) ! i) \<and> (i = 0 \<or> blank ((bs @ [b]) ! (i - 1)))) [0..<length bs] =
    filter (\<lambda>i. \<not> blank (bs ! i) \<and> (i = 0 \<or> blank (bs ! (i - 1)))) [0..<length bs]"
    by (rule filter_cong) (auto simp: nth_append)
  have upt: "[0..<length (bs @ [b])] = [0..<length bs] @ [length bs]" by simp
  have prev: "(bs @ [b]) ! (length bs - 1) = last bs" if "bs \<noteq> []"
    using that by (simp add: nth_append last_conv_nth)
  show ?thesis unfolding word_starts_def upt filter_append length_append [of "filter _ _"] old using prev by auto
qed

lemma wc_chars:
  "foldl wc_char (0, 0, 0, False) bs =
     (int (length (filter (\<lambda>b. b = 10) bs)), int (word_starts bs), int (length bs), bs \<noteq> [] \<and> \<not> blank (last bs))"
  by (induction bs rule: rev_induct) (auto simp: wc_char_def Let_def word_starts_snoc, auto simp: word_starts_def)

lemma wc_loop_concat: "[] \<notin> set rds \<Longrightarrow> wc_loop (rds @ [] # r) x = foldl wc_char x (concat rds)"
  by (induction rds arbitrary: x) auto

lemma word_starts_le: "word_starts bs \<le> length bs"
  unfolding word_starts_def by (rule order_trans [OF length_filter_le]) simp

lemma uprintf_wc:
  "no_nul name \<Longrightarrow>
   uprintf (map of_char ''%d %d %d %s'' @ [10]) [UInt l, UInt w, UInt c, UStr (Some name)] =
     Some (uprintint l 10 True @ [32] @ uprintint w 10 True @ [32] @ uprintint c 10 True @ [32] @ name @ [10])"
  by (simp add: no_nul_def takeWhile_eq_all_conv) (metis)

lemma cat_copies:
  "\<forall>(rd, wr)\<in>set rds. rd \<noteq> [] \<and> wr = int (length rd) \<Longrightarrow> cat (rds @ ([], 0) # r, False) = (concat (map fst rds), False)"
  by (induction rds) (auto simp: cat_def Let_def split: prod.splits if_splits)

text \<open>
  Property C40.  However \<open>read\<close> splits the bytes of a file, \<open>wc\<close> prints three decimal numbers and
  the name of the file: the numbers of newline characters, of words and of bytes of the file.
\<close>

theorem wc_prints_counts:
  assumes "[] \<notin> set rds" and "length (concat rds) < 2 ^ 31" and "no_nul name"
  shows "\<exists>l w c. wc (rds @ [] # r, False) name = Some (l @ [32] @ w @ [32] @ c @ [32] @ name @ [10], False) \<and>
    read_num 10 (map uint l) = int (length (filter (\<lambda>b. b = 10) (concat rds))) \<and>
    read_num 10 (map uint w) = int (word_starts (concat rds)) \<and>
    read_num 10 (map uint c) = int (length (concat rds))"
proof -
  have small: "read_num 10 (map uint (uprintint (of_int (int n)) 10 True)) = int n" if "n \<le> length (concat rds)" for n
    using that assms(2) by (intro uprintint_reads_back) simp_all
  show ?thesis
    unfolding wc_def Let_def prod.case wc_loop_concat [OF assms(1)] wc_chars uprintf_wc [OF assms(3)]
    using small [OF length_filter_le] small [OF word_starts_le] small [OF order_refl] by (simp only: if_False) auto
qed

theorem wc_prints_counts_witness:
  "\<exists>l w c. wc ([[97, 32], [98, 99, 10]] @ [] # [], False) [102] = Some (l @ [32] @ w @ [32] @ c @ [32] @ [102] @ [10], False) \<and>
    read_num 10 (map uint l) = 1 \<and> read_num 10 (map uint w) = 2 \<and> read_num 10 (map uint c) = 5"
proof -
  have "\<not> blank 97" "blank 32" "\<not> blank 98" "\<not> blank 99" "blank 10" by (simp_all add: blank_def)
  then have w: "word_starts (concat [[97, 32], [98, 99, 10]]) = 2" by (simp add: word_starts_def upt_rec)
  have "[] \<notin> set [[97, 32], [98, 99, 10 :: byte]]" "length (concat [[97, 32], [98, 99, 10 :: byte]]) < 2 ^ 31" "no_nul [102]"
    by (simp_all add: no_nul_def)
  from wc_prints_counts [OF this, of "[]", unfolded w] show ?thesis by simp
qed

end
