(* ===== verification/Shell.thy ===== *)
theory Shell
  imports Ulib
begin

text \<open>
  The command parser of the shell (\<open>sh.c\<close>).  The command line is an array \<open>buf\<close>; a pointer into
  it is an index, and \<open>es\<close> is the index of the zero byte.  A command is a tree; a word in it is the
  pair of its first index and the index after its last, as \<open>argv\<close> and \<open>eargv\<close> have them.
  A function that calls \<open>panic\<close> yields \<open>Inl\<close> of the message.  Reading outside of the array makes
  the model \<open>None\<close>.  The functions that call each other carry fuel, one unit per call; a call
  without fuel is \<open>None\<close>.  The calls of \<open>malloc\<close> are taken to succeed, as the code does.
\<close>

section \<open>Data\<close>

datatype cmd =
    ExecCmd "(nat \<times> nat) list"
  | RedirCmd cmd nat nat int int
  | PipeCmd cmd cmd
  | ListCmd cmd cmd
  | BackCmd cmd

abbreviation (input) MAXARGS :: nat where "MAXARGS \<equiv> 10"
abbreviation (input) O_RDONLY :: int where "O_RDONLY \<equiv> 0"
abbreviation (input) O_WRONLY_CREATE :: int where "O_WRONLY_CREATE \<equiv> 0x201"

definition whitespace :: "byte list" where
  "whitespace = [32, 9, 13, 10, 11]"

definition symbols :: "byte list" where
  "symbols = [60, 124, 62, 38, 59, 40, 41]"

text \<open>\<open>strchr(s, c) != 0\<close> for a string constant.\<close>

definition has :: "byte list \<Rightarrow> byte \<Rightarrow> bool" where
  "has s c = (case strchr (s @ [0]) c of Some (Some _) \<Rightarrow> True | _ \<Rightarrow> False)"

type_synonym 'a parse = "(string + 'a) option"

definition andthen :: "'a parse \<Rightarrow> ('a \<Rightarrow> 'b parse) \<Rightarrow> 'b parse" where
  "andthen m f = (case m of None \<Rightarrow> None | Some (Inl e) \<Rightarrow> Some (Inl e) | Some (Inr x) \<Rightarrow> f x)"

section \<open>Tokens\<close>

function skip_ws :: "byte list \<Rightarrow> nat \<Rightarrow> nat \<Rightarrow> nat option" where
  "skip_ws buf es s =
     (if s < es then do {
        c \<leftarrow> nth_opt buf s;
        if has whitespace c then skip_ws buf es (s + 1) else Some s
      } else Some s)"
  by auto
termination by (relation "measure (\<lambda>(buf, es, s). es - s)") auto

function word_end :: "byte list \<Rightarrow> nat \<Rightarrow> nat \<Rightarrow> nat option" where
  "word_end buf es s =
     (if s < es then do {
        c \<leftarrow> nth_opt buf s;
        if \<not> has whitespace c \<and> \<not> has symbols c then word_end buf es (s + 1) else Some s
      } else Some s)"
  by auto
termination by (relation "measure (\<lambda>(buf, es, s). es - s)") auto

text \<open>The token, where it starts and ends, and the new value of \<open>*ps\<close>.\<close>

definition gettoken :: "byte list \<Rightarrow> nat \<Rightarrow> nat \<Rightarrow> (byte \<times> nat \<times> nat \<times> nat) option" where
  "gettoken buf es ps = do {
     s \<leftarrow> skip_ws buf es ps;
     c \<leftarrow> nth_opt buf s;
     (ret, e) \<leftarrow>
       (if c = 0 then Some (0, s)
        else if c \<in> {124, 40, 41, 59, 38, 60} then Some (c, s + 1)
        else if c = 62 then do {
          d \<leftarrow> nth_opt buf (s + 1);
          Some (if d = 62 then (43, s + 2) else (62, s + 1))
        }
        else do {
          e \<leftarrow> word_end buf es s;
          Some (97, e)
        });
     s' \<leftarrow> skip_ws buf es e;
     Some (ret, s, e, s')
   }"

definition peek :: "byte list \<Rightarrow> nat \<Rightarrow> nat \<Rightarrow> byte list \<Rightarrow> (bool \<times> nat) option" where
  "peek buf es ps toks = do {
     s \<leftarrow> skip_ws buf es ps;
     c \<leftarrow> nth_opt buf s;
     Some (c \<noteq> 0 \<and> has toks c, s)
   }"

section \<open>Commands\<close>

definition redircmd :: "cmd \<Rightarrow> nat \<Rightarrow> nat \<Rightarrow> byte \<Rightarrow> cmd" where
  "redircmd cmd q eq tok =
     (if tok = 60 then RedirCmd cmd q eq O_RDONLY 0 else RedirCmd cmd q eq O_WRONLY_CREATE 1)"

partial_function (option) parseredirs :: "byte list \<Rightarrow> nat \<Rightarrow> cmd \<Rightarrow> nat \<Rightarrow> (cmd \<times> nat) parse" where
  "parseredirs buf es cmd ps = do {
     (b, ps) \<leftarrow> peek buf es ps [60, 62];
     if b then do {
       (tok, _, _, ps) \<leftarrow> gettoken buf es ps;
       (a, q, eq, ps) \<leftarrow> gettoken buf es ps;
       if a \<noteq> 97 then Some (Inl ''missing file for redirection'')
       else parseredirs buf es (redircmd cmd q eq tok) ps
     } else Some (Inr (cmd, ps))
   }"

text \<open>\<open>cmd->argv[argc] = q; cmd->eargv[argc] = eq\<close> for the \<open>execcmd\<close> inside of the redirections \<open>ret\<close>.\<close>

fun add_arg :: "cmd \<Rightarrow> nat \<Rightarrow> nat \<Rightarrow> cmd" where
  "add_arg (ExecCmd args) q eq = ExecCmd (args @ [(q, eq)])"
| "add_arg (RedirCmd c f e mode fd) q eq = RedirCmd (add_arg c q eq) f e mode fd"
| "add_arg c q eq = c"

partial_function (option) args_loop :: "byte list \<Rightarrow> nat \<Rightarrow> nat \<Rightarrow> cmd \<Rightarrow> nat \<Rightarrow> (cmd \<times> nat) parse" where
  "args_loop buf es argc ret ps = do {
     (b, ps) \<leftarrow> peek buf es ps [124, 41, 38, 59];
     if b then Some (Inr (ret, ps))
     else do {
       (tok, q, eq, ps) \<leftarrow> gettoken buf es ps;
       if tok = 0 then Some (Inr (ret, ps))
       else if tok \<noteq> 97 then Some (Inl ''syntax'')
       else if argc + 1 \<ge> MAXARGS then Some (Inl ''too many args'')
       else do {
         r \<leftarrow> parseredirs buf es (add_arg ret q eq) ps;
         case r of
           Inl e \<Rightarrow> Some (Inl e)
         | Inr (ret, ps) \<Rightarrow> args_loop buf es (argc + 1) ret ps
       }
     }
   }"

text \<open>\<open>while (peek(ps, es, "&"))\<close>\<close>

partial_function (option) back_loop :: "byte list \<Rightarrow> nat \<Rightarrow> cmd \<Rightarrow> nat \<Rightarrow> (cmd \<times> nat) option" where
  "back_loop buf es cmd ps = do {
     (b, ps) \<leftarrow> peek buf es ps [38];
     if b then do {
       (_, _, _, ps) \<leftarrow> gettoken buf es ps;
       back_loop buf es (BackCmd cmd) ps
     } else Some (cmd, ps)
   }"

fun parseline :: "nat \<Rightarrow> byte list \<Rightarrow> nat \<Rightarrow> nat \<Rightarrow> (cmd \<times> nat) parse"
  and parsepipe :: "nat \<Rightarrow> byte list \<Rightarrow> nat \<Rightarrow> nat \<Rightarrow> (cmd \<times> nat) parse"
  and parseblock :: "nat \<Rightarrow> byte list \<Rightarrow> nat \<Rightarrow> nat \<Rightarrow> (cmd \<times> nat) parse"
  and parseexec :: "nat \<Rightarrow> byte list \<Rightarrow> nat \<Rightarrow> nat \<Rightarrow> (cmd \<times> nat) parse" where
  "parseline 0 buf es ps = None"
| "parseline (Suc n) buf es ps =
     andthen (parsepipe n buf es ps) (\<lambda>(cmd, ps). do {
       (cmd, ps) \<leftarrow> back_loop buf es cmd ps;
       (b, ps) \<leftarrow> peek buf es ps [59];
       if b then do {
         (_, _, _, ps) \<leftarrow> gettoken buf es ps;
         andthen (parseline n buf es ps) (\<lambda>(rest, ps). Some (Inr (ListCmd cmd rest, ps)))
       } else Some (Inr (cmd, ps))
     })"
| "parsepipe 0 buf es ps = None"
| "parsepipe (Suc n) buf es ps =
     andthen (parseexec n buf es ps) (\<lambda>(cmd, ps). do {
       (b, ps) \<leftarrow> peek buf es ps [124];
       if b then do {
         (_, _, _, ps) \<leftarrow> gettoken buf es ps;
         andthen (parsepipe n buf es ps) (\<lambda>(right, ps). Some (Inr (PipeCmd cmd right, ps)))
       } else Some (Inr (cmd, ps))
     })"
| "parseblock 0 buf es ps = None"
| "parseblock (Suc n) buf es ps = do {
     (b, ps) \<leftarrow> peek buf es ps [40];
     if \<not> b then Some (Inl ''parseblock'')
     else do {
       (_, _, _, ps) \<leftarrow> gettoken buf es ps;
       andthen (parseline n buf es ps) (\<lambda>(cmd, ps). do {
         (b, ps) \<leftarrow> peek buf es ps [41];
         if \<not> b then Some (Inl ''syntax - missing )'')
         else do {
           (_, _, _, ps) \<leftarrow> gettoken buf es ps;
           parseredirs buf es cmd ps
         }
       })
     }
   }"
| "parseexec 0 buf es ps = None"
| "parseexec (Suc n) buf es ps = do {
     (b, ps) \<leftarrow> peek buf es ps [40];
     if b then parseblock n buf es ps
     else andthen (parseredirs buf es (ExecCmd []) ps) (\<lambda>(ret, ps). args_loop buf es 0 ret ps)
   }"

definition zero_at :: "byte list \<Rightarrow> nat \<Rightarrow> byte list option" where
  "zero_at buf i = upd_opt buf i 0"

fun nulterminate :: "cmd \<Rightarrow> byte list \<Rightarrow> byte list option" where
  "nulterminate (ExecCmd args) buf = for_from (length args) 0 (\<lambda>i buf. zero_at buf (snd (args ! i))) buf"
| "nulterminate (RedirCmd c f e mode fd) buf = do {
     buf \<leftarrow> nulterminate c buf;
     zero_at buf e
   }"
| "nulterminate (PipeCmd l r) buf = do {
     buf \<leftarrow> nulterminate l buf;
     nulterminate r buf
   }"
| "nulterminate (ListCmd l r) buf = do {
     buf \<leftarrow> nulterminate l buf;
     nulterminate r buf
   }"
| "nulterminate (BackCmd c) buf = nulterminate c buf"

text \<open>
  Four units of fuel per character of the line, and four more, are enough: of any five nested
  calls at least one is made after a symbol has been consumed.
\<close>

definition parsecmd :: "byte list \<Rightarrow> (cmd \<times> byte list) parse" where
  "parsecmd buf = do {
     es \<leftarrow> strlen_u buf;
     andthen (parseline (4 * es + 4) buf es 0) (\<lambda>(cmd, s). do {
       (_, s) \<leftarrow> peek buf es s [];
       if s \<noteq> es then Some (Inl ''syntax'')
       else do {
         buf \<leftarrow> nulterminate cmd buf;
         Some (Inr (cmd, buf))
       }
     })
   }"

section \<open>Characters and positions\<close>

declare skip_ws.simps [simp del] word_end.simps [simp del] dropWhile_eq_Nil_conv [simp del]

lemma has_iff: "no_nul s \<Longrightarrow> has s c \<longleftrightarrow> c \<in> set s"
  using strchr_eq [of s "[]" c] by (simp add: has_def)

definition wsp :: "byte \<Rightarrow> bool" where
  "wsp c \<longleftrightarrow> c \<in> set whitespace"

definition wordc :: "byte \<Rightarrow> bool" where
  "wordc c \<longleftrightarrow> c \<notin> set whitespace \<and> c \<notin> set symbols"

lemma has_consts [simp]: "has whitespace c \<longleftrightarrow> wsp c" "has symbols c \<longleftrightarrow> c \<in> set symbols"
  by (simp_all add: has_iff no_nul_def whitespace_def symbols_def wsp_def)

text \<open>The line is \<open>s\<close>, and \<open>norm x\<close> is what is left of \<open>x\<close> after white space.\<close>

abbreviation norm :: "byte list \<Rightarrow> byte list" where
  "norm x \<equiv> dropWhile wsp x"

definition at :: "byte list \<Rightarrow> nat \<Rightarrow> byte list \<Rightarrow> bool" where
  "at s p x \<longleftrightarrow> p \<le> length s \<and> norm (drop p s) = norm x"

lemma drop_Cons: "drop p s = c # r \<Longrightarrow> p < length s \<and> s ! p = c \<and> drop (Suc p) s = r"
  by (metis Cons_nth_drop_Suc drop_all leI list.distinct(1) list.inject)

lemma norm_norm [simp]: "norm (norm x) = norm x"
  by (induction x) auto

lemma skip_ws_eq:
  assumes "p \<le> length s"
  shows "\<exists>q. skip_ws (s @ 0 # z) (length s) p = Some q \<and> p \<le> q \<and> q \<le> length s \<and> drop q s = norm (drop p s)"
  using assms
proof (induction "length s - p" arbitrary: p)
  case 0
  then show ?case by (subst skip_ws.simps) auto
next
  case (Suc k)
  then have p: "p < length s" and k: "k = length s - Suc p" by linarith+
  then have d: "drop p s = s ! p # drop (Suc p) s" by (simp add: Cons_nth_drop_Suc)
  show ?case
  proof (cases "wsp (s ! p)")
    case True
    then obtain q where "skip_ws (s @ 0 # z) (length s) (p + 1) = Some q" "p + 1 \<le> q" "q \<le> length s" "drop q s = norm (drop (Suc p) s)"
      using Suc.hyps(1) [of "p + 1"] p k by auto
    then show ?thesis using p True by (subst skip_ws.simps) (auto simp: d nth_append)
  next
    case False
    then show ?thesis using p by (subst skip_ws.simps) (auto simp: d nth_append)
  qed
qed

lemma nth_at:
  assumes "q \<le> length s" "no_nul s"
  shows "nth_opt (s @ 0 # z) q = Some (case drop q s of [] \<Rightarrow> 0 | c # _ \<Rightarrow> c)" "drop q s = c # r \<Longrightarrow> c \<noteq> 0"
proof -
  show "nth_opt (s @ 0 # z) q = Some (case drop q s of [] \<Rightarrow> 0 | c # _ \<Rightarrow> c)"
    using assms(1) by (cases "drop q s") (auto simp: nth_append dest!: drop_Cons)
  show "drop q s = c # r \<Longrightarrow> c \<noteq> 0"
    using assms(2) by (metis drop_Cons no_nul_def nth_mem)
qed

lemma peek_at:
  assumes "at s p x" "no_nul s" "no_nul toks"
  shows "\<exists>q. peek (s @ 0 # z) (length s) p toks = Some (norm x \<noteq> [] \<and> hd (norm x) \<in> set toks, q) \<and> at s q x \<and> p \<le> q \<and> drop q s = norm x"
proof -
  obtain q where q: "skip_ws (s @ 0 # z) (length s) p = Some q" "p \<le> q" "q \<le> length s" "drop q s = norm x"
    using skip_ws_eq [of p s z] assms(1) by (auto simp: at_def)
  have "at s q x" using q(3,4) by (simp add: at_def)
  then show ?thesis
    using q nth_at(1) [OF q(3) assms(2), of z] nth_at(2) [OF q(3) assms(2)] assms(3)
    by (cases "norm x") (auto simp: peek_def has_iff)
qed

text \<open>The bounds of a word in the line.\<close>

definition slice_ok :: "byte list \<Rightarrow> nat \<Rightarrow> nat \<Rightarrow> bool" where
  "slice_ok s q e \<longleftrightarrow> q < e \<and> e \<le> length s \<and> (\<forall>i. q \<le> i \<longrightarrow> i < e \<longrightarrow> wordc (s ! i)) \<and> (e < length s \<longrightarrow> \<not> wordc (s ! e))"

definition piece :: "byte list \<Rightarrow> nat \<Rightarrow> nat \<Rightarrow> byte list" where
  "piece s q e = take (e - q) (drop q s)"

lemma word_end_eq:
  assumes "q \<le> length s"
  shows "word_end (s @ 0 # z) (length s) q = Some (q + length (takeWhile wordc (drop q s)))"
  using assms
proof (induction "length s - q" arbitrary: q)
  case 0
  then show ?case by (subst word_end.simps) auto
next
  case (Suc k)
  then have q: "q < length s" and k: "k = length s - Suc q" by linarith+
  then have d: "drop q s = s ! q # drop (Suc q) s" by (simp add: Cons_nth_drop_Suc)
  have "word_end (s @ 0 # z) (length s) (q + 1) = Some (q + 1 + length (takeWhile wordc (drop (q + 1) s)))"
    using Suc.hyps(1) [of "q + 1"] q k by simp
  then show ?case using q by (subst word_end.simps) (auto simp: d nth_append wordc_def wsp_def)
qed

lemma slice_word:
  assumes "q < length s" "wordc (s ! q)"
  shows "slice_ok s q (q + length (takeWhile wordc (drop q s)))"
proof -
  let ?w = "takeWhile wordc (drop q s)"
  have n: "length ?w \<le> length s - q" by (metis length_drop length_takeWhile_le)
  have "0 < length ?w" using assms by (metis Cons_nth_drop_Suc length_greater_0_conv list.distinct(1) takeWhile.simps(2))
  moreover have "wordc (s ! i)" if "q \<le> i" "i < q + length ?w" for i
  proof -
    have "s ! i = ?w ! (i - q)" using that n by (simp add: takeWhile_nth)
    moreover have "i - q < length ?w" using that by linarith
    ultimately show ?thesis using set_takeWhileD [OF nth_mem] by metis
  qed
  moreover have "\<not> wordc (s ! (q + length ?w))" if "q + length ?w < length s"
    using nth_length_takeWhile [of wordc "drop q s"] that by simp
  ultimately show ?thesis using n assms(1) by (simp add: slice_ok_def)
qed

text \<open>The token at the beginning of a text without leading white space, and its length.\<close>

fun lexeme :: "byte list \<Rightarrow> byte \<times> nat" where
  "lexeme [] = (0, 0)"
| "lexeme (c # r) =
     (if c \<in> {124, 40, 41, 59, 38, 60} then (c, 1)
      else if c = 62 then (if r \<noteq> [] \<and> hd r = 62 then (43, 2) else (62, 1))
      else (97, length (takeWhile wordc (c # r))))"

lemma lexeme_length: "snd (lexeme x) \<le> length x"
proof (cases x)
  case (Cons c r)
  then show ?thesis using length_takeWhile_le [of wordc "c # r"] by (cases r) auto
qed simp

lemma gettoken_eq:
  assumes "at s p x" "no_nul s"
  shows "\<exists>q p'. gettoken (s @ 0 # z) (length s) p = Some (fst (lexeme (norm x)), q, q + snd (lexeme (norm x)), p') \<and>
    p \<le> q \<and> drop q s = norm x \<and> q \<le> length s \<and> q + snd (lexeme (norm x)) \<le> p' \<and> at s p' (drop (snd (lexeme (norm x))) (norm x))"
proof -
  obtain q where q: "skip_ws (s @ 0 # z) (length s) p = Some q" "p \<le> q" "q \<le> length s" "drop q s = norm x"
    using skip_ws_eq [of p s z] assms(1) by (auto simp: at_def)
  let ?n = "snd (lexeme (norm x))"
  have le: "q + ?n \<le> length s" using lexeme_length [of "norm x"] q(3) arg_cong [OF q(4), of length] by simp
  obtain p' where p': "skip_ws (s @ 0 # z) (length s) (q + ?n) = Some p'" "q + ?n \<le> p'" "p' \<le> length s"
    "drop p' s = norm (drop (q + ?n) s)"
    using skip_ws_eq [OF le, of z] by auto
  have "drop (q + ?n) s = drop ?n (norm x)" using arg_cong [OF q(4), of "drop ?n"] by (simp add: add.commute)
  then have at': "at s p' (drop ?n (norm x))" using p'(3,4) by (simp add: at_def)
  have c: "nth_opt (s @ 0 # z) q = Some (case norm x of [] \<Rightarrow> 0 | c # _ \<Rightarrow> c)"
    using nth_at(1) [OF q(3) assms(2), of z] q(4) by simp
  have "gettoken (s @ 0 # z) (length s) p = Some (fst (lexeme (norm x)), q, q + ?n, p')"
  proof (cases "norm x")
    case Nil
    then show ?thesis using q(1) c p'(1) by (simp add: gettoken_def)
  next
    case (Cons d r)
    have d: "q < length s" "drop (Suc q) s = r" and d0: "d \<noteq> 0"
      using drop_Cons [of q s d r] nth_at(2) [OF q(3) assms(2)] q(4) Cons by auto
    have e: "nth_opt (s @ 0 # z) (Suc q) = Some (case r of [] \<Rightarrow> 0 | c # _ \<Rightarrow> c)"
      using nth_at(1) [of "Suc q" s z] d assms(2) by simp
    have w: "word_end (s @ 0 # z) (length s) q = Some (q + length (takeWhile wordc (d # r)))"
      using word_end_eq [OF q(3), of z] q(4) Cons by simp
    have "(case r of [] \<Rightarrow> 0 | c # _ \<Rightarrow> c) = 62 \<longleftrightarrow> r \<noteq> [] \<and> hd r = 62" by (cases r) auto
    then show ?thesis using q(1) c p'(1) d0 e w unfolding Cons gettoken_def by (auto split: if_splits)
  qed
  then show ?thesis using q at' p'(2) by blast
qed

lemma norm_hd: "norm x = c # r \<Longrightarrow> \<not> wsp c"
  by (metis hd_dropWhile list.distinct(1) list.sel(1))

lemma lexeme_norm:
  assumes "norm x \<noteq> []"
  shows "0 < snd (lexeme (norm x))" "fst (lexeme (norm x)) = 97 \<longleftrightarrow> wordc (hd (norm x))" "fst (lexeme (norm x)) \<noteq> 0 \<or> hd (norm x) = 0"
proof -
  obtain c r where x: "norm x = c # r" using assms by (cases "norm x") auto
  have "wordc c \<longleftrightarrow> c \<notin> {124, 40, 41, 59, 38, 60, 62}" using norm_hd [OF x] by (auto simp: wordc_def wsp_def symbols_def)
  then show "0 < snd (lexeme (norm x))" "fst (lexeme (norm x)) = 97 \<longleftrightarrow> wordc (hd (norm x))" "fst (lexeme (norm x)) \<noteq> 0 \<or> hd (norm x) = 0"
    unfolding x by (auto split: if_splits)
qed

lemma gettoken_total:
  assumes "p \<le> length s" "no_nul s"
  shows "\<exists>ret q e p'. gettoken (s @ 0 # z) (length s) p = Some (ret, q, e, p') \<and> p \<le> p' \<and> p' \<le> length s \<and>
    (norm (drop p s) \<noteq> [] \<longrightarrow> p < p' \<and> ret \<noteq> 0) \<and> (ret = 97 \<longrightarrow> slice_ok s q e)"
proof -
  let ?x = "norm (drop p s)"
  have "at s p (drop p s)" using assms(1) by (simp add: at_def)
  from gettoken_eq [OF this assms(2), of z] obtain q p' where g: "gettoken (s @ 0 # z) (length s) p = Some (fst (lexeme ?x), q, q + snd (lexeme ?x), p')"
    "p \<le> q" "drop q s = ?x" "q \<le> length s" "q + snd (lexeme ?x) \<le> p'" "p' \<le> length s"
    by (auto simp: at_def)
  have nz: "?x \<noteq> [] \<Longrightarrow> hd ?x \<noteq> 0" using nth_at(2) [OF g(4) assms(2)] g(3) by (cases ?x) auto
  have "slice_ok s q (q + snd (lexeme ?x))" if a: "fst (lexeme ?x) = 97"
  proof -
    obtain c r where x: "?x = c # r" using a by (cases ?x) auto
    then have w: "wordc c" using lexeme_norm(2) [of "drop p s"] a by simp
    then have l: "snd (lexeme ?x) = length (takeWhile wordc (drop q s))"
      using x g(3) by (auto simp: wordc_def symbols_def split: if_splits)
    show ?thesis unfolding l using slice_word [of q s] drop_Cons [of q s c r] g(3) x w by simp
  qed
  then show ?thesis using g lexeme_norm(1,3) [of "drop p s"] nz by (auto)
qed

section \<open>The parser always returns\<close>

fun wf_cmd :: "byte list \<Rightarrow> cmd \<Rightarrow> bool" where
  "wf_cmd s (ExecCmd args) \<longleftrightarrow> length args < MAXARGS \<and> (\<forall>(q, e)\<in>set args. slice_ok s q e)"
| "wf_cmd s (RedirCmd c q e mode fd) \<longleftrightarrow> wf_cmd s c \<and> slice_ok s q e \<and> (mode, fd) \<in> {(O_RDONLY, 0), (O_WRONLY_CREATE, 1)}"
| "wf_cmd s (PipeCmd l r) \<longleftrightarrow> wf_cmd s l \<and> wf_cmd s r"
| "wf_cmd s (ListCmd l r) \<longleftrightarrow> wf_cmd s l \<and> wf_cmd s r"
| "wf_cmd s (BackCmd c) \<longleftrightarrow> wf_cmd s c"

text \<open>An \<open>execcmd\<close> with \<open>k\<close> arguments inside of redirections.\<close>

fun simple :: "cmd \<Rightarrow> nat \<Rightarrow> bool" where
  "simple (ExecCmd args) k \<longleftrightarrow> length args = k"
| "simple (RedirCmd c q e mode fd) k \<longleftrightarrow> simple c k"
| "simple c k \<longleftrightarrow> False"

definition messages :: "string set" where
  "messages = {''missing file for redirection'', ''syntax'', ''too many args'', ''parseblock'', ''syntax - missing )''}"

text \<open>The parser returns, with an error or with a command that satisfies \<open>P\<close> and a position after \<open>p\<close>.\<close>

definition returns :: "byte list \<Rightarrow> nat \<Rightarrow> (cmd \<Rightarrow> bool) \<Rightarrow> (cmd \<times> nat) parse \<Rightarrow> bool" where
  "returns s p P x \<longleftrightarrow> (\<exists>e\<in>messages. x = Some (Inl e)) \<or> (\<exists>c p'. x = Some (Inr (c, p')) \<and> p \<le> p' \<and> p' \<le> length s \<and> P c)"

lemma returns_Inl: "e \<in> messages \<Longrightarrow> returns s p P (Some (Inl e))"
  by (simp add: returns_def)

lemma returns_Inr: "p \<le> p' \<Longrightarrow> p' \<le> length s \<Longrightarrow> P c \<Longrightarrow> returns s p P (Some (Inr (c, p')))"
  by (simp add: returns_def)

lemma returns_mono: "returns s p' P x \<Longrightarrow> p \<le> p' \<Longrightarrow> (\<And>c. P c \<Longrightarrow> Q c) \<Longrightarrow> returns s p Q x"
  by (auto simp: returns_def)

lemma returns_andthen:
  assumes "returns s p P m" "\<And>c p'. p \<le> p' \<Longrightarrow> p' \<le> length s \<Longrightarrow> P c \<Longrightarrow> returns s p' Q (f (c, p'))"
  shows "returns s p Q (andthen m f)"
  using assms(1) unfolding returns_def
proof (elim disjE bexE exE conjE)
  fix e
  assume "e \<in> messages" "m = Some (Inl e)"
  then show "(\<exists>e\<in>messages. andthen m f = Some (Inl e)) \<or> (\<exists>c p'. andthen m f = Some (Inr (c, p')) \<and> p \<le> p' \<and> p' \<le> length s \<and> Q c)"
    by (auto simp: andthen_def)
next
  fix c p'
  assume m: "m = Some (Inr (c, p'))" "p \<le> p'" "p' \<le> length s" "P c"
  from returns_mono [OF assms(2) [OF m(2-4)] m(2)] m(1)
  show "(\<exists>e\<in>messages. andthen m f = Some (Inl e)) \<or> (\<exists>c p'. andthen m f = Some (Inr (c, p')) \<and> p \<le> p' \<and> p' \<le> length s \<and> Q c)"
    by (simp add: andthen_def returns_def)
qed

lemma messages_in [simp]:
  "''missing file for redirection'' \<in> messages" "''syntax'' \<in> messages" "''too many args'' \<in> messages"
  "''parseblock'' \<in> messages" "''syntax - missing )'' \<in> messages"
  by (simp_all add: messages_def)

lemma peek_total:
  assumes "p \<le> length s" "no_nul s" "no_nul toks"
  shows "\<exists>b q. peek (s @ 0 # z) (length s) p toks = Some (b, q) \<and> p \<le> q \<and> q \<le> length s \<and> (b \<longrightarrow> norm (drop q s) \<noteq> []) \<and>
    norm (drop q s) = norm (drop p s)"
  using peek_at [of s p "drop p s" toks z] assms by (auto simp: at_def)

lemma parseredirs_total:
  assumes "p \<le> length s" "no_nul s" "wf_cmd s c"
  shows "returns s p (\<lambda>c'. wf_cmd s c' \<and> (\<forall>k. simple c k \<longrightarrow> simple c' k)) (parseredirs (s @ 0 # z) (length s) c p)"
  using assms(1,3)
proof (induction "length s - p" arbitrary: p c rule: less_induct)
  case less
  obtain b q where b: "peek (s @ 0 # z) (length s) p [60, 62] = Some (b, q)" "p \<le> q" "q \<le> length s" "b \<longrightarrow> norm (drop q s) \<noteq> []"
    using peek_total [OF less.prems(1) assms(2), of "[60, 62]" z] by (auto simp: no_nul_def)
  show ?case
  proof (cases b)
    case False
    then show ?thesis using b less.prems by (subst parseredirs.simps) (auto intro: returns_Inr)
  next
    case True
    obtain t q1 e1 p1 where g1: "gettoken (s @ 0 # z) (length s) q = Some (t, q1, e1, p1)" "q < p1" "p1 \<le> length s"
      using gettoken_total [OF b(3) assms(2), of z] b(4) True by blast
    obtain a q2 e2 p2 where g2: "gettoken (s @ 0 # z) (length s) p1 = Some (a, q2, e2, p2)" "p1 \<le> p2" "p2 \<le> length s"
      "a = 97 \<longrightarrow> slice_ok s q2 e2"
      using gettoken_total [OF g1(3) assms(2), of z] by blast
    show ?thesis
    proof (cases "a = 97")
      case False
      then show ?thesis using b g1 g2 True by (subst parseredirs.simps) (simp add: returns_Inl)
    next
      case a: True
      have "wf_cmd s (redircmd c q2 e2 t)" using less.prems(2) g2(4) a by (simp add: redircmd_def)
      then have "returns s p2 (\<lambda>c'. wf_cmd s c' \<and> (\<forall>k. simple (redircmd c q2 e2 t) k \<longrightarrow> simple c' k))
          (parseredirs (s @ 0 # z) (length s) (redircmd c q2 e2 t) p2)"
        using less.prems(1) b(2) g1(2) g2(2,3) by (intro less.hyps) auto
      then have "returns s p (\<lambda>c'. wf_cmd s c' \<and> (\<forall>k. simple c k \<longrightarrow> simple c' k))
          (parseredirs (s @ 0 # z) (length s) (redircmd c q2 e2 t) p2)"
        by (rule returns_mono) (use b(2) g1(2) g2(2) in \<open>auto simp: redircmd_def split: if_splits\<close>)
      then show ?thesis using b g1 g2 True a by (subst parseredirs.simps) simp
    qed
  qed
qed

lemma add_arg_wf:
  assumes "simple c k" "wf_cmd s c" "slice_ok s q e" "k + 1 < MAXARGS"
  shows "simple (add_arg c q e) (k + 1)" "wf_cmd s (add_arg c q e)"
  using assms by (induction c) auto

lemma args_loop_total:
  assumes "p \<le> length s" "no_nul s" "wf_cmd s c" "simple c k" "k < MAXARGS"
  shows "returns s p (wf_cmd s) (args_loop (s @ 0 # z) (length s) k c p)"
  using assms(1,3-5)
proof (induction "length s - p" arbitrary: p c k rule: less_induct)
  case less
  obtain b q where b: "peek (s @ 0 # z) (length s) p [124, 41, 38, 59] = Some (b, q)" "p \<le> q" "q \<le> length s"
    using peek_total [OF less.prems(1) assms(2), of "[124, 41, 38, 59]" z] by (auto simp: no_nul_def)
  obtain t q1 e1 p1 where g: "gettoken (s @ 0 # z) (length s) q = Some (t, q1, e1, p1)" "q \<le> p1" "p1 \<le> length s"
    "norm (drop q s) \<noteq> [] \<longrightarrow> q < p1" "t = 97 \<longrightarrow> slice_ok s q1 e1"
    using gettoken_total [OF b(3) assms(2), of z] by blast
  consider "b \<or> t = 0" | "\<not> b" "t \<noteq> 0" "t \<noteq> 97" | "\<not> b" "t = 97" "k + 1 \<ge> MAXARGS" | "\<not> b" "t = 97" "k + 1 < MAXARGS"
    by linarith
  then show ?case
  proof cases
    case 1
    then show ?thesis using b g less.prems by (subst args_loop.simps) (auto intro: returns_Inr)
  next
    case 2
    then show ?thesis using b g by (subst args_loop.simps) (simp add: returns_Inl)
  next
    case 3
    then show ?thesis using b g by (subst args_loop.simps) (simp add: returns_Inl)
  next
    case 4
    let ?c = "add_arg c q1 e1"
    have "norm (drop q s) \<noteq> []"
    proof
      assume "norm (drop q s) = []"
      then have "fst (lexeme (norm (drop q s))) = 0" by simp
      then show False using gettoken_eq [of s q "drop q s" z] b(3) assms(2) g(1) 4 by (auto simp: at_def)
    qed
    then have lt: "q < p1" using g(4) by simp
    have wf: "simple ?c (k + 1)" "wf_cmd s ?c" using add_arg_wf [OF less.prems(3,2)] g(5) 4 by auto
    have "returns s p1 (\<lambda>c'. wf_cmd s c' \<and> (\<forall>k. simple ?c k \<longrightarrow> simple c' k)) (parseredirs (s @ 0 # z) (length s) ?c p1)"
      by (rule parseredirs_total [OF g(3) assms(2) wf(2)])
    then have "returns s p1 (wf_cmd s) (andthen (parseredirs (s @ 0 # z) (length s) ?c p1) (\<lambda>(c, p). args_loop (s @ 0 # z) (length s) (k + 1) c p))"
    proof (rule returns_andthen)
      fix c' p'
      assume c': "p1 \<le> p'" "p' \<le> length s" "wf_cmd s c' \<and> (\<forall>k. simple ?c k \<longrightarrow> simple c' k)"
      then show "returns s p' (wf_cmd s) (case (c', p') of (c, p) \<Rightarrow> args_loop (s @ 0 # z) (length s) (k + 1) c p)"
        using wf(1) 4(3) lt b(2) less.prems(1) by (auto intro!: less.hyps)
    qed
    then have "returns s p (wf_cmd s) (andthen (parseredirs (s @ 0 # z) (length s) ?c p1) (\<lambda>(c, p). args_loop (s @ 0 # z) (length s) (k + 1) c p))"
      by (rule returns_mono) (use lt b(2) in auto)
    then show ?thesis using b g 4 unfolding andthen_def
      by (subst args_loop.simps) (auto split: option.splits sum.splits simp: returns_def)
  qed
qed

lemma back_loop_total:
  assumes "p \<le> length s" "no_nul s" "wf_cmd s c"
  shows "\<exists>c' p'. back_loop (s @ 0 # z) (length s) c p = Some (c', p') \<and> p \<le> p' \<and> p' \<le> length s \<and> wf_cmd s c'"
  using assms(1,3)
proof (induction "length s - p" arbitrary: p c rule: less_induct)
  case less
  obtain b q where b: "peek (s @ 0 # z) (length s) p [38] = Some (b, q)" "p \<le> q" "q \<le> length s" "b \<longrightarrow> norm (drop q s) \<noteq> []"
    using peek_total [OF less.prems(1) assms(2), of "[38]" z] by (auto simp: no_nul_def)
  show ?case
  proof (cases b)
    case False
    then show ?thesis using b less.prems by (subst back_loop.simps) auto
  next
    case True
    obtain t q1 e1 p1 where g: "gettoken (s @ 0 # z) (length s) q = Some (t, q1, e1, p1)" "q < p1" "p1 \<le> length s"
      using gettoken_total [OF b(3) assms(2), of z] b(4) True by blast
    have m: "length s - p1 < length s - p" using g(2,3) b(2) by linarith
    obtain c' p' where "back_loop (s @ 0 # z) (length s) (BackCmd c) p1 = Some (c', p')" "p1 \<le> p'" "p' \<le> length s" "wf_cmd s c'"
      using less.hyps [OF m, of "BackCmd c"] less.prems(2) g(3) by auto
    then show ?thesis using b g True by (subst back_loop.simps) auto
  qed
qed

lemma token_after_peek:
  assumes "p \<le> length s" "no_nul s" "no_nul toks"
  shows "\<exists>b q. peek (s @ 0 # z) (length s) p toks = Some (b, q) \<and> p \<le> q \<and> q \<le> length s \<and>
    (b \<longrightarrow> (\<exists>t q1 e1 p1. gettoken (s @ 0 # z) (length s) q = Some (t, q1, e1, p1) \<and> p < p1 \<and> p1 \<le> length s))"
proof -
  obtain b q where b: "peek (s @ 0 # z) (length s) p toks = Some (b, q)" "p \<le> q" "q \<le> length s" "b \<longrightarrow> norm (drop q s) \<noteq> []"
    using peek_total [OF assms, of z] by blast
  moreover obtain t q1 e1 p1 where "gettoken (s @ 0 # z) (length s) q = Some (t, q1, e1, p1)" "norm (drop q s) \<noteq> [] \<longrightarrow> q < p1" "p1 \<le> length s"
    using gettoken_total [OF b(3) assms(2), of z] by blast
  ultimately show ?thesis by fastforce
qed

lemma parseexec_total_step:
  assumes "no_nul s" "p \<le> length s" "4 * (length s - p) + 1 \<le> n"
    and line: "\<And>n' p. n' < n \<Longrightarrow> p \<le> length s \<Longrightarrow> 4 * (length s - p) + 3 \<le> n' \<Longrightarrow> returns s p (wf_cmd s) (parseline n' (s @ 0 # z) (length s) p)"
  shows "returns s p (wf_cmd s) (parseexec n (s @ 0 # z) (length s) p)"
proof -
  obtain m where n: "n = Suc m" using assms(3) by (cases n) auto
  obtain b q where b: "peek (s @ 0 # z) (length s) p [40] = Some (b, q)" "p \<le> q" "q \<le> length s"
    "b \<longrightarrow> norm (drop q s) \<noteq> []" "norm (drop q s) = norm (drop p s)"
    using peek_total [OF assms(2,1), of "[40]" z] by (auto simp: no_nul_def)
  show ?thesis
  proof (cases b)
    case False
    have "returns s q (\<lambda>c'. wf_cmd s c' \<and> (\<forall>k. simple (ExecCmd []) k \<longrightarrow> simple c' k)) (parseredirs (s @ 0 # z) (length s) (ExecCmd []) q)"
      by (rule parseredirs_total [OF b(3) assms(1)]) simp
    then have "returns s q (wf_cmd s) (andthen (parseredirs (s @ 0 # z) (length s) (ExecCmd []) q) (\<lambda>(ret, ps). args_loop (s @ 0 # z) (length s) 0 ret ps))"
      by (rule returns_andthen) (auto intro!: args_loop_total assms(1))
    then show ?thesis using b(1) False n returns_mono [OF _ b(2)] by simp
  next
    case True
    have lt: "p < length s" using b(2,4) True by (metis b(3) drop_all dropWhile.simps(1) le_neq_implies_less order.trans)
    then obtain k where m: "m = Suc k" using assms(3) n by (cases m) auto
    obtain b' q' where b': "peek (s @ 0 # z) (length s) q [40] = Some (b', q')" "q \<le> q'" "q' \<le> length s"
      "b' \<longrightarrow> (\<exists>t q1 e1 p1. gettoken (s @ 0 # z) (length s) q' = Some (t, q1, e1, p1) \<and> q < p1 \<and> p1 \<le> length s)"
      using token_after_peek [OF b(3) assms(1), of "[40]" z] by (auto simp: no_nul_def)
    show ?thesis
    proof (cases b')
      case False
      then show ?thesis using b b' n m True by (simp add: returns_Inl)
    next
      case b'T: True
      then obtain t q1 e1 p1 where g: "gettoken (s @ 0 # z) (length s) q' = Some (t, q1, e1, p1)" "q < p1" "p1 \<le> length s"
        using b'(4) by auto
      have "returns s p1 (wf_cmd s) (parseline k (s @ 0 # z) (length s) p1)"
        using g(2,3) b(2) assms(3) n m lt by (intro line) auto
      then have "returns s p1 (wf_cmd s) (andthen (parseline k (s @ 0 # z) (length s) p1) (\<lambda>(cmd, ps). do {
           (b, ps) \<leftarrow> peek (s @ 0 # z) (length s) ps [41];
           if \<not> b then Some (Inl ''syntax - missing )'')
           else do {
             (_, _, _, ps) \<leftarrow> gettoken (s @ 0 # z) (length s) ps;
             parseredirs (s @ 0 # z) (length s) cmd ps
           } }))" (is "returns s p1 (wf_cmd s) (andthen _ ?f)")
      proof (rule returns_andthen)
        fix c p'
        assume c: "p1 \<le> p'" "p' \<le> length s" "wf_cmd s c"
        obtain b2 q2 where b2: "peek (s @ 0 # z) (length s) p' [41] = Some (b2, q2)"
          "b2 \<longrightarrow> (\<exists>t q1 e1 p1. gettoken (s @ 0 # z) (length s) q2 = Some (t, q1, e1, p1) \<and> p' < p1 \<and> p1 \<le> length s)"
          using token_after_peek [OF c(2) assms(1), of "[41]" z] by (auto simp: no_nul_def)
        show "returns s p' (wf_cmd s) (?f (c, p'))"
        proof (cases b2)
          case True
          then obtain t q3 e3 p3 where g3: "gettoken (s @ 0 # z) (length s) q2 = Some (t, q3, e3, p3)" "p' < p3" "p3 \<le> length s"
            using b2(2) by auto
          have "returns s p' (wf_cmd s) (parseredirs (s @ 0 # z) (length s) c p3)"
            using returns_mono [OF parseredirs_total [OF g3(3) assms(1) c(3)], of p' "wf_cmd s"] g3(2) by auto
          then show ?thesis using b2(1) True g3(1) by simp
        qed (use b2(1) in \<open>simp add: returns_Inl\<close>)
      qed
      then show ?thesis using b(1,2) b'(1) True b'T n m g returns_mono [of s p1 "wf_cmd s" _ p "wf_cmd s"] by simp
    qed
  qed
qed

lemma parse_total:
  assumes "no_nul s" "p \<le> length s"
  shows "4 * (length s - p) + 3 \<le> n \<Longrightarrow> returns s p (wf_cmd s) (parseline n (s @ 0 # z) (length s) p)"
    and "4 * (length s - p) + 2 \<le> n \<Longrightarrow> returns s p (wf_cmd s) (parsepipe n (s @ 0 # z) (length s) p)"
  using assms(2)
proof (induction n arbitrary: p rule: less_induct)
  case (less n)
  have exec: "returns s p (wf_cmd s) (parseexec m (s @ 0 # z) (length s) p)" if "m < n" "4 * (length s - p) + 1 \<le> m" "p \<le> length s" for m p
    using less.IH(1) that by (intro parseexec_total_step [OF assms(1)]) auto
  { case 1
    obtain m where n: "n = Suc m" using 1 by (cases n) auto
    have "returns s p (wf_cmd s) (parsepipe m (s @ 0 # z) (length s) p)" using less.IH(2) [of m p] 1 n by simp
    then show ?case unfolding n parseline.simps
    proof (rule returns_andthen)
      fix c p'
      assume c: "p \<le> p'" "p' \<le> length s" "wf_cmd s c"
      obtain c1 p1 where c1: "back_loop (s @ 0 # z) (length s) c p' = Some (c1, p1)" "p' \<le> p1" "p1 \<le> length s" "wf_cmd s c1"
        using back_loop_total [OF c(2) assms(1) c(3)] by blast
      obtain b q where b: "peek (s @ 0 # z) (length s) p1 [59] = Some (b, q)" "p1 \<le> q" "q \<le> length s"
        "b \<longrightarrow> (\<exists>t q1 e1 p2. gettoken (s @ 0 # z) (length s) q = Some (t, q1, e1, p2) \<and> p1 < p2 \<and> p2 \<le> length s)"
        using token_after_peek [OF c1(3) assms(1), of "[59]" z] by (auto simp: no_nul_def)
      show "returns s p' (wf_cmd s) (case (c, p') of (cmd, ps) \<Rightarrow> do {
          (cmd, ps) \<leftarrow> back_loop (s @ 0 # z) (length s) cmd ps;
          (b, ps) \<leftarrow> peek (s @ 0 # z) (length s) ps [59];
          if b then do {
            (_, _, _, ps) \<leftarrow> gettoken (s @ 0 # z) (length s) ps;
            andthen (parseline m (s @ 0 # z) (length s) ps) (\<lambda>(rest, ps). Some (Inr (ListCmd cmd rest, ps)))
          } else Some (Inr (cmd, ps)) })"
      proof (cases b)
        case True
        then obtain t q1 e1 p2 where g: "gettoken (s @ 0 # z) (length s) q = Some (t, q1, e1, p2)" "p1 < p2" "p2 \<le> length s"
          using b(4) by auto
        have "4 * (length s - p2) + 3 \<le> m" using 1 n c(1) c1(2) g(2,3) by linarith
        then have "returns s p2 (wf_cmd s) (parseline m (s @ 0 # z) (length s) p2)" using less.IH(1) [of m p2] g(3) n by simp
        then have "returns s p2 (wf_cmd s) (andthen (parseline m (s @ 0 # z) (length s) p2) (\<lambda>(rest, ps). Some (Inr (ListCmd c1 rest, ps))))"
          by (rule returns_andthen) (simp add: returns_Inr c1(4))
        then show ?thesis using b(1) c1(1,2) g True returns_mono [of s p2 "wf_cmd s" _ p' "wf_cmd s"] by simp
      qed (use b(1-3) c1 in \<open>auto intro: returns_Inr\<close>)
    qed
  next
    case 2
    obtain m where n: "n = Suc m" using 2 by (cases n) auto
    have "returns s p (wf_cmd s) (parseexec m (s @ 0 # z) (length s) p)" using exec [of m p] 2 n by simp
    then show ?case unfolding n parsepipe.simps
    proof (rule returns_andthen)
      fix c p'
      assume c: "p \<le> p'" "p' \<le> length s" "wf_cmd s c"
      obtain b q where b: "peek (s @ 0 # z) (length s) p' [124] = Some (b, q)" "p' \<le> q" "q \<le> length s"
        "b \<longrightarrow> (\<exists>t q1 e1 p2. gettoken (s @ 0 # z) (length s) q = Some (t, q1, e1, p2) \<and> p' < p2 \<and> p2 \<le> length s)"
        using token_after_peek [OF c(2) assms(1), of "[124]" z] by (auto simp: no_nul_def)
      show "returns s p' (wf_cmd s) (case (c, p') of (cmd, ps) \<Rightarrow> do {
          (b, ps) \<leftarrow> peek (s @ 0 # z) (length s) ps [124];
          if b then do {
            (_, _, _, ps) \<leftarrow> gettoken (s @ 0 # z) (length s) ps;
            andthen (parsepipe m (s @ 0 # z) (length s) ps) (\<lambda>(right, ps). Some (Inr (PipeCmd cmd right, ps)))
          } else Some (Inr (cmd, ps)) })"
      proof (cases b)
        case True
        then obtain t q1 e1 p2 where g: "gettoken (s @ 0 # z) (length s) q = Some (t, q1, e1, p2)" "p' < p2" "p2 \<le> length s"
          using b(4) by auto
        have "4 * (length s - p2) + 2 \<le> m" using 2 n c(1) g(2,3) by linarith
        then have "returns s p2 (wf_cmd s) (parsepipe m (s @ 0 # z) (length s) p2)" using less.IH(2) [of m p2] g(3) n by simp
        then have "returns s p2 (wf_cmd s) (andthen (parsepipe m (s @ 0 # z) (length s) p2) (\<lambda>(right, ps). Some (Inr (PipeCmd c right, ps))))"
          by (rule returns_andthen) (simp add: returns_Inr c(3))
        then show ?thesis using b(1) g True returns_mono [of s p2 "wf_cmd s" _ p' "wf_cmd s"] by simp
      qed (use b(1-3) c in \<open>auto intro: returns_Inr\<close>)
    qed
  }
qed

section \<open>Terminating the words\<close>

fun cmd_words :: "cmd \<Rightarrow> (nat \<times> nat) list" where
  "cmd_words (ExecCmd args) = args"
| "cmd_words (RedirCmd c q e mode fd) = cmd_words c @ [(q, e)]"
| "cmd_words (PipeCmd l r) = cmd_words l @ cmd_words r"
| "cmd_words (ListCmd l r) = cmd_words l @ cmd_words r"
| "cmd_words (BackCmd c) = cmd_words c"

lemma wf_cmd_words: "wf_cmd s c \<Longrightarrow> (q, e) \<in> set (cmd_words c) \<Longrightarrow> slice_ok s q e"
  by (induction c) auto

definition zeroed :: "nat set \<Rightarrow> byte list \<Rightarrow> byte list \<Rightarrow> bool" where
  "zeroed E buf buf' \<longleftrightarrow> length buf' = length buf \<and> (\<forall>i<length buf. buf' ! i = (if i \<in> E then 0 else buf ! i))"

lemma zeroed_trans: "zeroed E a b \<Longrightarrow> zeroed F b c \<Longrightarrow> zeroed (E \<union> F) a c"
  by (auto simp: zeroed_def)

lemma zero_at_zeroed: "e < length buf \<Longrightarrow> \<exists>buf'. zero_at buf e = Some buf' \<and> zeroed {e} buf buf'"
  by (auto simp: zero_at_def zeroed_def)

lemma nulterminate_zeroed:
  assumes "\<forall>(q, e)\<in>set (cmd_words c). e < length buf"
  shows "\<exists>buf'. nulterminate c buf = Some buf' \<and> zeroed (snd ` set (cmd_words c)) buf buf'"
  using assms
proof (induction c arbitrary: buf)
  case (ExecCmd args)
  let ?I = "\<lambda>i b. zeroed (snd ` set (take i args)) buf b"
  have "\<exists>b. for_from (length args) 0 (\<lambda>i buf. zero_at buf (snd (args ! i))) buf = Some b \<and> ?I (0 + length args) b"
  proof (rule for_from_total)
    show "?I 0 buf" by (simp add: zeroed_def)
    fix i b
    assume i: "0 \<le> i" "i < 0 + length args" "?I i b"
    have "case args ! i of (q, e) \<Rightarrow> e < length buf" using ExecCmd i(2) by simp
    then have "snd (args ! i) < length b" using i(3) by (simp add: case_prod_unfold zeroed_def)
    from zero_at_zeroed [OF this] obtain b' where b': "zero_at b (snd (args ! i)) = Some b'" "zeroed {snd (args ! i)} b b'" by auto
    then show "\<exists>b'. zero_at b (snd (args ! i)) = Some b' \<and> ?I (Suc i) b'"
      using zeroed_trans [OF i(3) b'(2)] i(2) by (simp add: take_Suc_conv_app_nth)
  qed
  then show ?case by simp
next
  case (RedirCmd c q e mode fd)
  obtain b where b: "nulterminate c buf = Some b" "zeroed (snd ` set (cmd_words c)) buf b" using RedirCmd by fastforce
  then have "e < length b" using RedirCmd.prems by (auto simp: zeroed_def)
  from zero_at_zeroed [OF this] obtain b' where b': "zero_at b e = Some b'" "zeroed {e} b b'" by auto
  then show ?case using b(1) zeroed_trans [OF b(2) b'(2)] by simp
next
  case (PipeCmd l r)
  obtain b where b: "nulterminate l buf = Some b" "zeroed (snd ` set (cmd_words l)) buf b" using PipeCmd.IH(1) [of buf] PipeCmd.prems by auto
  then obtain b' where b': "nulterminate r b = Some b'" "zeroed (snd ` set (cmd_words r)) b b'"
    using PipeCmd.IH(2) [of b] PipeCmd.prems by (auto simp: zeroed_def)
  then show ?case using b(1) zeroed_trans [OF b(2) b'(2)] by (simp add: image_Un)
next
  case (ListCmd l r)
  obtain b where b: "nulterminate l buf = Some b" "zeroed (snd ` set (cmd_words l)) buf b" using ListCmd.IH(1) [of buf] ListCmd.prems by auto
  then obtain b' where b': "nulterminate r b = Some b'" "zeroed (snd ` set (cmd_words r)) b b'"
    using ListCmd.IH(2) [of b] ListCmd.prems by (auto simp: zeroed_def)
  then show ?case using b(1) zeroed_trans [OF b(2) b'(2)] by (simp add: image_Un)
next
  case (BackCmd c)
  then show ?case by fastforce
qed

text \<open>After that each word of the command is a string of its own in the buffer.\<close>

lemma zeroed_word:
  assumes "zeroed E (s @ 0 # z) buf" "e \<in> E" "slice_ok s q e" "no_nul s" "\<And>e'. e' \<in> E \<Longrightarrow> e' < length s \<Longrightarrow> \<not> wordc (s ! e')"
  shows "cstr_of (drop q buf) = piece s q e"
proof -
  have q: "q < e" "e \<le> length s" "\<And>i. q \<le> i \<Longrightarrow> i < e \<Longrightarrow> wordc (s ! i)" using assms(3) by (auto simp: slice_ok_def)
  have len: "length buf = length s + 1 + length z" using assms(1) by (simp add: zeroed_def)
  have same: "buf ! i = s ! i" if "q \<le> i" "i < e" for i
  proof -
    have "i \<notin> E" using assms(5) [of i] q that by fastforce
    then show ?thesis using assms(1) q(2) that by (simp add: zeroed_def nth_append)
  qed
  have "buf ! e = 0" using assms(1,2) q(2) by (simp add: zeroed_def)
  moreover have "take (e - q) (drop q buf) = piece s q e"
    unfolding piece_def using same q len by (intro nth_equalityI) auto
  moreover have "drop q buf = take (e - q) (drop q buf) @ drop e buf"
    using append_take_drop_id [of "e - q" "drop q buf"] q(1) by simp
  moreover have "drop e buf = buf ! e # drop (Suc e) buf" using q(2) len by (simp add: Cons_nth_drop_Suc)
  moreover have "no_nul (piece s q e)"
    using assms(4) by (auto simp: piece_def no_nul_def dest!: in_set_takeD in_set_dropD)
  ultimately show ?thesis using cstr_of_eq by metis
qed

lemma nulterminate_words:
  assumes "wf_cmd s c" "no_nul s"
  shows "\<exists>buf. nulterminate c (s @ 0 # z) = Some buf \<and> (\<forall>(q, e)\<in>set (cmd_words c). cstr_of (drop q buf) = piece s q e)"
proof -
  have ok: "slice_ok s q e" if "(q, e) \<in> set (cmd_words c)" for q e using wf_cmd_words [OF assms(1) that] .
  then have "\<forall>(q, e)\<in>set (cmd_words c). e < length (s @ 0 # z)" by (fastforce simp: slice_ok_def)
  from nulterminate_zeroed [OF this] obtain buf where b: "nulterminate c (s @ 0 # z) = Some buf"
    "zeroed (snd ` set (cmd_words c)) (s @ 0 # z) buf" by auto
  have "\<not> wordc (s ! e)" if "e \<in> snd ` set (cmd_words c)" "e < length s" for e
    using that ok by (auto simp: slice_ok_def)
  then show ?thesis using b(1) zeroed_word [OF b(2) _ ok assms(2)] by (force simp: image_iff)
qed

section \<open>Properties of the parser\<close>

lemma parsecmd_result:
  assumes "no_nul s" "parseline (4 * length s + 4) (s @ 0 # z) (length s) 0 = Some (Inr (c, p))" "wf_cmd s c" "p \<le> length s"
  shows "if norm (drop p s) = [] then \<exists>buf. parsecmd (s @ 0 # z) = Some (Inr (c, buf)) \<and> (\<forall>(q, e)\<in>set (cmd_words c). cstr_of (drop q buf) = piece s q e)
    else parsecmd (s @ 0 # z) = Some (Inl ''syntax'')"
proof -
  obtain b q where b: "peek (s @ 0 # z) (length s) p [] = Some (b, q)" "q \<le> length s" "drop q s = norm (drop p s)"
    using peek_at [of s p "drop p s" "[]" z] assms(1,4) by (auto simp: at_def no_nul_def)
  have "q = length s \<longleftrightarrow> norm (drop p s) = []" using b(2,3) by auto
  then show ?thesis
    using b(1) assms(2) strlen_u_eq [OF assms(1), of z] nulterminate_words [OF assms(3,1), of z]
    by (auto simp: parsecmd_def andthen_def)
qed

text \<open>
  Property C36.  The parser returns for every command line, without reading outside of it: with
  one of its error messages, or with a command in which every word is a maximal run of ordinary
  characters of the line, a simple command has fewer than \<open>MAXARGS\<close> words, and after
  \<open>nulterminate\<close> every word is a string of its own in the buffer, unchanged.
\<close>

theorem parsecmd_well_formed:
  assumes "no_nul s"
  shows "(\<exists>e\<in>messages. parsecmd (s @ 0 # z) = Some (Inl e)) \<or>
    (\<exists>c buf. parsecmd (s @ 0 # z) = Some (Inr (c, buf)) \<and> wf_cmd s c \<and>
      (\<forall>(q, e)\<in>set (cmd_words c). cstr_of (drop q buf) = piece s q e))"
proof -
  have "returns s 0 (wf_cmd s) (parseline (4 * length s + 4) (s @ 0 # z) (length s) 0)"
    by (rule parse_total(1) [OF assms]) auto
  then consider e where "e \<in> messages" "parseline (4 * length s + 4) (s @ 0 # z) (length s) 0 = Some (Inl e)"
    | c p where "parseline (4 * length s + 4) (s @ 0 # z) (length s) 0 = Some (Inr (c, p))" "wf_cmd s c" "p \<le> length s"
    by (auto simp: returns_def)
  then show ?thesis
  proof cases
    case 1
    then show ?thesis using strlen_u_eq [OF assms, of z] by (auto simp: parsecmd_def andthen_def)
  next
    case 2
    then show ?thesis using parsecmd_result [OF assms, of z c p] by (auto split: if_splits)
  qed
qed

theorem parsecmd_well_formed_witness:
  "(\<exists>e\<in>messages. parsecmd ([108, 115, 59] @ 0 # []) = Some (Inl e)) \<or>
    (\<exists>c buf. parsecmd ([108, 115, 59] @ 0 # []) = Some (Inr (c, buf)) \<and> wf_cmd [108, 115, 59] c \<and>
      (\<forall>(q, e)\<in>set (cmd_words c). cstr_of (drop q buf) = piece [108, 115, 59] q e))"
  by (rule parsecmd_well_formed) (simp add: no_nul_def)

end
