(* ===== verification/ShellGrammar.thy ===== *)
theory ShellGrammar
  imports Shell
begin

text \<open>
  The language of the shell: command lines as a grammar, with any white space between their
  parts, and commands as trees over strings.  The parser of \<open>sh.c\<close> reads every line of the
  grammar as the command that the grammar assigns to it.
\<close>

section \<open>The grammar\<close>

datatype acmd =
    AExec "byte list list"
  | ARedir acmd "byte list" int int
  | APipe acmd acmd
  | AList acmd acmd
  | ABack acmd

datatype item = Word "byte list" | In "byte list" | Out "byte list" | App "byte list"

definition is_word :: "byte list \<Rightarrow> bool" where
  "is_word w \<longleftrightarrow> w \<noteq> [] \<and> list_all wordc w"

definition stop :: "byte list \<Rightarrow> bool" where
  "stop r \<longleftrightarrow> r = [] \<or> \<not> wordc (hd r)"

abbreviation spaces :: "byte list \<Rightarrow> bool" where
  "spaces u \<equiv> list_all wsp u"

inductive items_text :: "item list \<Rightarrow> byte list \<Rightarrow> bool" where
  none: "spaces u \<Longrightarrow> items_text [] u"
| word: "spaces u \<Longrightarrow> is_word w \<Longrightarrow> items_text is t \<Longrightarrow> stop t \<Longrightarrow> items_text (Word w # is) (u @ w @ t)"
| inp: "spaces u \<Longrightarrow> spaces v \<Longrightarrow> is_word f \<Longrightarrow> items_text is t \<Longrightarrow> stop t \<Longrightarrow> items_text (In f # is) (u @ 60 # v @ f @ t)"
| out: "spaces u \<Longrightarrow> spaces v \<Longrightarrow> is_word f \<Longrightarrow> items_text is t \<Longrightarrow> stop t \<Longrightarrow> items_text (Out f # is) (u @ 62 # v @ f @ t)"
| app: "spaces u \<Longrightarrow> spaces v \<Longrightarrow> is_word f \<Longrightarrow> items_text is t \<Longrightarrow> stop t \<Longrightarrow> items_text (App f # is) (u @ 62 # 62 # v @ f @ t)"

text \<open>A word is an argument of the innermost simple command; a redirection goes around the command.\<close>

fun add_word :: "acmd \<Rightarrow> byte list \<Rightarrow> acmd" where
  "add_word (AExec ws) w = AExec (ws @ [w])"
| "add_word (ARedir c f mode fd) w = ARedir (add_word c w) f mode fd"
| "add_word c w = c"

fun build :: "acmd \<Rightarrow> item list \<Rightarrow> acmd" where
  "build c [] = c"
| "build c (Word w # is) = build (add_word c w) is"
| "build c (In f # is) = build (ARedir c f O_RDONLY 0) is"
| "build c (Out f # is) = build (ARedir c f O_WRONLY_CREATE 1) is"
| "build c (App f # is) = build (ARedir c f O_WRONLY_CREATE 1) is"

fun n_words :: "item list \<Rightarrow> nat" where
  "n_words [] = 0"
| "n_words (Word w # is) = n_words is + 1"
| "n_words (_ # is) = n_words is"

inductive exec_text :: "acmd \<Rightarrow> byte list \<Rightarrow> bool"
  and pipe_text :: "acmd \<Rightarrow> byte list \<Rightarrow> bool"
  and back_text :: "acmd \<Rightarrow> byte list \<Rightarrow> bool"
  and line_text :: "acmd \<Rightarrow> byte list \<Rightarrow> bool" where
  exec: "items_text is t \<Longrightarrow> n_words is < MAXARGS \<Longrightarrow> exec_text (build (AExec []) is) t"
| block: "spaces u \<Longrightarrow> line_text c t \<Longrightarrow> items_text is v \<Longrightarrow> n_words is = 0 \<Longrightarrow> exec_text (build c is) (u @ 40 # t @ 41 # v)"
| pipe1: "exec_text c t \<Longrightarrow> pipe_text c t"
| pipe: "exec_text c t \<Longrightarrow> pipe_text d u \<Longrightarrow> pipe_text (APipe c d) (t @ 124 # u)"
| bg0: "pipe_text c t \<Longrightarrow> back_text c t"
| bg: "back_text c t \<Longrightarrow> spaces u \<Longrightarrow> back_text (ABack c) (t @ 38 # u)"
| line1: "back_text c t \<Longrightarrow> line_text c t"
| line: "back_text c t \<Longrightarrow> line_text d u \<Longrightarrow> line_text (AList c d) (t @ 59 # u)"

text \<open>The command that a tree stands for, when \<open>str q e\<close> is the word at \<open>(q, e)\<close>.\<close>

fun meaning :: "(nat \<Rightarrow> nat \<Rightarrow> byte list) \<Rightarrow> cmd \<Rightarrow> acmd" where
  "meaning str (ExecCmd args) = AExec (map (\<lambda>(q, e). str q e) args)"
| "meaning str (RedirCmd c q e mode fd) = ARedir (meaning str c) (str q e) mode fd"
| "meaning str (PipeCmd l r) = APipe (meaning str l) (meaning str r)"
| "meaning str (ListCmd l r) = AList (meaning str l) (meaning str r)"
| "meaning str (BackCmd c) = ABack (meaning str c)"

lemma meaning_add_arg [simp]: "meaning str (add_arg c q e) = add_word (meaning str c) (str q e)"
  by (induction c) auto

lemma meaning_redircmd:
  "meaning str (redircmd c q e t) = (if t = 60 then ARedir (meaning str c) (str q e) O_RDONLY 0
    else ARedir (meaning str c) (str q e) O_WRONLY_CREATE 1)"
  by (simp add: redircmd_def)

lemma meaning_cong: "\<forall>(q, e)\<in>set (cmd_words c). f q e = g q e \<Longrightarrow> meaning f c = meaning g c"
  by (induction c) auto

section \<open>Tokens of the grammar\<close>

lemma norm_spaces [simp]: "spaces u \<Longrightarrow> norm (u @ x) = norm x"
  by (induction u) auto

lemma at_spaces: "spaces u \<Longrightarrow> at s p (u @ x) = at s p x"
  by (simp add: at_def)

lemma wordc_not: "wordc c \<Longrightarrow> \<not> wsp c \<and> c \<notin> {124, 40, 41, 59, 38, 60, 62}"
  by (auto simp: wordc_def wsp_def symbols_def)

lemma symbol_not_wsp: "c \<in> {124, 40, 41, 59, 38, 60, 62} \<Longrightarrow> \<not> wsp c"
  by (auto simp: wsp_def whitespace_def)

lemma gettoken_symbol:
  assumes "at s p (c # x)" "c \<in> {124, 40, 41, 59, 38, 60}" "no_nul s"
  shows "\<exists>q e p'. gettoken (s @ 0 # z) (length s) p = Some (c, q, e, p') \<and> at s p' x"
proof -
  have "norm (c # x) = c # x" using assms(2) symbol_not_wsp by auto
  then show ?thesis using gettoken_eq [OF assms(1,3), of z] assms(2) by auto
qed

lemma word_norm: "is_word w \<Longrightarrow> norm (w @ x) = w @ x"
  by (cases w) (auto simp: is_word_def dest: wordc_not)

lemma gettoken_gt:
  assumes "at s p (62 # x)" "no_nul s" "is_word f" "spaces v" "x = v @ f @ y \<or> x = 62 # v @ f @ y"
  shows "\<exists>t q e p'. gettoken (s @ 0 # z) (length s) p = Some (t, q, e, p') \<and> t \<noteq> 60 \<and> at s p' (f @ y)"
proof -
  have n: "norm (62 # x) = 62 # x" using symbol_not_wsp [of 62] by auto
  obtain c f' where f: "f = c # f'" "wordc c" using assms(3) by (cases f) (auto simp: is_word_def)
  have "x = v @ f @ y \<Longrightarrow> x \<noteq> [] \<and> hd x \<noteq> 62"
    using f assms(4) wordc_not symbol_not_wsp [of 62] by (cases v) auto
  then have "\<exists>t k. lexeme (62 # x) = (t, k) \<and> t \<noteq> 60 \<and> drop k (62 # x) = v @ f @ y" using assms(5) by auto
  then show ?thesis using gettoken_eq [OF assms(1,2), of z] at_spaces [OF assms(4)] unfolding n by auto
qed

lemma gettoken_word:
  assumes "at s p (w @ x)" "no_nul s" "is_word w" "stop x"
  shows "\<exists>q e p'. gettoken (s @ 0 # z) (length s) p = Some (97, q, e, p') \<and> at s p' x \<and> piece s q e = w"
proof -
  obtain c w' where w: "w = c # w'" "wordc c" using assms(3) by (cases w) (auto simp: is_word_def)
  have "takeWhile wordc (w @ x) = w"
    using assms(3,4) by (cases x) (auto simp: is_word_def stop_def takeWhile_append list_all_iff)
  then have "lexeme (w @ x) = (97, length w)" using w wordc_not [OF w(2)] by auto
  then show ?thesis using gettoken_eq [OF assms(1,2), of z] word_norm [OF assms(3), of x] by (auto simp: piece_def)
qed

section \<open>Simple commands\<close>

definition follow :: "byte set \<Rightarrow> byte list \<Rightarrow> bool" where
  "follow S r \<longleftrightarrow> norm r = [] \<or> hd (norm r) \<in> S"

lemma peek_follow:
  assumes "at s p x" "no_nul s" "no_nul toks" "follow S x" "S \<inter> set toks = {}"
  shows "\<exists>q. peek (s @ 0 # z) (length s) p toks = Some (False, q) \<and> at s q x"
  using peek_at [OF assms(1-3), of z] assms(4,5) by (auto simp: follow_def)

lemma peek_head:
  assumes "at s p (c # x)" "no_nul s" "no_nul toks" "\<not> wsp c"
  shows "\<exists>q. peek (s @ 0 # z) (length s) p toks = Some (c \<in> set toks, q) \<and> at s q (c # x)"
  using peek_at [OF assms(1-3), of z] assms(4) by auto

lemma no_nul_toks [simp]: "no_nul [60, 62]" "no_nul [124, 41, 38, 59]" "no_nul [38]" "no_nul [59]" "no_nul [124]" "no_nul [40]" "no_nul [41]" "no_nul []"
  by (simp_all add: no_nul_def)

lemma redir_step:
  assumes "at s p (u @ c # v @ f @ x)" "no_nul s" "spaces u" "spaces v" "is_word f" "stop x" "c = 60 \<or> c = 62"
  shows "\<exists>q e t p'. at s p' x \<and> piece s q e = f \<and> (t = 60 \<longleftrightarrow> c = 60) \<and>
    parseredirs (s @ 0 # z) (length s) cmd p = parseredirs (s @ 0 # z) (length s) (redircmd cmd q e t) p'"
proof -
  obtain q where q: "peek (s @ 0 # z) (length s) p [60, 62] = Some (True, q)" "at s q (c # v @ f @ x)"
    using peek_head [of s p c "v @ f @ x" "[60, 62]" z] assms symbol_not_wsp [of c] by (auto simp: at_spaces)
  have "\<exists>t q1 e1 p1. gettoken (s @ 0 # z) (length s) q = Some (t, q1, e1, p1) \<and> (t = 60 \<longleftrightarrow> c = 60) \<and> at s p1 (f @ x)"
  proof (cases "c = 60")
    case True
    then show ?thesis using gettoken_symbol [OF q(2) _ assms(2), of z] assms(4) by (auto simp: at_spaces)
  next
    case False
    then show ?thesis using gettoken_gt [of s q "v @ f @ x" f v x z] q(2) assms by auto
  qed
  then obtain t q1 e1 p1 where g: "gettoken (s @ 0 # z) (length s) q = Some (t, q1, e1, p1)" "t = 60 \<longleftrightarrow> c = 60" "at s p1 (f @ x)" by blast
  obtain q2 e2 p2 where "gettoken (s @ 0 # z) (length s) p1 = Some (97, q2, e2, p2)" "at s p2 x" "piece s q2 e2 = f"
    using gettoken_word [OF g(3) assms(2,5,6), of z] by auto
  then show ?thesis using q(1) g(1,2) by (subst parseredirs.simps) auto
qed

lemma append_step:
  assumes "at s p (u @ 62 # 62 # v @ f @ x)" "no_nul s" "spaces u" "spaces v" "is_word f" "stop x"
  shows "\<exists>q e t p'. at s p' x \<and> piece s q e = f \<and> t \<noteq> 60 \<and>
    parseredirs (s @ 0 # z) (length s) cmd p = parseredirs (s @ 0 # z) (length s) (redircmd cmd q e t) p'"
proof -
  obtain q where q: "peek (s @ 0 # z) (length s) p [60, 62] = Some (True, q)" "at s q (62 # 62 # v @ f @ x)"
    using peek_head [of s p 62 "62 # v @ f @ x" "[60, 62]" z] assms symbol_not_wsp [of 62] by (auto simp: at_spaces)
  obtain t q1 e1 p1 where g: "gettoken (s @ 0 # z) (length s) q = Some (t, q1, e1, p1)" "t \<noteq> 60" "at s p1 (f @ x)"
    using gettoken_gt [OF q(2) assms(2,5,4)] by blast
  obtain q2 e2 p2 where "gettoken (s @ 0 # z) (length s) p1 = Some (97, q2, e2, p2)" "at s p2 x" "piece s q2 e2 = f"
    using gettoken_word [OF g(3) assms(2,5,6), of z] by auto
  then show ?thesis using q(1) g(1,2) by (subst parseredirs.simps) auto
qed

lemma stop_append: "stop t \<Longrightarrow> stop r \<Longrightarrow> stop (t @ r)"
  by (cases t) (auto simp: stop_def)

lemma items_redirs:
  assumes "items_text is t" "n_words is = 0" "no_nul s"
  shows "at s p (t @ r) \<Longrightarrow> stop r \<Longrightarrow> follow {124, 41, 38, 59} r \<Longrightarrow>
    \<exists>c' p'. parseredirs (s @ 0 # z) (length s) c p = Some (Inr (c', p')) \<and> meaning (piece s) c' = build (meaning (piece s) c) is \<and> at s p' r"
  using assms(1,2)
proof (induction arbitrary: p c)
  case (none u)
  then obtain q where "peek (s @ 0 # z) (length s) p [60, 62] = Some (False, q)" "at s q r"
    using peek_follow [of s p r "[60, 62]" "{124, 41, 38, 59}" z] assms(3) by (auto simp: at_spaces)
  then show ?case by (subst parseredirs.simps) auto
next
  case (word u w "is" t)
  then show ?case by simp
next
  case (inp u v f "is" t)
  obtain q e k p' where st: "at s p' (t @ r)" "piece s q e = f" "k = 60"
    "parseredirs (s @ 0 # z) (length s) c p = parseredirs (s @ 0 # z) (length s) (redircmd c q e k) p'"
    using redir_step [of s p u 60 v f "t @ r" z c] assms(3) inp(1-3) inp.prems(1) stop_append [OF inp(5) inp.prems(2)] by auto
  then show ?case using inp.IH [OF st(1), of "redircmd c q e k"] inp.prems by (simp add: meaning_redircmd)
next
  case (out u v f "is" t)
  obtain q e k p' where st: "at s p' (t @ r)" "piece s q e = f" "k \<noteq> 60"
    "parseredirs (s @ 0 # z) (length s) c p = parseredirs (s @ 0 # z) (length s) (redircmd c q e k) p'"
    using redir_step [of s p u 62 v f "t @ r" z c] assms(3) out(1-3) out.prems(1) stop_append [OF out(5) out.prems(2)] by auto
  then show ?case using out.IH [OF st(1), of "redircmd c q e k"] out.prems by (simp add: meaning_redircmd)
next
  case (app u v f "is" t)
  obtain q e k p' where st: "at s p' (t @ r)" "piece s q e = f" "k \<noteq> 60"
    "parseredirs (s @ 0 # z) (length s) c p = parseredirs (s @ 0 # z) (length s) (redircmd c q e k) p'"
    using append_step [of s p u v f "t @ r" z c] assms(3) app(1-3) app.prems(1) stop_append [OF app(5) app.prems(2)] by auto
  then show ?case using app.IH [OF st(1), of "redircmd c q e k"] app.prems by (simp add: meaning_redircmd)
qed

abbreviation items_parser :: "byte list \<Rightarrow> nat \<Rightarrow> nat \<Rightarrow> cmd \<Rightarrow> nat \<Rightarrow> (cmd \<times> nat) parse" where
  "items_parser buf es k c p \<equiv> andthen (parseredirs buf es c p) (\<lambda>(ret, ps). args_loop buf es k ret ps)"

lemma args_loop_end:
  assumes "at s p r" "follow {124, 41, 38, 59} r" "no_nul s"
  shows "\<exists>p'. args_loop (s @ 0 # z) (length s) k c p = Some (Inr (c, p')) \<and> at s p' r"
proof -
  obtain q where q: "peek (s @ 0 # z) (length s) p [124, 41, 38, 59] = Some (norm r \<noteq> [], q)" "at s q r"
    using peek_at [of s p r "[124, 41, 38, 59]" z] assms by (auto simp: follow_def)
  show ?thesis
  proof (cases "norm r = []")
    case True
    then obtain q1 e1 p1 where "gettoken (s @ 0 # z) (length s) q = Some (0, q1, e1, p1)" "at s p1 r"
      using gettoken_eq [OF q(2) assms(3), of z] by (auto simp: at_def)
    then show ?thesis using q True by (subst args_loop.simps) auto
  next
    case False
    then show ?thesis using q by (subst args_loop.simps) auto
  qed
qed

lemma items_words:
  assumes "items_text is t" "no_nul s"
  shows "at s p (t @ r) \<Longrightarrow> stop r \<Longrightarrow> follow {124, 41, 38, 59} r \<Longrightarrow> k + n_words is < MAXARGS \<Longrightarrow>
    \<exists>c' p'. items_parser (s @ 0 # z) (length s) k c p = Some (Inr (c', p')) \<and> meaning (piece s) c' = build (meaning (piece s) c) is \<and> at s p' r"
  using assms(1)
proof (induction arbitrary: p c k)
  case (none u)
  then obtain q where q: "peek (s @ 0 # z) (length s) p [60, 62] = Some (False, q)" "at s q r"
    using peek_follow [of s p r "[60, 62]" "{124, 41, 38, 59}" z] assms(2) by (auto simp: at_spaces)
  then have "parseredirs (s @ 0 # z) (length s) c p = Some (Inr (c, q))" by (subst parseredirs.simps) simp
  then show ?case using args_loop_end [OF q(2) none.prems(3) assms(2), of z k c] by (auto simp: andthen_def)
next
  case (word u w "is" t)
  obtain d w' where w: "w = d # w'" "wordc d" using word(2) by (cases w) (auto simp: is_word_def)
  note d = wordc_not [OF w(2)]
  have st: "stop (t @ r)" using stop_append [OF word(4) word.prems(2)] .
  obtain q where q: "peek (s @ 0 # z) (length s) p [60, 62] = Some (False, q)" "at s q (w @ t @ r)"
    using peek_head [of s p d "w' @ t @ r" "[60, 62]" z] word.prems(1) word(1) w d assms(2) by (auto simp: at_spaces)
  obtain q' where q': "peek (s @ 0 # z) (length s) q [124, 41, 38, 59] = Some (False, q')" "at s q' (w @ t @ r)"
    using peek_head [of s q d "w' @ t @ r" "[124, 41, 38, 59]" z] q(2) w d assms(2) by auto
  obtain q1 e1 p1 where g: "gettoken (s @ 0 # z) (length s) q' = Some (97, q1, e1, p1)" "at s p1 (t @ r)" "piece s q1 e1 = w"
    using gettoken_word [OF q'(2) assms(2) word(2) st, of z] by auto
  obtain c' p' where IH: "items_parser (s @ 0 # z) (length s) (k + 1) (add_arg c q1 e1) p1 = Some (Inr (c', p'))"
    "meaning (piece s) c' = build (meaning (piece s) (add_arg c q1 e1)) is" "at s p' r"
    using word.IH [OF g(2), of "k + 1" "add_arg c q1 e1"] word.prems by auto
  have "args_loop (s @ 0 # z) (length s) k c q = items_parser (s @ 0 # z) (length s) (k + 1) (add_arg c q1 e1) p1"
    using q'(1) g(1) word.prems(4) by (subst args_loop.simps) (auto simp: andthen_def split: option.split sum.split)
  moreover have "parseredirs (s @ 0 # z) (length s) c p = Some (Inr (c, q))" using q by (subst parseredirs.simps) simp
  ultimately show ?case using IH g(3) by (simp add: andthen_def)
next
  case (inp u v f "is" t)
  obtain q e j p' where st: "at s p' (t @ r)" "piece s q e = f" "j = 60"
    "parseredirs (s @ 0 # z) (length s) c p = parseredirs (s @ 0 # z) (length s) (redircmd c q e j) p'"
    using redir_step [of s p u 60 v f "t @ r" z c] assms(2) inp(1-3) inp.prems(1) stop_append [OF inp(5) inp.prems(2)] by auto
  then show ?case using inp.IH [OF st(1), of k "redircmd c q e j"] inp.prems by (simp add: meaning_redircmd)
next
  case (out u v f "is" t)
  obtain q e j p' where st: "at s p' (t @ r)" "piece s q e = f" "j \<noteq> 60"
    "parseredirs (s @ 0 # z) (length s) c p = parseredirs (s @ 0 # z) (length s) (redircmd c q e j) p'"
    using redir_step [of s p u 62 v f "t @ r" z c] assms(2) out(1-3) out.prems(1) stop_append [OF out(5) out.prems(2)] by auto
  then show ?case using out.IH [OF st(1), of k "redircmd c q e j"] out.prems by (simp add: meaning_redircmd)
next
  case (app u v f "is" t)
  obtain q e j p' where st: "at s p' (t @ r)" "piece s q e = f" "j \<noteq> 60"
    "parseredirs (s @ 0 # z) (length s) c p = parseredirs (s @ 0 # z) (length s) (redircmd c q e j) p'"
    using append_step [of s p u v f "t @ r" z c] assms(2) app(1-3) app.prems(1) stop_append [OF app(5) app.prems(2)] by auto
  then show ?case using app.IH [OF st(1), of k "redircmd c q e j"] app.prems by (simp add: meaning_redircmd)
qed

lemma items_head:
  assumes "items_text is t" "follow {124, 41, 38, 59} r"
  shows "norm (t @ r) = [] \<or> hd (norm (t @ r)) \<noteq> 40"
  using assms
proof (induction rule: items_text.induct)
  case (none u)
  then show ?case by (auto simp: follow_def)
next
  case (word u w "is" t)
  then obtain d w' where "w = d # w'" "wordc d" by (cases w) (auto simp: is_word_def)
  then show ?case using word(1) wordc_not [of d] by auto
qed (auto simp: symbol_not_wsp)

section \<open>Lines\<close>

text \<open>The parser \<open>f\<close> reads the command \<open>c\<close> and stops before \<open>r\<close>.\<close>

definition reads :: "byte list \<Rightarrow> acmd \<Rightarrow> byte list \<Rightarrow> (cmd \<times> nat) parse \<Rightarrow> bool" where
  "reads s c r x \<longleftrightarrow> (\<exists>c' p'. x = Some (Inr (c', p')) \<and> meaning (piece s) c' = c \<and> at s p' r)"

lemma readsE:
  assumes "reads s c r x"
  obtains c' p' where "x = Some (Inr (c', p'))" "meaning (piece s) c' = c" "at s p' r"
  using assms by (auto simp: reads_def)

lemma readsI: "x = Some (Inr (c', p')) \<Longrightarrow> meaning (piece s) c' = c \<Longrightarrow> at s p' r \<Longrightarrow> reads s c r x"
  by (auto simp: reads_def)

lemma follow_Cons: "c \<in> {124, 40, 41, 59, 38, 60, 62} \<Longrightarrow> follow S (c # r) \<longleftrightarrow> c \<in> S"
  using symbol_not_wsp [of c] by (auto simp: follow_def)

lemma follow_mono: "follow S r \<Longrightarrow> S \<subseteq> T \<Longrightarrow> follow T r"
  by (auto simp: follow_def)

lemma stop_symbol: "c \<in> {124, 40, 41, 59, 38, 60, 62} \<Longrightarrow> stop (c # r)"
  using wordc_not by (auto simp: stop_def)

lemma block_reads:
  assumes "at s p (u @ 40 # t @ 41 # v @ r)" "spaces u" "no_nul s" "stop r" "follow {124, 41, 38, 59} r"
    "items_text is v" "n_words is = 0"
    and line: "\<And>p. at s p (t @ 41 # v @ r) \<Longrightarrow> reads s c (41 # v @ r) (parseline n (s @ 0 # z) (length s) p)"
  shows "reads s (build c is) r (parseexec (Suc (Suc n)) (s @ 0 # z) (length s) p)"
proof -
  have at0: "at s p (40 # t @ 41 # v @ r)" using assms(1,2) by (simp add: at_spaces)
  have w: "\<not> wsp 40" "\<not> wsp 41" using symbol_not_wsp by auto
  obtain q where q: "peek (s @ 0 # z) (length s) p [40] = Some (True, q)" "at s q (40 # t @ 41 # v @ r)"
    using peek_head [OF at0 assms(3), of "[40]" z] w(1) by auto
  obtain q' where q': "peek (s @ 0 # z) (length s) q [40] = Some (True, q')" "at s q' (40 # t @ 41 # v @ r)"
    using peek_head [OF q(2) assms(3), of "[40]" z] w(1) by auto
  obtain q1 e1 p1 where g: "gettoken (s @ 0 # z) (length s) q' = Some (40, q1, e1, p1)" "at s p1 (t @ 41 # v @ r)"
    using gettoken_symbol [OF q'(2) _ assms(3), of z] by auto
  obtain c' p' where l: "parseline n (s @ 0 # z) (length s) p1 = Some (Inr (c', p'))" "meaning (piece s) c' = c" "at s p' (41 # v @ r)"
    using readsE [OF line [OF g(2)]] by metis
  obtain q2 where q2: "peek (s @ 0 # z) (length s) p' [41] = Some (True, q2)" "at s q2 (41 # v @ r)"
    using peek_head [OF l(3) assms(3), of "[41]" z] w(2) by auto
  obtain q3 e3 p3 where g3: "gettoken (s @ 0 # z) (length s) q2 = Some (41, q3, e3, p3)" "at s p3 (v @ r)"
    using gettoken_symbol [OF q2(2) _ assms(3), of z] by auto
  obtain c'' p'' where "parseredirs (s @ 0 # z) (length s) c' p3 = Some (Inr (c'', p''))"
    "meaning (piece s) c'' = build (meaning (piece s) c') is" "at s p'' r"
    using items_redirs [OF assms(6,7,3) g3(2) assms(4,5), of z c'] by blast
  then show ?thesis using q(1) q'(1) g(1) l(1,2) q2(1) g3(1) by (intro readsI) (auto simp: andthen_def)
qed

lemma reads_text:
  assumes s: "no_nul s"
  shows "exec_text c t \<Longrightarrow> at s p (t @ r) \<Longrightarrow> stop r \<Longrightarrow> follow {124, 41, 38, 59} r \<Longrightarrow> 4 * length t + 1 \<le> n \<Longrightarrow>
      reads s c r (parseexec n (s @ 0 # z) (length s) p)"
    and "pipe_text c t \<Longrightarrow> at s p (t @ r) \<Longrightarrow> stop r \<Longrightarrow> follow {41, 38, 59} r \<Longrightarrow> 4 * length t + 2 \<le> n \<Longrightarrow>
      reads s c r (parsepipe n (s @ 0 # z) (length s) p)"
    and "back_text c t \<Longrightarrow> at s p (t @ r) \<Longrightarrow> stop r \<Longrightarrow> follow {41, 38, 59} r \<Longrightarrow> 4 * length t + 2 \<le> n \<Longrightarrow>
      \<exists>c0 p0 c' p'. parsepipe n (s @ 0 # z) (length s) p = Some (Inr (c0, p0)) \<and>
        back_loop (s @ 0 # z) (length s) c0 p0 = back_loop (s @ 0 # z) (length s) c' p' \<and> meaning (piece s) c' = c \<and> at s p' r"
    and "line_text c t \<Longrightarrow> at s p (t @ r) \<Longrightarrow> stop r \<Longrightarrow> follow {41} r \<Longrightarrow> 4 * length t + 3 \<le> n \<Longrightarrow>
      reads s c r (parseline n (s @ 0 # z) (length s) p)"
proof (induction arbitrary: p r n and p r n and p r n and p r n rule: exec_text_pipe_text_back_text_line_text.inducts)
  case (exec "is" t)
  obtain m where n: "n = Suc m" using exec.prems(4) by (cases n) auto
  obtain q where q: "peek (s @ 0 # z) (length s) p [40] = Some (False, q)" "at s q (t @ r)"
    using peek_at [OF exec.prems(1) s, of "[40]" z] items_head [OF exec(1) exec.prems(3)] by auto
  from items_words [OF exec(1) s q(2) exec.prems(2,3), of 0 z "ExecCmd []"] exec(2)
  show ?case using q(1) n by (auto intro: readsI)
next
  case (block u c t "is" v)
  obtain m where n: "n = Suc (Suc m)" using block.prems(4) by (cases n; cases "n - 1") auto
  show ?case unfolding n
  proof (rule block_reads [OF _ block(1) s block.prems(2,3) block(3,4)])
    fix p
    assume "at s p (t @ 41 # v @ r)"
    then show "reads s c (41 # v @ r) (parseline m (s @ 0 # z) (length s) p)"
      using block.prems(4) n by (intro block.IH) (auto simp: follow_Cons stop_symbol)
  qed (use block.prems(1) in simp)
next
  case (pipe1 c t)
  obtain m where n: "n = Suc m" using pipe1.prems(4) by (cases n) auto
  obtain c' p' where e: "parseexec m (s @ 0 # z) (length s) p = Some (Inr (c', p'))" "meaning (piece s) c' = c" "at s p' r"
    using readsE [OF pipe1.IH [OF pipe1.prems(1,2) follow_mono [OF pipe1.prems(3)]]] pipe1.prems(4) n by auto
  obtain q where "peek (s @ 0 # z) (length s) p' [124] = Some (False, q)" "at s q r"
    using peek_follow [OF e(3) s _ pipe1.prems(3), of "[124]" z] by auto
  then show ?case using e n by (intro readsI) (auto simp: andthen_def)
next
  case (pipe c t d u)
  obtain m where n: "n = Suc m" using pipe.prems(4) by (cases n) auto
  obtain c' p' where e: "parseexec m (s @ 0 # z) (length s) p = Some (Inr (c', p'))" "meaning (piece s) c' = c" "at s p' (124 # u @ r)"
    using readsE [OF pipe.IH(1) [of p "124 # u @ r" m]] pipe.prems(1,4) n by (auto simp: follow_Cons stop_symbol)
  obtain q where q: "peek (s @ 0 # z) (length s) p' [124] = Some (True, q)" "at s q (124 # u @ r)"
    using peek_head [OF e(3) s, of "[124]" z] symbol_not_wsp [of 124] by auto
  obtain q1 e1 p1 where g: "gettoken (s @ 0 # z) (length s) q = Some (124, q1, e1, p1)" "at s p1 (u @ r)"
    using gettoken_symbol [OF q(2) _ s, of z] by auto
  obtain d' p'' where "parsepipe m (s @ 0 # z) (length s) p1 = Some (Inr (d', p''))" "meaning (piece s) d' = d" "at s p'' r"
    using readsE [OF pipe.IH(2) [OF g(2) pipe.prems(2,3), of m]] pipe.prems(4) n by auto
  then show ?case using e q(1) g(1) n by (intro readsI) (auto simp: andthen_def)
next
  case (bg0 c t)
  then show ?case using readsE [OF bg0.IH [OF bg0.prems]] by metis
next
  case (bg c t u)
  obtain c0 p0 c' p' where b: "parsepipe n (s @ 0 # z) (length s) p = Some (Inr (c0, p0))"
    "back_loop (s @ 0 # z) (length s) c0 p0 = back_loop (s @ 0 # z) (length s) c' p'" "meaning (piece s) c' = c" "at s p' (38 # u @ r)"
    using bg.IH [of p "38 # u @ r" n] bg.prems(1,4) by (auto simp: follow_Cons stop_symbol)
  obtain q where q: "peek (s @ 0 # z) (length s) p' [38] = Some (True, q)" "at s q (38 # u @ r)"
    using peek_head [OF b(4) s, of "[38]" z] symbol_not_wsp [of 38] by auto
  obtain q1 e1 p1 where g: "gettoken (s @ 0 # z) (length s) q = Some (38, q1, e1, p1)" "at s p1 r"
    using gettoken_symbol [OF q(2) _ s, of z] at_spaces [OF bg(2)] by auto
  have "back_loop (s @ 0 # z) (length s) c' p' = back_loop (s @ 0 # z) (length s) (BackCmd c') p1"
    using q(1) g(1) by (subst back_loop.simps) simp
  then have "back_loop (s @ 0 # z) (length s) c0 p0 = back_loop (s @ 0 # z) (length s) (BackCmd c') p1" "meaning (piece s) (BackCmd c') = ABack c"
    using b(2,3) by auto
  then show ?case using b(1) g(2) by blast
next
  case (line1 c t)
  obtain m where n: "n = Suc m" using line1.prems(4) by (cases n) auto
  obtain c0 p0 c' p' where b: "parsepipe m (s @ 0 # z) (length s) p = Some (Inr (c0, p0))"
    "back_loop (s @ 0 # z) (length s) c0 p0 = back_loop (s @ 0 # z) (length s) c' p'" "meaning (piece s) c' = c" "at s p' r"
    using line1.IH [OF line1.prems(1,2) follow_mono [OF line1.prems(3)], of m] line1.prems(4) n by auto
  obtain q where q: "peek (s @ 0 # z) (length s) p' [38] = Some (False, q)" "at s q r"
    using peek_follow [OF b(4) s _ line1.prems(3), of "[38]" z] by auto
  obtain q' where q': "peek (s @ 0 # z) (length s) q [59] = Some (False, q')" "at s q' r"
    using peek_follow [OF q(2) s _ line1.prems(3), of "[59]" z] by auto
  have "back_loop (s @ 0 # z) (length s) c' p' = Some (c', q)" using q(1) by (subst back_loop.simps) simp
  then show ?case using b(1-3) q' n by (intro readsI [of _ c' q']) (auto simp: andthen_def)
next
  case (line c t d u)
  obtain m where n: "n = Suc m" using line.prems(4) by (cases n) auto
  obtain c0 p0 c' p' where b: "parsepipe m (s @ 0 # z) (length s) p = Some (Inr (c0, p0))"
    "back_loop (s @ 0 # z) (length s) c0 p0 = back_loop (s @ 0 # z) (length s) c' p'" "meaning (piece s) c' = c" "at s p' (59 # u @ r)"
    using line.IH(1) [of p "59 # u @ r" m] line.prems(1,4) n by (auto simp: follow_Cons stop_symbol)
  note w = symbol_not_wsp [of 59]
  obtain q where q: "peek (s @ 0 # z) (length s) p' [38] = Some (False, q)" "at s q (59 # u @ r)"
    using peek_head [OF b(4) s, of "[38]" z] w by auto
  obtain q' where q': "peek (s @ 0 # z) (length s) q [59] = Some (True, q')" "at s q' (59 # u @ r)"
    using peek_head [OF q(2) s, of "[59]" z] w by auto
  obtain q1 e1 p1 where g: "gettoken (s @ 0 # z) (length s) q' = Some (59, q1, e1, p1)" "at s p1 (u @ r)"
    using gettoken_symbol [OF q'(2) _ s, of z] by auto
  obtain d' p'' where "parseline m (s @ 0 # z) (length s) p1 = Some (Inr (d', p''))" "meaning (piece s) d' = d" "at s p'' r"
    using readsE [OF line.IH(2) [OF g(2) line.prems(2,3), of m]] line.prems(4) n by auto
  moreover have "back_loop (s @ 0 # z) (length s) c' p' = Some (c', q)" using q(1) by (subst back_loop.simps) simp
  ultimately show ?case using b q'(1) g(1) n by (intro readsI) (auto simp: andthen_def)
qed

section \<open>Properties\<close>

text \<open>
  Property C3.  The parser reads every line of the grammar as the command the grammar assigns
  to it: simple commands with redirections before, between and after their words, pipelines,
  background commands, lists and blocks, with any white space.  In the result the words are
  the strings that the buffer holds after \<open>nulterminate\<close>.
\<close>

theorem parsecmd_reads_grammar:
  assumes "line_text c s" "no_nul s"
  shows "\<exists>cmd buf. parsecmd (s @ 0 # z) = Some (Inr (cmd, buf)) \<and> meaning (\<lambda>q e. cstr_of (drop q buf)) cmd = c"
proof -
  have "reads s c [] (parseline (4 * length s + 4) (s @ 0 # z) (length s) 0)"
    by (rule reads_text(4) [OF assms(2,1)]) (auto simp: at_def follow_def stop_def)
  then obtain c' p' where p: "parseline (4 * length s + 4) (s @ 0 # z) (length s) 0 = Some (Inr (c', p'))"
    "meaning (piece s) c' = c" "at s p' []" by (rule readsE)
  have "returns s 0 (wf_cmd s) (parseline (4 * length s + 4) (s @ 0 # z) (length s) 0)"
    by (rule parse_total(1) [OF assms(2)]) auto
  then have "wf_cmd s c'" "p' \<le> length s" using p(1) by (auto simp: returns_def)
  from parsecmd_result [OF assms(2) p(1) this] p(3) obtain buf where buf: "parsecmd (s @ 0 # z) = Some (Inr (c', buf))"
    "\<forall>(q, e)\<in>set (cmd_words c'). cstr_of (drop q buf) = piece s q e"
    by (auto simp: at_def)
  then have "meaning (\<lambda>q e. cstr_of (drop q buf)) c' = c" using meaning_cong [OF buf(2)] p(2) by simp
  then show ?thesis using buf(1) by blast
qed

theorem parsecmd_reads_grammar_witness:
  "\<exists>cmd buf. parsecmd ([97, 62, 98, 124, 32, 99] @ 0 # []) = Some (Inr (cmd, buf)) \<and>
    meaning (\<lambda>q e. cstr_of (drop q buf)) cmd = APipe (ARedir (AExec [[97]]) [98] O_WRONLY_CREATE 1) (AExec [[99]])"
proof -
  have w: "is_word [97]" "is_word [98]" "is_word [99]" "spaces [32]" "stop [62, 98]"
    by (simp_all add: is_word_def wordc_def wsp_def whitespace_def symbols_def stop_def)
  have "items_text [Out [98]] [62, 98]" using out [of "[]" "[]" "[98]" "[]" "[]"] none [of "[]"] w(2) by (simp add: stop_def)
  from word [of "[]" "[97]", OF _ w(1) this w(5)] have "items_text [Word [97], Out [98]] [97, 62, 98]" by simp
  from exec [OF this] have a: "exec_text (ARedir (AExec [[97]]) [98] O_WRONLY_CREATE 1) [97, 62, 98]" by simp
  have "items_text [Word [99]] [32, 99]" using word [of "[32]" "[99]" "[]" "[]"] none [of "[]"] w(3,4) by (simp add: stop_def)
  from exec [OF this] have b: "exec_text (AExec [[99]]) [32, 99]" by simp
  from line1 [OF bg0 [OF pipe [OF a pipe1 [OF b]]]]
  have "line_text (APipe (ARedir (AExec [[97]]) [98] O_WRONLY_CREATE 1) (AExec [[99]])) [97, 62, 98, 124, 32, 99]" by simp
  then show ?thesis by (rule parsecmd_reads_grammar) (simp add: no_nul_def)
qed

end
