(* ===== verification/Umalloc.thy ===== *)
theory Umalloc
  imports Prelude
begin

text \<open>
  The allocator of the user library (\<open>umalloc.c\<close>): a circular list of free blocks, ordered by
  address.  An address is a natural number of bytes; a header, the pair of \<open>s.ptr\<close> and
  \<open>s.size\<close>, has 8 bytes, and sizes count such units.  A header outside of the memory of the process is a
  fault, and the model \<open>None\<close>.  \<open>um_brk\<close> is the end of that memory, \<open>room\<close> says up to which end the
  kernel can extend it.  User memory lies below \<open>KERNBASE\<close>, so that adding to an address does not
  wrap around.
\<close>

section \<open>State\<close>

record uheap =
  um_base :: nat
  um_lo :: nat
  um_brk :: nat
  um_ptr :: "nat \<Rightarrow> nat"
  um_size :: "nat \<Rightarrow> uint"
  um_freep :: nat

abbreviation (input) USERTOP :: nat where "USERTOP \<equiv> 0x80000000"

definition ok_addr :: "uheap \<Rightarrow> nat \<Rightarrow> bool" where
  "ok_addr h a \<longleftrightarrow> a = um_base h \<or> um_lo h \<le> a \<and> a + 8 \<le> um_brk h"

definition get_ptr :: "uheap \<Rightarrow> nat \<Rightarrow> nat option" where
  "get_ptr h a = (if ok_addr h a then Some (um_ptr h a) else None)"

definition get_size :: "uheap \<Rightarrow> nat \<Rightarrow> uint option" where
  "get_size h a = (if ok_addr h a then Some (um_size h a) else None)"

definition set_ptr :: "uheap \<Rightarrow> nat \<Rightarrow> nat \<Rightarrow> uheap option" where
  "set_ptr h a v = (if ok_addr h a then Some (h\<lparr>um_ptr := (um_ptr h)(a := v)\<rparr>) else None)"

definition set_size :: "uheap \<Rightarrow> nat \<Rightarrow> uint \<Rightarrow> uheap option" where
  "set_size h a v = (if ok_addr h a then Some (h\<lparr>um_size := (um_size h)(a := v)\<rparr>) else None)"

section \<open>Operations\<close>

text \<open>
  The system call \<open>sbrk\<close> as the kernel implements it: growing fails at \<open>KERNBASE\<close> or when there is
  no memory, and a negative argument shrinks the process unless the new size wraps around.
\<close>

definition sbrk :: "(nat \<Rightarrow> bool) \<Rightarrow> int \<Rightarrow> uheap \<Rightarrow> int \<times> uheap" where
  "sbrk room n h =
     (if n > 0 then
        (if um_brk h + nat n < USERTOP \<and> room (um_brk h + nat n)
         then (int (um_brk h), h\<lparr>um_brk := um_brk h + nat n\<rparr>) else (-1, h))
      else if n < 0 then
        (let new = nat ((int (um_brk h) + n) mod 2 ^ 32) in
         if new \<ge> um_brk h then (int (um_brk h), h)
         else if new = 0 then (-1, h)
         else (int (um_brk h), h\<lparr>um_brk := new\<rparr>))
      else (int (um_brk h), h))"

partial_function (option) free_search :: "uheap \<Rightarrow> nat \<Rightarrow> nat \<Rightarrow> nat option" where
  "free_search h bp p = do {
     q \<leftarrow> get_ptr h p;
     if bp > p \<and> bp < q then Some p
     else if p \<ge> q \<and> (bp > p \<or> bp < q) then Some p
     else free_search h bp q
   }"

definition free_next :: "uheap \<Rightarrow> nat \<Rightarrow> nat \<Rightarrow> uheap option" where
  "free_next h bp p = do {
     q \<leftarrow> get_ptr h p;
     bsz \<leftarrow> get_size h bp;
     if bp + 8 * unat bsz = q then do {
       qsz \<leftarrow> get_size h q;
       h \<leftarrow> set_size h bp (bsz + qsz);
       qq \<leftarrow> get_ptr h q;
       set_ptr h bp qq
     } else set_ptr h bp q
   }"

definition free_prev :: "uheap \<Rightarrow> nat \<Rightarrow> nat \<Rightarrow> uheap option" where
  "free_prev h bp p = do {
     psz \<leftarrow> get_size h p;
     if p + 8 * unat psz = bp then do {
       bsz \<leftarrow> get_size h bp;
       h \<leftarrow> set_size h p (psz + bsz);
       bq \<leftarrow> get_ptr h bp;
       set_ptr h p bq
     } else set_ptr h p bp
   }"

definition ufree :: "nat \<Rightarrow> uheap \<Rightarrow> uheap option" where
  "ufree ap h = do {
     let bp = ap - 8;
     p \<leftarrow> free_search h bp (um_freep h);
     h \<leftarrow> free_next h bp p;
     h \<leftarrow> free_prev h bp p;
     Some (h\<lparr>um_freep := p\<rparr>)
   }"

definition morecore :: "(nat \<Rightarrow> bool) \<Rightarrow> uint \<Rightarrow> uheap \<Rightarrow> (nat \<times> uheap) option" where
  "morecore room nu h = do {
     let nu = (if nu < 4096 then 4096 else nu);
     let (p, h) = sbrk room (sint (nu * 8)) h;
     if p = -1 then Some (0, h)
     else do {
       let hp = nat p;
       h \<leftarrow> set_size h hp nu;
       h \<leftarrow> ufree (hp + 8) h;
       Some (um_freep h, h)
     }
   }"

text \<open>Taking \<open>nunits\<close> from the block \<open>p\<close>, whose predecessor in the list is \<open>prevp\<close>.\<close>

definition malloc_take :: "uint \<Rightarrow> nat \<Rightarrow> nat \<Rightarrow> uheap \<Rightarrow> (nat \<times> uheap) option" where
  "malloc_take nunits prevp p h = do {
     sz \<leftarrow> get_size h p;
     if sz = nunits then do {
       q \<leftarrow> get_ptr h p;
       h \<leftarrow> set_ptr h prevp q;
       Some (p + 8, h\<lparr>um_freep := prevp\<rparr>)
     } else do {
       h \<leftarrow> set_size h p (sz - nunits);
       let p = p + 8 * unat (sz - nunits);
       h \<leftarrow> set_size h p nunits;
       Some (p + 8, h\<lparr>um_freep := prevp\<rparr>)
     }
   }"

partial_function (option) malloc_loop :: "(nat \<Rightarrow> bool) \<Rightarrow> uint \<Rightarrow> nat \<Rightarrow> nat \<Rightarrow> uheap \<Rightarrow> (nat \<times> uheap) option" where
  "malloc_loop room nunits prevp p h = do {
     sz \<leftarrow> get_size h p;
     if sz \<ge> nunits then malloc_take nunits prevp p h
     else if p = um_freep h then do {
       (p, h) \<leftarrow> morecore room nunits h;
       if p = 0 then Some (0, h)
       else do {
         q \<leftarrow> get_ptr h p;
         malloc_loop room nunits p q h
       }
     } else do {
       q \<leftarrow> get_ptr h p;
       malloc_loop room nunits p q h
     }
   }"

definition malloc_init :: "uheap \<Rightarrow> uheap" where
  "malloc_init h =
     (if um_freep h = 0 then h\<lparr>um_ptr := (um_ptr h)(um_base h := um_base h), um_freep := um_base h,
        um_size := (um_size h)(um_base h := 0)\<rparr> else h)"

definition malloc :: "(nat \<Rightarrow> bool) \<Rightarrow> uint \<Rightarrow> uheap \<Rightarrow> (nat \<times> uheap) option" where
  "malloc room nbytes h = do {
     let nunits = (nbytes + 8 - 1) div 8 + 1;
     let h = malloc_init h;
     q \<leftarrow> get_ptr h (um_freep h);
     malloc_loop room nunits (um_freep h) q h
   }"

section \<open>The free list\<close>

text \<open>Following the pointers from \<open>x\<close> along \<open>as\<close> leads to \<open>y\<close>.\<close>

primrec path :: "(nat \<Rightarrow> nat) \<Rightarrow> nat \<Rightarrow> nat list \<Rightarrow> nat \<Rightarrow> bool" where
  "path nx x [] y \<longleftrightarrow> x = y"
| "path nx x (a # as) y \<longleftrightarrow> x = a \<and> path nx (nx a) as y"

lemma path_append [simp]: "path nx x (as @ bs) y \<longleftrightarrow> (\<exists>z. path nx x as z \<and> path nx z bs y)"
  by (induction as arbitrary: x) auto

lemma path_upd [simp]: "a \<notin> set as \<Longrightarrow> path (nx(a := v)) x as y = path nx x as y"
  by (induction as arbitrary: x) auto

definition stop_at :: "uheap \<Rightarrow> nat \<Rightarrow> nat" where
  "stop_at h a = a + 8 * unat (um_size h a)"

text \<open>The blocks at the addresses \<open>S\<close> are not empty, lie in the heap and are pairwise disjoint.\<close>

definition blocks :: "uheap \<Rightarrow> nat set \<Rightarrow> bool" where
  "blocks h S \<longleftrightarrow> (\<forall>a\<in>S. um_size h a \<noteq> 0 \<and> um_lo h \<le> a \<and> stop_at h a \<le> um_brk h) \<and>
     (\<forall>a\<in>S. \<forall>b\<in>S. a \<noteq> b \<longrightarrow> stop_at h a \<le> b \<or> stop_at h b \<le> a)"

text \<open>
  \<open>ns\<close> is the circular list of free blocks, beginning with \<open>base\<close>.  Free blocks do not touch
  each other: they are coalesced.
\<close>

definition free_list :: "uheap \<Rightarrow> nat list \<Rightarrow> bool" where
  "free_list h ns \<longleftrightarrow> (\<exists>bs. ns = um_base h # bs) \<and> path (um_ptr h) (um_base h) ns (um_base h) \<and>
     sorted_wrt (\<lambda>a b. stop_at h a < b) ns \<and> um_freep h \<in> set ns \<and> um_size h (um_base h) = 0 \<and>
     blocks h (set ns - {um_base h})"

definition heap_ok :: "uheap \<Rightarrow> bool" where
  "heap_ok h \<longleftrightarrow> 0 < um_base h \<and> um_base h < um_lo h \<and> um_lo h \<le> um_brk h \<and> um_brk h < USERTOP"

text \<open>The blocks \<open>A\<close> are allocated; allocated and free blocks are pairwise disjoint.\<close>

definition heap_inv :: "uheap \<Rightarrow> nat list \<Rightarrow> nat set \<Rightarrow> bool" where
  "heap_inv h ns A \<longleftrightarrow> heap_ok h \<and> free_list h ns \<and> A \<inter> set ns = {} \<and>
     blocks h (A \<union> set ns - {um_base h})"

lemmas acc_defs = get_ptr_def get_size_def set_ptr_def set_size_def

lemma ok_addr_upd [simp]:
  "ok_addr (h\<lparr>um_ptr := f\<rparr>) a = ok_addr h a"
  "ok_addr (h\<lparr>um_size := g\<rparr>) a = ok_addr h a"
  "ok_addr (h\<lparr>um_freep := p\<rparr>) a = ok_addr h a"
  by (simp_all add: ok_addr_def)

lemma stop_at_upd [simp]:
  "stop_at (h\<lparr>um_ptr := f\<rparr>) a = stop_at h a"
  "stop_at (h\<lparr>um_freep := p\<rparr>) a = stop_at h a"
  "stop_at (h\<lparr>um_brk := k\<rparr>) a = stop_at h a"
  "a \<noteq> b \<Longrightarrow> stop_at (h\<lparr>um_size := (um_size h)(b := v)\<rparr>) a = stop_at h a"
  by (simp_all add: stop_at_def)

lemma heap_ok_upd [simp]:
  "heap_ok (h\<lparr>um_ptr := f\<rparr>) = heap_ok h"
  "heap_ok (h\<lparr>um_size := g\<rparr>) = heap_ok h"
  "heap_ok (h\<lparr>um_freep := p\<rparr>) = heap_ok h"
  by (simp_all add: heap_ok_def)

lemma start_le_stop [simp]: "a \<le> stop_at h a"
  by (simp add: stop_at_def)

lemma start_less_stop: "um_size h a \<noteq> 0 \<Longrightarrow> a + 8 \<le> stop_at h a"
  by (simp add: stop_at_def) (metis unat_eq_zero Suc_leI mult_le_mono2 mult.right_neutral neq0_conv One_nat_def)

lemma ok_addrI: "um_size h a \<noteq> 0 \<Longrightarrow> um_lo h \<le> a \<Longrightarrow> stop_at h a \<le> um_brk h \<Longrightarrow> ok_addr h a"
  using start_less_stop [of h a] by (simp add: ok_addr_def)

lemma free_list_ok_addr: "free_list h ns \<Longrightarrow> a \<in> set ns \<Longrightarrow> ok_addr h a"
  by (cases "a = um_base h") (simp add: ok_addr_def, auto simp: free_list_def blocks_def intro!: ok_addrI)

lemma free_list_next: "free_list h (as @ a # b # bs) \<Longrightarrow> um_ptr h a = b"
  by (auto simp: free_list_def)

lemma free_list_last: "free_list h (as @ [a]) \<Longrightarrow> um_ptr h a = um_base h"
  by (auto simp: free_list_def)

lemma free_list_less:
  assumes "free_list h (as @ a # bs)"
  shows "\<forall>x\<in>set as. stop_at h x < a" "\<forall>x\<in>set bs. stop_at h a < x" "\<forall>x\<in>set as. x < a" "\<forall>x\<in>set bs. a < x"
proof -
  show 1: "\<forall>x\<in>set as. stop_at h x < a" "\<forall>x\<in>set bs. stop_at h a < x"
    using assms by (auto simp: free_list_def sorted_wrt_append)
  show "\<forall>x\<in>set as. x < a" "\<forall>x\<in>set bs. a < x"
    using 1 start_le_stop by (meson le_less_trans)+
qed

lemma free_list_base_le:
  assumes "free_list h ns" "a \<in> set ns"
  shows "um_base h \<le> a"
proof -
  obtain bs where "ns = um_base h # bs" using assms(1) by (auto simp: free_list_def)
  then show ?thesis using free_list_less(4) [of h "[]" "um_base h" bs] assms by auto
qed

section \<open>Finding the place of a block\<close>

text \<open>From a block below \<open>bp\<close> the search reaches the last block below \<open>bp\<close>.\<close>

lemma free_search_low:
  assumes "free_list h (as1 @ as2 @ p # bs)" "p < bp" "\<forall>x\<in>set bs. bp < x"
  shows "free_search h bp (hd (as2 @ [p])) = Some p"
  using assms(1)
proof (induction as2 arbitrary: as1)
  case Nil
  then have g: "get_ptr h p = Some (um_ptr h p)" by (simp add: get_ptr_def free_list_ok_addr)
  show ?case
  proof (cases bs)
    case Nil
    then have "um_ptr h p = um_base h" using free_list_last [of h as1 p] \<open>free_list h (as1 @ [] @ p # bs)\<close> by simp
    moreover have "um_base h \<le> p" using free_list_base_le [OF \<open>free_list h (as1 @ [] @ p # bs)\<close>, of p] by simp
    ultimately show ?thesis using assms(2) by (subst free_search.simps) (simp add: g)
  next
    case (Cons b cs)
    then have "um_ptr h p = b" using free_list_next [of h as1 p b cs] Nil by simp
    then show ?thesis using assms(2,3) Cons by (subst free_search.simps) (simp add: g)
  qed
next
  case (Cons a as2)
  have fl: "free_list h (as1 @ a # as2 @ p # bs)" using Cons.prems by simp
  have g: "get_ptr h a = Some (um_ptr h a)" using fl by (simp add: get_ptr_def free_list_ok_addr)
  define q where "q = hd (as2 @ [p])"
  have q: "um_ptr h a = q" "q \<in> set as2 \<union> {p}"
    using free_list_next [of h as1 a q "tl (as2 @ [p]) @ bs"] fl by (cases as2; simp add: q_def)+
  have "q \<le> p" using q(2) free_list_less(3) [of h "as1 @ a # as2" p bs] fl by (auto intro: less_imp_le)
  moreover have "a < q" using q(2) free_list_less(4) [OF fl] by auto
  moreover have "free_search h bp q = Some p"
    using Cons.IH [of "as1 @ [a]"] fl by (simp add: q_def)
  ultimately show ?case using assms(2) by (subst free_search.simps) (simp add: g q(1))
qed

text \<open>From a block above \<open>bp\<close> it goes around through \<open>base\<close>.\<close>

lemma free_search_high:
  assumes "free_list h (as @ p # bs1 @ bs2)" "p < bp" "\<forall>x\<in>set (bs1 @ bs2). bp < x" "bs2 \<noteq> []"
  shows "free_search h bp (hd bs2) = Some p"
  using assms
proof (induction bs2 arbitrary: bs1)
  case Nil
  then show ?case by simp
next
  case (Cons b bs2)
  note IH = Cons.IH and prems = Cons.prems
  have fl: "free_list h ((as @ p # bs1) @ b # bs2)" using prems by simp
  have g: "get_ptr h b = Some (um_ptr h b)" using fl by (simp add: get_ptr_def free_list_ok_addr)
  have b: "bp < b" "um_base h \<le> p" using prems free_list_base_le [OF fl, of p] by auto
  show ?case
  proof (cases bs2)
    case Nil
    have "um_ptr h b = um_base h" using free_list_last [of h "as @ p # bs1" b] fl Nil by simp
    moreover have "free_search h bp (um_base h) = Some p"
    proof -
      have "hd (as @ p # bs1 @ b # bs2) = um_base h" using prems(1) by (metis free_list_def list.sel(1))
      then have "um_base h = hd (as @ [p])" by (cases as) simp_all
      then show ?thesis
        using free_search_low [of h "[]" as p "bs1 @ b # bs2" bp] prems by simp
    qed
    ultimately show ?thesis using b assms(2) by (subst free_search.simps) (simp add: g)
  next
    case (Cons c cs)
    have "um_ptr h b = c" using fl Cons free_list_next [of h "as @ p # bs1" b c cs] by simp
    moreover have "b < c" using free_list_less(4) [OF fl] Cons by simp
    moreover have "free_search h bp c = Some p"
      using IH [of "bs1 @ [b]"] prems \<open>bs2 = c # cs\<close> by simp
    ultimately show ?thesis using b by (subst free_search.simps) (simp add: g)
  qed
qed

lemma free_search_eq:
  assumes "free_list h (as @ p # bs)" "p < bp" "\<forall>x\<in>set bs. bp < x"
  shows "free_search h bp (um_freep h) = Some p"
proof -
  have "um_freep h \<in> set as \<union> {p} \<union> set bs" using assms(1) by (auto simp: free_list_def)
  then consider (eq) "um_freep h = p" | (lo) "um_freep h \<in> set as" | (hi) "um_freep h \<in> set bs" by auto
  then show ?thesis
  proof cases
    case eq
    then show ?thesis using free_search_low [of h as "[]" p bs bp] assms by simp
  next
    case lo
    then obtain as1 as2 where "as = as1 @ um_freep h # as2" by (meson split_list)
    then show ?thesis using free_search_low [of h as1 "um_freep h # as2" p bs bp] assms by simp
  next
    case hi
    then obtain bs1 bs2 where "bs = bs1 @ um_freep h # bs2" by (meson split_list)
    then show ?thesis using free_search_high [of h as p bs1 "um_freep h # bs2" bp] assms by simp
  qed
qed

section \<open>Freeing\<close>

lemma blocks_subset: "blocks h S \<Longrightarrow> T \<subseteq> S \<Longrightarrow> blocks h T"
  by (auto simp: blocks_def)

lemma blocks_upd [simp]:
  "blocks (h\<lparr>um_ptr := f\<rparr>) S = blocks h S"
  "blocks (h\<lparr>um_freep := p\<rparr>) S = blocks h S"
  by (simp_all add: blocks_def)

lemma blocks_size_upd: "x \<notin> S \<Longrightarrow> blocks (h\<lparr>um_size := (um_size h)(x := v)\<rparr>) S = blocks h S"
  by (auto simp: blocks_def stop_at_def)

lemma sorted_stop_upd:
  "x \<notin> set xs \<Longrightarrow> sorted_wrt (\<lambda>a b. stop_at (h\<lparr>um_size := (um_size h)(x := v)\<rparr>) a < b) xs =
     sorted_wrt (\<lambda>a b. stop_at h a < b) xs"
  by (induction xs) auto

text \<open>Two adjacent blocks become one.\<close>

lemma merged_stop:
  assumes "stop_at h x = y" "stop_at h y \<le> um_brk h" "heap_ok h"
  shows "unat (um_size h x + um_size h y) = unat (um_size h x) + unat (um_size h y)"
    and "stop_at (h\<lparr>um_size := (um_size h)(x := um_size h x + um_size h y)\<rparr>) x = stop_at h y"
proof -
  show "unat (um_size h x + um_size h y) = unat (um_size h x) + unat (um_size h y)"
    using assms by (intro unat_add_lem [THEN iffD1]) (simp add: stop_at_def heap_ok_def)
  then show "stop_at (h\<lparr>um_size := (um_size h)(x := um_size h x + um_size h y)\<rparr>) x = stop_at h y"
    using assms(1) by (simp add: stop_at_def)
qed

lemma blocks_merge:
  assumes b: "blocks h S" and "x \<in> S" "y \<in> S" "x \<noteq> y" "stop_at h x = y" "heap_ok h"
  shows "blocks (h\<lparr>um_size := (um_size h)(x := um_size h x + um_size h y)\<rparr>) (S - {y})"
proof -
  let ?h = "h\<lparr>um_size := (um_size h)(x := um_size h x + um_size h y)\<rparr>"
  have y: "stop_at h y \<le> um_brk h" using assms by (auto simp: blocks_def)
  note st = merged_stop [OF assms(5) y assms(6)]
  have ne: "um_size h x + um_size h y \<noteq> 0"
    using st(1) b \<open>x \<in> S\<close> by (metis add_is_0 blocks_def unat_0 unat_eq_zero)
  have d: "stop_at h a \<le> x \<or> stop_at h y \<le> a" if "a \<in> S" "a \<noteq> x" "a \<noteq> y" for a
  proof -
    have "a + 8 \<le> stop_at h a" using b that(1) by (intro start_less_stop) (auto simp: blocks_def)
    moreover have "stop_at h a \<le> x \<or> y \<le> a" "stop_at h a \<le> y \<or> stop_at h y \<le> a"
      using b that \<open>x \<in> S\<close> \<open>y \<in> S\<close> assms(5) unfolding blocks_def by metis+
    ultimately show ?thesis by linarith
  qed
  have stx: "stop_at ?h a = (if a = x then stop_at h y else stop_at h a)" for a
    using st(2) by simp
  show ?thesis
    unfolding blocks_def
  proof (intro conjI ballI impI)
    fix a assume "a \<in> S - {y}"
    then show "um_size ?h a \<noteq> 0" "um_lo ?h \<le> a" "stop_at ?h a \<le> um_brk ?h"
      using b ne y by (auto simp: blocks_def stx)
  next
    fix a c assume "a \<in> S - {y}" "c \<in> S - {y}" "a \<noteq> c"
    then show "stop_at ?h a \<le> c \<or> stop_at ?h c \<le> a"
      using b d unfolding stx by (auto simp: blocks_def)
  qed
qed

text \<open>
  The state between the two halves of \<open>free\<close>: \<open>bp\<close> is merged with its successor or points to it,
  its predecessor \<open>p\<close> does not yet know of it.
\<close>

definition staged :: "uheap \<Rightarrow> nat list \<Rightarrow> nat \<Rightarrow> nat \<Rightarrow> nat list \<Rightarrow> nat set \<Rightarrow> bool" where
  "staged h as p bp bs A \<longleftrightarrow> heap_ok h \<and> (\<exists>cs. as @ [p] = um_base h # cs) \<and>
     path (um_ptr h) (um_base h) (as @ [p]) (um_ptr h p) \<and> path (um_ptr h) (um_ptr h bp) bs (um_base h) \<and>
     sorted_wrt (\<lambda>a b. stop_at h a < b) (as @ p # bs) \<and> p < bp \<and> (\<forall>b\<in>set bs. stop_at h bp < b) \<and>
     um_size h (um_base h) = 0 \<and> bp \<in> A \<and> A \<inter> set (as @ p # bs) = {} \<and>
     blocks h (A \<union> set (as @ p # bs) - {um_base h})"

lemma path_split:
  assumes "path nx x (as @ p # bs) y"
  shows "path nx x (as @ [p]) (nx p)" "path nx (nx p) bs y"
  using assms by auto

lemma heap_inv_alloc:
  assumes "heap_inv h ns A" "a \<in> A"
  shows "um_base h < a" "um_size h a \<noteq> 0" "stop_at h a \<le> um_brk h" "um_lo h \<le> a"
proof -
  have "um_base h \<in> set ns" using assms(1) by (auto simp: heap_inv_def free_list_def)
  then have "a \<noteq> um_base h" using assms by (auto simp: heap_inv_def)
  then show b: "um_size h a \<noteq> 0" "stop_at h a \<le> um_brk h" "um_lo h \<le> a"
    using assms by (auto simp: heap_inv_def blocks_def)
  show "um_base h < a" using b(3) assms(1) by (auto simp: heap_inv_def heap_ok_def)
qed

lemma free_next_ok:
  assumes inv: "heap_inv h (as @ p # bs) A" and bp: "bp \<in> A" and lt: "p < bp" "\<forall>b\<in>set bs. bp < b"
  obtains h1 bs1 where "free_next h bp p = Some h1" "staged h1 as p bp bs1 A"
    "um_base h1 = um_base h" "um_lo h1 = um_lo h" "um_brk h1 = um_brk h"
    "\<forall>a\<in>A - {bp}. um_size h1 a = um_size h a" "stop_at h bp \<le> stop_at h1 bp"
proof -
  let ?S = "A \<union> set (as @ p # bs) - {um_base h}"
  have i: "heap_ok h" "free_list h (as @ p # bs)" "A \<inter> set (as @ p # bs) = {}" "blocks h ?S"
    using inv by (simp_all add: heap_inv_def)
  have b: "um_base h < bp" "um_size h bp \<noteq> 0" "stop_at h bp \<le> um_brk h" "um_lo h \<le> bp"
    using heap_inv_alloc [OF inv bp] by auto
  have ok: "ok_addr h p" "ok_addr h bp"
    using free_list_ok_addr [OF i(2), of p] ok_addrI [OF b(2,4,3)] by auto
  have fl: "\<exists>cs. as @ p # bs = um_base h # cs" "path (um_ptr h) (um_base h) (as @ p # bs) (um_base h)"
    "sorted_wrt (\<lambda>a b. stop_at h a < b) (as @ p # bs)" "um_size h (um_base h) = 0"
    using i(2) unfolding free_list_def by blast+
  have hd: "\<exists>cs. as @ [p] = um_base h # cs" using fl(1) by (cases as) auto
  have nin: "bp \<notin> set (as @ p # bs)" using i(3) bp by auto
  have bps: "bp \<in> ?S" using bp b(1) by auto
  have le: "stop_at h bp \<le> c" if "c \<in> set bs" for c
  proof -
    have "c \<noteq> um_base h" using lt(2) b(1) that by auto
    then have c: "c \<in> ?S" using that by auto
    have "bp < c" using lt(2) that by auto
    then have "\<not> stop_at h c \<le> bp" using start_le_stop [of c h] by linarith
    then show ?thesis using i(4) c bps \<open>bp < c\<close> unfolding blocks_def by (metis nat_less_le)
  qed
  show thesis
  proof (cases "stop_at h bp = um_ptr h p")
    case False
    let ?h = "h\<lparr>um_ptr := (um_ptr h)(bp := um_ptr h p)\<rparr>"
    have lt': "\<forall>c\<in>set bs. stop_at h bp < c"
    proof (cases bs)
      case (Cons c cs)
      have "um_ptr h p = c" using free_list_next [of h as p c cs] i(2) Cons by simp
      then have "stop_at h bp < c" using le [of c] Cons False by auto
      moreover have "\<forall>d\<in>set cs. c < d" using free_list_less(4) [of h "as @ [p]" c cs] i(2) Cons by simp
      ultimately show ?thesis using Cons less_trans by auto
    qed simp
    have "free_next h bp p = Some ?h" using False ok by (simp add: free_next_def acc_defs stop_at_def)
    moreover have "staged ?h as p bp bs A"
      unfolding staged_def using hd path_split [OF fl(2)] fl(3,4) i lt(1) lt' bp nin by simp
    ultimately show thesis using that by auto
  next
    case True
    have "um_ptr h p \<noteq> um_base h" using True start_le_stop [of bp h] b(1) by auto
    then obtain c cs where cs: "bs = c # cs" using free_list_last [of h as p] i(2) by (cases bs) auto
    have c: "um_ptr h p = c" "c \<in> set (as @ p # bs)" "c \<in> ?S" "c \<noteq> bp"
      using free_list_next [of h as p c cs] i(2) cs \<open>um_ptr h p \<noteq> um_base h\<close> lt(2) by auto
    have okc: "ok_addr h c" using free_list_ok_addr [OF i(2) c(2)] .
    have stc: "stop_at h c \<le> um_brk h" using i(4) c(3) by (auto simp: blocks_def)
    let ?g = "h\<lparr>um_size := (um_size h)(bp := um_size h bp + um_size h c)\<rparr>"
    let ?h = "?g\<lparr>um_ptr := (um_ptr h)(bp := um_ptr h c)\<rparr>"
    have st: "stop_at ?g bp = stop_at h c" using merged_stop(2) [of h bp c] True c(1) stc i(1) by simp
    have dist: "c \<notin> set (as @ p # cs)"
      using free_list_less(3,4) [of h "as @ [p]" c cs] i(2) cs by auto
    have "blocks ?g (?S - {c})"
      by (rule blocks_merge [OF i(4) bps c(3)]) (use True c(1,4) i(1) in auto)
    moreover have "?S - {c} = A \<union> set (as @ p # cs) - {um_base h}" using dist i(3) c(2) cs by auto
    ultimately have bl: "blocks ?g (A \<union> set (as @ p # cs) - {um_base h})" by simp
    have lt': "\<forall>d\<in>set cs. stop_at h c < d"
      using free_list_less(2) [of h "as @ [p]" c cs] i(2) cs by simp
    have srt: "sorted_wrt (\<lambda>a b. stop_at ?g a < b) (as @ p # cs)"
    proof -
      have "sorted_wrt (\<lambda>a b. stop_at h a < b) (as @ p # cs)" using fl(3) cs by (auto simp: sorted_wrt_append)
      then show ?thesis using nin cs by (subst sorted_stop_upd) auto
    qed
    have pth: "path (um_ptr h) (um_ptr h c) cs (um_base h)" using fl(2) cs by auto
    have "free_next h bp p = Some ?h"
      using True ok okc c(1,4) by (simp add: free_next_def acc_defs stop_at_def)
    moreover have "staged ?h as p bp cs A"
      unfolding staged_def
      using hd path_split(1) [OF fl(2)] pth fl(4) i(1,3) lt(1) lt' bp nin cs b(1) bl srt st by simp
    moreover have "stop_at h bp \<le> stop_at ?h bp"
      using st True c(1) start_le_stop [of c h] by simp
    ultimately show thesis using that by auto
  qed
qed

lemma staged_facts:
  assumes "staged h as p bp bs A"
  shows "um_base h < bp" "bp \<notin> set (as @ p # bs)" "stop_at h p \<le> bp" "ok_addr h p" "ok_addr h bp"
    "p \<noteq> um_base h \<Longrightarrow> p \<in> A \<union> set (as @ p # bs) - {um_base h}"
    "bp \<in> A \<union> set (as @ p # bs) - {um_base h}" "p \<notin> set (as @ bs)"
proof -
  let ?S = "A \<union> set (as @ p # bs) - {um_base h}"
  have s: "heap_ok h" "\<exists>cs. as @ [p] = um_base h # cs" "sorted_wrt (\<lambda>a b. stop_at h a < b) (as @ p # bs)" "p < bp"
    "um_size h (um_base h) = 0" "bp \<in> A" "A \<inter> set (as @ p # bs) = {}" "blocks h ?S"
    using assms unfolding staged_def by blast+
  have "um_base h \<in> set (as @ [p])" using s(2) by (metis list.set_intros(1))
  then have "bp \<noteq> um_base h" using s(6,7) by auto
  then show bps: "bp \<in> ?S" using s(6) by simp
  then have b: "um_lo h \<le> bp" "um_size h bp \<noteq> 0" "stop_at h bp \<le> um_brk h" using s(8) by (auto simp: blocks_def)
  then show "um_base h < bp" using s(1) by (simp add: heap_ok_def)
  show "ok_addr h bp" using ok_addrI b by simp
  show "bp \<notin> set (as @ p # bs)" using s(6,7) by auto
  show ps: "p \<in> ?S" if "p \<noteq> um_base h" using that by simp
  show "ok_addr h p"
  proof (cases "p = um_base h")
    case False
    then show ?thesis using s(8) ps by (intro ok_addrI) (auto simp: blocks_def)
  qed (simp add: ok_addr_def)
  show "stop_at h p \<le> bp"
  proof (cases "p = um_base h")
    case True
    then show ?thesis using s(4,5) by (simp add: stop_at_def)
  next
    case False
    have "\<not> stop_at h bp \<le> p" using start_le_stop [of bp h] s(4) by linarith
    then show ?thesis using s(4,8) ps [OF False] bps unfolding blocks_def by (metis nat_less_le)
  qed
  have "\<forall>a\<in>set as. stop_at h a < p" "\<forall>b\<in>set bs. stop_at h p < b"
    using s(3) by (auto simp: sorted_wrt_append)
  then show "p \<notin> set (as @ bs)" using start_le_stop [of p h] by (auto simp: not_less [symmetric])
qed

lemma path_relink:
  assumes "path nx x (as @ [p]) z" "path nx q bs y" "p \<notin> set (as @ bs)"
  shows "path (nx(p := q)) x (as @ p # bs) y"
  using assms by auto

lemma free_prev_ok:
  assumes st: "staged h as p bp bs A"
  obtains h2 ns where "free_prev h bp p = Some h2" "heap_inv (h2\<lparr>um_freep := p\<rparr>) ns (A - {bp})"
    "um_base h2 = um_base h" "um_lo h2 = um_lo h" "um_brk h2 = um_brk h"
    "\<forall>a\<in>A - {bp}. um_size h2 a = um_size h a" "\<exists>c\<in>set ns. c \<noteq> um_base h \<and> c \<le> bp \<and> stop_at h bp \<le> stop_at h2 c"
proof -
  let ?S = "A \<union> set (as @ p # bs) - {um_base h}"
  note sf = staged_facts [OF st]
  have s: "heap_ok h" "\<exists>cs. as @ [p] = um_base h # cs" "path (um_ptr h) (um_base h) (as @ [p]) (um_ptr h p)"
    "path (um_ptr h) (um_ptr h bp) bs (um_base h)" "sorted_wrt (\<lambda>a b. stop_at h a < b) (as @ p # bs)" "p < bp"
    "\<forall>b\<in>set bs. stop_at h bp < b" "um_size h (um_base h) = 0" "bp \<in> A" "A \<inter> set (as @ p # bs) = {}" "blocks h ?S"
    using st unfolding staged_def by blast+
  have srt: "\<forall>a\<in>set as. stop_at h a < p" "\<forall>a\<in>set as. \<forall>b\<in>set bs. stop_at h a < b"
    "sorted_wrt (\<lambda>a b. stop_at h a < b) as" "sorted_wrt (\<lambda>a b. stop_at h a < b) bs"
    using s(5) by (auto simp: sorted_wrt_append)
  have hd: "\<exists>ds. as @ p # cs = um_base h # ds" for cs using s(2) by (cases as) auto
  show thesis
  proof (cases "stop_at h p = bp")
    case False
    let ?h = "h\<lparr>um_ptr := (um_ptr h)(p := bp)\<rparr>" and ?ns = "as @ p # bp # bs"
    have lt: "stop_at h p < bp" using False sf(3) by simp
    have "free_prev h bp p = Some ?h" using False sf(4) by (simp add: free_prev_def acc_defs stop_at_def)
    moreover have "path (um_ptr ?h) (um_base h) ?ns (um_base h)"
      using path_relink [of "um_ptr h" "um_base h" as p "um_ptr h p" bp "bp # bs"] s(3,4,6) sf(8) by simp
    moreover have "sorted_wrt (\<lambda>a b. stop_at h a < b) ?ns"
    proof -
      have "\<forall>a\<in>set as. stop_at h a < bp" using srt(1) s(6) by auto
      moreover have "\<forall>b\<in>set bs. stop_at h p < b" using s(5) by (auto simp: sorted_wrt_append)
      ultimately show ?thesis using srt lt s(7) by (simp add: sorted_wrt_append)
    qed
    moreover have eq: "A - {bp} \<union> set ?ns - {um_base h} = ?S" using s(9) by auto
    moreover have "blocks h (set ?ns - {um_base h})" by (rule blocks_subset [OF s(11)]) (use s(9) in auto)
    ultimately have "heap_inv (?h\<lparr>um_freep := p\<rparr>) ?ns (A - {bp})"
      unfolding heap_inv_def free_list_def using hd [of "bp # bs"] s(1,8,10,11) sf(2) by auto
    then show thesis
      using that [OF \<open>free_prev h bp p = Some ?h\<close>] sf(1) by (auto intro!: bexI [of _ bp])
  next
    case True
    have pb: "p \<noteq> um_base h" using True s(6,8) by (auto simp: stop_at_def)
    let ?g = "h\<lparr>um_size := (um_size h)(p := um_size h p + um_size h bp)\<rparr>"
    let ?h = "?g\<lparr>um_ptr := (um_ptr h)(p := um_ptr h bp)\<rparr>" and ?ns = "as @ p # bs"
    have brk: "stop_at h bp \<le> um_brk h" using s(11) sf(7) by (auto simp: blocks_def)
    have stp: "stop_at ?g p = stop_at h bp" using merged_stop(2) [of h p bp] True brk s(1) by simp
    have "blocks ?g (?S - {bp})"
      by (rule blocks_merge [OF s(11) sf(6) [OF pb] sf(7)]) (use True s(1,6) in auto)
    moreover have eq: "?S - {bp} = A - {bp} \<union> set ?ns - {um_base h}" using sf(2) by auto
    ultimately have bl: "blocks ?g (A - {bp} \<union> set ?ns - {um_base h})" by simp
    have bl2: "blocks ?g (set ?ns - {um_base h})" by (rule blocks_subset [OF bl]) auto
    have "free_prev h bp p = Some ?h"
      using True s(6) sf(4,5) by (simp add: free_prev_def acc_defs stop_at_def)
    moreover have "path (um_ptr ?h) (um_base h) ?ns (um_base h)"
      using path_relink [OF s(3,4) sf(8)] by simp
    moreover have "sorted_wrt (\<lambda>a b. stop_at ?g a < b) ?ns"
    proof -
      have "sorted_wrt (\<lambda>a b. stop_at ?g a < b) as" "sorted_wrt (\<lambda>a b. stop_at ?g a < b) bs"
        using srt(3,4) sf(8) by (auto simp: sorted_stop_upd)
      moreover have "stop_at ?g a = stop_at h a" if "a \<in> set as" for a
        using that sf(8) by (intro stop_at_upd(4)) auto
      ultimately show ?thesis using srt(1,2) s(7) stp by (simp add: sorted_wrt_append)
    qed
    ultimately have "heap_inv (?h\<lparr>um_freep := p\<rparr>) ?ns (A - {bp})"
      unfolding heap_inv_def free_list_def using hd [of bs] s(1,8,10) pb bl bl2 by auto
    moreover have "p \<notin> A" using s(10) by auto
    ultimately show thesis
      using that [OF \<open>free_prev h bp p = Some ?h\<close>] pb stp s(6) by (auto intro!: bexI [of _ p])
  qed
qed

lemma split_below:
  fixes x :: nat
  assumes "sorted_wrt (<) (x # xs)" "x < bp" "bp \<notin> set xs"
  obtains as p bs where "x # xs = as @ p # bs" "p < bp" "\<forall>b\<in>set bs. bp < b"
  using assms
proof (induction xs arbitrary: x thesis)
  case Nil
  then show ?case by (metis append_Nil empty_iff list.set(1))
next
  case (Cons y ys)
  show ?case
  proof (cases "y < bp")
    case True
    obtain as p bs where s: "y # ys = as @ p # bs" "p < bp" "\<forall>b\<in>set bs. bp < b"
      using Cons.IH [of y] Cons.prems True by auto
    show ?thesis by (rule Cons.prems(1) [of "x # as" p bs]) (use s in auto)
  next
    case False
    then have "bp < y" "\<forall>z\<in>set ys. bp < z" using Cons.prems(2,4) less_trans [of bp y] by auto
    then show ?thesis using Cons.prems(3) by (intro Cons.prems(1) [of "[]" x "y # ys"]) auto
  qed
qed

lemma free_list_sorted: "free_list h ns \<Longrightarrow> sorted_wrt (<) ns"
  unfolding free_list_def by (elim conjE, erule sorted_wrt_mono_rel [rotated]) (meson le_less_trans start_le_stop)

lemma ufree_ok:
  assumes inv: "heap_inv h ns A" and a: "a \<in> A"
  obtains h' ns' where "ufree (a + 8) h = Some h'" "heap_inv h' ns' (A - {a})"
    "um_base h' = um_base h" "um_lo h' = um_lo h" "um_brk h' = um_brk h" "\<forall>b\<in>A - {a}. um_size h' b = um_size h b"
    "\<exists>c\<in>set ns'. c \<noteq> um_base h \<and> c \<le> a \<and> stop_at h a \<le> stop_at h' c"
proof -
  have fl: "free_list h ns" "a \<notin> set ns" using inv a by (auto simp: heap_inv_def)
  then obtain cs where cs: "ns = um_base h # cs" unfolding free_list_def by blast
  obtain as p bs where s: "ns = as @ p # bs" "p < a" "\<forall>b\<in>set bs. a < b"
    using split_below [of "um_base h" cs a] free_list_sorted [OF fl(1)] fl(2) heap_inv_alloc(1) [OF inv a] cs by auto
  have srch: "free_search h a (um_freep h) = Some p" using free_search_eq [of h as p bs a] fl(1) s by simp
  obtain h1 bs1 where h1: "free_next h a p = Some h1" "staged h1 as p a bs1 A"
    "um_base h1 = um_base h" "um_lo h1 = um_lo h" "um_brk h1 = um_brk h"
    "\<forall>b\<in>A - {a}. um_size h1 b = um_size h b" "stop_at h a \<le> stop_at h1 a"
    using free_next_ok [OF inv [unfolded s(1)] a s(2,3)] by blast
  obtain h2 ns' where h2: "free_prev h1 a p = Some h2" "heap_inv (h2\<lparr>um_freep := p\<rparr>) ns' (A - {a})"
    "um_base h2 = um_base h1" "um_lo h2 = um_lo h1" "um_brk h2 = um_brk h1"
    "\<forall>b\<in>A - {a}. um_size h2 b = um_size h1 b"
    "\<exists>c\<in>set ns'. c \<noteq> um_base h1 \<and> c \<le> a \<and> stop_at h1 a \<le> stop_at h2 c"
    using free_prev_ok [OF h1(2)] by blast
  have "ufree (a + 8) h = Some (h2\<lparr>um_freep := p\<rparr>)" using srch h1(1) h2(1) by (simp add: ufree_def)
  then show thesis using that [OF _ h2(2)] h1(3-7) h2(3-7) by (auto intro: le_trans)
qed

section \<open>Allocating\<close>

lemma free_list_inj:
  assumes "free_list h ns"
  shows "inj_on (um_ptr h) (set ns)"
proof -
  have m: "path nx x xs y \<Longrightarrow> xs \<noteq> [] \<Longrightarrow> map nx xs = tl xs @ [y]" for nx and x xs y
  proof (induction xs arbitrary: x)
    case (Cons a as)
    then show ?case by (cases as) auto
  qed simp
  obtain bs where bs: "ns = um_base h # bs" "path (um_ptr h) (um_base h) ns (um_base h)"
    using assms unfolding free_list_def by blast
  have "distinct ns" using free_list_sorted [OF assms] by (simp add: strict_sorted_iff)
  then have "distinct (map (um_ptr h) ns)" using m [OF bs(2)] bs(1) by simp
  then show ?thesis by (simp add: distinct_map)
qed

lemma free_list_pred:
  assumes "free_list h ns" "p \<in> set ns" "p \<noteq> um_base h" "prevp \<in> set ns" "um_ptr h prevp = p"
  obtains as bs where "ns = as @ prevp # p # bs"
proof -
  obtain us bs where u: "ns = us @ p # bs" using split_list [OF assms(2)] by blast
  obtain cs where cs: "ns = um_base h # cs" using assms(1) unfolding free_list_def by blast
  then obtain as x where x: "us = as @ [x]" using u assms(3) by (cases us rule: rev_cases) auto
  have "um_ptr h x = p" using free_list_next [of h as x p bs] assms(1) u x by simp
  then have "x = prevp" using inj_onD [OF free_list_inj [OF assms(1)], of x prevp] assms(4,5) u x by simp
  then show thesis using that u x by simp
qed

text \<open>Cutting \<open>n\<close> units off the end of a free block.\<close>

lemma cut_stop:
  fixes n :: uint
  assumes "n < um_size h p"
  shows "p + 8 * unat (um_size h p - n) + 8 * unat n = stop_at h p" "um_size h p - n \<noteq> 0"
proof -
  have "unat (um_size h p - n) = unat (um_size h p) - unat n" "unat n < unat (um_size h p)"
    using unat_sub [OF less_imp_le [OF assms]] assms by (simp_all add: word_less_nat_alt)
  then show "p + 8 * unat (um_size h p - n) + 8 * unat n = stop_at h p" "um_size h p - n \<noteq> 0"
    using assms by (auto simp: stop_at_def)
qed

lemma blocks_cut:
  fixes n :: uint
  assumes b: "blocks h S" "p \<in> S" "n < um_size h p" "n \<noteq> 0"
  defines "r \<equiv> p + 8 * unat (um_size h p - n)"
  defines "h' \<equiv> h\<lparr>um_size := (um_size h)(p := um_size h p - n, r := n)\<rparr>"
  shows "r \<notin> S" "blocks h' (insert r S)" "stop_at h' p = r" "stop_at h' r = stop_at h p"
    "x \<noteq> p \<Longrightarrow> x \<noteq> r \<Longrightarrow> stop_at h' x = stop_at h x"
proof -
  note c = cut_stop [OF b(3)]
  have n: "0 < unat n" "0 < unat (um_size h p - n)" using b(4) c(2) by (simp_all add: unat_gt_0)
  have r: "p < r" "r < stop_at h p" using n c(1) by (simp_all add: r_def)
  have d: "stop_at h x \<le> p \<or> stop_at h p \<le> x" if "x \<in> S" "x \<noteq> p" for x
    using b(1,2) that unfolding blocks_def by blast
  show rS: "r \<notin> S"
  proof
    assume "r \<in> S"
    then show False using d [of r] r start_le_stop [of r h] by auto
  qed
  show s1: "stop_at h' p = r" using r(1) by (simp add: h'_def stop_at_def r_def)
  show s2: "stop_at h' r = stop_at h p" using c(1) by (simp add: h'_def stop_at_def r_def)
  show s3: "stop_at h' x = stop_at h x" if "x \<noteq> p" "x \<noteq> r" for x using that by (simp add: h'_def stop_at_def)
  have st: "stop_at h' x = (if x = p then r else if x = r then stop_at h p else stop_at h x)" for x
    using s1 s2 s3 by auto
  show "blocks h' (insert r S)"
    unfolding blocks_def
  proof (intro conjI ballI impI)
    fix x assume x: "x \<in> insert r S"
    show "um_size h' x \<noteq> 0" using b(1,4) c(2) x by (auto simp: h'_def blocks_def)
    show "um_lo h' \<le> x" using b(1,2) x r by (auto simp: h'_def blocks_def intro: le_trans less_imp_le)
    have "stop_at h p \<le> um_brk h" using b(1,2) by (auto simp: blocks_def)
    then show "stop_at h' x \<le> um_brk h'" using b(1,2) x r by (auto simp: st) (auto simp: h'_def blocks_def)
  next
    fix x y assume xy: "x \<in> insert r S" "y \<in> insert r S" "x \<noteq> y"
    have *: "stop_at h' x \<le> y \<or> stop_at h' y \<le> x" if "x \<in> S" "y \<in> S" "x \<noteq> y" for x y
      using that b(1) rS d [of x] d [of y] r by (auto simp: st blocks_def)
    have **: "stop_at h' x \<le> r \<or> stop_at h' r \<le> x" if "x \<in> S" for x
      using d [OF that] r that rS by (auto simp: st)
    show "stop_at h' x \<le> y \<or> stop_at h' y \<le> x" using xy * ** by auto
  qed
qed

text \<open>What \<open>malloc\<close> promises when it returns a block.\<close>

definition allocates :: "uheap \<Rightarrow> nat set \<Rightarrow> uint \<Rightarrow> nat \<Rightarrow> uheap \<Rightarrow> bool" where
  "allocates h A n r h' \<longleftrightarrow> (\<exists>ns a. r = a + 8 \<and> a \<notin> A \<and> heap_inv h' ns (insert a A) \<and> um_size h' a = n \<and>
     (\<forall>b\<in>A. um_size h' b = um_size h b) \<and> um_base h' = um_base h \<and> um_lo h' = um_lo h)"

lemma free_list_unlink:
  assumes fl: "free_list h (as @ prevp # p # bs)" and "p \<noteq> um_base h"
  shows "free_list (h\<lparr>um_ptr := (um_ptr h)(prevp := um_ptr h p), um_freep := prevp\<rparr>) (as @ prevp # bs)"
proof -
  let ?ns = "as @ prevp # p # bs"
  have f: "\<exists>cs. ?ns = um_base h # cs" "path (um_ptr h) (um_base h) ?ns (um_base h)"
    "sorted_wrt (\<lambda>a b. stop_at h a < b) ?ns" "um_size h (um_base h) = 0" "blocks h (set ?ns - {um_base h})"
    using fl unfolding free_list_def by blast+
  have "distinct ?ns" using free_list_sorted [OF fl] by (simp add: strict_sorted_iff)
  moreover have "path (um_ptr h) (um_base h) (as @ [prevp]) (um_ptr h prevp)" "path (um_ptr h) (um_ptr h p) bs (um_base h)"
    using f(2) by auto
  ultimately have pth: "path ((um_ptr h)(prevp := um_ptr h p)) (um_base h) (as @ prevp # bs) (um_base h)"
    by (intro path_relink) auto
  moreover have "sorted_wrt (\<lambda>a b. stop_at h a < b) (as @ prevp # bs)" using f(3) by (auto simp: sorted_wrt_append)
  moreover have "\<exists>cs. as @ prevp # bs = um_base h # cs" using f(1) by (cases as) auto
  moreover have "blocks h (set (as @ prevp # bs) - {um_base h})" by (rule blocks_subset [OF f(5)]) auto
  ultimately show ?thesis unfolding free_list_def using f(4) by simp
qed

lemma malloc_take_ok:
  assumes inv: "heap_inv h ns A" and p: "p \<in> set ns" "prevp \<in> set ns" "um_ptr h prevp = p" and n: "n \<noteq> 0" "n \<le> um_size h p"
  obtains r h' where "malloc_take n prevp p h = Some (r, h')" "allocates h A n r h'"
proof -
  let ?S = "A \<union> set ns - {um_base h}"
  have i: "heap_ok h" "free_list h ns" "A \<inter> set ns = {}" "blocks h ?S" using inv by (simp_all add: heap_inv_def)
  have "um_size h (um_base h) = 0" using i(2) unfolding free_list_def by blast
  then have pb: "p \<noteq> um_base h" using n by auto
  have ok: "ok_addr h p" "ok_addr h prevp" using free_list_ok_addr [OF i(2)] p by auto
  have pS: "p \<in> ?S" using p pb by auto
  obtain as bs where ns: "ns = as @ prevp # p # bs" using free_list_pred [OF i(2) p(1) pb p(2,3)] by blast
  have dist: "distinct ns" using free_list_sorted [OF i(2)] by (simp add: strict_sorted_iff)
  show thesis
  proof (cases "um_size h p = n")
    case True
    let ?h = "h\<lparr>um_ptr := (um_ptr h)(prevp := um_ptr h p), um_freep := prevp\<rparr>"
    have "malloc_take n prevp p h = Some (p + 8, ?h)" using True ok by (simp add: malloc_take_def acc_defs)
    moreover have "free_list ?h (as @ prevp # bs)" using free_list_unlink i(2) pb ns by simp
    moreover have "insert p A \<union> set (as @ prevp # bs) - {um_base h} = ?S" using ns by auto
    ultimately have "heap_inv ?h (as @ prevp # bs) (insert p A)"
      unfolding heap_inv_def using i dist ns by auto
    moreover have "p \<notin> A" using i(3) p(1) by auto
    ultimately have "allocates h A n (p + 8) ?h" unfolding allocates_def using True by auto
    with \<open>malloc_take n prevp p h = Some (p + 8, ?h)\<close> show thesis by (rule that)
  next
    case False
    then have lt: "n < um_size h p" using n(2) by simp
    define r where "r = p + 8 * unat (um_size h p - n)"
    let ?h = "h\<lparr>um_size := (um_size h)(p := um_size h p - n, r := n)\<rparr>"
    note c = blocks_cut [OF i(4) pS lt n(1), folded r_def]
    have rb: "stop_at h p \<le> um_brk h" "um_lo h \<le> p" using i(4) pS by (auto simp: blocks_def)
    have "0 < unat n" using n(1) by (simp add: unat_gt_0)
    then have okr: "ok_addr h r" using cut_stop(1) [OF lt] rb by (simp add: ok_addr_def r_def)
    have "malloc_take n prevp p h = Some (r + 8, ?h\<lparr>um_freep := prevp\<rparr>)"
      using False ok okr by (simp add: malloc_take_def acc_defs r_def Let_def)
    moreover have "heap_inv (?h\<lparr>um_freep := prevp\<rparr>) ns (insert r A)"
    proof -
      have rne: "r \<noteq> um_base h" using rb i(1) by (auto simp: r_def heap_ok_def)
      then have rns: "r \<notin> set ns" using c(1) by auto
      have st: "stop_at ?h x \<le> stop_at h x" if "x \<in> set ns" for x
      proof -
        have "x \<noteq> r" using rns that by auto
        moreover have "r \<le> stop_at h p" using cut_stop(1) [OF lt] by (simp add: r_def)
        ultimately show ?thesis using c(3) c(5) [of x] by (cases "x = p") auto
      qed
      have f: "\<exists>cs. ns = um_base h # cs" "path (um_ptr h) (um_base h) ns (um_base h)"
        "sorted_wrt (\<lambda>a b. stop_at h a < b) ns" "um_size h (um_base h) = 0"
        using i(2) unfolding free_list_def by blast+
      have "sorted_wrt (\<lambda>a b. stop_at ?h a < b) ns"
        by (rule sorted_wrt_mono_rel [OF _ f(3)]) (use st in \<open>auto intro: le_less_trans\<close>)
      moreover have "blocks ?h (insert r A \<union> set ns - {um_base h})"
        using c(2) rne by (simp add: insert_Diff_if)
      moreover have "blocks ?h (set ns - {um_base h})"
        by (rule blocks_subset [OF c(2)]) auto
      ultimately show ?thesis
        unfolding heap_inv_def free_list_def using i(1,3) f rne rns pb p(2) by simp
    qed
    moreover have "r \<notin> A" using c(1) rb i(1) by (auto simp: r_def heap_ok_def)
    moreover have "p \<notin> A" using i(3) p(1) by auto
    ultimately have "allocates h A n (r + 8) (?h\<lparr>um_freep := prevp\<rparr>)" unfolding allocates_def by auto
    with \<open>malloc_take n prevp p h = Some (r + 8, ?h\<lparr>um_freep := prevp\<rparr>)\<close> show thesis by (rule that)
  qed
qed

text \<open>One round over the free list, from the successor of \<open>freep\<close> to \<open>freep\<close>.\<close>

lemma malloc_loop_fit:
  assumes "free_list h ns" "path (um_ptr h) p rs q" "set rs \<subseteq> set ns" "um_freep h \<notin> set (butlast rs)"
    "prevp \<in> set ns" "um_ptr h prevp = p" "x \<in> set rs" "n \<le> um_size h x"
  shows "\<exists>prev\<in>set ns. \<exists>y\<in>set ns. um_ptr h prev = y \<and> n \<le> um_size h y \<and>
    malloc_loop room n prevp p h = malloc_take n prev y h"
  using assms(2-8)
proof (induction rs arbitrary: p prevp)
  case (Cons a rs)
  have a: "p = a" "a \<in> set ns" "path (um_ptr h) (um_ptr h a) rs q" using Cons.prems by auto
  have ok: "ok_addr h a" using free_list_ok_addr [OF assms(1) a(2)] .
  show ?case
  proof (cases "n \<le> um_size h a")
    case True
    then have "malloc_loop room n prevp p h = malloc_take n prevp p h"
      using ok a(1) by (subst malloc_loop.simps) (simp add: acc_defs)
    then show ?thesis using True Cons.prems(4,5) a by blast
  next
    case False
    then have x: "x \<in> set rs" using Cons.prems(6,7) by auto
    then have "a \<noteq> um_freep h" "um_freep h \<notin> set (butlast rs)" using Cons.prems(3) by (auto split: if_splits)
    moreover have "malloc_loop room n prevp p h = malloc_loop room n a (um_ptr h a) h"
      using False ok a(1) \<open>a \<noteq> um_freep h\<close> by (subst malloc_loop.simps) (simp add: acc_defs)
    ultimately show ?thesis using Cons.IH [OF a(3) _ _ a(2) refl x] Cons.prems(2,7) by simp
  qed
qed simp

lemma malloc_loop_none:
  assumes "free_list h ns" "path (um_ptr h) p (rs @ [um_freep h]) q" "set rs \<subseteq> set ns" "um_freep h \<notin> set rs"
    "\<forall>x\<in>set ns. um_size h x < n"
  shows "malloc_loop room n prevp p h = do {
    (p, h) \<leftarrow> morecore room n h;
    if p = 0 then Some (0, h) else do { q \<leftarrow> get_ptr h p; malloc_loop room n p q h }
  }"
  using assms(2-4)
proof (induction rs arbitrary: p prevp)
  case Nil
  have "um_freep h \<in> set ns" using assms(1) by (simp add: free_list_def)
  then show ?case using Nil assms(5) free_list_ok_addr [OF assms(1), of "um_freep h"]
    by (subst malloc_loop.simps) (simp add: acc_defs not_le [symmetric])
next
  case (Cons a rs)
  have a: "p = a" "a \<in> set ns" "path (um_ptr h) (um_ptr h a) (rs @ [um_freep h]) q" using Cons.prems by auto
  have "\<not> n \<le> um_size h a" using assms(5) a(2) by (simp add: not_le)
  then have "malloc_loop room n prevp p h = malloc_loop room n a (um_ptr h a) h"
    using free_list_ok_addr [OF assms(1) a(2)] a(1) Cons.prems(3) by (subst malloc_loop.simps) (simp add: acc_defs)
  then show ?case using Cons.IH [OF a(3)] Cons.prems(2,3) by simp
qed

lemma free_list_round:
  assumes "free_list h ns"
  obtains rs where "path (um_ptr h) (um_ptr h (um_freep h)) (rs @ [um_freep h]) (um_ptr h (um_freep h))"
    "set (rs @ [um_freep h]) = set ns" "um_freep h \<notin> set rs"
proof -
  have f: "um_freep h \<in> set ns" "\<exists>cs. ns = um_base h # cs" "path (um_ptr h) (um_base h) ns (um_base h)"
    using assms unfolding free_list_def by blast+
  obtain us vs where u: "ns = us @ um_freep h # vs" using split_list [OF f(1)] by blast
  have "distinct ns" using free_list_sorted [OF assms] by (simp add: strict_sorted_iff)
  moreover have "path (um_ptr h) (um_base h) us (um_freep h)" "path (um_ptr h) (um_ptr h (um_freep h)) vs (um_base h)"
    using f(3) u by auto
  ultimately show thesis using that [of "vs @ us"] u by auto
qed

lemma malloc_loop_ok:
  assumes inv: "heap_inv h ns A" and n: "n \<noteq> 0" and x: "x \<in> set ns" "n \<le> um_size h x"
  obtains r h' where "malloc_loop room n (um_freep h) (um_ptr h (um_freep h)) h = Some (r, h')" "allocates h A n r h'"
proof -
  have fl: "free_list h ns" using inv by (simp add: heap_inv_def)
  then have fr: "um_freep h \<in> set ns" by (simp add: free_list_def)
  obtain rs where rs: "path (um_ptr h) (um_ptr h (um_freep h)) (rs @ [um_freep h]) (um_ptr h (um_freep h))"
    "set (rs @ [um_freep h]) = set ns" "um_freep h \<notin> set rs"
    using free_list_round [OF fl] by blast
  have "\<exists>prev\<in>set ns. \<exists>y\<in>set ns. um_ptr h prev = y \<and> n \<le> um_size h y \<and>
    malloc_loop room n (um_freep h) (um_ptr h (um_freep h)) h = malloc_take n prev y h"
    by (rule malloc_loop_fit [OF fl rs(1) _ _ fr refl]) (use rs(2,3) x in auto)
  then obtain prev y where y: "prev \<in> set ns" "y \<in> set ns" "um_ptr h prev = y" "n \<le> um_size h y"
    "malloc_loop room n (um_freep h) (um_ptr h (um_freep h)) h = malloc_take n prev y h" by blast
  show thesis using malloc_take_ok [OF inv y(2,1,3) n y(4)] that y(5) by metis
qed

section \<open>Growing the heap\<close>

abbreviation core_units :: "uint \<Rightarrow> uint" where
  "core_units n \<equiv> (if n < 4096 then 4096 else n)"

lemma free_list_size:
  assumes "free_list h ns" "heap_ok h" "x \<in> set ns"
  shows "8 * unat (um_size h x) < 2 ^ 31"
proof (cases "x = um_base h")
  case True
  then show ?thesis using assms(1) by (auto simp: free_list_def)
next
  case False
  then have "stop_at h x \<le> um_brk h" using assms by (auto simp: free_list_def blocks_def)
  then show ?thesis using assms(2) by (simp add: stop_at_def heap_ok_def)
qed

lemma core_units_facts:
  assumes "unat n * 8 < 2 ^ 31"
  shows "sint (core_units n * 8) = 8 * int (unat (core_units n))" "unat n \<le> unat (core_units n)" "core_units n \<noteq> 0"
proof -
  let ?u = "core_units n"
  have u: "unat ?u * 8 < 2 ^ 31" "?u \<noteq> 0" "unat n \<le> unat ?u" using assms by (auto simp: word_less_nat_alt)
  have "unat (?u * 8) = unat ?u * 8"
    using u(1) by (subst unat_mult_lem [THEN iffD1]) simp_all
  moreover have "sint (?u * 8) = int (unat (?u * 8))"
    using u(1) calculation by (intro sint_small) simp
  ultimately show "sint (?u * 8) = 8 * int (unat ?u)" "unat n \<le> unat ?u" "?u \<noteq> 0" using u(2,3) by auto
qed

lemma grow_ok:
  assumes inv: "heap_inv h ns A" and u: "u \<noteq> 0" "um_brk h + 8 * unat u < USERTOP"
  defines "h' \<equiv> h\<lparr>um_brk := um_brk h + 8 * unat u, um_size := (um_size h)(um_brk h := u)\<rparr>"
  shows "um_brk h \<notin> A" "heap_inv h' ns (insert (um_brk h) A)" "stop_at h' (um_brk h) = um_brk h + 8 * unat u"
    "ok_addr (h\<lparr>um_brk := um_brk h + 8 * unat u\<rparr>) (um_brk h)"
proof -
  let ?S = "A \<union> set ns - {um_base h}" and ?b = "um_brk h"
  have i: "heap_ok h" "free_list h ns" "A \<inter> set ns = {}" "blocks h ?S" using inv by (simp_all add: heap_inv_def)
  have bb: "?b \<noteq> um_base h" "um_lo h \<le> ?b" using i(1) by (auto simp: heap_ok_def)
  have le: "x + 8 \<le> stop_at h x" "stop_at h x \<le> ?b" "um_lo h \<le> x" if "x \<in> ?S" for x
    using i(4) that start_less_stop [of h x] by (auto simp: blocks_def)
  have nin: "?b \<notin> ?S" using le [of ?b] by auto
  then show nA: "?b \<notin> A" using bb by auto
  have nns: "?b \<notin> set ns" using nin bb by auto
  show st: "stop_at h' ?b = ?b + 8 * unat u" by (simp add: h'_def stop_at_def)
  have st': "stop_at h' x = stop_at h x" if "x \<noteq> ?b" for x using that by (simp add: h'_def stop_at_def)
  have ne: "x \<noteq> ?b" if "x \<in> ?S" for x using that nin by auto
  have bl: "blocks h' (insert ?b ?S)"
    unfolding blocks_def
  proof (intro conjI ballI impI)
    fix x assume x: "x \<in> insert ?b ?S"
    show "um_size h' x \<noteq> 0" using i(4) x u(1) by (auto simp: h'_def blocks_def)
    show "um_lo h' \<le> x" using x le(3) [of x] bb(2) by (auto simp: h'_def)
    show "stop_at h' x \<le> um_brk h'"
    proof (cases "x = ?b")
      case True
      then show ?thesis using st by (simp add: h'_def)
    next
      case False
      then show ?thesis using x le(2) [of x] st' by (simp add: h'_def)
    qed
  next
    fix x y assume "x \<in> insert ?b ?S" "y \<in> insert ?b ?S" "x \<noteq> y"
    then show "stop_at h' x \<le> y \<or> stop_at h' y \<le> x"
      using i(4) le(2) st' ne unfolding blocks_def by (metis insertE)
  qed
  have f: "\<exists>cs. ns = um_base h # cs" "path (um_ptr h) (um_base h) ns (um_base h)"
    "sorted_wrt (\<lambda>a b. stop_at h a < b) ns" "um_size h (um_base h) = 0" "um_freep h \<in> set ns"
    using i(2) unfolding free_list_def by blast+
  have "sorted_wrt (\<lambda>a b. stop_at h' a < b) ns"
    by (rule sorted_wrt_mono_rel [OF _ f(3)]) (metis st' nns)
  moreover have "blocks h' (set ns - {um_base h})" by (rule blocks_subset [OF bl]) auto
  moreover have "blocks h' (insert ?b A \<union> set ns - {um_base h})" using bl bb by (simp add: insert_Diff_if)
  moreover have "heap_ok h'" using i(1) u(2) by (auto simp: heap_ok_def h'_def)
  ultimately show "heap_inv h' ns (insert ?b A)"
    unfolding heap_inv_def free_list_def using f i(3) nns bb(1) by (simp add: h'_def)
  have "0 < unat u" using u(1) by (simp add: unat_gt_0)
  then show "ok_addr (h\<lparr>um_brk := ?b + 8 * unat u\<rparr>) ?b" using bb(2) by (simp add: ok_addr_def)
qed

lemma morecore_eq:
  assumes u: "core_units n = u" "sint (u * 8) = 8 * int (unat u)" "0 < unat u"
  shows "morecore room n h =
    (if um_brk h + 8 * unat u < USERTOP \<and> room (um_brk h + 8 * unat u) then do {
       h1 \<leftarrow> set_size (h\<lparr>um_brk := um_brk h + 8 * unat u\<rparr>) (um_brk h) u;
       h2 \<leftarrow> ufree (um_brk h + 8) h1;
       Some (um_freep h2, h2)
     } else Some (0, h))"
proof -
  have "nat (8 * int (unat u)) = 8 * unat u" "0 < 8 * int (unat u)" using u(3) by (simp add: nat_mult_distrib, linarith)
  then show ?thesis unfolding morecore_def Let_def sbrk_def u(1,2) using u(3)
    by (auto simp: set_size_def split: option.splits)
qed

lemma morecore_grows:
  assumes inv: "heap_inv h ns A" and u: "core_units n = u" "sint (u * 8) = 8 * int (unat u)" "unat n \<le> unat u" "u \<noteq> 0"
    and k: "k = um_brk h + 8 * unat u" "k < USERTOP" "room k"
  obtains h' ns' where "morecore room n h = Some (um_freep h', h')" "heap_inv h' ns' A"
      "um_base h' = um_base h" "um_lo h' = um_lo h" "\<forall>a\<in>A. um_size h' a = um_size h a" "\<exists>c\<in>set ns'. n \<le> um_size h' c"
proof -
  let ?b = "um_brk h"
  define h1 where "h1 = h\<lparr>um_brk := k, um_size := (um_size h)(?b := u)\<rparr>"
  have g: "?b \<notin> A" "heap_inv h1 ns (insert ?b A)" "stop_at h1 ?b = k" "ok_addr (h\<lparr>um_brk := k\<rparr>) ?b"
    using grow_ok [OF inv u(4)] k(2) unfolding k(1) h1_def by auto
  have bA: "?b \<in> insert ?b A" by simp
  obtain h' ns' where h': "ufree (?b + 8) h1 = Some h'" "heap_inv h' ns' (insert ?b A - {?b})"
    "um_base h' = um_base h1" "um_lo h' = um_lo h1" "\<forall>a\<in>insert ?b A - {?b}. um_size h' a = um_size h1 a"
    "\<exists>c\<in>set ns'. c \<noteq> um_base h1 \<and> c \<le> ?b \<and> stop_at h1 ?b \<le> stop_at h' c"
    by (rule ufree_ok [OF g(2) bA])
  have eq: "insert ?b A - {?b} = A" using g(1) by auto
  obtain c where c: "c \<in> set ns'" "c \<le> ?b" "k \<le> stop_at h' c" using h'(6) unfolding g(3) by blast
  then have "unat n \<le> unat (um_size h' c)" using u(3) unfolding k(1) stop_at_def by linarith
  then have n: "\<exists>c\<in>set ns'. n \<le> um_size h' c" using c(1) by (auto simp: word_le_nat_alt)
  have sz: "\<forall>a\<in>A. um_size h' a = um_size h a" using h'(5) g(1) unfolding eq by (auto simp: h1_def)
  have pos: "0 < unat u" using u(4) by (simp add: unat_gt_0)
  have "set_size (h\<lparr>um_brk := k\<rparr>) ?b u = Some h1" using g(4) by (simp add: set_size_def h1_def)
  then have "morecore room n h = Some (um_freep h', h')"
    unfolding morecore_eq [OF u(1,2) pos] k(1) [symmetric] using k(2,3) h'(1) by simp
  then show thesis
    by (rule that) (use h'(2-4) n sz in \<open>simp_all add: eq h1_def\<close>)
qed

text \<open>The kernel would grant the memory that \<open>morecore(n)\<close> asks for.\<close>

definition can_grow :: "(nat \<Rightarrow> bool) \<Rightarrow> uint \<Rightarrow> uheap \<Rightarrow> bool" where
  "can_grow room n h \<longleftrightarrow> (let k = um_brk h + 8 * unat (core_units n) in k < USERTOP \<and> room k)"

lemma malloc_loop_cases:
  assumes inv: "heap_inv h ns A" and n: "n \<noteq> 0" "unat n * 8 < 2 ^ 31"
  shows "\<exists>r h'. malloc_loop room n (um_freep h) (um_ptr h (um_freep h)) h = Some (r, h') \<and>
    (r = 0 \<and> h' = h \<and> \<not> can_grow room n h \<or> allocates h A n r h')"
proof (cases "\<exists>x\<in>set ns. n \<le> um_size h x")
  case True
  then show ?thesis using malloc_loop_ok [OF inv n(1)] by metis
next
  case False
  have fl: "free_list h ns" using inv by (simp add: heap_inv_def)
  obtain rs where rs: "path (um_ptr h) (um_ptr h (um_freep h)) (rs @ [um_freep h]) (um_ptr h (um_freep h))"
    "set (rs @ [um_freep h]) = set ns" "um_freep h \<notin> set rs"
    using free_list_round [OF fl] by blast
  define u where "u = core_units n"
  have u: "core_units n = u" "sint (u * 8) = 8 * int (unat u)" "unat n \<le> unat u" "u \<noteq> 0"
    using core_units_facts [OF n(2)] unfolding u_def by blast+
  have pos: "0 < unat u" using u(4) by (simp add: unat_gt_0)
  have lp: "malloc_loop room n (um_freep h) (um_ptr h (um_freep h)) h = do {
    (p, h) \<leftarrow> morecore room n h;
    if p = 0 then Some (0, h) else do { q \<leftarrow> get_ptr h p; malloc_loop room n p q h }
  }"
    by (rule malloc_loop_none [OF fl rs(1) _ rs(3)]) (use rs(2) False in \<open>auto simp: not_le\<close>)
  show ?thesis
  proof (cases "can_grow room n h")
    case True
    then have k: "um_brk h + 8 * unat u < USERTOP" "room (um_brk h + 8 * unat u)"
      unfolding can_grow_def u(1) Let_def by blast+
    obtain h1 ns1 where h1: "morecore room n h = Some (um_freep h1, h1)" "heap_inv h1 ns1 A"
      "um_base h1 = um_base h" "um_lo h1 = um_lo h" "\<forall>a\<in>A. um_size h1 a = um_size h a" "\<exists>c\<in>set ns1. n \<le> um_size h1 c"
      by (rule morecore_grows [where room = room, OF inv u refl k])
    have f: "um_freep h1 \<in> set ns1" "free_list h1 ns1" "heap_ok h1"
      using h1(2) by (auto simp: heap_inv_def free_list_def)
    have f0: "um_freep h1 \<noteq> 0" "get_ptr h1 (um_freep h1) = Some (um_ptr h1 (um_freep h1))"
      using free_list_base_le [OF f(2,1)] f(3) free_list_ok_addr [OF f(2,1)] by (auto simp: heap_ok_def get_ptr_def)
    obtain c where c: "c \<in> set ns1" "n \<le> um_size h1 c" using h1(6) by blast
    obtain r h2 where r: "malloc_loop room n (um_freep h1) (um_ptr h1 (um_freep h1)) h1 = Some (r, h2)" "allocates h1 A n r h2"
      by (rule malloc_loop_ok [OF h1(2) n(1) c])
    have "allocates h A n r h2" using r(2) h1(3-5) by (auto simp: allocates_def)
    then show ?thesis using lp h1(1) f0 r(1) by simp
  next
    case False
    then have "\<not> (um_brk h + 8 * unat u < USERTOP \<and> room (um_brk h + 8 * unat u))"
      unfolding can_grow_def u(1) Let_def .
    then have "morecore room n h = Some (0, h)" unfolding morecore_eq [OF u(1,2) pos] by (rule if_not_P)
    then show ?thesis using lp False by simp
  qed
qed

text \<open>
  The heap between two calls: the list is not yet set up and nothing is allocated, or the
  blocks \<open>A\<close> are allocated.
\<close>

definition uheap_ok :: "uheap \<Rightarrow> nat set \<Rightarrow> bool" where
  "uheap_ok h A \<longleftrightarrow> heap_ok h \<and> (um_freep h = 0 \<and> A = {} \<or> (\<exists>ns. heap_inv h ns A))"

lemma malloc_init_ok:
  assumes "uheap_ok h A"
  obtains ns where "heap_inv (malloc_init h) ns A" "um_brk (malloc_init h) = um_brk h"
    "\<forall>a\<in>A. um_size (malloc_init h) a = um_size h a"
proof (cases "um_freep h = 0")
  case False
  then show ?thesis using assms that by (auto simp: uheap_ok_def malloc_init_def)
next
  case True
  have "heap_ok h" using assms by (simp add: uheap_ok_def)
  have "A = {}"
  proof (rule ccontr)
    assume "A \<noteq> {}"
    then obtain ns where "heap_inv h ns A" using assms by (auto simp: uheap_ok_def)
    then have "um_freep h \<in> set ns" "free_list h ns" by (auto simp: heap_inv_def free_list_def)
    then have "um_base h \<le> 0" using free_list_base_le True by fastforce
    then show False using \<open>heap_ok h\<close> by (simp add: heap_ok_def)
  qed
  moreover have "heap_inv (malloc_init h) [um_base h] {}"
    using True \<open>heap_ok h\<close> by (simp add: malloc_init_def heap_inv_def free_list_def blocks_def heap_ok_def)
  ultimately show ?thesis using that True by (simp add: malloc_init_def)
qed

lemma nunits_facts:
  fixes nbytes :: uint
  assumes "unat nbytes \<le> 2 ^ 31 - 24"
  shows "unat ((nbytes + 8 - 1) div 8 + 1) = (unat nbytes + 7) div 8 + 1"
proof -
  have "unat (nbytes + 7) = unat nbytes + 7" using assms by (subst unat_add_lem [THEN iffD1]) simp_all
  then have d: "unat ((nbytes + 7) div 8) = (unat nbytes + 7) div 8" by (simp add: unat_div)
  then have "unat ((nbytes + 7) div 8 + 1) = (unat nbytes + 7) div 8 + 1"
    using assms by (subst unat_add_lem [THEN iffD1]) simp_all
  then show ?thesis by (simp add: add.commute)
qed

lemma malloc_ok:
  assumes h: "uheap_ok h A" and nb: "unat nbytes \<le> 2 ^ 31 - 24"
  defines "n \<equiv> (nbytes + 8 - 1) div 8 + 1"
  shows "\<exists>r h'. malloc room nbytes h = Some (r, h') \<and> (\<forall>a\<in>A. um_size h' a = um_size h a) \<and>
    (r = 0 \<and> uheap_ok h' A \<and> \<not> can_grow room n h \<or>
     8 < r \<and> r - 8 \<notin> A \<and> uheap_ok h' (insert (r - 8) A) \<and> um_size h' (r - 8) = n)"
proof -
  have un: "unat n = (unat nbytes + 7) div 8 + 1" unfolding n_def by (rule nunits_facts [OF nb])
  have n: "n \<noteq> 0" "unat n * 8 < 2 ^ 31"
  proof -
    have "0 < unat n" using un by simp
    then show "n \<noteq> 0" by auto
    show "unat n * 8 < 2 ^ 31" unfolding un using nb by auto
  qed
  obtain ns where i: "heap_inv (malloc_init h) ns A" "um_brk (malloc_init h) = um_brk h"
    "\<forall>a\<in>A. um_size (malloc_init h) a = um_size h a"
    by (rule malloc_init_ok [OF h])
  let ?h = "malloc_init h"
  have fl: "free_list ?h ns" "heap_ok ?h" using i(1) by (simp_all add: heap_inv_def)
  have "um_freep ?h \<in> set ns" using fl(1) by (simp add: free_list_def)
  then have q: "get_ptr ?h (um_freep ?h) = Some (um_ptr ?h (um_freep ?h))"
    using free_list_ok_addr [OF fl(1)] by (simp add: get_ptr_def)
  have m: "malloc room nbytes h = malloc_loop room n (um_freep ?h) (um_ptr ?h (um_freep ?h)) ?h"
    unfolding malloc_def Let_def n_def by (simp add: q)
  obtain r h' where r: "malloc_loop room n (um_freep ?h) (um_ptr ?h (um_freep ?h)) ?h = Some (r, h')"
    "r = 0 \<and> h' = ?h \<and> \<not> can_grow room n ?h \<or> allocates ?h A n r h'"
    using malloc_loop_cases [OF i(1) n] by blast
  have "can_grow room n ?h = can_grow room n h" by (simp add: can_grow_def i(2))
  moreover have "uheap_ok ?h A" using i(1) fl(2) by (auto simp: uheap_ok_def)
  moreover have "8 < r \<and> r - 8 \<notin> A \<and> uheap_ok h' (insert (r - 8) A) \<and> um_size h' (r - 8) = n \<and>
      (\<forall>a\<in>A. um_size h' a = um_size h a)" if al: "allocates ?h A n r h'"
  proof -
    obtain ns' a where a: "r = a + 8" "a \<notin> A" "heap_inv h' ns' (insert a A)" "um_size h' a = n"
      "\<forall>b\<in>A. um_size h' b = um_size ?h b" using al unfolding allocates_def by blast
    have "0 < a" using heap_inv_alloc(1) [OF a(3), of a] by simp
    then show ?thesis using a i(3) by (auto simp: uheap_ok_def heap_inv_def)
  qed
  ultimately show ?thesis using r(2) i(3) unfolding m r(1) by auto
qed

section \<open>Programs that use the allocator\<close>

text \<open>
  \<open>alive room h L\<close>: a program that only frees what it was given can be in the state \<open>h\<close>, in
  which it owns the pairs \<open>L\<close> of a pointer and the number of bytes it asked for.
\<close>

inductive alive :: "(nat \<Rightarrow> bool) \<Rightarrow> uheap \<Rightarrow> (nat \<times> nat) set \<Rightarrow> bool" for room where
  alive_start: "heap_ok h \<Longrightarrow> um_freep h = 0 \<Longrightarrow> alive room h {}"
| alive_malloc: "alive room h L \<Longrightarrow> unat nbytes \<le> 2 ^ 31 - 24 \<Longrightarrow> malloc room nbytes h = Some (r, h') \<Longrightarrow> r \<noteq> 0 \<Longrightarrow>
    alive room h' (insert (r, unat nbytes) L)"
| alive_fail: "alive room h L \<Longrightarrow> unat nbytes \<le> 2 ^ 31 - 24 \<Longrightarrow> malloc room nbytes h = Some (0, h') \<Longrightarrow> alive room h' L"
| alive_free: "alive room h L \<Longrightarrow> (r, k) \<in> L \<Longrightarrow> ufree r h = Some h' \<Longrightarrow> alive room h' (L - {(r, k)})"

text \<open>The blocks behind the pointers \<open>L\<close> are the allocated ones, and each is large enough.\<close>

definition owns :: "uheap \<Rightarrow> (nat \<times> nat) set \<Rightarrow> bool" where
  "owns h L \<longleftrightarrow> uheap_ok h ((\<lambda>(r, k). r - 8) ` L) \<and>
     (\<forall>(r, k)\<in>L. 8 < r \<and> r + k \<le> stop_at h (r - 8)) \<and> inj_on fst L"

lemma owns_malloc:
  assumes o: "owns h L" and nb: "unat nbytes \<le> 2 ^ 31 - 24"
  obtains r h' where "malloc room nbytes h = Some (r, h')"
    "r = 0 \<and> owns h' L \<or> r \<noteq> 0 \<and> owns h' (insert (r, unat nbytes) L)"
proof -
  let ?A = "(\<lambda>(r, k). r - 8) ` L" and ?n = "(nbytes + 8 - 1) div 8 + 1 :: uint"
  have h: "uheap_ok h ?A" using o by (simp add: owns_def)
  obtain r h' where m: "malloc room nbytes h = Some (r, h')" "\<forall>a\<in>?A. um_size h' a = um_size h a"
    "r = 0 \<and> uheap_ok h' ?A \<or>
     8 < r \<and> r - 8 \<notin> ?A \<and> uheap_ok h' (insert (r - 8) ?A) \<and> um_size h' (r - 8) = ?n"
    using malloc_ok [OF h nb, of room] by metis
  have st: "stop_at h' (s - 8) = stop_at h (s - 8)" if "(s, k) \<in> L" for s k
    using m(2) that by (force simp: stop_at_def)
  have old: "\<forall>(s, k)\<in>L. 8 < s \<and> s + k \<le> stop_at h' (s - 8)" "inj_on fst L"
    using o st by (auto simp: owns_def)
  have "owns h' (insert (r, unat nbytes) L)"
    if r: "8 < r" "r - 8 \<notin> ?A" "uheap_ok h' (insert (r - 8) ?A)" "um_size h' (r - 8) = ?n"
  proof -
    have "unat nbytes \<le> 8 * ((unat nbytes + 7) div 8)" by linarith
    then have "r + unat nbytes \<le> stop_at h' (r - 8)"
      using r(1) nunits_facts [OF nb] unfolding stop_at_def r(4) by simp
    moreover have "inj_on fst (insert (r, unat nbytes) L)"
      using old(2) r(2) by (force simp: inj_on_def)
    ultimately show ?thesis using old r(1,3) by (auto simp: owns_def)
  qed
  then show thesis using that m(1,3) old by (auto simp: owns_def)
qed

lemma owns_free:
  assumes o: "owns h L" and r: "(r, k) \<in> L"
  obtains h' where "ufree r h = Some h'" "owns h' (L - {(r, k)})"
proof -
  let ?A = "(\<lambda>(r, k). r - 8) ` L"
  have r8: "8 < r" "r - 8 \<in> ?A" using o r by (auto simp: owns_def image_iff intro!: bexI [of _ "(r, k)"])
  then obtain ns where inv: "heap_inv h ns ?A" using o by (auto simp: owns_def uheap_ok_def)
  obtain h' ns' where h': "ufree (r - 8 + 8) h = Some h'" "heap_inv h' ns' (?A - {r - 8})"
    "\<forall>b\<in>?A - {r - 8}. um_size h' b = um_size h b"
    by (rule ufree_ok [OF inv r8(2)])
  have ne: "s - 8 \<noteq> r - 8" if "(s, m) \<in> L - {(r, k)}" for s m
  proof -
    have "s \<noteq> r" using inj_onD [of fst L "(s, m)" "(r, k)"] o r that by (auto simp: owns_def)
    moreover have "8 < s" using o that by (auto simp: owns_def)
    ultimately show ?thesis using r8(1) by linarith
  qed
  then have eq: "(\<lambda>(r, k). r - 8) ` (L - {(r, k)}) = ?A - {r - 8}" by force
  have st: "stop_at h' (s - 8) = stop_at h (s - 8)" if "(s, m) \<in> L - {(r, k)}" for s m
    using h'(3) ne [OF that] that by (force simp: stop_at_def)
  have "uheap_ok h' (?A - {r - 8})" using h'(2) by (auto simp: uheap_ok_def heap_inv_def)
  moreover have "inj_on fst (L - {(r, k)})" using o by (auto simp: owns_def intro: inj_on_diff)
  moreover have "8 < s \<and> s + m \<le> stop_at h' (s - 8)" if "(s, m) \<in> L - {(r, k)}" for s m
    unfolding st [OF that] using o that by (auto simp: owns_def)
  ultimately have "owns h' (L - {(r, k)})" unfolding owns_def eq by blast
  moreover have "ufree r h = Some h'" using h'(1) r8(1) by simp
  ultimately show thesis by (rule that [rotated])
qed

lemma alive_owns: "alive room h L \<Longrightarrow> owns h L"
proof (induction rule: alive.induct)
  case (alive_start h)
  then show ?case by (simp add: owns_def uheap_ok_def)
next
  case (alive_malloc h L nbytes r h')
  then show ?case using owns_malloc [of h L nbytes room] by (metis option.inject prod.inject)
next
  case (alive_fail h L nbytes h')
  then show ?case using owns_malloc [of h L nbytes room] by (metis option.inject prod.inject)
next
  case (alive_free h L r k h')
  then show ?case using owns_free [of h L r k] by (metis option.inject)
qed

lemma owns_disjoint:
  assumes o: "owns h L" and rs: "(r, k) \<in> L" "(s, m) \<in> L" "(r, k) \<noteq> (s, m)"
  shows "r + k \<le> s - 8 \<or> s + m \<le> r - 8"
proof -
  let ?A = "(\<lambda>(r, k). r - 8) ` L"
  have mem: "r - 8 \<in> ?A" "s - 8 \<in> ?A" using rs(1,2) by (auto intro: rev_image_eqI)
  obtain ns where inv: "heap_inv h ns ?A" using o rs(1) by (auto simp: owns_def uheap_ok_def)
  have b: "8 < r" "8 < s" "r + k \<le> stop_at h (r - 8)" "s + m \<le> stop_at h (s - 8)" using o rs by (auto simp: owns_def)
  have "r \<noteq> s" using inj_onD [of fst L "(s, m)" "(r, k)"] o rs by (auto simp: owns_def)
  then have "r - 8 \<noteq> s - 8" using b by linarith
  moreover have "blocks h (?A \<union> set ns - {um_base h})" using inv by (simp add: heap_inv_def)
  moreover have "r - 8 \<noteq> um_base h" "s - 8 \<noteq> um_base h"
    using heap_inv_alloc(1) [OF inv mem(1)] heap_inv_alloc(1) [OF inv mem(2)] by simp_all
  ultimately have "stop_at h (r - 8) \<le> s - 8 \<or> stop_at h (s - 8) \<le> r - 8"
    using mem unfolding blocks_def by (meson DiffI UnI1 singletonD)
  then show ?thesis using b by linarith
qed

lemma owns_inside:
  assumes o: "owns h L" and r: "(r, k) \<in> L"
  shows "um_lo h + 8 \<le> r" "r + k \<le> um_brk h"
proof -
  have mem: "r - 8 \<in> (\<lambda>(r, k). r - 8) ` L" using r by (auto intro: rev_image_eqI)
  obtain ns where inv: "heap_inv h ns ((\<lambda>(r, k). r - 8) ` L)" using o r by (auto simp: owns_def uheap_ok_def)
  show "um_lo h + 8 \<le> r" "r + k \<le> um_brk h"
    using heap_inv_alloc(3,4) [OF inv mem] o r by (auto simp: owns_def)
qed

section \<open>Properties\<close>

text \<open>
  Property C4.  Whatever a program does with \<open>malloc\<close> and \<open>free\<close>, as long as it frees only what it
  was given and asks for less than 2 GB: the bytes it owns lie in its memory, two areas it owns
  do not overlap and neither contains the header of the other, and both functions return.
\<close>

theorem umalloc_areas_disjoint:
  assumes "alive room h L" "(r, k) \<in> L"
  shows "um_lo h + 8 \<le> r \<and> r + k \<le> um_brk h \<and> (\<exists>h'. ufree r h = Some h') \<and>
    (\<forall>s m. (s, m) \<in> L \<longrightarrow> (r, k) \<noteq> (s, m) \<longrightarrow> r + k \<le> s - 8 \<or> s + m \<le> r - 8) \<and>
    (\<forall>nbytes. unat nbytes \<le> 2 ^ 31 - 24 \<longrightarrow> (\<exists>q h'. malloc room nbytes h = Some (q, h')))"
proof -
  have o: "owns h L" using alive_owns [OF assms(1)] .
  have "\<exists>h'. ufree r h = Some h'" using owns_free [OF o assms(2)] by blast
  moreover have "\<exists>q h'. malloc room nbytes h = Some (q, h')" if "unat nbytes \<le> 2 ^ 31 - 24" for nbytes
    using owns_malloc [OF o that, of room] by blast
  ultimately show ?thesis using owns_inside [OF o assms(2)] owns_disjoint [OF o assms(2)] by blast
qed

text \<open>A process of one page, and the heap after two calls of \<open>malloc\<close>.\<close>

definition heap0 :: uheap where
  "heap0 = \<lparr>um_base = 256, um_lo = 4096, um_brk = 4096, um_ptr = (\<lambda>_. 0), um_size = (\<lambda>_. 0), um_freep = 0\<rparr>"

definition heap2 :: "(nat \<times> nat \<times> uheap) option" where
  "heap2 = do {
     (r, h) \<leftarrow> malloc (\<lambda>_. True) 16 heap0;
     (s, h) \<leftarrow> malloc (\<lambda>_. True) 24 h;
     Some (r, s, h)
   }"

lemma bind_weak_cong: "m = m' \<Longrightarrow> Option.bind m f = Option.bind m' f"
  by simp

lemma heap2_pointers: "map_option (\<lambda>(r, s, h). (r, s)) heap2 = Some (36848, 36816)"
  by (simp add: heap2_def heap0_def malloc_def malloc_init_def malloc_loop.simps free_search.simps malloc_take_def
      morecore_def sbrk_def ufree_def free_next_def free_prev_def acc_defs ok_addr_def
      cong: bind_weak_cong)

theorem umalloc_areas_disjoint_witness:
  "\<exists>h. alive (\<lambda>_. True) h {(36848, 16), (36816, 24)} \<and> 36848 + 16 \<le> um_brk h \<and>
    (36848 + 16 \<le> 36816 - (8::nat) \<or> 36816 + 24 \<le> 36848 - (8::nat))"
proof -
  obtain h where "heap2 = Some (36848, 36816, h)" using heap2_pointers by auto
  then obtain h1 where m: "malloc (\<lambda>_. True) 16 heap0 = Some (36848, h1)" "malloc (\<lambda>_. True) 24 h1 = Some (36816, h)"
    by (auto simp: heap2_def split: bind_splits)
  have "alive (\<lambda>_. True) heap0 {}" by (rule alive_start) (simp_all add: heap0_def heap_ok_def)
  then have "alive (\<lambda>_. True) h1 {(36848, unat (16 :: uint))}" by (rule alive_malloc [OF _ _ m(1)]) simp_all
  then have "alive (\<lambda>_. True) h (insert (36816, unat (24 :: uint)) {(36848, unat (16 :: uint))})"
    by (rule alive_malloc [OF _ _ m(2)]) simp_all
  then have a: "alive (\<lambda>_. True) h {(36848, 16), (36816, 24)}" by (simp add: insert_commute)
  then show ?thesis using umalloc_areas_disjoint [OF a, of 36848 16] by (intro exI [of _ h]) simp
qed

lemma morecore_huge:
  assumes h: "heap_ok h" and n8: "2 ^ 31 \<le> 8 * unat n" "8 * unat n + um_brk h < 2 ^ 32"
  shows "morecore room n h = None"
proof -
  define k where "k = um_brk h + 8 * unat n"
  have u: "core_units n = n" using n8(1) by (auto simp: word_less_nat_alt)
  have "unat (n * 8) = 8 * unat n" using n8(2) by (subst unat_mult_lem [THEN iffD1]) simp_all
  then have s: "sint (n * 8) = 8 * int (unat n) - 2 ^ 32" using n8 sint_big [of "n * 8"] by simp
  have "int (um_brk h) + sint (n * 8) = int k - 2 ^ 32" unfolding s k_def by simp
  moreover have "k < 2 ^ 32" using n8(2) by (simp add: k_def)
  ultimately have k: "nat ((int (um_brk h) + sint (n * 8)) mod 2 ^ 32) = k" by simp
  have "int (8 * unat n) < 2 ^ 32" using n8(2) by (simp only: of_nat_less_numeral_power_cancel_iff)
  then have "sint (n * 8) < 0" unfolding s by simp
  then have "sbrk room (sint (n * 8)) h = (int (um_brk h), h)"
    unfolding sbrk_def k Let_def by (simp add: k_def)
  moreover have "\<not> ok_addr h (um_brk h)" using h by (simp add: ok_addr_def heap_ok_def)
  ultimately show ?thesis unfolding morecore_def Let_def u by (simp add: set_size_def)
qed

text \<open>
  Property C39.  A request of about 2 GB or more whose byte count does not wrap around is not refused: \<open>morecore\<close> passes
  a negative number to \<open>sbrk\<close>, takes the unchanged end of the memory for a new block and writes
  a header there, which is a fault.
\<close>

theorem malloc_huge_faults:
  assumes h: "uheap_ok h A" and nb: "2 ^ 31 - 16 < unat nbytes" "unat nbytes + 15 + um_brk h < 2 ^ 32"
  shows "malloc room nbytes h = None"
proof -
  define n where "n = (nbytes + 8 - 1) div 8 + 1"
  have a: "unat (nbytes + 7) = unat nbytes + 7" using nb(2) by (subst unat_add_lem [THEN iffD1]) simp_all
  have "unat ((nbytes + 7) div 8) = (unat nbytes + 7) div 8" by (simp add: unat_div a)
  then have un: "unat n = (unat nbytes + 7) div 8 + 1"
    using nb(2) unfolding n_def by (simp add: add.commute, subst unat_add_lem [THEN iffD1]) simp_all
  have n8: "2 ^ 31 \<le> 8 * unat n" "8 * unat n + um_brk h < 2 ^ 32" using nb unfolding un by auto
  obtain ns where i: "heap_inv (malloc_init h) ns A" "um_brk (malloc_init h) = um_brk h"
    by (rule malloc_init_ok [OF h])
  let ?h = "malloc_init h"
  have fl: "free_list ?h ns" "heap_ok ?h" using i(1) by (simp_all add: heap_inv_def)
  have "um_freep ?h \<in> set ns" using fl(1) by (simp add: free_list_def)
  then have q: "get_ptr ?h (um_freep ?h) = Some (um_ptr ?h (um_freep ?h))"
    using free_list_ok_addr [OF fl(1)] by (simp add: get_ptr_def)
  have m: "malloc room nbytes h = malloc_loop room n (um_freep ?h) (um_ptr ?h (um_freep ?h)) ?h"
    unfolding malloc_def Let_def n_def by (simp add: q)
  obtain rs where rs: "path (um_ptr ?h) (um_ptr ?h (um_freep ?h)) (rs @ [um_freep ?h]) (um_ptr ?h (um_freep ?h))"
    "set (rs @ [um_freep ?h]) = set ns" "um_freep ?h \<notin> set rs"
    using free_list_round [OF fl(1)] by blast
  have small: "um_size ?h x < n" if "x \<in> set ns" for x
    using free_list_size [OF fl(1,2) that] n8(1) by (simp add: word_less_nat_alt)
  have "morecore room n ?h = None" by (rule morecore_huge [OF fl(2)]) (use n8 i(2) in auto)
  then show ?thesis
    unfolding m by (subst malloc_loop_none [OF fl(1) rs(1) _ rs(3)]) (use rs(2) small in auto)
qed

theorem malloc_huge_faults_witness: "malloc (\<lambda>_. True) 0x80000000 heap0 = None"
  by (rule malloc_huge_faults [of _ "{}"]) (simp_all add: uheap_ok_def heap_ok_def heap0_def)

end
