(* ===== verification/BlockStore.thy ===== *)
theory BlockStore
  imports Bio
begin

text \<open>
  The buffer cache as a store of blocks.  \<open>host s\<close> says that a process runs that holds no spin
  lock.  \<open>bio_ok fs H D C\<close> is the invariant of the cache: \<open>H\<close> are the buffers the process holds, \<open>D\<close> the
  numbers of the blocks that are dirty and so pinned in the cache, and \<open>C\<close> the contents of the blocks as a reader
  of the cache sees them.  \<open>bread\<close>, \<open>bwrite\<close> and \<open>brelse\<close> are specified by what they do to \<open>H\<close>, \<open>D\<close> and \<open>C\<close>.
\<close>

section \<open>Sleep locks of buffers\<close>

definition host :: "kernel \<Rightarrow> bool" where
  "host s \<longleftrightarrow> sched_ok s \<and> (\<exists>i. c_proc (here_cpu (mach s)) = Some i \<and> i < NPROC) \<and>
     (\<forall>lk. lock_free lk (mach s))"

lemma hostD:
  assumes "host s"
  shows "sched_ok s" "wf_machine (mach s)" "lock_free lk (mach s)"
  using assms by (simp_all add: host_def sched_ok_def)

lemma upd_fs_simps [simp]:
  "mach (upd_fs f s) = mach s" "ptable (upd_fs f s) = ptable s" "fsys (upd_fs f s) = f (fsys s)"
  by (simp_all add: upd_fs_def)

lemma upd_buf_simps [simp]:
  "mach (upd_buf b f s) = mach s" "ptable (upd_buf b f s) = ptable s"
  "bufs (upd_buf b f s) = (bufs s)[b := f (bufs s ! b)]"
  by (simp_all add: upd_buf_def)

lemma upd_fs_mach [simp]: "upd_fs f (s\<lparr>mach := m\<rparr>) = (upd_fs f s)\<lparr>mach := m\<rparr>"
  by (simp add: upd_fs_def)

lemma upd_buf_mach [simp]: "upd_buf b f (s\<lparr>mach := m\<rparr>) = (upd_buf b f s)\<lparr>mach := m\<rparr>"
  by (simp add: upd_buf_def)

lemma host_frame:
  assumes "host s" "mach s' = settle (mach s)" "ptable s' = ptable s"
  shows "host s'"
  using assms by (simp add: host_def sched_ok_def)

text \<open>The effect of an operation on the buffers, as an update of the file system state.\<close>

definition set_buf :: "nat \<Rightarrow> buf \<Rightarrow> fsys \<Rightarrow> fsys" where
  "set_buf b x fs = fs\<lparr>bcache := (bcache fs)\<lparr>bc_buf := (bc_buf (bcache fs))[b := x]\<rparr>\<rparr>"

lemma fsys_upd_buf: "fsys (upd_buf b f s) = set_buf b (f (bufs s ! b)) (fsys s)"
  by (simp add: upd_buf_def set_buf_def)

lemma acquiresleep_buf:
  assumes h: "host s" and b: "b < length (bufs s)" "slk_locked (b_lock (bufs s ! b)) = 0"
  obtains s' pid where "acquiresleep (SlBuf b) s = Some s'" "host s'"
    "fsys s' = set_buf b ((bufs s ! b)\<lparr>b_lock := (b_lock (bufs s ! b))\<lparr>slk_locked := 1, slk_pid := pid\<rparr>\<rparr>) (fsys s)"
proof -
  note d = hostD [OF h]
  obtain i where i: "c_proc (here_cpu (mach s)) = Some i" "i < length (proc (ptable s))" using h by (auto simp: host_def sched_ok_def)
  let ?l = "(b_lock (bufs s ! b))\<lparr>slk_locked := 1, slk_pid := p_pid (proc (ptable s) ! i)\<rparr>"
  let ?s = "(upd_buf b (\<lambda>x. x\<lparr>b_lock := ?l\<rparr>) s)\<lparr>mach := settle (mach s)\<rparr>"
  have my: "myproc (s\<lparr>mach := acq (BufSlk b) (mach s)\<rparr>) = Some (Some i, s\<lparr>mach := acq (BufSlk b) (mach s)\<rparr>)"
    using d(2) i(1) by simp
  have "acquiresleep (SlBuf b) s = Some ?s"
    using d b i(2) my by (simp add: acquiresleep_def acquiresleep_enter_def acquiresleep_loop_def del: myproc_wf)
  moreover have "host ?s" by (rule host_frame [OF h]) simp_all
  ultimately show thesis by (rule that) (simp add: fsys_upd_buf)
qed

lemma holdingsleep_buf:
  assumes h: "host s" and b: "b < length (bufs s)"
  obtains s' where "holdingsleep (SlBuf b) s = Some (slk_locked (b_lock (bufs s ! b)) \<noteq> 0, s')" "host s'" "fsys s' = fsys s"
proof -
  note d = hostD [OF h]
  have "holdingsleep (SlBuf b) s = Some (slk_locked (b_lock (bufs s ! b)) \<noteq> 0, s\<lparr>mach := settle (mach s)\<rparr>)"
    using d b by (simp add: holdingsleep_def)
  moreover have "host (s\<lparr>mach := settle (mach s)\<rparr>)" by (rule host_frame [OF h]) simp_all
  ultimately show thesis by (rule that) simp
qed

lemma releasesleep_buf:
  assumes h: "host s" and b: "b < length (bufs s)"
  obtains s' where "releasesleep (SlBuf b) s = Some s'" "host s'"
    "fsys s' = set_buf b ((bufs s ! b)\<lparr>b_lock := (b_lock (bufs s ! b))\<lparr>slk_locked := 0, slk_pid := 0\<rparr>\<rparr>) (fsys s)"
proof -
  note d = hostD [OF h]
  obtain i where i: "c_proc (here_cpu (mach s)) = Some i" "i < length (proc (ptable s))" using h by (auto simp: host_def sched_ok_def)
  let ?l = "(b_lock (bufs s ! b))\<lparr>slk_locked := 0, slk_pid := 0\<rparr>"
  let ?t = "upd_buf b (\<lambda>x. x\<lparr>b_lock := ?l\<rparr>) s"
  let ?s = "?t\<lparr>mach := acq (BufSlk b) (mach s)\<rparr>"
  have "sched_ok ?s" using d by (simp add: sched_ok_def)
  from wakeup_eq [OF this, of "Some (ChBuf b)"] obtain pt' where
    pt': "wakeup (Some (ChBuf b)) ?s = Some (?s\<lparr>mach := settle (mach ?s), ptable := pt'\<rparr>)"
    "wf_rings pt'" "prio_ok pt'" "proc pt' = map (wake (Some (ChBuf b))) (proc (ptable s))" by auto
  have "releasesleep (SlBuf b) s = Some (?t\<lparr>ptable := pt', mach := settle (mach s)\<rparr>)"
    using d b pt'(1) by (simp add: releasesleep_def)
  moreover have "host (?t\<lparr>ptable := pt', mach := settle (mach s)\<rparr>)"
    using d pt'(2-4) i by (simp add: host_def sched_ok_def)
  ultimately show thesis by (rule that) (simp add: fsys_upd_buf)
qed

section \<open>The invariant of the cache\<close>

text \<open>Buffer \<open>b\<close> is the one for block \<open>n\<close> of the disk.\<close>

definition buf_of :: "fsys \<Rightarrow> nat \<Rightarrow> nat \<Rightarrow> bool" where
  "buf_of fs n b \<longleftrightarrow> b < NBUF \<and> b_dev (bc_buf (bcache fs) ! b) = 1 \<and> unat (b_blockno (bc_buf (bcache fs) ! b)) = n"

definition buf_ok :: "nat set \<Rightarrow> nat set \<Rightarrow> (nat \<Rightarrow> block) \<Rightarrow> nat \<Rightarrow> nat \<Rightarrow> buf \<Rightarrow> bool" where
  "buf_ok H D C ds b x \<longleftrightarrow> b_refcnt x = (if b \<in> H then 1 else 0) \<and> (slk_locked (b_lock x) \<noteq> 0 \<longleftrightarrow> b \<in> H) \<and>
     (if b_dev x = 1
      then unat (b_blockno x) < ds \<and> b_flags x = (if unat (b_blockno x) \<in> D then B_VALID OR B_DIRTY else B_VALID) \<and>
        b_data x = C (unat (b_blockno x))
      else b_flags x = 0 \<and> b \<notin> H)"

definition bio_ok :: "fsys \<Rightarrow> nat set \<Rightarrow> nat set \<Rightarrow> (nat \<Rightarrow> block) \<Rightarrow> bool" where
  "bio_ok fs H D C \<longleftrightarrow> length (bc_buf (bcache fs)) = NBUF \<and> distinct (bc_list (bcache fs)) \<and>
     set (bc_list (bcache fs)) = {..<NBUF} \<and> H \<subseteq> {..<NBUF} \<and> disksize fs < 2 ^ 32 \<and>
     (\<forall>b<NBUF. buf_ok H D C (disksize fs) b (bc_buf (bcache fs) ! b)) \<and>
     (\<forall>n b b'. buf_of fs n b \<longrightarrow> buf_of fs n b' \<longrightarrow> b = b') \<and> (\<forall>n\<in>D. \<exists>b. buf_of fs n b) \<and>
     (\<forall>n. n \<notin> D \<longrightarrow> C n = memdisk fs n) \<and> (\<forall>n. length (C n) = BSIZE \<and> length (memdisk fs n) = BSIZE)"

lemma bio_okD:
  assumes "bio_ok fs H D C"
  shows "length (bc_buf (bcache fs)) = NBUF" "distinct (bc_list (bcache fs))" "set (bc_list (bcache fs)) = {..<NBUF}"
    "H \<subseteq> {..<NBUF}" "disksize fs < 2 ^ 32" "\<And>b. b < NBUF \<Longrightarrow> buf_ok H D C (disksize fs) b (bc_buf (bcache fs) ! b)"
    "\<And>n b b'. buf_of fs n b \<Longrightarrow> buf_of fs n b' \<Longrightarrow> b = b'" "\<And>n. n \<in> D \<Longrightarrow> \<exists>b. buf_of fs n b"
    "\<And>n. n \<notin> D \<Longrightarrow> C n = memdisk fs n" "\<And>n. length (C n) = BSIZE" "\<And>n. length (memdisk fs n) = BSIZE"
  using assms unfolding bio_ok_def by blast+

text \<open>Replacing one buffer, and perhaps the block of the disk it stands for.\<close>

lemma bio_ok_replace:
  assumes ok: "bio_ok fs H D C" and b: "b < NBUF" and x: "b_dev x = 1" "n = unat (b_blockno x)" "buf_ok H' D' C' (disksize fs) b x"
    and H: "H' - {b} = H - {b}" and D: "D' - {n} = D - {n}" and C: "\<And>m. m \<noteq> n \<Longrightarrow> C' m = C m"
    and only: "\<And>b'. buf_of fs n b' \<Longrightarrow> b' = b" and old: "\<And>m. buf_of fs m b \<Longrightarrow> m \<noteq> n \<Longrightarrow> m \<notin> D"
    and fs': "bc_buf (bcache fs') = (bc_buf (bcache fs))[b := x]" "distinct (bc_list (bcache fs'))"
      "set (bc_list (bcache fs')) = {..<NBUF}" "disksize fs' = disksize fs"
    and disk: "\<And>m. m \<noteq> n \<Longrightarrow> memdisk fs' m = memdisk fs m" "n \<notin> D' \<Longrightarrow> C' n = memdisk fs' n"
      "length (C' n) = BSIZE" "length (memdisk fs' n) = BSIZE"
  shows "bio_ok fs' H' D' C'" "buf_of fs' n b" "\<And>m a. a \<noteq> b \<Longrightarrow> buf_of fs' m a = buf_of fs m a"
proof -
  note d = bio_okD [OF ok]
  have nth: "bc_buf (bcache fs') ! a = (if a = b then x else bc_buf (bcache fs) ! a)" if "a < NBUF" for a
    using that d(1) b by (simp add: fs'(1))
  show b1: "buf_of fs' n b" using b x nth by (simp add: buf_of_def)
  show b2: "buf_of fs' m a = buf_of fs m a" if "a \<noteq> b" for m a using that nth by (auto simp: buf_of_def)
  have b3: "buf_of fs' m b \<longleftrightarrow> m = n" for m using b x nth by (auto simp: buf_of_def)
  have ds: "buf_ok H' D' C' (disksize fs') a (bc_buf (bcache fs') ! a)" if a: "a < NBUF" for a
  proof (cases "a = b")
    case True
    then show ?thesis using x(3) nth [OF a] by (simp add: fs'(4))
  next
    case False
    let ?y = "bc_buf (bcache fs) ! a"
    have "unat (b_blockno ?y) \<noteq> n" if "b_dev ?y = 1" using that a only [of a] False by (auto simp: buf_of_def)
    moreover have "a \<in> H' \<longleftrightarrow> a \<in> H" using H False by blast
    moreover have "m \<in> D' \<longleftrightarrow> m \<in> D" if "m \<noteq> n" for m using D that by blast
    ultimately show ?thesis using d(6) [OF a] nth [OF a] False C by (auto simp: fs'(4) buf_ok_def)
  qed
  have uniq: "a = a'" if "buf_of fs' m a" "buf_of fs' m a'" for m a a'
  proof (cases "m = n")
    case True
    then show ?thesis using that b2 only by metis
  next
    case False
    then have "a \<noteq> b" "a' \<noteq> b" using that b3 by auto
    then show ?thesis using that b2 d(7) by blast
  qed
  have dirty: "\<exists>a. buf_of fs' m a" if "m \<in> D'" for m
  proof (cases "m = n")
    case False
    then have "m \<in> D" using D that by blast
    then obtain a where a: "buf_of fs m a" using d(8) by blast
    then have "a \<noteq> b" using old [of m] False \<open>m \<in> D\<close> by auto
    then show ?thesis using a b2 by blast
  qed (use b1 in blast)
  have disk': "C' m = memdisk fs' m" if "m \<notin> D'" for m
  proof (cases "m = n")
    case False
    then have "m \<notin> D" using D that by blast
    then show ?thesis using d(9) C disk(1) False by simp
  qed (use disk(2) that in simp)
  have len: "length (C' m) = BSIZE \<and> length (memdisk fs' m) = BSIZE" for m
    using d(10,11) C disk by (cases "m = n") auto
  have sub: "H' \<subseteq> {..<NBUF}" using d(4) H b by blast
  show "bio_ok fs' H' D' C'"
    unfolding bio_ok_def using d(1,5) fs' ds uniq dirty disk' len sub by simp
qed

section \<open>Specifications\<close>

lemma set_buf_simps [simp]:
  "bc_buf (bcache (set_buf b x fs)) = (bc_buf (bcache fs))[b := x]"
  "bc_list (bcache (set_buf b x fs)) = bc_list (bcache fs)"
  "disksize (set_buf b x fs) = disksize fs" "memdisk (set_buf b x fs) = memdisk fs"
  "writes (set_buf b x fs) = writes fs"
  "fs\<lparr>bcache := bcache (set_buf b x fs)\<rparr> = set_buf b x fs"
  by (simp_all add: set_buf_def)

lemma set_buf_twice [simp]: "set_buf b x (set_buf b y fs) = set_buf b x fs"
  by (simp add: set_buf_def)

text \<open>The driver, for a block of the disk.\<close>

lemma not_past_end: "unat (w :: uint) < n \<Longrightarrow> n < 2 ^ 32 \<Longrightarrow> \<not> of_nat n \<le> w"
  by (simp add: word_le_nat_alt unat_of_nat)

lemma iderw_read:
  assumes h: "host s" and b: "b < length (bufs s)" "slk_locked (b_lock (bufs s ! b)) \<noteq> 0" "b_flags (bufs s ! b) = 0"
    "b_dev (bufs s ! b) = 1" "unat (b_blockno (bufs s ! b)) < disksize (fsys s)" "disksize (fsys s) < 2 ^ 32"
  obtains s' where "iderw b s = Some s'" "host s'"
    "fsys s' = set_buf b ((bufs s ! b)\<lparr>b_data := memdisk (fsys s) (unat (b_blockno (bufs s ! b))), b_flags := B_VALID\<rparr>) (fsys s)"
proof -
  obtain t where t: "holdingsleep (SlBuf b) s = Some (True, t)" "host t" "fsys t = fsys s"
    using holdingsleep_buf [OF h b(1)] b(2) by metis
  let ?s = "upd_buf b (\<lambda>x. x\<lparr>b_data := memdisk (fsys t) (unat (b_blockno (bufs s ! b))), b_flags := b_flags x OR B_VALID\<rparr>) t"
  have "iderw b s = Some ?s"
    using t b not_past_end [OF b(5,6)] by (simp add: iderw_def)
  moreover have "host ?s" using t(2) by (simp add: host_def sched_ok_def)
  ultimately show thesis by (rule that) (use t(3) b(3) in \<open>simp add: fsys_upd_buf\<close>)
qed

lemma iderw_write:
  assumes h: "host s" and b: "b < length (bufs s)" "slk_locked (b_lock (bufs s ! b)) \<noteq> 0"
    "b_flags (bufs s ! b) = B_VALID OR B_DIRTY"
    "b_dev (bufs s ! b) = 1" "unat (b_blockno (bufs s ! b)) < disksize (fsys s)" "disksize (fsys s) < 2 ^ 32"
  defines "x \<equiv> bufs s ! b"
  obtains s' where "iderw b s = Some s'" "host s'"
    "fsys s' = (set_buf b (x\<lparr>b_flags := B_VALID\<rparr>) (fsys s))\<lparr>memdisk := (memdisk (fsys s))(unat (b_blockno x) := b_data x),
       writes := writes (fsys s) @ [(unat (b_blockno x), b_data x)]\<rparr>"
proof -
  obtain t where t: "holdingsleep (SlBuf b) s = Some (True, t)" "host t" "fsys t = fsys s"
    using holdingsleep_buf [OF h b(1)] b(2) by metis
  let ?n = "unat (b_blockno x)"
  let ?s = "upd_buf b (\<lambda>x. x\<lparr>b_flags := (b_flags x AND NOT B_DIRTY) OR B_VALID\<rparr>)
    (upd_fs (\<lambda>fs. fs\<lparr>memdisk := (memdisk fs)(?n := b_data x), writes := writes fs @ [(?n, b_data x)]\<rparr>) t)"
  have "iderw b s = Some ?s"
    using t b not_past_end [OF b(5,6)] by (simp add: iderw_def x_def Let_def)
  moreover have "host ?s" using t(2) by (simp add: host_def sched_ok_def)
  ultimately show thesis by (rule that) (use t(3) b(3) in \<open>simp add: fsys_upd_buf x_def set_buf_def\<close>)
qed

text \<open>A buffer that \<open>bget\<close> can take when the block is not in the cache.\<close>

lemma free_buffer:
  assumes ok: "bio_ok fs H D C" and c: "finite D" "card H + card D < NBUF"
  shows "\<exists>b. find (\<lambda>b. b_refcnt (bc_buf (bcache fs) ! b) = 0 \<and> b_flags (bc_buf (bcache fs) ! b) AND B_DIRTY = 0)
      (rev (bc_list (bcache fs))) = Some b \<and> b < NBUF \<and> b \<notin> H \<and> (\<forall>m. buf_of fs m b \<longrightarrow> m \<notin> D)"
proof -
  note d = bio_okD [OF ok]
  let ?P = "\<lambda>b. b_refcnt (bc_buf (bcache fs) ! b) = 0 \<and> b_flags (bc_buf (bcache fs) ! b) AND B_DIRTY = 0"
  let ?home = "\<lambda>m. SOME b. buf_of fs m b"
  have P: "?P b \<longleftrightarrow> b \<notin> H \<and> (\<forall>m. buf_of fs m b \<longrightarrow> m \<notin> D)" if "b < NBUF" for b
    using d(6) [OF that] that by (auto simp: buf_ok_def buf_of_def split: if_splits)
  have "\<exists>b<NBUF. ?P b"
  proof (rule ccontr)
    assume "\<not> (\<exists>b<NBUF. ?P b)"
    then have "b \<in> H \<union> ?home ` D" if lt: "b < NBUF" for b
    proof -
      consider "b \<in> H" | m where "buf_of fs m b" "m \<in> D" using P [OF lt] lt \<open>\<not> (\<exists>b<NBUF. ?P b)\<close> by blast
      then show ?thesis
      proof cases
        case 2
        then have "?home m = b" using d(7) by (metis someI)
        then show ?thesis using 2(2) by blast
      qed simp
    qed
    then have "{..<NBUF} \<subseteq> H \<union> ?home ` D" by blast
    then have "NBUF \<le> card (H \<union> ?home ` D)"
      using card_mono [of "H \<union> ?home ` D" "{..<NBUF}"] c(1) d(4) finite_subset [OF d(4)] by simp
    also have "\<dots> \<le> card H + card D"
      by (rule order_trans [OF card_Un_le]) (simp add: card_image_le c(1))
    finally show False using c(2) by simp
  qed
  then obtain b where "b < NBUF" "?P b" by blast
  then have "find ?P (rev (bc_list (bcache fs))) \<noteq> None" using d(3) by (auto simp: find_None_iff)
  then obtain a where a: "find ?P (rev (bc_list (bcache fs))) = Some a" by blast
  then obtain i where "i < length (rev (bc_list (bcache fs)))" "?P (rev (bc_list (bcache fs)) ! i)" "a = rev (bc_list (bcache fs)) ! i"
    by (auto simp: find_Some_iff)
  then have "?P a" "a \<in> set (rev (bc_list (bcache fs)))" by (simp, metis nth_mem)
  then show ?thesis using a d(3) P [of a] by auto
qed

lemma find_only: "(\<And>a. a \<in> set xs \<Longrightarrow> P a \<longleftrightarrow> a = b) \<Longrightarrow> b \<in> set xs \<Longrightarrow> find P xs = Some b"
  by (induction xs) auto

lemma block_key: "n < 2 ^ 32 \<Longrightarrow> w = of_nat n \<longleftrightarrow> unat w = n" for w :: uint
  by (auto simp: unat_of_nat)

text \<open>After \<open>bget\<close> the buffer is held; its content is that of the cache, or still to be read.\<close>

lemma bget_hit:
  assumes h: "host s" and ok: "bio_ok (fsys s) H D C" and b: "buf_of (fsys s) n b" "b \<notin> H"
  obtains s' x where "bget 1 (of_nat n) s = Some (b, s')" "host s'" "fsys s' = set_buf b x (fsys s)"
    "b_dev x = 1" "unat (b_blockno x) = n" "b_flags x AND B_VALID \<noteq> 0" "buf_ok (insert b H) D C (disksize (fsys s)) b x"
proof -
  note d = bio_okD [OF ok] and m = hostD [OF h]
  let ?x = "bufs s ! b"
  have lt: "b < NBUF" and bx: "b_dev ?x = 1" "unat (b_blockno ?x) = n" using b(1) by (simp_all add: buf_of_def)
  have x: "buf_ok H D C (disksize (fsys s)) b ?x" using d(6) lt by simp
  then have n: "n < 2 ^ 32" using bx d(5) by (simp add: buf_ok_def)
  have f: "find (\<lambda>b. b_dev (bufs s ! b) = 1 \<and> b_blockno (bufs s ! b) = of_nat n) (bc_list (bcache (fsys s))) = Some b"
  proof (rule find_only)
    fix a assume "a \<in> set (bc_list (bcache (fsys s)))"
    then have "a < NBUF" using d(3) by auto
    then show "b_dev (bufs s ! a) = 1 \<and> b_blockno (bufs s ! a) = of_nat n \<longleftrightarrow> a = b"
      using d(7) [OF b(1), of a] bx block_key [OF n] by (auto simp: buf_of_def)
  qed (use lt d(3) in simp)
  let ?t = "(upd_buf b (\<lambda>x. x\<lparr>b_refcnt := b_refcnt x + 1\<rparr>) s)\<lparr>mach := settle (mach s)\<rparr>"
  have ht: "host ?t" by (rule host_frame [OF h]) simp_all
  have bl: "b < length (bufs ?t)" "slk_locked (b_lock (bufs ?t ! b)) = 0"
    using x b(2) lt d(1) by (simp_all add: buf_ok_def)
  obtain s' pid where s': "acquiresleep (SlBuf b) ?t = Some s'" "host s'"
    "fsys s' = set_buf b ((bufs ?t ! b)\<lparr>b_lock := (b_lock (bufs ?t ! b))\<lparr>slk_locked := 1, slk_pid := pid\<rparr>\<rparr>) (fsys ?t)"
    by (rule acquiresleep_buf [OF ht bl])
  let ?y = "?x\<lparr>b_refcnt := 1, b_lock := (b_lock ?x)\<lparr>slk_locked := 1, slk_pid := pid\<rparr>\<rparr>"
  have "bget 1 (of_nat n) s = Some (b, s')"
    unfolding bget_def using m f s'(1) by simp
  moreover have "fsys s' = set_buf b ?y (fsys s)"
    using s'(3) lt d(1) x b(2) by (simp add: fsys_upd_buf buf_ok_def)
  moreover have "buf_ok (insert b H) D C (disksize (fsys s)) b ?y" "b_flags ?y AND B_VALID \<noteq> 0"
    using x bx by (auto simp: buf_ok_def)
  ultimately show thesis using that s'(2) bx by simp
qed

lemma bget_miss:
  assumes h: "host s" and ok: "bio_ok (fsys s) H D C" and n: "n < disksize (fsys s)" "\<nexists>b. buf_of (fsys s) n b"
    and c: "finite D" "card H + card D < NBUF"
  obtains s' b x where "bget 1 (of_nat n) s = Some (b, s')" "host s'" "fsys s' = set_buf b x (fsys s)"
    "b < NBUF" "b \<notin> H" "\<And>m. buf_of (fsys s) m b \<Longrightarrow> m \<notin> D"
    "b_dev x = 1" "unat (b_blockno x) = n" "b_flags x = 0" "b_refcnt x = 1" "slk_locked (b_lock x) = 1"
proof -
  note d = bio_okD [OF ok] and m = hostD [OF h]
  have n32: "n < 2 ^ 32" using n(1) d(5) by simp
  have f: "find (\<lambda>b. b_dev (bufs s ! b) = 1 \<and> b_blockno (bufs s ! b) = of_nat n) (bc_list (bcache (fsys s))) = None"
    using n(2) d(3) block_key [OF n32] by (auto simp: find_None_iff buf_of_def)
  obtain b where b: "find (\<lambda>b. b_refcnt (bufs s ! b) = 0 \<and> b_flags (bufs s ! b) AND B_DIRTY = 0)
      (rev (bc_list (bcache (fsys s)))) = Some b" "b < NBUF" "b \<notin> H" "\<And>m. buf_of (fsys s) m b \<Longrightarrow> m \<notin> D"
    using free_buffer [OF ok c] by blast
  let ?x = "bufs s ! b"
  let ?f = "\<lambda>x. x\<lparr>b_dev := 1, b_blockno := of_nat n, b_flags := 0, b_refcnt := 1\<rparr> :: buf"
  let ?t = "(upd_buf b ?f s)\<lparr>mach := settle (mach s)\<rparr>"
  have ht: "host ?t" by (rule host_frame [OF h]) simp_all
  have bl: "b < length (bufs ?t)" "slk_locked (b_lock (bufs ?t ! b)) = 0"
    using d(6) [OF b(2)] b(2,3) d(1) by (simp_all add: buf_ok_def)
  obtain s' pid where s': "acquiresleep (SlBuf b) ?t = Some s'" "host s'"
    "fsys s' = set_buf b ((bufs ?t ! b)\<lparr>b_lock := (b_lock (bufs ?t ! b))\<lparr>slk_locked := 1, slk_pid := pid\<rparr>\<rparr>) (fsys ?t)"
    by (rule acquiresleep_buf [OF ht bl])
  let ?y = "(?f ?x)\<lparr>b_lock := (b_lock ?x)\<lparr>slk_locked := 1, slk_pid := pid\<rparr>\<rparr>"
  have "bget 1 (of_nat n) s = Some (b, s')" unfolding bget_def using m f b(1) s'(1) by simp
  moreover have "fsys s' = set_buf b ?y (fsys s)" using s'(3) b(2) d(1) by (simp add: fsys_upd_buf)
  ultimately show thesis using that [of b s' ?y] s'(2) b(2-4) n32 by (simp add: unat_of_nat)
qed

lemma bio_ok_set:
  assumes ok: "bio_ok fs H D C" and b: "b < NBUF" and x: "b_dev x = 1" "unat (b_blockno x) = n" "buf_ok H' D C (disksize fs) b x"
    and H: "H' - {b} = H - {b}" and only: "\<And>b'. buf_of fs n b' \<Longrightarrow> b' = b" and old: "\<And>m. buf_of fs m b \<Longrightarrow> m \<noteq> n \<Longrightarrow> m \<notin> D"
  shows "bio_ok (set_buf b x fs) H' D C" "buf_of (set_buf b x fs) n b" "\<And>m a. a \<noteq> b \<Longrightarrow> buf_of (set_buf b x fs) m a = buf_of fs m a"
proof -
  note d = bio_okD [OF ok]
  note r = bio_ok_replace [where fs' = "set_buf b x fs", OF ok b x(1) x(2) [symmetric] x(3) H refl refl only old]
  show "bio_ok (set_buf b x fs) H' D C" by (rule r(1)) (use d(2,3,9-11) in simp_all)
  show "buf_of (set_buf b x fs) n b" by (rule r(2)) (use d(2,3,9-11) in simp_all)
  show "buf_of (set_buf b x fs) m a = buf_of fs m a" if "a \<noteq> b" for m a
    by (rule r(3)) (use d(2,3,9-11) that in simp_all)
qed

text \<open>\<open>bread\<close> takes hold of the buffer of a block and changes nothing else.\<close>

lemma bread_ok:
  assumes h: "host s" and ok: "bio_ok (fsys s) H D C" and n: "n < disksize (fsys s)" "\<And>b. b \<in> H \<Longrightarrow> \<not> buf_of (fsys s) n b"
    and c: "finite D" "n \<in> D \<or> card H + card D < NBUF"
  obtains b s' where "bread 1 (of_nat n) s = Some (b, s')" "host s'" "bio_ok (fsys s') (insert b H) D C" "b \<notin> H"
    "buf_of (fsys s') n b" "fsys s' = (fsys s)\<lparr>bcache := bcache (fsys s')\<rparr>" "\<And>a m. a \<in> H \<Longrightarrow> buf_of (fsys s') m a = buf_of (fsys s) m a"
proof -
  note d = bio_okD [OF ok]
  show thesis
  proof (cases "\<exists>b. buf_of (fsys s) n b")
    case True
    then obtain b where b: "buf_of (fsys s) n b" "b \<notin> H" using n(2) by blast
    obtain s' x where s': "bget 1 (of_nat n) s = Some (b, s')" "host s'" "fsys s' = set_buf b x (fsys s)"
      and x: "b_dev x = 1" "unat (b_blockno x) = n" "b_flags x AND B_VALID \<noteq> 0" "buf_ok (insert b H) D C (disksize (fsys s)) b x"
      by (rule bget_hit [OF h ok b])
    have lt: "b < NBUF" using b(1) by (simp add: buf_of_def)
    have 1: "bread 1 (of_nat n) s = Some (b, s')" using s'(1,3) x(3) lt d(1) by (simp add: bread_def)
    have only: "b' = b" if "buf_of (fsys s) n b'" for b' using d(7) that b(1) by blast
    have old: "m \<notin> D" if "buf_of (fsys s) m b" "m \<noteq> n" for m using that b(1) by (simp add: buf_of_def)
    have "insert b H - {b} = H - {b}" by simp
    note 2 = bio_ok_set [OF ok lt x(1,2,4) this only old, folded s'(3)]
    have "fsys s' = (fsys s)\<lparr>bcache := bcache (fsys s')\<rparr>" unfolding s'(3) by simp
    moreover have "buf_of (fsys s') m a = buf_of (fsys s) m a" if a: "a \<in> H" for a m
    proof (rule 2(3))
      show "a \<noteq> b" using a b(2) by auto
    qed
    ultimately show thesis using that [OF 1 s'(2) 2(1) b(2) 2(2)] by blast
  next
    case False
    then have D: "n \<notin> D" using d(8) by blast
    then have "card H + card D < NBUF" using c(2) by simp
    then obtain t b x where t: "bget 1 (of_nat n) s = Some (b, t)" "host t" "fsys t = set_buf b x (fsys s)"
      "b < NBUF" "b \<notin> H" "\<And>m. buf_of (fsys s) m b \<Longrightarrow> m \<notin> D"
      "b_dev x = 1" "unat (b_blockno x) = n" "b_flags x = 0" "b_refcnt x = 1" "slk_locked (b_lock x) = 1"
      using bget_miss [OF h ok n(1) False c(1)] by metis
    have nth: "bufs t ! b = x" "b < length (bufs t)" using t(3,4) d(1) by simp_all
    obtain s' where s': "iderw b t = Some s'" "host s'"
      "fsys s' = set_buf b ((bufs t ! b)\<lparr>b_data := memdisk (fsys t) (unat (b_blockno (bufs t ! b))), b_flags := B_VALID\<rparr>) (fsys t)"
      by (rule iderw_read [OF t(2) nth(2)]) (use nth t(3,7-11) n(1) d(5) in auto)
    let ?y = "x\<lparr>b_data := C n, b_flags := B_VALID\<rparr>"
    have fs': "fsys s' = set_buf b ?y (fsys s)" using s'(3) nth t(3,8) d(9) [OF D] by simp
    have 1: "bread 1 (of_nat n) s = Some (b, s')" using t(1,9) nth s'(1) by (simp add: bread_def)
    have y: "buf_ok (insert b H) D C (disksize (fsys s)) b ?y" using t(7-11) n(1) D by (simp add: buf_ok_def)
    have y1: "b_dev ?y = 1" "unat (b_blockno ?y) = n" using t(7,8) by simp_all
    have only: "b' = b" if "buf_of (fsys s) n b'" for b' using False that by blast
    have "insert b H - {b} = H - {b}" by simp
    note 2 = bio_ok_set [OF ok t(4) y1 y this only t(6), folded fs']
    have "fsys s' = (fsys s)\<lparr>bcache := bcache (fsys s')\<rparr>" unfolding fs' by simp
    moreover have "buf_of (fsys s') m a = buf_of (fsys s) m a" if a: "a \<in> H" for a m
    proof (rule 2(3))
      show "a \<noteq> b" using a t(5) by auto
    qed
    ultimately show thesis using that [OF 1 s'(2) 2(1) t(5) 2(2)] by blast
  qed
qed

text \<open>\<open>memmove\<close> into a held buffer and \<open>bwrite\<close>: the block is written and clean.\<close>

lemma bwrite_ok:
  assumes h: "host s" and ok: "bio_ok (fsys s) H D C" and b: "b \<in> H" "buf_of (fsys s) n b" and e: "length e = BSIZE"
  obtains s' where "bwrite b (set_bdata b e s) = Some s'" "host s'" "bio_ok (fsys s') H (D - {n}) (C(n := e))"
    "fsys s' = (fsys s)\<lparr>bcache := bcache (fsys s'), memdisk := (memdisk (fsys s))(n := e), writes := writes (fsys s) @ [(n, e)]\<rparr>"
    "\<And>a m. buf_of (fsys s') m a = buf_of (fsys s) m a"
proof -
  note d = bio_okD [OF ok]
  let ?x = "bufs s ! b"
  have lt: "b < NBUF" and bx: "b_dev ?x = 1" "unat (b_blockno ?x) = n" using b(2) by (simp_all add: buf_of_def)
  have x: "buf_ok H D C (disksize (fsys s)) b ?x" using d(6) lt by simp
  let ?s = "set_bdata b e s"
  have hs: "host ?s" using h by (simp add: set_bdata_def host_def sched_ok_def)
  have bs: "b < length (bufs ?s)" "bufs ?s ! b = ?x\<lparr>b_data := e\<rparr>" using lt d(1) by (simp_all add: set_bdata_def)
  obtain t where t: "holdingsleep (SlBuf b) ?s = Some (True, t)" "host t" "fsys t = fsys ?s"
    using holdingsleep_buf [OF hs bs(1)] bs x b(1) by (auto simp: buf_ok_def)
  let ?t = "upd_buf b (\<lambda>x. x\<lparr>b_flags := b_flags x OR B_DIRTY\<rparr>) t"
  let ?y = "?x\<lparr>b_data := e, b_flags := B_VALID OR B_DIRTY\<rparr>"
  have ht: "host ?t" using t(2) by (simp add: host_def sched_ok_def)
  have "b_flags ?x OR B_DIRTY = B_VALID OR B_DIRTY" using x bx by (simp add: buf_ok_def)
  then have bt: "bufs ?t ! b = ?y" "b < length (bufs ?t)" "fsys ?t = set_buf b ?y (fsys s)"
    using t(3) bs by (simp_all add: fsys_upd_buf set_bdata_def)
  obtain s' where s': "iderw b ?t = Some s'" "host s'"
    "fsys s' = (set_buf b ((bufs ?t ! b)\<lparr>b_flags := B_VALID\<rparr>) (fsys ?t))\<lparr>memdisk :=
       (memdisk (fsys ?t))(unat (b_blockno (bufs ?t ! b)) := b_data (bufs ?t ! b)),
       writes := writes (fsys ?t) @ [(unat (b_blockno (bufs ?t ! b)), b_data (bufs ?t ! b))]\<rparr>"
    by (rule iderw_write [OF ht bt(2)]) (use bt x bx b(1) d(5) in \<open>auto simp: buf_ok_def\<close>)
  let ?z = "?x\<lparr>b_data := e, b_flags := B_VALID\<rparr>"
  have fs': "fsys s' = (set_buf b ?z (fsys s))\<lparr>memdisk := (memdisk (fsys s))(n := e), writes := writes (fsys s) @ [(n, e)]\<rparr>"
    unfolding s'(3) bt(1,3) using bx(2) lt d(1) by simp
  have 1: "bwrite b ?s = Some s'" using t(1) s'(1) by (simp add: bwrite_def)
  have z: "b_dev ?z = 1" "n = unat (b_blockno ?z)" "buf_ok H (D - {n}) (C(n := e)) (disksize (fsys s)) b ?z"
    using x bx by (auto simp: buf_ok_def)
  have only: "b' = b" if "buf_of (fsys s) n b'" for b' using d(7) that b(2) by blast
  have old: "m \<notin> D" if "buf_of (fsys s) m b" "m \<noteq> n" for m using that b(2) by (simp add: buf_of_def)
  have D: "D - {n} - {n} = D - {n}" and C: "\<And>m. m \<noteq> n \<Longrightarrow> (C(n := e)) m = C m" by auto
  note r = bio_ok_replace [where fs' = "fsys s'", OF ok lt z refl D C only old]
  have ok': "bio_ok (fsys s') H (D - {n}) (C(n := e))" "buf_of (fsys s') n b"
    by (rule r; use d(2,3,11) e in \<open>simp add: fs'\<close>)+
  have o: "buf_of (fsys s') m a = buf_of (fsys s) m a" if "a \<noteq> b" for m a
    by (rule r(3)) (use d(2,3,11) e that in \<open>simp_all add: fs'\<close>)
  have "buf_of (fsys s') m a = buf_of (fsys s) m a" for m a
    by (cases "a = b") (use o ok'(2) b(2) in \<open>auto simp: buf_of_def\<close>)
  then show thesis
    by (rule that [OF 1 s'(2) ok'(1), rotated]) (simp add: fs' set_buf_def)
qed

lemma brelse_ok:
  assumes h: "host s" and ok: "bio_ok (fsys s) H D C" and b: "b \<in> H"
  obtains s' where "brelse b s = Some s'" "host s'" "bio_ok (fsys s') (H - {b}) D C"
    "fsys s' = (fsys s)\<lparr>bcache := bcache (fsys s')\<rparr>" "\<And>a m. buf_of (fsys s') m a = buf_of (fsys s) m a"
proof -
  note d = bio_okD [OF ok]
  let ?x = "bufs s ! b"
  have lt: "b < NBUF" using b d(4) by auto
  have x: "buf_ok H D C (disksize (fsys s)) b ?x" using d(6) lt by simp
  then have bx: "b_dev ?x = 1" using b by (auto simp: buf_ok_def split: if_splits)
  have bl: "b < length (bufs s)" using lt d(1) by simp
  obtain t where t: "holdingsleep (SlBuf b) s = Some (True, t)" "host t" "fsys t = fsys s"
    using holdingsleep_buf [OF h bl] x b by (auto simp: buf_ok_def)
  have "b < length (bufs t)" using bl t(3) by simp
  then obtain u where u: "releasesleep (SlBuf b) t = Some u" "host u"
    "fsys u = set_buf b (?x\<lparr>b_lock := (b_lock ?x)\<lparr>slk_locked := 0, slk_pid := 0\<rparr>\<rparr>) (fsys s)"
    using releasesleep_buf [OF t(2)] t(3) by metis
  let ?y = "?x\<lparr>b_lock := (b_lock ?x)\<lparr>slk_locked := 0, slk_pid := 0\<rparr>, b_refcnt := 0\<rparr>"
  let ?l = "b # remove1 b (bc_list (bcache (fsys s)))"
  let ?s' = "(set_list ?l (upd_buf b (\<lambda>x. x\<lparr>b_refcnt := b_refcnt x - 1\<rparr>) u))\<lparr>mach := settle (mach u)\<rparr>"
  note m = hostD [OF u(2)]
  have 1: "brelse b s = Some ?s'"
    using t(1) u(1,3) m x b bl by (simp add: brelse_def buf_ok_def set_list_def fsys_upd_buf)
  have fs': "fsys ?s' = (set_buf b ?y (fsys s))\<lparr>bcache := (bcache (set_buf b ?y (fsys s)))\<lparr>bc_list := ?l\<rparr>\<rparr>"
    using u(3) x b bl by (simp add: set_list_def fsys_upd_buf set_buf_def buf_ok_def)
  have hs: "host ?s'" by (rule host_frame [OF u(2)]) (simp_all add: set_list_def)
  let ?n = "unat (b_blockno ?x)"
  have y: "b_dev ?y = 1" "?n = unat (b_blockno ?y)" "buf_ok (H - {b}) D C (disksize (fsys s)) b ?y"
    using x bx by (auto simp: buf_ok_def)
  have bn: "buf_of (fsys s) ?n b" using bx lt by (simp add: buf_of_def)
  have only: "b' = b" if "buf_of (fsys s) ?n b'" for b' using d(7) that bn by blast
  have old: "m \<notin> D" if "buf_of (fsys s) m b" "m \<noteq> ?n" for m using that bn by (simp add: buf_of_def)
  have H: "H - {b} - {b} = H - {b}" by simp
  have l: "distinct ?l" "set ?l = {..<NBUF}" using d(2,3) lt by auto
  note r = bio_ok_replace [where fs' = "fsys ?s'", OF ok lt y H refl refl only old]
  have ok': "bio_ok (fsys ?s') (H - {b}) D C" "buf_of (fsys ?s') ?n b"
    by (rule r; use d(9-11) l in \<open>simp add: fs'\<close>)+
  have o: "buf_of (fsys ?s') m a = buf_of (fsys s) m a" if "a \<noteq> b" for m a
    by (rule r(3)) (use d(9-11) l that in \<open>simp_all add: fs'\<close>)
  have "buf_of (fsys ?s') m a = buf_of (fsys s) m a" for m a
    by (cases "a = b") (use o ok'(2) bn in \<open>auto simp: buf_of_def\<close>)
  then show thesis
    by (rule that [OF 1 hs ok'(1), rotated]) (simp add: fs' set_buf_def)
qed

lemma bdata_ok:
  assumes "bio_ok (fsys s) H D C" "buf_of (fsys s) n b"
  shows "bdata b s = Some (C n)"
proof -
  have "b < NBUF" "b < length (bufs s)" using assms by (auto simp: buf_of_def bio_ok_def)
  then show ?thesis using bio_okD(6) [OF assms(1)] assms(2) by (auto simp: bdata_def buf_ok_def buf_of_def)
qed

end
