(* ===== verification/LogCrash.thy ===== *)
theory LogCrash
  imports Log BlockStore
begin

text \<open>
  What the log is for: if the machine stops in the middle of a commit, then recovery brings
  the blocks of the file system to their state before the transaction or to their state after it.
  The disk after a crash is the old disk with a prefix of the writes of the driver
  (\<open>writes\<close>) applied to it.
\<close>

section \<open>The disk\<close>

definition replay :: "(nat \<times> block) list \<Rightarrow> (nat \<Rightarrow> block) \<Rightarrow> nat \<Rightarrow> block" where
  "replay ws d = fold (\<lambda>(n, x) d. d(n := x)) ws d"

lemma replay_simps [simp]:
  "replay [] d = d" "replay [(n, x)] d = d(n := x)" "replay (ws @ [(n, x)]) d = (replay ws d)(n := x)"
  by (simp_all add: replay_def)

lemma replay_append: "replay (ws @ vs) d = replay vs (replay ws d)"
  by (simp add: replay_def)

lemma replay_other: "m \<notin> fst ` set ws \<Longrightarrow> replay ws d m = d m"
proof (induction ws rule: rev_induct)
  case (snoc w ws)
  then show ?case by (cases w) simp
qed simp

lemma replay_map: "replay (map (\<lambda>b. (b, f b)) bs) d m = (if m \<in> set bs then f m else d m)"
  by (induction bs rule: rev_induct) auto

section \<open>Copying blocks through the cache\<close>

text \<open>
  Between two steps of the log code no buffer is held.  \<open>ws\<close> are the writes since the state whose file system
  is \<open>fs0\<close>, and \<open>L\<close> is the log structure in memory.
\<close>

definition logst :: "fsys \<Rightarrow> log \<Rightarrow> kernel \<Rightarrow> nat set \<Rightarrow> (nat \<Rightarrow> block) \<Rightarrow> (nat \<times> block) list \<Rightarrow> bool" where
  "logst fs0 L s D C ws \<longleftrightarrow> host s \<and> bio_ok (fsys s) {} D C \<and> finite D \<and> card D < NBUF \<and> log (fsys s) = L \<and>
     disksize (fsys s) = disksize fs0 \<and> writes (fsys s) = writes fs0 @ ws \<and> memdisk (fsys s) = replay ws (memdisk fs0)"

lemma logstD:
  assumes "logst fs0 L s D C ws"
  shows "host s" "bio_ok (fsys s) {} D C" "finite D" "card D < NBUF" "log (fsys s) = L" "disksize (fsys s) = disksize fs0"
    "writes (fsys s) = writes fs0 @ ws" "memdisk (fsys s) = replay ws (memdisk fs0)"
  using assms by (simp_all add: logst_def)

lemma bcache_frame:
  assumes "fs' = fs\<lparr>bcache := c\<rparr>"
  shows "log fs' = log fs" "disksize fs' = disksize fs" "writes fs' = writes fs" "memdisk fs' = memdisk fs"
  by (simp_all add: assms)

lemma two_buffers:
  assumes st: "logst fs0 L s D C ws" and p: "p < disksize fs0" and q: "q < disksize fs0" "p \<noteq> q" "q \<in> D \<or> card D + 1 < NBUF"
  obtains b t c u where "bread 1 (of_nat p) s = Some (b, t)" "bread 1 (of_nat q) t = Some (c, u)" "log (fsys t) = L"
    "host u" "bio_ok (fsys u) {c, b} D C" "buf_of (fsys u) p b" "buf_of (fsys u) q c" "b \<noteq> c"
    "fsys u = (fsys s)\<lparr>bcache := bcache (fsys u)\<rparr>"
proof -
  note d = logstD [OF st]
  obtain b t where b: "bread 1 (of_nat p) s = Some (b, t)" "host t" "bio_ok (fsys t) (insert b {}) D C"
    "buf_of (fsys t) p b" "fsys t = (fsys s)\<lparr>bcache := bcache (fsys t)\<rparr>"
    by (rule bread_ok [OF d(1,2) p [folded d(6)] _ d(3)]) (use d(4) in auto)
  have ds: "disksize (fsys t) = disksize fs0" using bcache_frame(2) [OF b(5)] d(6) by simp
  have nb: "\<not> buf_of (fsys t) q a" if "a \<in> insert b {}" for a
    using that b(4) q(2) by (auto simp: buf_of_def)
  obtain c u where c: "bread 1 (of_nat q) t = Some (c, u)" "host u" "bio_ok (fsys u) (insert c (insert b {})) D C" "c \<notin> insert b {}"
    "buf_of (fsys u) q c" "fsys u = (fsys t)\<lparr>bcache := bcache (fsys u)\<rparr>" "\<And>a m. a \<in> insert b {} \<Longrightarrow> buf_of (fsys u) m a = buf_of (fsys t) m a"
    by (rule bread_ok [OF b(2,3) q(1) [folded ds] nb d(3)]) (use q(3) in auto)
  have "log (fsys t) = L" using bcache_frame(1) [OF b(5)] d(5) by simp
  moreover have "fsys u = (fsys s)\<lparr>bcache := bcache (fsys u)\<rparr>" using c(6) b(5) by (metis fsys.update_convs(4) fsys.surjective)
  ultimately show thesis using that [OF b(1) c(1)] c(2-5,7) b(4) by auto
qed

text \<open>Writing one of two held buffers from the other and releasing both.\<close>

lemma copy_release:
  assumes st: "logst fs0 L s D C ws" and u: "host u" "bio_ok (fsys u) {c, b} D C" "fsys u = (fsys s)\<lparr>bcache := bcache (fsys u)\<rparr>"
    and w: "w \<in> {c, b}" "buf_of (fsys u) n w" "length x = BSIZE" and r: "r1 \<in> {c, b}" "r2 \<in> {c, b}" "r1 \<noteq> r2"
  obtains v v1 s' where "bwrite w (set_bdata w x u) = Some v" "brelse r1 v = Some v1" "brelse r2 v1 = Some s'"
    "logst fs0 L s' (D - {n}) (C(n := x)) (ws @ [(n, x)])"
proof -
  note d = logstD [OF st] and f = bcache_frame [OF u(3)]
  obtain v where v: "bwrite w (set_bdata w x u) = Some v" "host v" "bio_ok (fsys v) {c, b} (D - {n}) (C(n := x))"
    "fsys v = (fsys u)\<lparr>bcache := bcache (fsys v), memdisk := (memdisk (fsys u))(n := x), writes := writes (fsys u) @ [(n, x)]\<rparr>"
    by (rule bwrite_ok [OF u(1,2) w])
  obtain v1 where v1: "brelse r1 v = Some v1" "host v1" "bio_ok (fsys v1) ({c, b} - {r1}) (D - {n}) (C(n := x))"
    "fsys v1 = (fsys v)\<lparr>bcache := bcache (fsys v1)\<rparr>"
    by (rule brelse_ok [OF v(2,3) r(1)])
  have r2: "r2 \<in> {c, b} - {r1}" using r by auto
  obtain s' where s': "brelse r2 v1 = Some s'" "host s'" "bio_ok (fsys s') ({c, b} - {r1} - {r2}) (D - {n}) (C(n := x))"
    "fsys s' = (fsys v1)\<lparr>bcache := bcache (fsys s')\<rparr>"
    by (rule brelse_ok [OF v1(2,3) r2])
  have e: "{c, b} - {r1} - {r2} = {}" using r by auto
  have g: "log (fsys v) = log (fsys u)" "disksize (fsys v) = disksize (fsys u)" "writes (fsys v) = writes (fsys u) @ [(n, x)]"
    "memdisk (fsys v) = (memdisk (fsys u))(n := x)"
    by (subst v(4), simp)+
  have "card (D - {n}) < NBUF" using d(3,4) card_Diff1_le [of D n] by linarith
  then have "logst fs0 L s' (D - {n}) (C(n := x)) (ws @ [(n, x)])"
    using s'(2,3) d f g bcache_frame [OF v1(4)] bcache_frame [OF s'(4)] unfolding logst_def e by simp
  then show thesis using that v(1) v1(1) s'(1) by blast
qed

text \<open>The log in memory: where it is on the disk, and the blocks of the transaction.\<close>

definition log_wf :: "nat \<Rightarrow> nat \<Rightarrow> log \<Rightarrow> nat list \<Rightarrow> bool" where
  "log_wf ds st L bs \<longleftrightarrow> lg_dev L = 1 \<and> lg_start L = int st \<and> lh_n (lg_lh L) = int (length bs) \<and> length (lh_block (lg_lh L)) = LOGSIZE \<and>
     length bs < LOGSIZE \<and> take (length bs) (lh_block (lg_lh L)) = map int bs \<and> distinct bs \<and>
     st + LOGSIZE \<le> ds \<and> ds < 2 ^ 31 \<and> (\<forall>b\<in>set bs. b < ds \<and> (b < st \<or> st + LOGSIZE \<le> b))"

lemma log_wfD:
  assumes "log_wf ds st L bs"
  shows "lg_dev L = 1" "lg_start L = int st" "lh_n (lg_lh L) = int (length bs)" "length (lh_block (lg_lh L)) = LOGSIZE"
    "length bs < LOGSIZE" "\<And>i. i < length bs \<Longrightarrow> lh_block (lg_lh L) ! i = int (bs ! i)" "distinct bs" "st + LOGSIZE \<le> ds" "ds < 2 ^ 31"
    "\<And>b. b \<in> set bs \<Longrightarrow> b < ds" "\<And>b. b \<in> set bs \<Longrightarrow> b < st \<or> st + LOGSIZE \<le> b"
proof -
  show "lh_block (lg_lh L) ! i = int (bs ! i)" if "i < length bs" for i
    using assms that unfolding log_wf_def by (metis nth_map nth_take)
qed (use assms in \<open>auto simp: log_wf_def\<close>)

lemma write_log_one_ok:
  assumes st: "logst fs0 L s D C ws" and L: "log_wf (disksize fs0) p L bs" and i: "i < length bs" "bs ! i \<in> D"
  obtains s' where "write_log_one i s = Some s'"
    "logst fs0 L s' (D - {p + 1 + i}) (C(p + 1 + i := C (bs ! i))) (ws @ [(p + 1 + i, C (bs ! i))])"
proof -
  note d = logstD [OF st] and l = log_wfD [OF L]
  have bi: "bs ! i < disksize fs0" "bs ! i < p \<or> p + LOGSIZE \<le> bs ! i" using l(10,11) i(1) by simp_all
  have pi: "p + 1 + i < disksize fs0" "p + 1 + i \<noteq> bs ! i" using l(5,8) i(1) bi(2) by linarith+
  obtain b t c u where bc: "bread 1 (of_nat (p + 1 + i)) s = Some (b, t)" "bread 1 (of_nat (bs ! i)) t = Some (c, u)" "log (fsys t) = L"
    "host u" "bio_ok (fsys u) {c, b} D C" "buf_of (fsys u) (p + 1 + i) b" "buf_of (fsys u) (bs ! i) c" "b \<noteq> c"
    "fsys u = (fsys s)\<lparr>bcache := bcache (fsys u)\<rparr>"
    by (rule two_buffers [OF st pi(1) bi(1) pi(2)]) (use i(2) in auto)
  have dat: "bdata c u = Some (C (bs ! i))" by (rule bdata_ok [OF bc(5,7)])
  have len: "length (C (bs ! i)) = BSIZE" using bio_okD(10) [OF d(2)] .
  obtain v v1 s' where v: "bwrite b (set_bdata b (C (bs ! i)) u) = Some v" "brelse c v = Some v1" "brelse b v1 = Some s'"
    "logst fs0 L s' (D - {p + 1 + i}) (C(p + 1 + i := C (bs ! i))) (ws @ [(p + 1 + i, C (bs ! i))])"
    by (rule copy_release [OF st bc(4,5,9) _ bc(6) len, of c b]) (use bc(8) in auto)
  have n1: "(of_int (lg_start L + int i + 1) :: uint) = of_nat (p + 1 + i)" by (simp add: l(2) add_ac)
  have "write_log_one i s = Some s'"
    using bc(1-3) dat v(1-3) d(5) l(1,4,6) i(1) l(5) unfolding write_log_one_def Let_def d(5) n1 by simp
  then show thesis using v(4) by (rule that)
qed

lemma install_trans_one_ok:
  assumes st: "logst fs0 L s D C ws" and L: "log_wf (disksize fs0) p L bs" and i: "i < length bs" "bs ! i \<in> D \<or> card D + 1 < NBUF"
  obtains s' where "install_trans_one i s = Some s'"
    "logst fs0 L s' (D - {bs ! i}) (C(bs ! i := C (p + 1 + i))) (ws @ [(bs ! i, C (p + 1 + i))])"
proof -
  note d = logstD [OF st] and l = log_wfD [OF L]
  have bi: "bs ! i < disksize fs0" "bs ! i < p \<or> p + LOGSIZE \<le> bs ! i" using l(10,11) i(1) by simp_all
  have pi: "p + 1 + i < disksize fs0" "p + 1 + i \<noteq> bs ! i" using l(5,8) i(1) bi(2) by linarith+
  obtain b t c u where bc: "bread 1 (of_nat (p + 1 + i)) s = Some (b, t)" "bread 1 (of_nat (bs ! i)) t = Some (c, u)" "log (fsys t) = L"
    "host u" "bio_ok (fsys u) {c, b} D C" "buf_of (fsys u) (p + 1 + i) b" "buf_of (fsys u) (bs ! i) c" "b \<noteq> c"
    "fsys u = (fsys s)\<lparr>bcache := bcache (fsys u)\<rparr>"
    by (rule two_buffers [OF st pi(1) bi(1) pi(2) i(2)])
  have dat: "bdata b u = Some (C (p + 1 + i))" by (rule bdata_ok [OF bc(5,6)])
  have len: "length (C (p + 1 + i)) = BSIZE" using bio_okD(10) [OF d(2)] .
  obtain v v1 s' where v: "bwrite c (set_bdata c (C (p + 1 + i)) u) = Some v" "brelse b v = Some v1" "brelse c v1 = Some s'"
    "logst fs0 L s' (D - {bs ! i}) (C(bs ! i := C (p + 1 + i))) (ws @ [(bs ! i, C (p + 1 + i))])"
    by (rule copy_release [OF st bc(4,5,9) _ bc(7) len, of b c]) (use bc(8) in auto)
  have n1: "(of_int (lg_start L + int i + 1) :: uint) = of_nat (p + 1 + i)" by (simp add: l(2) add_ac)
  have "install_trans_one i s = Some s'"
    using bc(1-3) dat v(1-3) d(5) l(1,4,6) i(1) l(5) unfolding install_trans_one_def Let_def d(5) n1 by simp
  then show thesis using v(4) by (rule that)
qed

section \<open>The loops over the transaction\<close>

text \<open>The writes of \<open>write_log\<close> and of \<open>install_trans\<close>, for the first \<open>i\<close> blocks.\<close>

definition log_writes :: "nat \<Rightarrow> nat list \<Rightarrow> (nat \<Rightarrow> block) \<Rightarrow> nat \<Rightarrow> (nat \<times> block) list" where
  "log_writes p bs C i = map (\<lambda>j. (p + 1 + j, C (bs ! j))) [0..<i]"

definition home_writes :: "nat \<Rightarrow> nat list \<Rightarrow> (nat \<Rightarrow> block) \<Rightarrow> nat \<Rightarrow> (nat \<times> block) list" where
  "home_writes p bs C i = map (\<lambda>j. (bs ! j, C (p + 1 + j))) [0..<i]"

lemma writes_simps [simp]:
  "log_writes p bs C 0 = []" "log_writes p bs C (Suc i) = log_writes p bs C i @ [(p + 1 + i, C (bs ! i))]"
  "home_writes p bs C 0 = []" "home_writes p bs C (Suc i) = home_writes p bs C i @ [(bs ! i, C (p + 1 + i))]"
  "length (log_writes p bs C i) = i" "length (home_writes p bs C i) = i"
  by (simp_all add: log_writes_def home_writes_def)

lemma writes_targets:
  "fst ` set (log_writes p bs C i) = {p + 1 ..< p + 1 + i}"
  "i \<le> length bs \<Longrightarrow> fst ` set (home_writes p bs C i) = set (take i bs)"
proof -
  show "fst ` set (log_writes p bs C i) = {p + 1 ..< p + 1 + i}"
    by (induction i) (auto simp: atLeastLessThanSuc)
  show "fst ` set (home_writes p bs C i) = set (take i bs)" if "i \<le> length bs"
    using that by (induction i) (auto simp: take_Suc_conv_app_nth)
qed

lemma bs_outside:
  assumes "log_wf ds p L bs" "b \<in> set bs"
  shows "b \<noteq> p" "j < length bs \<Longrightarrow> b \<noteq> p + 1 + j" "j \<le> length bs \<Longrightarrow> b \<notin> {p + 1 ..< p + 1 + j}"
  using log_wfD(5) [OF assms(1)] log_wfD(11) [OF assms] by auto

lemma write_log_ok:
  assumes st: "logst fs0 L s D C ws" and L: "log_wf (disksize fs0) p L bs" and D: "D = set bs"
  obtains s' where "write_log s = Some s'"
    "logst fs0 L s' D (replay (log_writes p bs C (length bs)) C) (ws @ log_writes p bs C (length bs))"
proof -
  note d = logstD [OF st] and l = log_wfD [OF L]
  let ?I = "\<lambda>i t. logst fs0 L t D (replay (log_writes p bs C i) C) (ws @ log_writes p bs C i)"
  have "\<exists>s'. for_from (length bs) 0 write_log_one s = Some s' \<and> ?I (0 + length bs) s'"
  proof (rule for_from_total [where I = ?I])
    show "?I 0 s" using st by simp
    fix i t assume i: "i < 0 + length bs" and t: "?I i t"
    have mem: "bs ! i \<in> set bs" using i by simp
    have same: "replay (log_writes p bs C i) C (bs ! i) = C (bs ! i)"
      by (rule replay_other, unfold writes_targets(1), rule bs_outside(3) [OF L mem]) (use i in simp)
    have nD: "D - {p + 1 + i} = D" using bs_outside(2) [OF L] i D by auto
    show "\<exists>t'. write_log_one i t = Some t' \<and> ?I (Suc i) t'"
      using write_log_one_ok [OF t L, of i] i mem unfolding D [symmetric] same nD by auto
  qed
  then show thesis using that by (auto simp: write_log_def d(5) l(3))
qed

lemma install_trans_ok:
  assumes st: "logst fs0 L s D C ws" and L: "log_wf (disksize fs0) p L bs" and D: "set bs \<subseteq> D \<or> card D + 1 < NBUF"
  obtains s' where "install_trans s = Some s'"
    "logst fs0 L s' (D - set bs) (replay (home_writes p bs C (length bs)) C) (ws @ home_writes p bs C (length bs))"
proof -
  note d = logstD [OF st] and l = log_wfD [OF L]
  let ?I = "\<lambda>i t. logst fs0 L t (D - set (take i bs)) (replay (home_writes p bs C i) C) (ws @ home_writes p bs C i)"
  have "\<exists>s'. for_from (length bs) 0 install_trans_one s = Some s' \<and> ?I (0 + length bs) s'"
  proof (rule for_from_total [where I = ?I])
    show "?I 0 s" using st by simp
    fix i t assume i: "i < 0 + length bs" and t: "?I i t"
    have "p + 1 + i \<notin> set bs" using bs_outside(2) [OF L, of "p + 1 + i" i] i by auto
    then have "p + 1 + i \<notin> set (take i bs)" by (meson in_set_takeD)
    then have same: "replay (home_writes p bs C i) C (p + 1 + i) = C (p + 1 + i)"
      using i by (intro replay_other) (simp add: writes_targets(2))
    have "bs ! i \<notin> set (take i bs)" using l(7) i by (auto simp: in_set_conv_nth distinct_conv_nth)
    moreover have "card (D - set (take i bs)) \<le> card D" using d(3) by (intro card_mono) auto
    ultimately have c: "bs ! i \<in> D - set (take i bs) \<or> card (D - set (take i bs)) + 1 < NBUF"
      using D i by auto
    have eq: "D - set (take i bs) - {bs ! i} = D - set (take (Suc i) bs)" using i by (auto simp: take_Suc_conv_app_nth)
    show "\<exists>t'. install_trans_one i t = Some t' \<and> ?I (Suc i) t'"
      using install_trans_one_ok [OF t L _ c] i unfolding eq same by auto
  qed
  then show thesis using that by (auto simp: install_trans_def d(5) l(3))
qed

section \<open>The header block\<close>

text \<open>\<open>d\<close> is a header that names the blocks \<open>bs\<close>.\<close>

definition head_is :: "block \<Rightarrow> nat list \<Rightarrow> bool" where
  "head_is d bs \<longleftrightarrow> length d = BSIZE \<and> sint (get_u32 d 0) = int (length bs) \<and>
     (\<forall>i<length bs. sint (get_u32 d (4 + 4 * i)) = int (bs ! i))"

lemma length_put_u32 [simp]: "k + 4 \<le> length d \<Longrightarrow> length (put_u32 d k w) = length d"
  by (simp add: put_u32_def)

lemma put_header:
  assumes L: "log_wf ds p L bs" and d: "length d = BSIZE"
  obtains d' where "for_from (length bs) 0
    (\<lambda>i d. do { b \<leftarrow> nth_opt (lh_block (lg_lh L)) i; Some (put_u32 d (4 + 4 * i) (of_int b)) }) (put_u32 d 0 (of_nat (length bs))) = Some d'"
    "head_is d' bs"
proof -
  note l = log_wfD [OF L]
  let ?f = "\<lambda>i d. do { b \<leftarrow> nth_opt (lh_block (lg_lh L)) i; Some (put_u32 d (4 + 4 * i) (of_int b)) }"
  let ?I = "\<lambda>i d. length d = BSIZE \<and> get_u32 d 0 = of_nat (length bs) \<and> (\<forall>j<i. get_u32 d (4 + 4 * j) = of_nat (bs ! j))"
  have "\<exists>d'. for_from (length bs) 0 ?f (put_u32 d 0 (of_nat (length bs))) = Some d' \<and> ?I (0 + length bs) d'"
  proof (rule for_from_total [where I = ?I])
    show "?I 0 (put_u32 d 0 (of_nat (length bs)))" using d by (simp add: get_put_u32)
    fix i e assume i: "i < 0 + length bs" and e: "?I i e"
    have i30: "4 + 4 * i + 4 \<le> length e" using i l(5) e by simp
    have "get_u32 (put_u32 e (4 + 4 * i) w) (4 + 4 * j) = of_nat (bs ! j)" if "j < i" for j w
      using e that i30 by (subst get_put_u32_other) auto
    moreover have "get_u32 (put_u32 e (4 + 4 * i) w) 0 = of_nat (length bs)" for w
      using e i30 by (subst get_put_u32_other) auto
    moreover have "get_u32 (put_u32 e (4 + 4 * i) w) (4 + 4 * i) = w" for w by (rule get_put_u32 [OF i30])
    moreover have "lh_block (lg_lh L) ! i = int (bs ! i)" "i < length (lh_block (lg_lh L))" using l(4,5,6) i by auto
    ultimately show "\<exists>e'. ?f i e = Some e' \<and> ?I (Suc i) e'"
      using e i30 by (auto simp: less_Suc_eq)
  qed
  then obtain d' where d': "for_from (length bs) 0 ?f (put_u32 d 0 (of_nat (length bs))) = Some d'" "?I (length bs) d'" by auto
  have "bs ! i < 2 ^ 31" if "i < length bs" for i using less_trans [OF l(10) l(9)] that by simp
  moreover have "length bs < 2 ^ 31" using l(5) by simp
  ultimately have "head_is d' bs" using d'(2) by (auto simp: head_is_def sint_of_nat_small)
  then show thesis using d'(1) that by blast
qed

lemma write_head_ok:
  assumes st: "logst fs0 L s D C ws" and L: "log_wf (disksize fs0) p L bs"
  obtains s' x where "write_head s = Some s'" "head_is x bs" "logst fs0 L s' (D - {p}) (C(p := x)) (ws @ [(p, x)])"
proof -
  note d = logstD [OF st] and l = log_wfD [OF L]
  have p: "p < disksize (fsys s)" using l(8) d(6) by simp
  obtain b t where b: "bread 1 (of_nat p) s = Some (b, t)" "host t" "bio_ok (fsys t) (insert b {}) D C"
    "buf_of (fsys t) p b" "fsys t = (fsys s)\<lparr>bcache := bcache (fsys t)\<rparr>"
    by (rule bread_ok [OF d(1,2) p _ d(3)]) (use d(4) in auto)
  have dat: "bdata b t = Some (C p)" by (rule bdata_ok [OF b(3,4)])
  obtain x where x: "for_from (length bs) 0
    (\<lambda>i d. do { b \<leftarrow> nth_opt (lh_block (lg_lh L)) i; Some (put_u32 d (4 + 4 * i) (of_int b)) }) (put_u32 (C p) 0 (of_nat (length bs))) = Some x"
    "head_is x bs" by (rule put_header [OF L bio_okD(10) [OF d(2)]])
  have len: "length x = BSIZE" using x(2) by (simp add: head_is_def)
  obtain v where v: "bwrite b (set_bdata b x t) = Some v" "host v" "bio_ok (fsys v) (insert b {}) (D - {p}) (C(p := x))"
    "fsys v = (fsys t)\<lparr>bcache := bcache (fsys v), memdisk := (memdisk (fsys t))(p := x), writes := writes (fsys t) @ [(p, x)]\<rparr>"
    by (rule bwrite_ok [OF b(2,3) _ b(4) len]) auto
  obtain s' where s': "brelse b v = Some s'" "host s'" "bio_ok (fsys s') (insert b {} - {b}) (D - {p}) (C(p := x))"
    "fsys s' = (fsys v)\<lparr>bcache := bcache (fsys s')\<rparr>"
    by (rule brelse_ok [OF v(2,3)]) auto
  have lt: "log (fsys t) = L" using bcache_frame(1) [OF b(5)] d(5) by simp
  have g: "log (fsys v) = log (fsys t)" "disksize (fsys v) = disksize (fsys t)" "writes (fsys v) = writes (fsys t) @ [(p, x)]"
    "memdisk (fsys v) = (memdisk (fsys t))(p := x)"
    by (subst v(4), simp)+
  have "card (D - {p}) < NBUF" using d(3,4) card_Diff1_le [of D p] by linarith
  then have "logst fs0 L s' (D - {p}) (C(p := x)) (ws @ [(p, x)])"
    using s'(2,3) d g bcache_frame [OF b(5)] bcache_frame [OF s'(4)] unfolding logst_def by simp
  moreover have "write_head s = Some s'"
    using b(1) dat x(1) v(1) s'(1) lt unfolding write_head_def Let_def d(5) by (simp add: l(1-3))
  ultimately show thesis using x(2) that by blast
qed

section \<open>Commit\<close>

lemma set_lh_simps [simp]:
  "log (fsys (set_lh_n n s)) = (log (fsys s))\<lparr>lg_lh := (lg_lh (log (fsys s)))\<lparr>lh_n := n\<rparr>\<rparr>"
  "log (fsys (set_lh_block xs s)) = (log (fsys s))\<lparr>lg_lh := (lg_lh (log (fsys s)))\<lparr>lh_block := xs\<rparr>\<rparr>"
  by (simp_all add: set_lh_n_def set_lh_block_def upd_log_def)

lemma upd_log_frame:
  "host (upd_log f s) = host s" "bio_ok (fsys (upd_log f s)) H D C = bio_ok (fsys s) H D C"
  "buf_of (fsys (upd_log f s)) n b = buf_of (fsys s) n b"
  "disksize (fsys (upd_log f s)) = disksize (fsys s)" "writes (fsys (upd_log f s)) = writes (fsys s)"
  "memdisk (fsys (upd_log f s)) = memdisk (fsys s)" "log (fsys (upd_log f s)) = f (log (fsys s))"
  "bdata b (upd_log f s) = bdata b s"
  by (simp_all add: upd_log_def host_def sched_ok_def bio_ok_def buf_of_def bdata_def)

lemma logst_upd_log: "logst fs0 L s D C ws \<Longrightarrow> logst fs0 (f L) (upd_log f s) D C ws"
  by (simp add: logst_def upd_log_frame)

lemma log_wf_empty: "log_wf ds p L bs \<Longrightarrow> log_wf ds p (L\<lparr>lg_lh := (lg_lh L)\<lparr>lh_n := 0\<rparr>\<rparr>) []"
  by (simp add: log_wf_def)

text \<open>Clearing the log.\<close>

lemma clear_log_ok:
  assumes st: "logst fs0 L s D C ws" and L: "log_wf (disksize fs0) p L bs"
  obtains s' y where "write_head (set_lh_n 0 s) = Some s'" "head_is y []"
    "logst fs0 (L\<lparr>lg_lh := (lg_lh L)\<lparr>lh_n := 0\<rparr>\<rparr>) s' (D - {p}) (C(p := y)) (ws @ [(p, y)])"
proof -
  let ?L = "L\<lparr>lg_lh := (lg_lh L)\<lparr>lh_n := 0\<rparr>\<rparr>"
  have "logst fs0 ?L (set_lh_n 0 s) D C ws"
    unfolding set_lh_n_def using logst_upd_log [OF st, of "\<lambda>l. l\<lparr>lg_lh := (lg_lh l)\<lparr>lh_n := 0\<rparr>\<rparr>"] by simp
  then show thesis by (rule write_head_ok [OF _ log_wf_empty [OF L]]) (rule that)
qed

text \<open>The writes of a commit: the log blocks, the header, the blocks at home, the cleared header.\<close>

definition commit_writes :: "nat \<Rightarrow> nat list \<Rightarrow> (nat \<Rightarrow> block) \<Rightarrow> block \<Rightarrow> block \<Rightarrow> (nat \<times> block) list" where
  "commit_writes p bs C x y = log_writes p bs C (length bs) @ [(p, x)] @ map (\<lambda>b. (b, C b)) bs @ [(p, y)]"

lemma replay_log:
  assumes "i \<le> j" "j \<le> length bs" "p + 1 + i = m" "i < j"
  shows "replay (log_writes p bs C j) d m = C (bs ! i)"
  using assms
proof (induction j)
  case (Suc j)
  then show ?case by (cases "i = j") auto
qed simp

lemma home_writes_eq:
  assumes "\<And>i. i < length bs \<Longrightarrow> E (p + 1 + i) = C (bs ! i)"
  shows "home_writes p bs E (length bs) = map (\<lambda>b. (b, C b)) bs"
  using assms by (auto simp: home_writes_def intro!: nth_equalityI)

lemma commit_ok:
  assumes st: "logst fs0 L s (set bs) C []" and L: "log_wf (disksize fs0) p L bs" and ne: "bs \<noteq> []"
  obtains s' x y where "commit s = Some s'" "head_is x bs" "head_is y []"
    "logst fs0 (L\<lparr>lg_lh := (lg_lh L)\<lparr>lh_n := 0\<rparr>\<rparr>) s' {} (replay (commit_writes p bs C x y) C) (commit_writes p bs C x y)"
proof -
  note d = logstD [OF st] and l = log_wfD [OF L]
  let ?n = "length bs" let ?lw = "log_writes p bs C ?n" let ?C1 = "replay ?lw C"
  obtain s1 where s1: "write_log s = Some s1" "logst fs0 L s1 (set bs) ?C1 ([] @ ?lw)"
    by (rule write_log_ok [OF st L refl])
  obtain s2 x where s2: "write_head s1 = Some s2" "head_is x bs" "logst fs0 L s2 (set bs - {p}) (?C1(p := x)) (([] @ ?lw) @ [(p, x)])"
    by (rule write_head_ok [OF s1(2) L])
  have np: "set bs - {p} = set bs" using bs_outside(1) [OF L] by auto
  let ?C2 = "?C1(p := x)"
  have "set bs \<subseteq> set bs - {p} \<or> card (set bs - {p}) + 1 < NBUF" using np by simp
  then obtain s3 where s3: "install_trans s2 = Some s3"
    "logst fs0 L s3 (set bs - {p} - set bs) (replay (home_writes p bs ?C2 ?n) ?C2) ((([] @ ?lw) @ [(p, x)]) @ home_writes p bs ?C2 ?n)"
    using install_trans_ok [OF s2(3) L] by metis
  have hw: "home_writes p bs ?C2 ?n = map (\<lambda>b. (b, C b)) bs"
    by (rule home_writes_eq) (simp add: replay_log)
  obtain s4 y where s4: "write_head (set_lh_n 0 s3) = Some s4" "head_is y []"
    "logst fs0 (L\<lparr>lg_lh := (lg_lh L)\<lparr>lh_n := 0\<rparr>\<rparr>) s4 (set bs - {p} - set bs - {p})
      ((replay (map (\<lambda>b. (b, C b)) bs) ?C2)(p := y)) (((([] @ ?lw) @ [(p, x)]) @ map (\<lambda>b. (b, C b)) bs) @ [(p, y)])"
    by (rule clear_log_ok [OF s3(2) [unfolded hw] L])
  have "commit s = Some s4" using ne s1(1) s2(1) s3(1) s4(1) by (simp add: commit_def d(5) l(3))
  moreover have e: "set bs - {p} - set bs - {p} = {}" by auto
  have r: "(replay (map (\<lambda>b. (b, C b)) bs) ?C2)(p := y) = replay (commit_writes p bs C x y) C"
    unfolding commit_writes_def replay_append by (simp add: replay_def)
  have w: "((([] @ ?lw) @ [(p, x)]) @ map (\<lambda>b. (b, C b)) bs) @ [(p, y)] = commit_writes p bs C x y"
    by (simp add: commit_writes_def)
  ultimately show thesis using that [OF _ s2(2) s4(2)] s4(3) [unfolded e r w] by blast
qed

section \<open>Recovery\<close>

text \<open>A kernel that has just read the super block of a disk with contents \<open>d\<close>: its cache is clean.\<close>

definition booted :: "nat \<Rightarrow> nat \<Rightarrow> (nat \<Rightarrow> block) \<Rightarrow> kernel \<Rightarrow> bool" where
  "booted ds p d r \<longleftrightarrow> host r \<and> bio_ok (fsys r) {} {} d \<and> disksize (fsys r) = ds \<and> lg_dev (log (fsys r)) = 1 \<and>
     lg_start (log (fsys r)) = int p \<and> length (lh_block (lg_lh (log (fsys r)))) = LOGSIZE"

text \<open>A transaction that fits: its blocks are different, on the disk and outside of the log.\<close>

definition tx_fits :: "nat \<Rightarrow> nat \<Rightarrow> nat list \<Rightarrow> bool" where
  "tx_fits ds p bs \<longleftrightarrow> length bs < LOGSIZE \<and> distinct bs \<and> p + LOGSIZE \<le> ds \<and> ds < 2 ^ 31 \<and>
     (\<forall>b\<in>set bs. b < ds \<and> (b < p \<or> p + LOGSIZE \<le> b))"

lemma log_wf_fits: "log_wf ds p L bs \<Longrightarrow> tx_fits ds p bs"
  by (simp add: log_wf_def tx_fits_def)

lemma booted_disk: "booted ds p d r \<Longrightarrow> memdisk (fsys r) = d"
  by (auto simp: booted_def bio_ok_def fun_eq_iff)

lemma read_entries:
  assumes h: "head_is d bs" and n: "length bs \<le> length xs"
  obtains ys where "for_from (length bs) 0 (\<lambda>i xs. upd_opt xs i (sint (get_u32 d (4 + 4 * i)))) xs = Some ys"
    "length ys = length xs" "take (length bs) ys = map int bs"
proof -
  let ?I = "\<lambda>i ys. length ys = length xs \<and> (\<forall>j<i. ys ! j = int (bs ! j))"
  have "\<exists>ys. for_from (length bs) 0 (\<lambda>i xs. upd_opt xs i (sint (get_u32 d (4 + 4 * i)))) xs = Some ys \<and> ?I (0 + length bs) ys"
    by (rule for_from_total [where I = ?I]) (use h n in \<open>auto simp: head_is_def upd_opt_def nth_list_update less_Suc_eq\<close>)
  then obtain ys where ys: "for_from (length bs) 0 (\<lambda>i xs. upd_opt xs i (sint (get_u32 d (4 + 4 * i)))) xs = Some ys"
    "?I (length bs) ys" by auto
  then have "take (length bs) ys = map int bs" using n by (intro nth_equalityI) auto
  then show thesis using that ys by blast
qed

lemma read_head_ok:
  assumes r: "booted ds p d r" and h: "head_is (d p) bs" and f: "tx_fits ds p bs"
  obtains r1 L where "read_head r = Some r1" "logst (fsys r) L r1 {} d []" "log_wf ds p L bs"
proof -
  note b = r [unfolded booted_def]
  let ?L = "log (fsys r)"
  have p: "p < disksize (fsys r)" using b f by (simp add: tx_fits_def)
  obtain c t where t: "bread 1 (of_nat p) r = Some (c, t)" "host t" "bio_ok (fsys t) (insert c {}) {} d"
    "buf_of (fsys t) p c" "fsys t = (fsys r)\<lparr>bcache := bcache (fsys t)\<rparr>"
    by (rule bread_ok [OF _ _ p, of "{}" "{}" d]) (use b in auto)
  have dat: "bdata c t = Some (d p)" by (rule bdata_ok [OF t(3,4)])
  have n: "length bs \<le> length (lh_block (lg_lh ?L))" using b f by (simp add: tx_fits_def)
  obtain ys where ys: "for_from (length bs) 0 (\<lambda>i xs. upd_opt xs i (sint (get_u32 (d p) (4 + 4 * i)))) (lh_block (lg_lh ?L)) = Some ys"
    "length ys = length (lh_block (lg_lh ?L))" "take (length bs) ys = map int bs"
    by (rule read_entries [OF h n])
  let ?u = "set_lh_block ys (set_lh_n (int (length bs)) t)"
  have fr: "host ?u" "bio_ok (fsys ?u) (insert c {}) {} d"
    using t(2,3) by (simp_all add: set_lh_block_def set_lh_n_def upd_log_frame)
  obtain r1 where r1: "brelse c ?u = Some r1" "host r1" "bio_ok (fsys r1) (insert c {} - {c}) {} d"
    "fsys r1 = (fsys ?u)\<lparr>bcache := bcache (fsys r1)\<rparr>"
    by (rule brelse_ok [OF fr]) auto
  let ?L' = "?L\<lparr>lg_lh := (lg_lh ?L)\<lparr>lh_n := int (length bs), lh_block := ys\<rparr>\<rparr>"
  have lt: "log (fsys t) = ?L" "disksize (fsys t) = disksize (fsys r)" "writes (fsys t) = writes (fsys r)" "memdisk (fsys t) = memdisk (fsys r)"
    using bcache_frame [OF t(5)] by simp_all
  have "read_head r = Some r1"
    using t(1) dat ys(1) r1(1) h lt(1) b unfolding read_head_def Let_def by (simp add: head_is_def)
  moreover have "logst (fsys r) ?L' r1 {} d []"
    using r1(2,3) bcache_frame [OF r1(4)] lt unfolding logst_def
    by (simp add: set_lh_block_def set_lh_n_def upd_log_frame)
  moreover have "log_wf ds p ?L' bs" using b f ys(2,3) by (simp add: log_wf_def tx_fits_def)
  ultimately show thesis by (rule that)
qed

text \<open>The writes of recovery.\<close>

lemma recover_ok:
  assumes r: "booted ds p d r" and h: "head_is (d p) bs" and f: "tx_fits ds p bs"
  obtains r' y where "recover_from_log r = Some r'" "head_is y []"
    "writes (fsys r') = writes (fsys r) @ home_writes p bs d (length bs) @ [(p, y)]"
    "memdisk (fsys r') = replay (home_writes p bs d (length bs) @ [(p, y)]) d"
proof -
  have ds: "disksize (fsys r) = ds" using r by (simp add: booted_def)
  obtain r1 L where r1: "read_head r = Some r1" "logst (fsys r) L r1 {} d []" "log_wf ds p L bs"
    by (rule read_head_ok [OF r h f])
  obtain r2 where r2: "install_trans r1 = Some r2"
    "logst (fsys r) L r2 ({} - set bs) (replay (home_writes p bs d (length bs)) d) ([] @ home_writes p bs d (length bs))"
    by (rule install_trans_ok [OF r1(2) r1(3) [folded ds]]) auto
  obtain r3 y where r3: "write_head (set_lh_n 0 r2) = Some r3" "head_is y []"
    "logst (fsys r) (L\<lparr>lg_lh := (lg_lh L)\<lparr>lh_n := 0\<rparr>\<rparr>) r3 ({} - set bs - {p})
      ((replay (home_writes p bs d (length bs)) d)(p := y)) (([] @ home_writes p bs d (length bs)) @ [(p, y)])"
    by (rule clear_log_ok [OF r2(2) r1(3) [folded ds]])
  have "recover_from_log r = Some r3" using r1(1) r2(1) r3(1) by (simp add: recover_from_log_def)
  then show thesis using that r3(2) logstD(7,8) [OF r3(3)] booted_disk [OF r] by simp
qed

section \<open>Crashes\<close>

text \<open>Block \<open>m\<close> belongs to the file system and not to the log.\<close>

definition outside_log :: "nat \<Rightarrow> nat \<Rightarrow> bool" where
  "outside_log p m \<longleftrightarrow> m < p \<or> p + LOGSIZE \<le> m"

text \<open>Every kernel that boots from the disk \<open>d\<close> recovers the file system \<open>F\<close>.\<close>

definition recovers :: "nat \<Rightarrow> nat \<Rightarrow> (nat \<Rightarrow> block) \<Rightarrow> (nat \<Rightarrow> block) \<Rightarrow> bool" where
  "recovers ds p d F \<longleftrightarrow> (\<forall>r. booted ds p d r \<longrightarrow>
     (\<exists>r'. recover_from_log r = Some r' \<and> (\<forall>m. outside_log p m \<longrightarrow> memdisk (fsys r') m = F m)))"

lemma recovers_to:
  assumes h: "head_is (d p) bs" and f: "tx_fits ds p bs" and lg: "\<And>i. i < length bs \<Longrightarrow> d (p + 1 + i) = F (bs ! i)"
    and out: "\<And>m. outside_log p m \<Longrightarrow> m \<notin> set bs \<Longrightarrow> d m = F m"
  shows "recovers ds p d F"
  unfolding recovers_def
proof (intro allI impI)
  fix r assume r: "booted ds p d r"
  obtain r' y where r': "recover_from_log r = Some r'" "memdisk (fsys r') = replay (home_writes p bs d (length bs) @ [(p, y)]) d"
    by (rule recover_ok [OF r h f])
  have "memdisk (fsys r') m = F m" if m: "outside_log p m" for m
  proof -
    have "m \<noteq> p" using m by (auto simp: outside_log_def)
    then have "memdisk (fsys r') m = replay (map (\<lambda>b. (b, F b)) bs) d m"
      using r'(2) home_writes_eq [of bs d p F] lg by simp
    also have "\<dots> = (if m \<in> set bs then F m else d m)" by (rule replay_map)
    finally show ?thesis using out m by simp
  qed
  then show "\<exists>r'. recover_from_log r = Some r' \<and> (\<forall>m. outside_log p m \<longrightarrow> memdisk (fsys r') m = F m)" using r'(1) by blast
qed

lemma take_log_writes: "i \<le> j \<Longrightarrow> take i (log_writes p bs C j) = log_writes p bs C i"
  by (simp add: log_writes_def take_map)

lemma head_nil_fits: "tx_fits ds p bs \<Longrightarrow> tx_fits ds p []"
  by (simp add: tx_fits_def)

lemma tx_outside:
  assumes "tx_fits ds p bs" "b \<in> set bs"
  shows "b \<noteq> p" "i < length bs \<Longrightarrow> b \<noteq> p + 1 + i"
  using assms unfolding tx_fits_def by fastforce+

lemma replay_home:
  assumes f: "tx_fits ds p bs" and i: "i < j" "j \<le> length bs"
  shows "replay (home_writes p bs C j) d (bs ! i) = C (p + 1 + i)"
  using i
proof (induction j)
  case (Suc j)
  have "distinct bs" using f by (simp add: tx_fits_def)
  then show ?case using Suc by (cases "i = j") (auto simp: nth_eq_iff_index_eq)
qed simp

text \<open>Before the header is written, the old contents come back.\<close>

lemma crash_before:
  assumes h: "head_is (M p) []" and f: "tx_fits ds p bs" and k: "k \<le> length bs"
  shows "recovers ds p (replay (log_writes p bs C k) M) M"
proof (rule recovers_to [OF _ head_nil_fits [OF f]])
  have p: "replay (log_writes p bs C k) M p = M p" by (rule replay_other) (unfold writes_targets(1), simp)
  show "head_is (replay (log_writes p bs C k) M p) []" using h p by simp
  show "replay (log_writes p bs C k) M m = M m" if "outside_log p m" for m
    by (rule replay_other, unfold writes_targets(1)) (use that k f in \<open>auto simp: outside_log_def tx_fits_def\<close>)
qed simp

text \<open>After it is written, the new ones, also when some blocks are at home already.\<close>

lemma crash_after:
  assumes x: "head_is x bs" and f: "tx_fits ds p bs" and C: "\<And>m. m \<notin> set bs \<Longrightarrow> C m = M m"
  shows "recovers ds p (replay (take j (map (\<lambda>b. (b, C b)) bs)) ((replay (log_writes p bs C (length bs)) M)(p := x))) C"
    (is "recovers ds p ?d C")
proof (rule recovers_to [OF _ f])
  let ?hw = "map (\<lambda>b. (b, C b)) bs" and ?M = "replay (log_writes p bs C (length bs)) M"
  have home: "replay (take j ?hw) d m = (if m \<in> set (take j bs) then C m else d m)" for d m
    by (simp add: take_map replay_map)
  have out: "b \<notin> set (take j bs)" if "b \<notin> set bs" for b using that by (meson in_set_takeD)
  have "?d p = x" using tx_outside(1) [OF f] out by (auto simp: home)
  then show "head_is (?d p) bs" using x by simp
  show "?d (p + 1 + i) = C (bs ! i)" if "i < length bs" for i
    using tx_outside(2) [OF f, of "p + 1 + i" i] that out [of "p + 1 + i"] replay_log [of i "length bs" bs p] by (auto simp: home)
  show "?d m = C m" if m: "outside_log p m" "m \<notin> set bs" for m
  proof -
    have "?M m = M m"
      by (rule replay_other, unfold writes_targets(1)) (use m f in \<open>auto simp: outside_log_def tx_fits_def\<close>)
    then show ?thesis using m out C by (auto simp: home outside_log_def)
  qed
qed

lemma crash_end:
  assumes y: "head_is y []" and f: "tx_fits ds p bs" and C: "\<And>m. m \<notin> set bs \<Longrightarrow> C m = M m"
  shows "recovers ds p (replay (commit_writes p bs C x y) M) C"
proof (rule recovers_to [OF _ head_nil_fits [OF f]])
  let ?hw = "map (\<lambda>b. (b, C b)) bs" and ?M = "replay (log_writes p bs C (length bs)) M"
  have d: "replay (commit_writes p bs C x y) M = (replay ?hw (?M(p := x)))(p := y)"
    unfolding commit_writes_def replay_append by (simp add: replay_def)
  show "head_is (replay (commit_writes p bs C x y) M p) []" using y by (simp add: d)
  show "replay (commit_writes p bs C x y) M m = C m" if m: "outside_log p m" for m
  proof -
    have "?M m = M m"
      by (rule replay_other, unfold writes_targets(1)) (use m f in \<open>auto simp: outside_log_def tx_fits_def\<close>)
    moreover have "replay ?hw e m = (if m \<in> set bs then C m else e m)" for e
      by (rule replay_map)
    ultimately show ?thesis using m C by (auto simp: d outside_log_def)
  qed
qed simp

lemma commit_prefix:
  assumes x: "head_is x bs" and y: "head_is y []" and M: "head_is (M p) []" and f: "tx_fits ds p bs" and C: "\<And>m. m \<notin> set bs \<Longrightarrow> C m = M m"
  shows "recovers ds p (replay (take k (commit_writes p bs C x y)) M) (if k \<le> length bs then M else C)"
proof (cases "k \<le> length bs")
  case True
  then have "take k (commit_writes p bs C x y) = log_writes p bs C k" by (simp add: commit_writes_def take_log_writes)
  then show ?thesis using crash_before [where M = M, OF M f True] True by simp
next
  case k: False
  let ?hw = "map (\<lambda>b. (b, C b)) bs" and ?j = "k - length bs - 1"
  show ?thesis
  proof (cases "?j \<le> length bs")
    case True
    have "take k (commit_writes p bs C x y) = (log_writes p bs C (length bs) @ [(p, x)]) @ take ?j ?hw"
      using True k by (cases "k - length bs") (auto simp: commit_writes_def)
    then have "replay (take k (commit_writes p bs C x y)) M = replay (take ?j ?hw) ((replay (log_writes p bs C (length bs)) M)(p := x))"
      by (simp add: replay_append del: append_assoc)
    then show ?thesis using crash_after [OF x f C] k by simp
  next
    case False
    then have "take k (commit_writes p bs C x y) = commit_writes p bs C x y" by (simp add: commit_writes_def)
    then show ?thesis using crash_end [OF y f C] k by simp
  qed
qed

text \<open>Recovery that stops among its writes can be repeated.\<close>

lemma recovery_prefix:
  assumes h: "head_is (d p) bs" and y: "head_is y []" and f: "tx_fits ds p bs"
    and F: "\<And>i. i < length bs \<Longrightarrow> d (p + 1 + i) = F (bs ! i)" "\<And>m. m \<notin> set bs \<Longrightarrow> F m = d m"
  shows "recovers ds p (replay (take k (map (\<lambda>b. (b, F b)) bs @ [(p, y)])) d) F"
proof (cases "k \<le> length bs")
  case True
  then have eq: "replay (take k (map (\<lambda>b. (b, F b)) bs @ [(p, y)])) d m = (if m \<in> set (take k bs) then F m else d m)" for m
    by (simp add: take_map replay_map)
  have out: "b \<notin> set (take k bs)" if "b \<notin> set bs" for b using that by (meson in_set_takeD)
  show ?thesis
    by (rule recovers_to [OF _ f]; unfold eq)
      (use h F out tx_outside(1) [OF f, of p] tx_outside(2) [OF f, of "p + 1 + i" i for i] in \<open>auto split: if_splits\<close>)
next
  case False
  then have eq: "replay (take k (map (\<lambda>b. (b, F b)) bs @ [(p, y)])) d = (replay (map (\<lambda>b. (b, F b)) bs) d)(p := y)" by simp
  show ?thesis unfolding eq
    by (rule recovers_to [OF _ head_nil_fits [OF f]]) (use y F(2) in \<open>auto simp: replay_map outside_log_def\<close>)
qed

section \<open>Properties\<close>

text \<open>\<open>commit\<close> with every point at which the machine may stop among its writes.\<close>

lemma commit_crash:
  assumes "host s" "bio_ok (fsys s) {} (set bs) C" "log_wf (disksize (fsys s)) p (log (fsys s)) bs" "head_is (memdisk (fsys s) p) []"
  shows "\<exists>s' ws. commit s = Some s' \<and> host s' \<and> writes (fsys s') = writes (fsys s) @ ws \<and> (bs \<noteq> [] \<longrightarrow> length bs < length ws) \<and>
    (\<forall>k. recovers (disksize (fsys s)) p (replay (take k ws) (memdisk (fsys s))) (if k \<le> length bs then memdisk (fsys s) else C))"
proof (cases "bs = []")
  case True
  have "commit s = Some s" using log_wfD(3) [OF assms(3)] True by (simp add: commit_def)
  moreover have "C = memdisk (fsys s)" using assms(2) True by (auto simp: bio_ok_def)
  moreover have "recovers (disksize (fsys s)) p (memdisk (fsys s)) (memdisk (fsys s))"
    by (rule recovers_to [where d = "memdisk (fsys s)", OF assms(4) head_nil_fits [OF log_wf_fits [OF assms(3)]]]) auto
  ultimately show ?thesis using True assms(1) by (intro exI [of _ s] exI [of _ "[]"]) simp
next
  case False
  have "card (set bs) < NBUF" using log_wfD(5) [OF assms(3)] card_length [of bs] by linarith
  then have st: "logst (fsys s) (log (fsys s)) s (set bs) C []" using assms(1,2) by (simp add: logst_def)
  obtain s' x y where s': "commit s = Some s'" "head_is x bs" "head_is y []"
    "logst (fsys s) ((log (fsys s))\<lparr>lg_lh := (lg_lh (log (fsys s)))\<lparr>lh_n := 0\<rparr>\<rparr>) s' {} (replay (commit_writes p bs C x y) C) (commit_writes p bs C x y)"
    by (rule commit_ok [OF st assms(3) False])
  have C: "C m = memdisk (fsys s) m" if "m \<notin> set bs" for m using bio_okD(9) [OF assms(2)] that .
  have "recovers (disksize (fsys s)) p (replay (take k (commit_writes p bs C x y)) (memdisk (fsys s)))
     (if k \<le> length bs then memdisk (fsys s) else C)" for k
    by (rule commit_prefix [where M = "memdisk (fsys s)", OF s'(2,3) assms(4) log_wf_fits [OF assms(3)] C])
  moreover have "length bs < length (commit_writes p bs C x y)" by (simp add: commit_writes_def)
  ultimately show ?thesis using s'(1) logstD(1,7) [OF s'(4)] by blast
qed

text \<open>
  Property C2.  A commit is atomic.  Take a state in which no buffer is held, the blocks \<open>bs\<close> of
  the transaction are dirty in the cache, the log fits and the header on the disk is empty.  Then
  \<open>commit\<close> returns, and wherever the machine stops among its writes \<open>ws\<close>: any kernel that boots from the
  disk as it is then finishes \<open>recover_from_log\<close>, and the blocks outside of the log are what they were
  before the commit (when the header was not yet written), or what the transaction made them, all of them.
\<close>

theorem commit_crash_atomic:
  assumes "host s" "bio_ok (fsys s) {} (set bs) C" "log_wf (disksize (fsys s)) p (log (fsys s)) bs" "head_is (memdisk (fsys s) p) []"
  shows "\<exists>s' ws. commit s = Some s' \<and> writes (fsys s') = writes (fsys s) @ ws \<and>
    (\<forall>k. recovers (disksize (fsys s)) p (replay (take k ws) (memdisk (fsys s))) (if k \<le> length bs then memdisk (fsys s) else C))"
  using commit_crash [OF assms] by blast

text \<open>A disk of 100 blocks with the log in blocks 2 to 31; block 50 has been changed in the cache.\<close>

definition blk50 :: block where
  "blk50 = replicate BSIZE 7"

definition fs50 :: fsys where
  "fs50 = fsys0\<lparr>disksize := 100,
     bcache := \<lparr>bc_buf = buf0\<lparr>b_flags := B_VALID OR B_DIRTY, b_dev := 1, b_blockno := 50, b_data := blk50\<rparr> # replicate 29 buf0,
       bc_list = [0..<NBUF]\<rparr>,
     log := log0\<lparr>lg_start := 2, lg_size := 30, lg_dev := 1, lg_lh := \<lparr>lh_n = 1, lh_block = 50 # replicate 29 0\<rparr>\<rparr>\<rparr>"

definition kernel50 :: kernel where
  "kernel50 = (demo RUNNING None (Some 0))\<lparr>fsys := fs50\<rparr>"

lemma host_demo: "host ((demo RUNNING None (Some 0))\<lparr>fsys := fs\<rparr>)"
proof -
  let ?s = "(demo RUNNING None (Some 0))\<lparr>fsys := fs\<rparr>"
  have "sched_ok ?s" using demo_sched_ok by (simp add: sched_ok_def)
  moreover have "c_proc (here_cpu (mach ?s)) = Some 0" by (simp add: demo_def here_def machine0_def)
  moreover have "lock_free lk (mach ?s)" for lk by (simp add: demo_def lock_free_def machine0_def)
  ultimately show ?thesis by (auto simp: host_def)
qed

lemma fs50_buf: "b < NBUF \<Longrightarrow> bc_buf (bcache fs50) ! b =
    (if b = 0 then buf0\<lparr>b_flags := B_VALID OR B_DIRTY, b_dev := 1, b_blockno := 50, b_data := blk50\<rparr> else buf0)"
  by (simp add: fs50_def nth_Cons')

lemma fs50_buf_of: "buf_of fs50 n b \<longleftrightarrow> b = 0 \<and> n = 50"
  by (auto simp: buf_of_def fs50_buf buf0_def split: if_splits)

lemma fs50_ok: "bio_ok fs50 {} {50} ((\<lambda>_. replicate BSIZE 0)(50 := blk50))"
proof -
  have "\<forall>b<NBUF. buf_ok {} {50} ((\<lambda>_. replicate BSIZE 0)(50 := blk50)) (disksize fs50) b (bc_buf (bcache fs50) ! b)"
    by (auto simp: fs50_buf buf_ok_def) (auto simp: fs50_def buf0_def sleeplock0_def)
  moreover have "length (bc_buf (bcache fs50)) = NBUF" "bc_list (bcache fs50) = [0..<NBUF]" "disksize fs50 = 100" "memdisk fs50 = (\<lambda>_. replicate BSIZE 0)"
    by (simp_all add: fs50_def fsys0_def)
  ultimately show ?thesis by (auto simp: bio_ok_def fs50_buf_of blk50_def)
qed

lemma fs50_log: "log_wf 100 2 (log fs50) [50]"
  by (simp add: log_wf_def fs50_def log0_def)

lemma zero_head: "head_is (replicate BSIZE 0) []"
  by (simp add: head_is_def get_u32_def)

theorem commit_crash_atomic_witness:
  "\<exists>s' ws. commit kernel50 = Some s' \<and> writes (fsys s') = ws \<and>
    (\<forall>k. recovers 100 2 (replay (take k ws) (\<lambda>_. replicate BSIZE 0))
       (if k \<le> 1 then (\<lambda>_. replicate BSIZE 0) else (\<lambda>_. replicate BSIZE 0)(50 := blk50)))"
proof -
  have f: "fsys kernel50 = fs50" "disksize fs50 = 100" "memdisk fs50 = (\<lambda>_. replicate BSIZE 0)" "writes fs50 = []"
    by (simp_all add: kernel50_def fs50_def fsys0_def)
  show ?thesis
    using commit_crash_atomic [of kernel50 "[50]" "(\<lambda>_. replicate BSIZE 0)(50 := blk50)" 2]
      host_demo [of fs50] fs50_ok fs50_log zero_head by (simp add: f cong: if_cong flip: kernel50_def)
qed

text \<open>
  Property C17.  Recovery can be interrupted.  If it stops among its own writes \<open>ws\<close>, then
  recovery from the disk as it is then ends with the same blocks outside of the log.
\<close>

theorem recovery_restartable:
  assumes r: "booted ds p d r" and h: "head_is (d p) bs" and f: "tx_fits ds p bs"
  shows "\<exists>r' ws. recover_from_log r = Some r' \<and> writes (fsys r') = writes (fsys r) @ ws \<and>
    (\<forall>k. recovers ds p (replay (take k ws) d) (memdisk (fsys r')))"
proof -
  obtain r' y where r': "recover_from_log r = Some r'" "head_is y []"
    "writes (fsys r') = writes (fsys r) @ home_writes p bs d (length bs) @ [(p, y)]"
    "memdisk (fsys r') = replay (home_writes p bs d (length bs) @ [(p, y)]) d"
    by (rule recover_ok [OF r h f])
  define F where "F = replay (home_writes p bs d (length bs)) d"
  have F: "F (bs ! i) = d (p + 1 + i)" if "i < length bs" for i
    unfolding F_def by (rule replay_home [OF f that order_refl])
  have Fm: "F m = d m" if "m \<notin> set bs" for m
    unfolding F_def using that by (intro replay_other) (simp add: writes_targets(2))
  have hw: "home_writes p bs d (length bs) = map (\<lambda>b. (b, F b)) bs" by (rule home_writes_eq) (simp add: F)
  have fin: "memdisk (fsys r') m = F m" if "outside_log p m" for m
    using that r'(4) by (auto simp: F_def outside_log_def)
  have "recovers ds p (replay (take k (map (\<lambda>b. (b, F b)) bs @ [(p, y)])) d) F" for k
    by (rule recovery_prefix [where d = d, OF h r'(2) f F [symmetric] Fm])
  then have "recovers ds p (replay (take k (home_writes p bs d (length bs) @ [(p, y)])) d) (memdisk (fsys r'))" for k
    unfolding hw using fin by (auto simp: recovers_def)
  then show ?thesis using r'(1,3) by blast
qed

text \<open>The same disk after a crash in the middle of a commit of block 50: the header is written, the block is not at home.\<close>

definition disk50 :: "nat \<Rightarrow> block" where
  "disk50 = (\<lambda>_. replicate BSIZE 0)(2 := put_u32 (put_u32 (replicate BSIZE 0) 0 1) 4 50, 3 := blk50)"

definition boot50 :: kernel where
  "boot50 = (demo RUNNING None (Some 0))\<lparr>fsys := fsys0\<lparr>disksize := 100, memdisk := disk50,
     bcache := \<lparr>bc_buf = replicate NBUF buf0, bc_list = [0..<NBUF]\<rparr>,
     log := log0\<lparr>lg_start := 2, lg_size := 30, lg_dev := 1\<rparr>\<rparr>\<rparr>"

lemma disk50_head: "head_is (disk50 2) [50]"
proof -
  let ?d = "put_u32 (replicate BSIZE 0) 0 1"
  have "get_u32 (put_u32 ?d 4 50) 0 = 1" "get_u32 (put_u32 ?d 4 50) 4 = 50"
    by (simp_all add: get_put_u32_other get_put_u32)
  then show ?thesis by (simp add: head_is_def disk50_def)
qed

lemma boot50_booted: "booted 100 2 disk50 boot50"
proof -
  have "host boot50" unfolding boot50_def by (rule host_demo)
  moreover have "bio_ok (fsys boot50) {} {} disk50"
  proof -
    have "\<not> buf_of (fsys boot50) n b" for n b by (auto simp: buf_of_def boot50_def buf0_def)
    moreover have "length (disk50 n) = BSIZE" for n by (simp add: disk50_def blk50_def)
    moreover have "\<forall>b<NBUF. buf_ok {} {} disk50 100 b (bufs boot50 ! b)"
      by (simp add: boot50_def buf_ok_def buf0_def sleeplock0_def)
    ultimately show ?thesis by (auto simp: bio_ok_def boot50_def)
  qed
  ultimately show ?thesis by (simp add: booted_def) (simp add: boot50_def log0_def)
qed

theorem recovery_restartable_witness:
  "\<exists>r' ws. recover_from_log boot50 = Some r' \<and> writes (fsys r') = writes (fsys boot50) @ ws \<and>
    (\<forall>k. recovers 100 2 (replay (take k ws) disk50) (memdisk (fsys r')))"
  by (rule recovery_restartable [OF boot50_booted disk50_head]) (simp add: tx_fits_def)

end
