(* ===== verification/LogWrite.thy ===== *)
theory LogWrite
  imports LogCrash
begin

text \<open>
  \<open>log_write\<close> on the invariant of the cache: the block becomes dirty, its new contents are what
  readers see, and it belongs to the transaction, once.
\<close>

lemma first_ix_index:
  assumes "\<And>b. b \<in> set bs \<Longrightarrow> b < 2 ^ 32" "n < 2 ^ 32"
  shows "first_ix (\<lambda>b. (of_int b :: uint) = of_nat n) (map int bs) = (if n \<in> set bs then first_ix (\<lambda>b. b = n) bs else None)"
  using assms
proof (induction bs)
  case (Cons b bs)
  have "(of_nat b :: uint) = of_nat n \<longleftrightarrow> b = n"
    using block_key [of n "of_nat b"] Cons.prems by (simp add: unat_of_nat)
  moreover have "first_ix (\<lambda>b. b = n) bs \<noteq> None \<longleftrightarrow> n \<in> set bs" by (auto simp: first_ix_eq_None)
  ultimately show ?case using Cons.IH Cons.prems by auto
qed simp

definition add_block :: "nat \<Rightarrow> nat list \<Rightarrow> nat list" where
  "add_block n bs = (if n \<in> set bs then bs else bs @ [n])"

lemma set_add_block [simp]: "set (add_block n bs) = insert n (set bs)"
  by (auto simp: add_block_def)

text \<open>The header in memory after \<open>log_write\<close> of block \<open>n\<close>.\<close>

lemma log_slot_ok:
  assumes L: "log_wf ds p L bs" and n: "n < ds" "outside_log p n" "length bs + 1 < LOGSIZE"
  defines "i \<equiv> log_slot (of_nat n) (lg_lh L)"
  shows "i < LOGSIZE" "i = length bs \<longleftrightarrow> n \<notin> set bs"
    "log_wf ds p (L\<lparr>lg_lh := (lg_lh L)\<lparr>lh_block := (lh_block (lg_lh L))[i := int n],
       lh_n := (if i = length bs then lh_n (lg_lh L) + 1 else lh_n (lg_lh L))\<rparr>\<rparr>) (add_block n bs)"
proof -
  note l = log_wfD [OF L]
  have tk: "take (length bs) (lh_block (lg_lh L)) = map int bs" using L by (simp add: log_wf_def)
  have b32: "b < 2 ^ 32" if "b \<in> set bs" for b using less_trans [OF l(10) l(9)] that by fastforce
  have n32: "n < 2 ^ 32" using n(1) l(9) by simp
  have fi: "first_ix (\<lambda>b. (of_int b :: uint) = of_nat n) (take (nat (lh_n (lg_lh L))) (lh_block (lg_lh L))) =
      (if n \<in> set bs then first_ix (\<lambda>b. b = n) bs else None)"
    unfolding l(3) using first_ix_index [OF b32 n32] tk by simp
  have c: "(n \<in> set bs \<and> i < length bs \<and> bs ! i = n) \<or> (n \<notin> set bs \<and> i = length bs)"
  proof -
    consider (old) j where "n \<in> set bs" "first_ix (\<lambda>b. b = n) bs = Some j" | (new) "n \<notin> set bs"
      by (cases "first_ix (\<lambda>b. b = n) bs") (auto simp: first_ix_eq_None)
    then show ?thesis
    proof cases
      case old
      then have "i = j" using fi by (simp add: i_def log_slot_def)
      then show ?thesis using old first_ix_SomeD [OF old(2)] by simp
    next
      case new
      then show ?thesis using fi l(3) by (simp add: i_def log_slot_def)
    qed
  qed
  show 1: "i < LOGSIZE" "i = length bs \<longleftrightarrow> n \<notin> set bs" using c n(3) by auto
  show "log_wf ds p (L\<lparr>lg_lh := (lg_lh L)\<lparr>lh_block := (lh_block (lg_lh L))[i := int n],
       lh_n := (if i = length bs then lh_n (lg_lh L) + 1 else lh_n (lg_lh L))\<rparr>\<rparr>) (add_block n bs)"
  proof (cases "n \<in> set bs")
    case True
    then have "i < length bs" "bs ! i = n" using c by auto
    then have "(lh_block (lg_lh L))[i := int n] = lh_block (lg_lh L)" using l(6) [of i] by (metis list_update_id)
    then show ?thesis using L True 1(2) by (simp add: add_block_def log_wf_def)
  next
    case False
    then have i: "i = length bs" using 1(2) by simp
    have "take (Suc (length bs)) ((lh_block (lg_lh L))[length bs := int n]) = map int bs @ [int n]"
      using tk l(4,5) by (simp add: take_Suc_conv_app_nth)
    then show ?thesis using L False i n by (simp add: add_block_def log_wf_def outside_log_def)
  qed
qed

text \<open>Room in the log for \<open>k\<close> more blocks, inside of a transaction.\<close>

definition log_room :: "nat \<Rightarrow> kernel \<Rightarrow> nat list \<Rightarrow> nat \<Rightarrow> bool" where
  "log_room p s bs k \<longleftrightarrow> log_wf (disksize (fsys s)) p (log (fsys s)) bs \<and> lg_size (log (fsys s)) = int LOGSIZE \<and>
     lg_outstanding (log (fsys s)) \<ge> 1 \<and> length bs + k < LOGSIZE"

lemma bio_ok_dirty:
  assumes ok: "bio_ok fs H D C" and b: "b \<in> H" "buf_of fs n b" and e: "length e = BSIZE"
    and fs': "bcache fs' = bcache (set_buf b ((bc_buf (bcache fs) ! b)\<lparr>b_data := e, b_flags := B_VALID OR B_DIRTY\<rparr>) fs)"
      "disksize fs' = disksize fs" "memdisk fs' = memdisk fs"
  shows "bio_ok fs' H (insert n D) (C(n := e))" "\<And>m a. buf_of fs' m a = buf_of fs m a"
proof -
  note d = bio_okD [OF ok]
  let ?x = "bc_buf (bcache fs) ! b"
  let ?y = "?x\<lparr>b_data := e, b_flags := B_VALID OR B_DIRTY\<rparr>"
  have lt: "b < NBUF" and bx: "b_dev ?x = 1" "unat (b_blockno ?x) = n" using b(2) by (simp_all add: buf_of_def)
  have y: "b_dev ?y = 1" "n = unat (b_blockno ?y)" "buf_ok H (insert n D) (C(n := e)) (disksize fs) b ?y"
    using d(6) [OF lt] bx by (auto simp: buf_ok_def)
  have only: "b' = b" if "buf_of fs n b'" for b' using d(7) that b(2) by blast
  have old: "m \<notin> D" if "buf_of fs m b" "m \<noteq> n" for m using that b(2) by (simp add: buf_of_def)
  have D: "insert n D - {n} = D - {n}" and C: "\<And>m. m \<noteq> n \<Longrightarrow> (C(n := e)) m = C m" by auto
  note r = bio_ok_replace [where fs' = fs', OF ok lt y refl D C only old]
  have r1: "bio_ok fs' H (insert n D) (C(n := e))" "buf_of fs' n b"
    by (rule r; use d(2,3,11) e in \<open>simp add: fs'\<close>)+
  have r2: "buf_of fs' m a = buf_of fs m a" if "a \<noteq> b" for m a
    by (rule r(3)) (use d(2,3,11) e that in \<open>simp_all add: fs'\<close>)
  show "bio_ok fs' H (insert n D) (C(n := e))" by (rule r1(1))
  show "buf_of fs' m a = buf_of fs m a" for m a
    by (cases "a = b") (use r2 r1(2) b(2) in \<open>auto simp: buf_of_def\<close>)
qed

lemma log_write_ok:
  assumes h: "host s" and ok: "bio_ok (fsys s) H (set bs) C" and b: "b \<in> H" "buf_of (fsys s) n b" and e: "length e = BSIZE"
    and L: "log_room p s bs (Suc k)" and n: "outside_log p n"
  obtains s' where "log_write b (set_bdata b e s) = Some s'" "host s'" "bio_ok (fsys s') H (set (add_block n bs)) (C(n := e))"
    "log_room p s' (add_block n bs) k" "fsys s' = (fsys s)\<lparr>bcache := bcache (fsys s'), log := (log (fsys s))\<lparr>lg_lh := lg_lh (log (fsys s'))\<rparr>\<rparr>"
    "\<And>a m. buf_of (fsys s') m a = buf_of (fsys s) m a"
proof -
  note d = bio_okD [OF ok]
  let ?x = "bufs s ! b" and ?L = "log (fsys s)" and ?s = "set_bdata b e s"
  have lt: "b < NBUF" and bx: "b_dev ?x = 1" "unat (b_blockno ?x) = n" using b(2) by (simp_all add: buf_of_def)
  have x: "buf_ok H (set bs) C (disksize (fsys s)) b ?x" using d(6) lt by simp
  have nd: "n < disksize (fsys s)" using x bx by (simp add: buf_ok_def)
  have wf: "log_wf (disksize (fsys s)) p ?L bs" and len: "length bs + 1 < LOGSIZE" using L by (auto simp: log_room_def)
  note l = log_wfD [OF wf]
  have key: "b_blockno ?x = of_nat n" "sint (b_blockno ?x) = int n"
    using bx(2) nd l(9) sint_small [of "b_blockno ?x"] by auto
  define i where "i = log_slot (of_nat n) (lg_lh ?L)"
  note sl = log_slot_ok [OF wf nd n len, folded i_def]
  let ?L' = "?L\<lparr>lg_lh := (lg_lh ?L)\<lparr>lh_block := (lh_block (lg_lh ?L))[i := int n],
       lh_n := (if i = length bs then lh_n (lg_lh ?L) + 1 else lh_n (lg_lh ?L))\<rparr>\<rparr>"
  let ?y = "?x\<lparr>b_data := e, b_flags := B_VALID OR B_DIRTY\<rparr>"
  let ?s' = "(upd_log (\<lambda>_. ?L') (upd_buf b (\<lambda>_. ?y) s))\<lparr>mach := settle (mach s)\<rparr>"
  have fl: "b_flags ?x OR B_DIRTY = B_VALID OR B_DIRTY" using x bx by (simp add: buf_ok_def)
  have hs: "host ?s'" by (rule host_frame [OF h]) (simp_all add: upd_log_def)
  have fs': "bcache (fsys ?s') = bcache (set_buf b ?y (fsys s))" "disksize (fsys ?s') = disksize (fsys s)"
    "memdisk (fsys ?s') = memdisk (fsys s)" "log (fsys ?s') = ?L'"
    by (simp_all add: upd_log_def fsys_upd_buf set_buf_def)
  note bd = bio_ok_dirty [OF ok b e fs'(1-3)]
  have "log_write b ?s = Some ?s'"
    using L hostD [OF h] lt d(1) l(3,4) sl(1) key fl
    by (auto simp: log_write_def log_room_def set_bdata_def fsys_upd_buf set_buf_def i_def [symmetric] Let_def
        set_lh_block_def set_lh_n_def upd_log_def upd_buf_def upd_fs_def)
  moreover have "log_room p ?s' (add_block n bs) k"
    using L sl(3) fs'(2,4) by (auto simp: log_room_def add_block_def)
  ultimately show thesis
    using that [of ?s'] hs bd by (simp add: upd_log_def fsys_upd_buf set_buf_def)
qed

end
