(* ===== verification/FileContent.thy ===== *)
theory FileContent
  imports Fs LogWrite
begin

text \<open>
  The content of a file behind \<open>readi\<close> and \<open>writei\<close>.  \<open>baddr C i bn\<close> is the block that holds block
  \<open>bn\<close> of the file with inode \<open>i\<close>, directly or through the indirect block, and \<open>file_byte C i k\<close>
  its byte \<open>k\<close>, when \<open>C\<close> are the contents of the blocks.
\<close>

section \<open>Content\<close>

definition baddr :: "(nat \<Rightarrow> block) \<Rightarrow> inode \<Rightarrow> nat \<Rightarrow> nat" where
  "baddr C i bn = (if bn < NDIRECT then unat (i_addrs i ! bn)
     else unat (get_u32 (C (unat (i_addrs i ! NDIRECT))) (4 * (bn - NDIRECT))))"

definition file_byte :: "(nat \<Rightarrow> block) \<Rightarrow> inode \<Rightarrow> nat \<Rightarrow> byte" where
  "file_byte C i k = C (baddr C i (k div BSIZE)) ! (k mod BSIZE)"

definition file_slice :: "(nat \<Rightarrow> block) \<Rightarrow> inode \<Rightarrow> nat \<Rightarrow> nat \<Rightarrow> byte list" where
  "file_slice C i off n = map (file_byte C i) [off..<off + n]"

text \<open>
  The first \<open>nb\<close> blocks of the file are allocated: on the disk, outside of the log, different from
  each other and from the indirect block.
\<close>

definition file_ok :: "nat \<Rightarrow> nat \<Rightarrow> (nat \<Rightarrow> block) \<Rightarrow> inode \<Rightarrow> nat \<Rightarrow> bool" where
  "file_ok ds p C i nb \<longleftrightarrow> length (i_addrs i) = NDIRECT + 1 \<and> i_dev i = 1 \<and> i_type i \<noteq> T_DEV \<and> nb \<le> MAXFILE \<and>
     unat (i_size i) \<le> nb * BSIZE \<and>
     (\<forall>bn<nb. 0 < baddr C i bn \<and> baddr C i bn < ds \<and> outside_log p (baddr C i bn)) \<and> inj_on (baddr C i) {..<nb} \<and>
     (NDIRECT < nb \<longrightarrow> 0 < unat (i_addrs i ! NDIRECT) \<and> unat (i_addrs i ! NDIRECT) < ds \<and>
        unat (i_addrs i ! NDIRECT) \<notin> baddr C i ` {..<nb})"

lemma file_okD:
  assumes "file_ok ds p C i nb"
  shows "length (i_addrs i) = NDIRECT + 1" "i_dev i = 1" "i_type i \<noteq> T_DEV" "nb \<le> MAXFILE" "unat (i_size i) \<le> nb * BSIZE"
    "\<And>bn. bn < nb \<Longrightarrow> 0 < baddr C i bn" "\<And>bn. bn < nb \<Longrightarrow> baddr C i bn < ds" "\<And>bn. bn < nb \<Longrightarrow> outside_log p (baddr C i bn)"
    "inj_on (baddr C i) {..<nb}"
    "NDIRECT < nb \<Longrightarrow> 0 < unat (i_addrs i ! NDIRECT) \<and> unat (i_addrs i ! NDIRECT) < ds \<and> unat (i_addrs i ! NDIRECT) \<notin> baddr C i ` {..<nb}"
  using assms by (auto simp: file_ok_def)

lemma same_block:
  fixes off j n :: nat
  assumes "off mod n + j < n"
  shows "(off + j) div n = off div n" "(off + j) mod n = off mod n + j"
proof -
  have eq: "off + j = (off mod n + j) + n * (off div n)" by simp
  have "n \<noteq> 0" using assms by auto
  then show "(off + j) div n = off div n"
    unfolding eq div_mult_self2 [OF \<open>n \<noteq> 0\<close>] using assms by simp
  show "(off + j) mod n = off mod n + j" unfolding eq mod_mult_self2 using assms by simp
qed

lemma slice_block:
  assumes "length (C (baddr C i (off div BSIZE))) = BSIZE" "m \<le> BSIZE - off mod BSIZE"
  shows "take m (drop (off mod BSIZE) (C (baddr C i (off div BSIZE)))) = file_slice C i off m"
proof (rule nth_equalityI)
  show "length (take m (drop (off mod BSIZE) (C (baddr C i (off div BSIZE))))) = length (file_slice C i off m)"
    using assms by (simp add: file_slice_def)
  fix j assume "j < length (take m (drop (off mod BSIZE) (C (baddr C i (off div BSIZE)))))"
  then have j: "j < m" "off mod BSIZE + j < BSIZE" using assms by auto
  show "take m (drop (off mod BSIZE) (C (baddr C i (off div BSIZE)))) ! j = file_slice C i off m ! j"
    using j assms same_block [OF j(2)] by (simp add: file_slice_def file_byte_def)
qed

lemma slice_append: "file_slice C i off m @ file_slice C i (off + m) n = file_slice C i off (m + n)"
  using upt_add_eq_append [of off "off + m" n] by (simp add: file_slice_def add.assoc flip: map_append)

section \<open>Block addresses\<close>

text \<open>The state between two steps of an operation on the file with index \<open>ip\<close>.\<close>

definition file_st :: "nat \<Rightarrow> nat set \<Rightarrow> (nat \<Rightarrow> block) \<Rightarrow> nat \<Rightarrow> inode \<Rightarrow> nat \<Rightarrow> kernel \<Rightarrow> bool" where
  "file_st p D C ip i nb s \<longleftrightarrow> host s \<and> bio_ok (fsys s) {} D C \<and> finite D \<and> card D + 1 < NBUF \<and>
     nth_opt (inodes s) ip = Some i \<and> file_ok (disksize (fsys s)) p C i nb"

lemma file_stD:
  assumes "file_st p D C ip i nb s"
  shows "host s" "bio_ok (fsys s) {} D C" "finite D" "card D + 1 < NBUF" "nth_opt (inodes s) ip = Some i"
    "file_ok (disksize (fsys s)) p C i nb"
  using assms by (simp_all add: file_st_def)

lemma bmap_ok:
  assumes st: "file_st p D C ip i nb s" and bn: "bn < nb"
  obtains s' where "bmap ip bn s = Some (of_nat (baddr C i bn), s')" "file_st p D C ip i nb s'"
    "fsys s' = (fsys s)\<lparr>bcache := bcache (fsys s')\<rparr>"
proof (cases "bn < NDIRECT")
  case True
  note d = file_stD [OF st] and f = file_okD [OF file_stD(6) [OF st]]
  have "i_addrs i ! bn \<noteq> 0" using f(6) [OF bn] True by (auto simp: baddr_def)
  then have "bmap ip bn s = Some (of_nat (baddr C i bn), s)" using d(5) f(1) True by (simp add: bmap_def baddr_def)
  then show thesis using st that by simp
next
  case False
  note d = file_stD [OF st] and f = file_okD [OF file_stD(6) [OF st]]
  let ?a = "i_addrs i ! NDIRECT"
  have a: "?a \<noteq> 0" "unat ?a < disksize (fsys s)" using f(10) False bn by auto
  obtain b t where b: "bread 1 (of_nat (unat ?a)) s = Some (b, t)" "host t" "bio_ok (fsys t) (insert b {}) D C"
    "buf_of (fsys t) (unat ?a) b" "fsys t = (fsys s)\<lparr>bcache := bcache (fsys t)\<rparr>"
    by (rule bread_ok [OF d(1,2) a(2) _ d(3)]) (use d(4) in auto)
  have dat: "bdata b t = Some (C (unat ?a))" by (rule bdata_ok [OF b(3,4)])
  obtain s' where s': "brelse b t = Some s'" "host s'" "bio_ok (fsys s') (insert b {} - {b}) D C"
    "fsys s' = (fsys t)\<lparr>bcache := bcache (fsys s')\<rparr>"
    by (rule brelse_ok [OF b(2,3)]) auto
  have fr: "fsys s' = (fsys s)\<lparr>bcache := bcache (fsys s')\<rparr>" using s'(4) b(5) by (metis fsys.update_convs(4) fsys.surjective)
  have ad: "baddr C i bn = unat (get_u32 (C (unat ?a)) (4 * (bn - NDIRECT)))" using False by (simp add: baddr_def)
  then have "get_u32 (C (unat ?a)) (4 * (bn - NDIRECT)) \<noteq> 0" using f(6) [OF bn] by auto
  then have "bmap ip bn s = Some (of_nat (baddr C i bn), s')"
    using d(5) f(1,2,4) False bn a(1) b(1) dat s'(1) ad by (simp add: bmap_def Let_def)
  moreover have "inodes s' = inodes s" by (subst fr) simp
  moreover have "disksize (fsys s') = disksize (fsys s)" by (rule bcache_frame(2) [OF fr])
  ultimately show thesis using that s'(2,3) d fr by (simp add: file_st_def)
qed

lemma read_block_ok:
  assumes st: "file_st p D C ip i nb s" and bn: "bn < nb"
  obtains s1 b t u where "bmap ip bn s = Some (of_nat (baddr C i bn), s1)" "bread 1 (of_nat (baddr C i bn)) s1 = Some (b, t)"
    "bdata b t = Some (C (baddr C i bn))" "brelse b t = Some u" "file_st p D C ip i nb u" "fsys u = (fsys s)\<lparr>bcache := bcache (fsys u)\<rparr>"
proof -
  obtain s1 where s1: "bmap ip bn s = Some (of_nat (baddr C i bn), s1)" "file_st p D C ip i nb s1"
    "fsys s1 = (fsys s)\<lparr>bcache := bcache (fsys s1)\<rparr>" by (rule bmap_ok [OF st bn])
  note d = file_stD [OF s1(2)] and f = file_okD [OF file_stD(6) [OF s1(2)]]
  obtain b t where b: "bread 1 (of_nat (baddr C i bn)) s1 = Some (b, t)" "host t" "bio_ok (fsys t) (insert b {}) D C"
    "buf_of (fsys t) (baddr C i bn) b" "fsys t = (fsys s1)\<lparr>bcache := bcache (fsys t)\<rparr>"
    by (rule bread_ok [OF d(1,2) f(7) [OF bn] _ d(3)]) (use d(4) in auto)
  obtain u where u: "brelse b t = Some u" "host u" "bio_ok (fsys u) (insert b {} - {b}) D C"
    "fsys u = (fsys t)\<lparr>bcache := bcache (fsys u)\<rparr>"
    by (rule brelse_ok [OF b(2,3)]) auto
  have fr: "fsys u = (fsys s1)\<lparr>bcache := bcache (fsys u)\<rparr>" using u(4) b(5) by (metis fsys.update_convs(4) fsys.surjective)
  have "inodes u = inodes s1" by (subst fr) simp
  then have "file_st p D C ip i nb u" using u(2,3) d bcache_frame(2) [OF fr] by (simp add: file_st_def)
  moreover have "fsys u = (fsys s)\<lparr>bcache := bcache (fsys u)\<rparr>" using fr s1(3) by (metis fsys.update_convs(4) fsys.surjective)
  ultimately show thesis using that [OF s1(1) b(1) bdata_ok [OF b(3,4)] u(1)] by blast
qed

section \<open>Reading\<close>

text \<open>How many bytes one round of the loops moves.\<close>

definition chunk :: "nat \<Rightarrow> nat \<Rightarrow> nat" where
  "chunk off n = min n (BSIZE - off mod BSIZE)"

lemma chunk_facts: "chunk off n \<le> n" "chunk off n \<le> BSIZE - off mod BSIZE" "0 < n \<Longrightarrow> 0 < chunk off n"
  by (auto simp: chunk_def)

lemma readi_loop_ok:
  assumes "file_st p D C ip i nb s" "t \<le> n" "off + (n - t) \<le> nb * BSIZE" "n < 2 ^ 32"
  shows "\<exists>s'. readi_loop ip (of_nat t) (of_nat n) (of_nat off) acc s = Some (acc @ file_slice C i off (n - t), s') \<and>
    file_st p D C ip i nb s' \<and> fsys s' = (fsys s)\<lparr>bcache := bcache (fsys s')\<rparr>"
  using assms
proof (induction "n - t" arbitrary: t off acc s rule: less_induct)
  case less
  note d = file_stD [OF less.prems(1)] and f = file_okD [OF file_stD(6) [OF less.prems(1)]]
  have small: "nb * BSIZE < 2 ^ 32" using f(4) by simp
  show ?case
  proof (cases "t = n")
    case True
    then show ?thesis using less.prems(1) by (subst readi_loop.simps) (simp add: file_slice_def)
  next
    case False
    define m where "m = chunk off (n - t)"
    have tn: "t < n" using False less.prems(2) by simp
    then have m: "0 < m" "m \<le> n - t" "m \<le> BSIZE - off mod BSIZE" using chunk_facts(1,2) [of off "n - t"] chunk_facts(3) [of "n - t" off] by (auto simp: m_def)
    have bn: "off div BSIZE < nb" using less.prems(3) tn by (simp add: less_mult_imp_div_less)
    have "off < 2 ^ 32" using less.prems(3) small tn by linarith
    then have w: "(of_nat t :: uint) < of_nat n" "unat (of_nat n - of_nat t :: uint) = n - t" "unat (of_nat off :: uint) = off"
      using tn less.prems(4) by (simp_all add: word_less_nat_alt unat_of_nat flip: of_nat_diff)
    obtain s1 b v u where r: "bmap ip (off div BSIZE) s = Some (of_nat (baddr C i (off div BSIZE)), s1)"
      "bread 1 (of_nat (baddr C i (off div BSIZE))) s1 = Some (b, v)" "bdata b v = Some (C (baddr C i (off div BSIZE)))"
      "brelse b v = Some u" "file_st p D C ip i nb u" "fsys u = (fsys s)\<lparr>bcache := bcache (fsys u)\<rparr>"
      by (rule read_block_ok [OF less.prems(1) bn])
    have sl: "take m (drop (off mod BSIZE) (C (baddr C i (off div BSIZE)))) = file_slice C i off m"
      by (rule slice_block [OF bio_okD(10) [OF d(2)] m(3)])
    have dec: "n - (t + m) < n - t" "t + m \<le> n" "off + m + (n - (t + m)) \<le> nb * BSIZE" using m tn less.prems(3) by auto
    obtain s' where s': "readi_loop ip (of_nat (t + m)) (of_nat n) (of_nat (off + m)) (acc @ file_slice C i off m) u =
        Some ((acc @ file_slice C i off m) @ file_slice C i (off + m) (n - (t + m)), s')"
      "file_st p D C ip i nb s'" "fsys s' = (fsys u)\<lparr>bcache := bcache (fsys s')\<rparr>"
      using less.hyps [OF dec(1) r(5) dec(2,3) less.prems(4)] by blast
    have "readi_loop ip (of_nat t) (of_nat n) (of_nat off) acc s =
        readi_loop ip (of_nat (t + m)) (of_nat n) (of_nat (off + m)) (acc @ file_slice C i off m) u"
      using w d(5) f(2) r(1-4) sl by (subst readi_loop.simps) (simp add: Let_def flip: chunk_def m_def)
    moreover have "file_slice C i off m @ file_slice C i (off + m) (n - (t + m)) = file_slice C i off (n - t)"
    proof -
      have "m + (n - (t + m)) = n - t" using m(2) tn by linarith
      then show ?thesis by (simp add: slice_append)
    qed
    moreover have "fsys s' = (fsys s)\<lparr>bcache := bcache (fsys s')\<rparr>" using s'(3) r(6) by (metis fsys.update_convs(4) fsys.surjective)
    ultimately show ?thesis using s' by simp
  qed
qed

text \<open>\<open>readi\<close> returns the bytes of the file from \<open>off\<close> on, as many as asked for or as there are.\<close>

lemma readi_ok:
  assumes st: "file_st p D C ip i nb s" and o: "off \<le> unat (i_size i)" "off + n < 2 ^ 32"
  defines "k \<equiv> min n (unat (i_size i) - off)"
  obtains s' where "readi ip (of_nat off) (of_nat n) s = Some (int k, file_slice C i off k, s')"
    "file_st p D C ip i nb s'" "fsys s' = (fsys s)\<lparr>bcache := bcache (fsys s')\<rparr>"
proof -
  note d = file_stD [OF st] and f = file_okD [OF file_stD(6) [OF st]]
  have k: "off + k \<le> nb * BSIZE" "k < 2 ^ 31" using f(4,5) o by (auto simp: k_def)
  obtain s' where s': "readi_loop ip (of_nat 0) (of_nat k) (of_nat off) [] s = Some ([] @ file_slice C i off (k - 0), s')"
    "file_st p D C ip i nb s'" "fsys s' = (fsys s)\<lparr>bcache := bcache (fsys s')\<rparr>"
    using readi_loop_ok [OF st, of 0 k off "[]"] k by auto
  have u: "unat (of_nat off :: uint) = off" "unat (of_nat off + of_nat n :: uint) = off + n"
    using o by (simp_all add: unat_of_nat flip: of_nat_add)
  have g: "\<not> (of_nat off > i_size i)" "\<not> (of_nat off + of_nat n < (of_nat off :: uint))"
    using o u by (simp_all add: word_less_nat_alt)
  have kw: "(if of_nat off + of_nat n > i_size i then i_size i - of_nat off else of_nat n) = (of_nat k :: uint)"
    using o u unat_sub [of "of_nat off" "i_size i"]
    by (auto simp: word_less_nat_alt k_def word_le_nat_alt min_def word_unat_eq_iff unat_of_nat)
  have "readi ip (of_nat off) (of_nat n) s = Some (int k, file_slice C i off k, s')"
    using d(5) f(3) g s'(1) sint_of_nat_small [OF k(2)] kw by (auto simp: readi_def Let_def split: if_splits)
  then show thesis using s'(2,3) by (rule that)
qed

section \<open>Writing\<close>

lemma baddr_upd:
  assumes f: "file_ok ds p C i nb" and b: "b < nb" "bn < nb"
  shows "baddr (C(baddr C i b := e)) i bn = baddr C i bn"
proof (cases "bn < NDIRECT")
  case True
  then show ?thesis by (simp add: baddr_def)
next
  case False
  then have "unat (i_addrs i ! NDIRECT) \<noteq> baddr C i b" using file_okD(10) [OF f] b by auto
  then show ?thesis using False by (simp add: baddr_def)
qed

lemma file_ok_upd:
  assumes f: "file_ok ds p C i nb" and b: "b < nb"
  shows "file_ok ds p (C(baddr C i b := e)) i nb"
proof -
  have eq: "baddr (C(baddr C i b := e)) i bn = baddr C i bn" if "bn < nb" for bn by (rule baddr_upd [OF f b that])
  have "baddr (C(baddr C i b := e)) i ` {..<nb} = baddr C i ` {..<nb}" "inj_on (baddr (C(baddr C i b := e)) i) {..<nb} = inj_on (baddr C i) {..<nb}"
    using eq by (auto intro!: image_cong inj_on_cong)
  then show ?thesis using f eq unfolding file_ok_def by simp
qed

lemma file_byte_upd:
  assumes f: "file_ok ds p C i nb" and b: "b < nb" and k: "k div BSIZE < nb"
  shows "file_byte (C(baddr C i b := e)) i k = (if k div BSIZE = b then e ! (k mod BSIZE) else file_byte C i k)"
proof -
  have "baddr C i (k div BSIZE) = baddr C i b \<longleftrightarrow> k div BSIZE = b"
    using inj_onD [OF file_okD(9) [OF f], of "k div BSIZE" b] b k by auto
  then show ?thesis unfolding file_byte_def baddr_upd [OF f b k] by simp
qed

text \<open>Inside of a transaction only the cache and the header of the log in memory change.\<close>

lemma lg_frame_trans:
  fixes x y z :: fsys
  assumes "x = y\<lparr>bcache := bcache x, log := (log y)\<lparr>lg_lh := lg_lh (log x)\<rparr>\<rparr>" "y = z\<lparr>bcache := bcache y, log := (log z)\<lparr>lg_lh := lg_lh (log y)\<rparr>\<rparr>"
  shows "x = z\<lparr>bcache := bcache x, log := (log z)\<lparr>lg_lh := lg_lh (log x)\<rparr>\<rparr>"
  using assms by (cases x, cases y, cases z, cases "log x", cases "log y", cases "log z") simp

lemma bcache_lg:
  fixes x y :: fsys
  shows "x = y\<lparr>bcache := bcache x\<rparr> \<Longrightarrow> x = y\<lparr>bcache := bcache x, log := (log y)\<lparr>lg_lh := lg_lh (log x)\<rparr>\<rparr>"
  by (cases x, cases y, cases "log x") simp

text \<open>One round of \<open>writei\<close>: block \<open>bn\<close> of the file gets the contents \<open>e\<close>.\<close>

lemma write_block_ok:
  assumes st: "file_st p (set bs) C ip i nb s" and room: "log_room p s bs (Suc (Suc k))" and bn: "bn < nb" and e: "length e = BSIZE"
  defines "a \<equiv> baddr C i bn"
  obtains s1 b t v u where "bmap ip bn s = Some (of_nat a, s1)" "bread 1 (of_nat a) s1 = Some (b, t)" "bdata b t = Some (C a)"
    "log_write b (set_bdata b e t) = Some v" "brelse b v = Some u" "file_st p (set (add_block a bs)) (C(a := e)) ip i nb u"
    "log_room p u (add_block a bs) (Suc k)" "fsys u = (fsys s)\<lparr>bcache := bcache (fsys u), log := (log (fsys s))\<lparr>lg_lh := lg_lh (log (fsys u))\<rparr>\<rparr>"
proof -
  obtain s1 where s1: "bmap ip bn s = Some (of_nat a, s1)" "file_st p (set bs) C ip i nb s1"
    "fsys s1 = (fsys s)\<lparr>bcache := bcache (fsys s1)\<rparr>" unfolding a_def by (rule bmap_ok [OF st bn])
  note d = file_stD [OF s1(2)] and f = file_okD [OF file_stD(6) [OF s1(2)]]
  obtain b t where b: "bread 1 (of_nat a) s1 = Some (b, t)" "host t" "bio_ok (fsys t) (insert b {}) (set bs) C"
    "buf_of (fsys t) a b" "fsys t = (fsys s1)\<lparr>bcache := bcache (fsys t)\<rparr>"
    unfolding a_def by (rule bread_ok [OF d(1,2) f(7) [OF bn] _ d(3)]) (use d(4) in auto)
  have ft: "fsys t = (fsys s)\<lparr>bcache := bcache (fsys t)\<rparr>" using b(5) s1(3) by (metis fsys.update_convs(4) fsys.surjective)
  have rt: "log_room p t bs (Suc (Suc k))" using room bcache_frame [OF ft] by (simp add: log_room_def)
  obtain v where v: "log_write b (set_bdata b e t) = Some v" "host v" "bio_ok (fsys v) (insert b {}) (set (add_block a bs)) (C(a := e))"
    "log_room p v (add_block a bs) (Suc k)" "fsys v = (fsys t)\<lparr>bcache := bcache (fsys v), log := (log (fsys t))\<lparr>lg_lh := lg_lh (log (fsys v))\<rparr>\<rparr>"
    by (rule log_write_ok [OF b(2,3) _ b(4) e rt]) (use f(8) [OF bn] a_def in auto)
  obtain u where u: "brelse b v = Some u" "host u" "bio_ok (fsys u) (insert b {} - {b}) (set (add_block a bs)) (C(a := e))"
    "fsys u = (fsys v)\<lparr>bcache := bcache (fsys u)\<rparr>"
    by (rule brelse_ok [OF v(2,3)]) auto
  have fu: "fsys u = (fsys s)\<lparr>bcache := bcache (fsys u), log := (log (fsys s))\<lparr>lg_lh := lg_lh (log (fsys u))\<rparr>\<rparr>"
    using lg_frame_trans [OF bcache_lg [OF u(4)] lg_frame_trans [OF v(5) bcache_lg [OF ft]]] .
  have iu: "inodes u = inodes s" "disksize (fsys u) = disksize (fsys s)" by (subst fu, simp)+
  have "log_room p u (add_block a bs) (Suc k)" using v(4) bcache_frame [OF u(4)] by (simp add: log_room_def)
  moreover have "card (set (add_block a bs)) + 1 < NBUF"
    using room card_length [of "add_block a bs"] by (auto simp: add_block_def log_room_def split: if_splits)
  then have "file_st p (set (add_block a bs)) (C(a := e)) ip i nb u"
    using u(2,3) file_stD(5,6) [OF st] iu file_ok_upd [OF file_stD(6) [OF st] bn] by (simp add: file_st_def a_def)
  ultimately show thesis using that [OF s1(1) b(1) bdata_ok [OF b(3,4)] v(1) u(1)] fu by blast
qed

lemma put_byte:
  assumes f: "file_ok ds p C i nb" and len: "length (C (baddr C i (off div BSIZE))) = BSIZE"
    and m: "off mod BSIZE + length src \<le> BSIZE" and bn: "off div BSIZE < nb" "k div BSIZE < nb"
  defines "e \<equiv> put_at (C (baddr C i (off div BSIZE))) (off mod BSIZE) src"
  shows "file_byte (C(baddr C i (off div BSIZE) := e)) i k =
    (if off \<le> k \<and> k < off + length src then src ! (k - off) else file_byte C i k)"
proof (cases "off \<le> k \<and> k < off + length src")
  case True
  then obtain j where j: "k = off + j" "j < length src" by (metis le_Suc_ex nat_add_left_cancel_less)
  then have "off mod BSIZE + j < BSIZE" using m by simp
  then show ?thesis using True j len m same_block [of off BSIZE j]
    by (simp add: file_byte_upd [OF f bn(1)] e_def nth_put_at bn(1))
next
  case False
  have "e ! (k mod BSIZE) = C (baddr C i (off div BSIZE)) ! (k mod BSIZE)" if a: "k div BSIZE = off div BSIZE"
  proof -
    have "k = off div BSIZE * BSIZE + k mod BSIZE" "off = off div BSIZE * BSIZE + off mod BSIZE"
      using div_mult_mod_eq [of k BSIZE] div_mult_mod_eq [of off BSIZE] a by simp_all
    then have "\<not> (off mod BSIZE \<le> k mod BSIZE \<and> k mod BSIZE < off mod BSIZE + length src)" using False by linarith
    then show ?thesis using len m by (auto simp: e_def nth_put_at)
  qed
  then show ?thesis unfolding file_byte_upd [OF f bn] using False by (auto simp: file_byte_def)
qed

text \<open>
  The contents after \<open>src\<close> has been written at offset \<open>off\<close> of the file: its bytes are those of
  \<open>src\<close> there and the old ones elsewhere, and no block outside of the file changes.
\<close>

definition written :: "(nat \<Rightarrow> block) \<Rightarrow> inode \<Rightarrow> nat \<Rightarrow> nat \<Rightarrow> byte list \<Rightarrow> (nat \<Rightarrow> block) \<Rightarrow> bool" where
  "written C i nb off src C' \<longleftrightarrow>
     (\<forall>bn<nb. baddr C' i bn = baddr C i bn) \<and>
     (\<forall>k<nb * BSIZE. file_byte C' i k = (if off \<le> k \<and> k < off + length src then src ! (k - off) else file_byte C i k)) \<and>
     (\<forall>a. a \<notin> baddr C i ` {..<nb} \<longrightarrow> C' a = C a)"

lemma written_slice: "written C i nb off src C' \<Longrightarrow> off + length src \<le> nb * BSIZE \<Longrightarrow> file_slice C' i off (length src) = src"
  by (auto intro!: nth_equalityI simp: written_def file_slice_def)

lemma written_put:
  assumes f: "file_ok ds p C i nb" and len: "length (C (baddr C i (off div BSIZE))) = BSIZE"
    and m: "off mod BSIZE + length src \<le> BSIZE" and bn: "off div BSIZE < nb"
  shows "written C i nb off src (C(baddr C i (off div BSIZE) := put_at (C (baddr C i (off div BSIZE))) (off mod BSIZE) src))"
  unfolding written_def using baddr_upd [OF f bn] put_byte [OF f len m bn] bn by (auto simp: less_mult_imp_div_less)

lemma written_append:
  assumes "written C i nb off xs C1" "written C1 i nb (off + length xs) ys C2"
  shows "written C i nb off (xs @ ys) C2"
proof -
  have "baddr C1 i ` {..<nb} = baddr C i ` {..<nb}" using assms(1) by (auto simp: written_def intro!: image_cong)
  then show ?thesis using assms by (auto simp: written_def nth_append)
qed

lemma writei_loop_ok:
  assumes "file_st p (set bs) C ip i nb s" "log_room p s bs (Suc k)" "t \<le> n" "off + (n - t) \<le> nb * BSIZE" "n < 2 ^ 32"
    "length src = n - t" "t = n \<or> off mod BSIZE + (n - t) \<le> k * BSIZE"
  shows "\<exists>s' bs' C'. writei_loop ip (of_nat t) (of_nat n) (of_nat off) src s = Some (of_nat (off + (n - t)), s') \<and>
    file_st p (set bs') C' ip i nb s' \<and> log_room p s' bs' 1 \<and> written C i nb off src C' \<and>
    fsys s' = (fsys s)\<lparr>bcache := bcache (fsys s'), log := (log (fsys s))\<lparr>lg_lh := lg_lh (log (fsys s'))\<rparr>\<rparr>"
  using assms
proof (induction "n - t" arbitrary: t off src s bs C k rule: less_induct)
  case less
  note d = file_stD [OF less.prems(1)] and f = file_okD [OF file_stD(6) [OF less.prems(1)]]
  have small: "nb * BSIZE < 2 ^ 32" using f(4) by simp
  show ?case
  proof (cases "t = n")
    case True
    moreover have "log_room p s bs 1" using less.prems(2) by (simp add: log_room_def)
    moreover have "written C i nb off [] C" by (auto simp: written_def)
    ultimately show ?thesis using less.prems(1,6) by (subst writei_loop.simps) (auto intro!: exI)
  next
    case False
    let ?bn = "off div BSIZE"
    define a m where "a = baddr C i ?bn" and "m = chunk off (n - t)"
    have tn: "t < n" using False less.prems(3) by simp
    then have m: "0 < m" "m \<le> n - t" "m \<le> BSIZE - off mod BSIZE" using chunk_facts(1,2) [of off "n - t"] chunk_facts(3) [of "n - t" off] by (auto simp: m_def)
    have bn: "?bn < nb" using less.prems(4) tn by (simp add: less_mult_imp_div_less)
    obtain k' where k': "k = Suc k'" using less.prems(7) tn by (cases k) auto
    have "off < 2 ^ 32" using less.prems(4) small tn by linarith
    then have w: "(of_nat t :: uint) < of_nat n" "unat (of_nat n - of_nat t :: uint) = n - t" "unat (of_nat off :: uint) = off"
      using tn less.prems(5) by (simp_all add: word_less_nat_alt unat_of_nat flip: of_nat_diff)
    define e where "e = put_at (C a) (off mod BSIZE) (take m src)"
    have ca: "length (C a) = BSIZE" by (rule bio_okD(10) [OF d(2)])
    have lm: "length (take m src) = m" using m less.prems(6) by simp
    have mb: "off mod BSIZE + length (take m src) \<le> BSIZE" using m(3) mod_less_divisor [of BSIZE off] unfolding lm by linarith
    have le: "length e = BSIZE" unfolding e_def using length_put_at mb ca by metis
    obtain s1 b v v' u where r: "bmap ip ?bn s = Some (of_nat a, s1)" "bread 1 (of_nat a) s1 = Some (b, v)" "bdata b v = Some (C a)"
      "log_write b (set_bdata b e v) = Some v'" "brelse b v' = Some u" "file_st p (set (add_block a bs)) (C(a := e)) ip i nb u"
      "log_room p u (add_block a bs) (Suc k')" "fsys u = (fsys s)\<lparr>bcache := bcache (fsys u), log := (log (fsys s))\<lparr>lg_lh := lg_lh (log (fsys u))\<rparr>\<rparr>"
      unfolding a_def by (rule write_block_ok [OF less.prems(1) less.prems(2) [unfolded k'] bn le])
    have wr: "written C i nb off (take m src) (C(a := e))"
      unfolding a_def e_def by (rule written_put [OF file_stD(6) [OF less.prems(1)] ca [unfolded a_def] mb bn])
    have dec: "n - (t + m) < n - t" "t + m \<le> n" "off + m + (n - (t + m)) \<le> nb * BSIZE" "length (drop m src) = n - (t + m)"
      using m tn less.prems(4,6) by auto
    have fuel: "t + m = n \<or> (off + m) mod BSIZE + (n - (t + m)) \<le> k' * BSIZE"
    proof (cases "m = n - t")
      case False
      then have "off mod BSIZE + m = BSIZE" using mod_less_divisor [of BSIZE off] by (simp add: m_def chunk_def min_def split: if_splits)
      moreover from this have "(off + m) mod BSIZE = 0" by (metis mod_add_left_eq mod_self)
      ultimately have "n - (t + m) \<le> k' * BSIZE" "(off + m) mod BSIZE = 0" using less.prems(7) tn k' dec(2) by simp_all
      then show ?thesis by simp
    qed (use tn in simp)
    obtain s' bs' C' where s': "writei_loop ip (of_nat (t + m)) (of_nat n) (of_nat (off + m)) (drop m src) u =
        Some (of_nat (off + m + (n - (t + m))), s')"
      "file_st p (set bs') C' ip i nb s'" "log_room p s' bs' 1" "written (C(a := e)) i nb (off + m) (drop m src) C'"
      "fsys s' = (fsys u)\<lparr>bcache := bcache (fsys s'), log := (log (fsys u))\<lparr>lg_lh := lg_lh (log (fsys s'))\<rparr>\<rparr>"
      using less.hyps [OF dec(1) r(6,7) dec(2,3) less.prems(5) dec(4) fuel] by blast
    have "writei_loop ip (of_nat t) (of_nat n) (of_nat off) src s =
        writei_loop ip (of_nat (t + m)) (of_nat n) (of_nat (off + m)) (drop m src) u"
      using w d(5) f(2) r(1-5) by (subst writei_loop.simps) (simp add: Let_def e_def flip: chunk_def m_def)
    moreover have "off + m + (n - (t + m)) = off + (n - t)" using m(2) tn by linarith
    moreover have "written C i nb off src C'" using written_append [OF wr, of "drop m src" C'] s'(4) lm by simp
    moreover have "fsys s' = (fsys s)\<lparr>bcache := bcache (fsys s'), log := (log (fsys s))\<lparr>lg_lh := lg_lh (log (fsys s'))\<rparr>\<rparr>"
      using lg_frame_trans [OF s'(5) r(8)] .
    ultimately show ?thesis using s' by metis
  qed
qed

text \<open>\<open>writei\<close> of bytes that lie inside of the file.\<close>

lemma writei_ok:
  assumes st: "file_st p (set bs) C ip i nb s" and room: "log_room p s bs (Suc k)" and o: "off + length src \<le> unat (i_size i)"
    and k: "off mod BSIZE + length src \<le> k * BSIZE"
  obtains s' bs' C' where "writei ip src (of_nat off) (of_nat (length src)) s = Some (int (length src), s')"
    "file_st p (set bs') C' ip i nb s'" "log_room p s' bs' 1" "written C i nb off src C'"
    "fsys s' = (fsys s)\<lparr>bcache := bcache (fsys s'), log := (log (fsys s))\<lparr>lg_lh := lg_lh (log (fsys s'))\<rparr>\<rparr>"
proof -
  note d = file_stD [OF st] and f = file_okD [OF file_stD(6) [OF st]]
  let ?n = "length src"
  have n: "off + ?n \<le> nb * BSIZE" "off + ?n \<le> MAXFILE * BSIZE" "off + ?n < 2 ^ 31" using f(4,5) o by auto
  have "off + (?n - 0) \<le> nb * BSIZE" "?n < 2 ^ 32" "length src = ?n - 0" "0 = ?n \<or> off mod BSIZE + (?n - 0) \<le> k * BSIZE"
    using n k by simp_all
  then obtain s' bs' C' where s': "writei_loop ip (of_nat 0) (of_nat ?n) (of_nat off) src s = Some (of_nat (off + (?n - 0)), s')"
    "file_st p (set bs') C' ip i nb s'" "log_room p s' bs' 1" "written C i nb off src C'"
    "fsys s' = (fsys s)\<lparr>bcache := bcache (fsys s'), log := (log (fsys s))\<lparr>lg_lh := lg_lh (log (fsys s'))\<rparr>\<rparr>"
    using writei_loop_ok [OF st room le0] by blast
  have u: "unat (of_nat off :: uint) = off" "unat (of_nat off + of_nat ?n :: uint) = off + ?n"
    using n by (simp_all add: unat_of_nat flip: of_nat_add)
  have g: "\<not> (of_nat off > i_size i)" "\<not> (of_nat off + of_nat ?n < (of_nat off :: uint))"
    "\<not> (of_nat off + of_nat ?n > (of_nat (MAXFILE * BSIZE) :: uint))" "\<not> (of_nat (off + ?n) > i_size i)"
    using o u n(2) by (simp_all add: word_less_nat_alt)
  have "writei ip src (of_nat off) (of_nat ?n) s = Some (int ?n, s')"
    using d(5) f(3) g s'(1) file_stD(5) [OF s'(2)] sint_of_nat_small [of ?n] n(3) by (auto simp: writei_def split: if_splits)
  then show thesis using s'(2-5) by (rule that)
qed

section \<open>Writing and reading back\<close>


text \<open>A file of type \<open>t\<close> with \<open>z\<close> zero bytes in the blocks 60, 61 and 62 of a disk with the log in blocks 2 to 31.\<close>

definition inode60 :: "16 word \<Rightarrow> uint \<Rightarrow> inode" where
  "inode60 t z = inode0\<lparr>i_dev := 1, i_inum := 5, i_ref := 1, i_valid := 1, i_type := t, i_size := z, i_addrs := 60 # 61 # 62 # replicate 10 0\<rparr>"

definition fs60 :: "inode \<Rightarrow> int \<Rightarrow> fsys" where
  "fs60 i n = fsys0\<lparr>disksize := 100, bcache := \<lparr>bc_buf = replicate NBUF buf0, bc_list = [0..<NBUF]\<rparr>,
     log := log0\<lparr>lg_start := 2, lg_size := 30, lg_dev := 1, lg_outstanding := n\<rparr>, icache := i # replicate 49 inode0\<rparr>"

definition kernel60 :: "inode \<Rightarrow> int \<Rightarrow> kernel" where
  "kernel60 i n = (demo RUNNING None (Some 0))\<lparr>fsys := fs60 i n\<rparr>"

lemma file60:
  assumes z: "t \<noteq> T_DEV" "unat z \<le> 3072"
  shows "file_ok 100 2 (\<lambda>_. replicate BSIZE 0) (inode60 t z) 3"
proof -
  have a: "baddr (\<lambda>_. replicate BSIZE 0) (inode60 t z) bn = 60 + bn" if b: "bn < 3" for bn
  proof -
    have "bn = 0 \<or> bn = 1 \<or> bn = 2" using b by auto
    then show ?thesis by (auto simp: baddr_def inode60_def)
  qed
  then have "inj_on (baddr (\<lambda>_. replicate BSIZE 0) (inode60 t z)) {..<3}" by (simp add: inj_on_def)
  then show ?thesis using a z by (auto simp: file_ok_def outside_log_def) (simp_all add: inode60_def inode0_def)
qed

lemma st60:
  assumes z: "t \<noteq> T_DEV" "unat z \<le> 3072"
  shows "file_st 2 {} (\<lambda>_. replicate BSIZE 0) 0 (inode60 t z) 3 (kernel60 (inode60 t z) n)"
proof -
  have "bio_ok (fs60 (inode60 t z) n) {} {} (\<lambda>_. replicate BSIZE 0)"
  proof -
    have "\<not> buf_of (fs60 (inode60 t z) n) m b" for m b by (auto simp: buf_of_def fs60_def buf0_def)
    moreover have "\<forall>b<NBUF. buf_ok {} {} (\<lambda>_. replicate BSIZE 0) 100 b (bc_buf (bcache (fs60 (inode60 t z) n)) ! b)"
      by (simp add: fs60_def buf_ok_def buf0_def sleeplock0_def)
    ultimately show ?thesis by (auto simp: bio_ok_def fs60_def fsys0_def)
  qed
  then show ?thesis using host_demo [of "fs60 (inode60 t z) n"] file60 [OF z] by (simp add: file_st_def kernel60_def) (simp add: fs60_def)
qed

lemma room60: "k < 30 \<Longrightarrow> log_room 2 (kernel60 i 1) [] k"
  by (simp add: log_room_def kernel60_def fs60_def log_wf_def log0_def)


end
