(* ===== verification/FileTx.thy ===== *)
theory FileTx
  imports FileContent
begin

text \<open>
  A write to a file as a transaction: \<open>begin_op\<close>, \<open>writei\<close> and \<open>end_op\<close>, as \<open>filewrite\<close> of
  \<open>file.c\<close> composes them, with a crash at any of the disk writes.
\<close>

section \<open>The ends of a transaction\<close>

text \<open>No operation is running and nothing is in the log, in memory or on the disk.\<close>

definition log_idle :: "nat \<Rightarrow> kernel \<Rightarrow> bool" where
  "log_idle p s \<longleftrightarrow> log_wf (disksize (fsys s)) p (log (fsys s)) [] \<and> lg_size (log (fsys s)) = int LOGSIZE \<and>
     lg_outstanding (log (fsys s)) = 0 \<and> lg_committing (log (fsys s)) = 0 \<and> head_is (memdisk (fsys s) p) []"

lemma begin_op_ok:
  assumes h: "host s" and L: "log_idle p s"
  obtains s' where "begin_op s = Some s'" "host s'" "fsys s' = (fsys s)\<lparr>log := (log (fsys s))\<lparr>lg_outstanding := 1\<rparr>\<rparr>"
proof -
  let ?s' = "(upd_log (\<lambda>l. l\<lparr>lg_outstanding := lg_outstanding l + 1\<rparr>) s)\<lparr>mach := settle (mach s)\<rparr>"
  have n: "lh_n (lg_lh (log (fsys s))) = 0" using L log_wfD(3) by (fastforce simp: log_idle_def)
  have "begin_op s = Some ?s'"
    using hostD [OF h] L n by (simp add: begin_op_def begin_op_enter_def begin_op_loop_def log_idle_def Let_def upd_log_def)
  moreover have "host ?s'" by (rule host_frame [OF h]) (simp_all add: upd_log_def)
  moreover have "fsys ?s' = (fsys s)\<lparr>log := (log (fsys s))\<lparr>lg_outstanding := 1\<rparr>\<rparr>" using L by (simp add: upd_log_def log_idle_def)
  ultimately show thesis by (rule that)
qed

text \<open>The last operation ends: \<open>end_op\<close> commits.\<close>

lemma end_op_crash:
  assumes h: "host s" and ok: "bio_ok (fsys s) {} (set bs) C" and wf: "log_wf (disksize (fsys s)) p (log (fsys s)) bs"
    and hd: "head_is (memdisk (fsys s) p) []" and lg: "lg_outstanding (log (fsys s)) = 1" "lg_committing (log (fsys s)) = 0"
  shows "\<exists>s' ws. end_op s = Some s' \<and> writes (fsys s') = writes (fsys s) @ ws \<and> (bs \<noteq> [] \<longrightarrow> length bs < length ws) \<and>
    (\<forall>k. recovers (disksize (fsys s)) p (replay (take k ws) (memdisk (fsys s))) (if k \<le> length bs then memdisk (fsys s) else C))"
proof -
  note m = hostD [OF h]
  let ?t = "(upd_log (\<lambda>l. l\<lparr>lg_outstanding := 0, lg_committing := 1\<rparr>) s)\<lparr>mach := settle (mach s)\<rparr>"
  have t: "host ?t" by (rule host_frame [OF h]) (simp_all add: upd_log_def)
  have ft: "disksize (fsys ?t) = disksize (fsys s)" "memdisk (fsys ?t) = memdisk (fsys s)" "writes (fsys ?t) = writes (fsys s)"
    by (simp_all add: upd_log_def)
  have "bio_ok (fsys ?t) {} (set bs) C" using ok by (simp add: upd_log_def bio_ok_def buf_of_def)
  moreover have "log_wf (disksize (fsys ?t)) p (log (fsys ?t)) bs" using wf by (simp add: upd_log_def log_wf_def)
  ultimately obtain u ws where u: "commit ?t = Some u" "host u" "writes (fsys u) = writes (fsys s) @ ws" "bs \<noteq> [] \<longrightarrow> length bs < length ws"
    "\<forall>k. recovers (disksize (fsys s)) p (replay (take k ws) (memdisk (fsys s))) (if k \<le> length bs then memdisk (fsys s) else C)"
    using commit_crash [OF t, of bs C p] hd unfolding ft by blast
  let ?v = "(upd_log (\<lambda>l. l\<lparr>lg_committing := 0\<rparr>) u)\<lparr>mach := acq LogLk (mach u)\<rparr>"
  have "sched_ok ?v" using hostD [OF u(2)] by (simp add: sched_ok_def upd_log_def)
  then obtain pt where pt: "wakeup (Some ChLog) ?v = Some (?v\<lparr>mach := settle (mach ?v), ptable := pt\<rparr>)"
    using wakeup_eq by blast
  have e: "upd_log (\<lambda>l. l\<lparr>lg_committing := 1\<rparr>) (upd_log (\<lambda>l. l\<lparr>lg_outstanding := lg_outstanding l - 1\<rparr>) s) =
      upd_log (\<lambda>l. l\<lparr>lg_outstanding := 0, lg_committing := 1\<rparr>) s"
    using lg by (simp add: upd_log_def upd_fs_def)
  have "end_op s = Some (?v\<lparr>mach := settle (mach u), ptable := pt\<rparr>)"
    using m lg u(1) hostD [OF u(2)] pt e [unfolded upd_log_def] by (simp add: end_op_def Let_def upd_log_def)
  moreover have "writes (fsys (?v\<lparr>mach := settle (mach u), ptable := pt\<rparr>)) = writes (fsys u)" by (simp add: upd_log_def)
  ultimately show ?thesis using u(3-5) by metis
qed

section \<open>A write that survives a crash\<close>

text \<open>
  Property C1.  A write of up to ten blocks inside of a file, as one transaction, is atomic.  The
  transaction runs to its end; whenever the machine stops among the disk writes \<open>ws\<close> it makes,
  recovery gives the contents \<open>C\<close> from before up to the write of the log header, and from then on,
  as after all of them, \<open>C'\<close>, which has \<open>src\<close> at offset \<open>off\<close> of the file and is equal to \<open>C\<close> everywhere else.
\<close>

theorem file_write_atomic:
  assumes "file_st p {} C ip i nb s" "log_idle p s" "off + length src \<le> unat (i_size i)" "off mod BSIZE + length src \<le> 10 * BSIZE"
  shows "\<exists>s1 s2 s3 ws N C'. begin_op s = Some s1 \<and> writei ip src (of_nat off) (of_nat (length src)) s1 = Some (int (length src), s2) \<and>
    end_op s2 = Some s3 \<and> writes (fsys s3) = writes (fsys s) @ ws \<and> written C i nb off src C' \<and>
    (\<forall>k. recovers (disksize (fsys s)) p (replay (take k ws) (memdisk (fsys s))) (if k \<le> N then C else C')) \<and>
    recovers (disksize (fsys s)) p (replay ws (memdisk (fsys s))) C'"
proof -
  note d = file_stD [OF assms(1)]
  have L: "log_wf (disksize (fsys s)) p (log (fsys s)) []" using assms(2) by (simp add: log_idle_def)
  have C: "C = memdisk (fsys s)" using bio_okD(9) [OF d(2)] by auto
  obtain s1 where s1: "begin_op s = Some s1" "host s1" "fsys s1 = (fsys s)\<lparr>log := (log (fsys s))\<lparr>lg_outstanding := 1\<rparr>\<rparr>"
    by (rule begin_op_ok [OF d(1) assms(2)])
  have "bio_ok (fsys s1) {} {} C" using d(2) by (simp add: s1(3) bio_ok_def buf_of_def)
  then have st: "file_st p (set []) C ip i nb s1" using d s1(2) by (simp add: file_st_def s1(3))
  have room: "log_room p s1 [] (Suc 10)" using assms(2) by (simp add: log_room_def log_idle_def s1(3) log_wf_def)
  obtain s2 bs C' where s2: "writei ip src (of_nat off) (of_nat (length src)) s1 = Some (int (length src), s2)"
    "file_st p (set bs) C' ip i nb s2" "log_room p s2 bs 1" "written C i nb off src C'"
    "fsys s2 = (fsys s1)\<lparr>bcache := bcache (fsys s2), log := (log (fsys s1))\<lparr>lg_lh := lg_lh (log (fsys s2))\<rparr>\<rparr>"
    by (rule writei_ok [OF st room assms(3,4)])
  have f2: "disksize (fsys s2) = disksize (fsys s)" "memdisk (fsys s2) = C" "writes (fsys s2) = writes (fsys s)"
    "lg_outstanding (log (fsys s2)) = 1" "lg_committing (log (fsys s2)) = 0"
    using assms(2) by (subst s2(5), simp add: s1(3) C log_idle_def)+
  have "head_is (memdisk (fsys s2) p) []" using assms(2) f2(2) C by (simp add: log_idle_def)
  then obtain s3 ws where s3: "end_op s2 = Some s3" "writes (fsys s3) = writes (fsys s) @ ws" "bs \<noteq> [] \<longrightarrow> length bs < length ws"
    "\<forall>k. recovers (disksize (fsys s)) p (replay (take k ws) C) (if k \<le> length bs then C else C')"
    using end_op_crash [OF file_stD(1,2) [OF s2(2)] _ _ f2(4,5), of p] s2(3) unfolding f2(1-3) by (auto simp: log_room_def f2(1))
  have "recovers (disksize (fsys s)) p (replay ws C) C'"
  proof (cases "bs = []")
    case True
    then have "C' = C" using bio_okD(9) [OF file_stD(2) [OF s2(2)]] f2(2) by auto
    then show ?thesis using s3(4) [rule_format, of "length ws"] by (simp cong: if_cong)
  next
    case False
    then show ?thesis using s3(3) s3(4) [rule_format, of "length ws"] by (simp cong: if_cong)
  qed
  then show ?thesis using s1(1) s2(1,4) s3 unfolding C by blast
qed

theorem file_write_atomic_witness:
  "\<exists>s1 s2 s3 ws N C'. begin_op (kernel60 (inode60 T_FILE 3000) 0) = Some s1 \<and> writei 0 [7, 8] (of_nat 1023) (of_nat 2) s1 = Some (2, s2) \<and>
    end_op s2 = Some s3 \<and> writes (fsys s3) = ws \<and> written (\<lambda>_. replicate BSIZE 0) (inode60 T_FILE 3000) 3 1023 [7, 8] C' \<and>
    (\<forall>k. recovers 100 2 (replay (take k ws) (\<lambda>_. replicate BSIZE 0)) (if k \<le> N then (\<lambda>_. replicate BSIZE 0) else C')) \<and>
    recovers 100 2 (replay ws (\<lambda>_. replicate BSIZE 0)) C'"
proof -
  have f: "disksize (fsys (kernel60 (inode60 T_FILE 3000) 0)) = 100" "memdisk (fsys (kernel60 (inode60 T_FILE 3000) 0)) = (\<lambda>_. replicate BSIZE 0)" "writes (fsys (kernel60 (inode60 T_FILE 3000) 0)) = []"
    by (simp_all add: kernel60_def fs60_def fsys0_def)
  have idle: "log_idle 2 (kernel60 (inode60 T_FILE 3000) 0)" using zero_head
    by (simp add: log_idle_def kernel60_def fs60_def fsys0_def log_wf_def log0_def)
  have pre: "1023 + length [7, 8 :: byte] \<le> unat (i_size (inode60 T_FILE 3000))" "1023 mod BSIZE + length [7, 8 :: byte] \<le> 10 * BSIZE"
    by (simp_all add: inode60_def)
  have len: "length [7, 8 :: byte] = 2" "int 2 = 2" by simp_all
  have st: "file_st 2 {} (\<lambda>_. replicate BSIZE 0) 0 (inode60 T_FILE 3000) 3 (kernel60 (inode60 T_FILE 3000) 0)" by (rule st60) simp_all
  show ?thesis using file_write_atomic [OF st idle pre] unfolding f len append_Nil .
qed

end
