(* ===== verification/DirContent.thy ===== *)
theory DirContent
  imports FileContent
begin

text \<open>
  Directories as maps from names to inode numbers.  \<open>dir_lookup C i\<close> is the map that the entries
  in the file with inode \<open>i\<close> stand for; \<open>dirlookup\<close> evaluates it and \<open>dirlink\<close> updates it.
\<close>

section \<open>The map of a directory\<close>

definition dir_entries :: "(nat \<Rightarrow> block) \<Rightarrow> inode \<Rightarrow> dirent list" where
  "dir_entries C i = map (\<lambda>k. get_dirent (file_slice C i (16 * k) 16)) [0..<unat (i_size i) div 16]"

definition find_entry :: "byte list \<Rightarrow> dirent list \<Rightarrow> nat option" where
  "find_entry name es = first_ix (\<lambda>e. de_inum e \<noteq> 0 \<and> namecmp name (de_name e)) es"

definition dir_lookup :: "(nat \<Rightarrow> block) \<Rightarrow> inode \<Rightarrow> byte list \<Rightarrow> uint option" where
  "dir_lookup C i name = map_option (\<lambda>k. ucast (de_inum (dir_entries C i ! k))) (find_entry name (dir_entries C i))"

text \<open>Names are compared up to their end and up to \<open>DIRSIZ\<close> characters.\<close>

definition name_key :: "byte list \<Rightarrow> byte list" where
  "name_key name = take DIRSIZ (takeWhile (\<lambda>c. c \<noteq> 0) name)"

lemma namecmp_entry: "namecmp n (strncpy_l 0 name DIRSIZ) \<longleftrightarrow> name_key n = name_key name"
proof -
  have "takeWhile (\<lambda>c. c \<noteq> 0) (strncpy_l 0 name DIRSIZ) = take DIRSIZ (takeWhile (\<lambda>c. c \<noteq> 0) name)"
    unfolding strncpy_l_def Let_def
    by (subst takeWhile_append2) (auto dest!: in_set_takeD set_takeWhileD simp: takeWhile_replicate)
  then show ?thesis by (simp add: namecmp_def strneq_l_def name_key_def)
qed

lemma get_dirent_bytes: "length (de_name e) = DIRSIZ \<Longrightarrow> get_dirent (dirent_bytes e) = e"
  using get_bytes16 [of "[]" "de_inum e" "de_name e"] by (simp add: get_dirent_def dirent_bytes_def)

text \<open>A state in which the directory with index \<open>dp\<close> can be searched.\<close>

definition dir_st :: "nat \<Rightarrow> nat set \<Rightarrow> (nat \<Rightarrow> block) \<Rightarrow> nat \<Rightarrow> inode \<Rightarrow> nat \<Rightarrow> kernel \<Rightarrow> bool" where
  "dir_st p D C dp i nb s \<longleftrightarrow> file_st p D C dp i nb s \<and> i_type i = T_DIR \<and> 16 dvd unat (i_size i)"

lemma dir_stD:
  assumes "dir_st p D C dp i nb s"
  shows "file_st p D C dp i nb s" "i_type i = T_DIR" "unat (i_size i) = 16 * length (dir_entries C i)" "nth_opt (inodes s) dp = Some i"
    "i_dev i = 1" "unat (i_size i) < 2 ^ 31"
  using assms file_stD(5,6) [of p D C dp i nb s] file_okD(2,4,5) [of "disksize (fsys s)" p C i nb]
  by (auto simp: dir_st_def dir_entries_def)

text \<open>Both loops read one entry after the other.\<close>

lemma read_entry_ok:
  assumes st: "dir_st p D C dp i nb s" and k: "k < length (dir_entries C i)"
  obtains bs s' where "readi dp (of_nat (16 * k)) 16 s = Some (16, bs, s')" "get_dirent bs = dir_entries C i ! k"
    "dir_st p D C dp i nb s'" "fsys s' = (fsys s)\<lparr>bcache := bcache (fsys s')\<rparr>"
proof -
  note d = dir_stD [OF st]
  have b: "16 * k \<le> unat (i_size i)" "16 * k + 16 < 2 ^ 32" "min 16 (unat (i_size i) - 16 * k) = 16" using k d(3,6) by auto
  obtain s' where "readi dp (of_nat (16 * k)) (of_nat 16) s = Some (int (min 16 (unat (i_size i) - 16 * k)), file_slice C i (16 * k) (min 16 (unat (i_size i) - 16 * k)), s')"
    "file_st p D C dp i nb s'" "fsys s' = (fsys s)\<lparr>bcache := bcache (fsys s')\<rparr>"
    by (rule readi_ok [OF d(1) b(1,2)])
  then show thesis using that [of "file_slice C i (16 * k) 16" s'] k st unfolding b(3) by (simp add: dir_entries_def dir_st_def)
qed

lemma entry_in_range:
  assumes "dir_st p D C dp i nb s" "k \<le> length (dir_entries C i)"
  shows "(of_nat (16 * k) :: uint) < i_size i \<longleftrightarrow> k < length (dir_entries C i)"
proof -
  have "unat (of_nat (16 * k) :: uint) = 16 * k"
    by (subst unat_of_nat) (use dir_stD(3,6) [OF assms(1)] assms(2) in simp)
  then show ?thesis unfolding word_less_nat_alt using dir_stD(3) [OF assms(1)] by simp
qed

lemma dirlookup_loop_ok:
  assumes "dir_st p D C dp i nb s" "k \<le> length (dir_entries C i)"
  shows "\<exists>s'. dir_st p D C dp i nb s' \<and> fsys s' = (fsys s)\<lparr>bcache := bcache (fsys s')\<rparr> \<and>
    dirlookup_loop dp name (of_nat (16 * k)) s = (case find_entry name (drop k (dir_entries C i)) of
        None \<Rightarrow> Some (None, s')
      | Some j \<Rightarrow> do { (ip, t) \<leftarrow> iget 1 (ucast (de_inum (dir_entries C i ! (k + j)))) s'; Some (Some (ip, of_nat (16 * (k + j))), t) })"
  using assms
proof (induction "length (dir_entries C i) - k" arbitrary: k s)
  case 0
  then have "k = length (dir_entries C i)" by simp
  then show ?case using dir_stD(4) [OF 0(2)] entry_in_range [OF 0(2), of k] 0(2)
    by (subst dirlookup_loop.simps) (auto simp: find_entry_def)
next
  case (Suc n)
  note d = dir_stD [OF Suc.prems(1)]
  have k: "k < length (dir_entries C i)" using Suc.hyps(2) by simp
  obtain bs s1 where r: "readi dp (of_nat (16 * k)) 16 s = Some (16, bs, s1)" "get_dirent bs = dir_entries C i ! k"
    "dir_st p D C dp i nb s1" "fsys s1 = (fsys s)\<lparr>bcache := bcache (fsys s1)\<rparr>"
    by (rule read_entry_ok [OF Suc.prems(1) k])
  have c: "drop k (dir_entries C i) = dir_entries C i ! k # drop (Suc k) (dir_entries C i)" using k by (simp add: Cons_nth_drop_Suc)
  have w: "(of_nat (16 * k) :: uint) + 16 = of_nat (16 * Suc k)" by simp
  have l: "(of_nat (16 * k) :: uint) < i_size i" using entry_in_range [OF Suc.prems] k by simp
  show ?case
  proof (cases "de_inum (dir_entries C i ! k) \<noteq> 0 \<and> namecmp name (de_name (dir_entries C i ! k))")
    case True
    then show ?thesis using d(4,5) r l c
      by (intro exI [of _ s1]) (subst dirlookup_loop.simps, simp add: Let_def find_entry_def)
  next
    case False
    have "n = length (dir_entries C i) - Suc k" "Suc k \<le> length (dir_entries C i)" using Suc.hyps(2) k by simp_all
    then obtain s' where s': "dir_st p D C dp i nb s'" "fsys s' = (fsys s1)\<lparr>bcache := bcache (fsys s')\<rparr>"
      "dirlookup_loop dp name (of_nat (16 * Suc k)) s1 = (case find_entry name (drop (Suc k) (dir_entries C i)) of
        None \<Rightarrow> Some (None, s')
      | Some j \<Rightarrow> do { (ip, t) \<leftarrow> iget 1 (ucast (de_inum (dir_entries C i ! (Suc k + j)))) s'; Some (Some (ip, of_nat (16 * (Suc k + j))), t) })"
      using Suc.hyps(1) r(3) by blast
    have "dirlookup_loop dp name (of_nat (16 * k)) s = dirlookup_loop dp name (of_nat (16 * Suc k)) s1"
      using d(4) r(1,2) l False unfolding w [symmetric] by (subst dirlookup_loop.simps) (auto simp: Let_def)
    moreover have "fsys s' = (fsys s)\<lparr>bcache := bcache (fsys s')\<rparr>" using s'(2) r(4) by (metis fsys.update_convs(4) fsys.surjective)
    ultimately show ?thesis using s'(1,3) False by (intro exI [of _ s']) (auto simp: c find_entry_def ac_simps split: option.splits)
  qed
qed

section \<open>Looking up\<close>

text \<open>\<open>iget\<close> with a free entry in the inode cache.\<close>

lemma iget_ok:
  assumes h: "host s" and j: "j < length (inodes s)" "i_ref (inodes s ! j) = 0"
  obtains ip s' where "iget dev inum s = Some (ip, s')" "ip < length (inodes s)" "i_inum (inodes s' ! ip) = inum"
proof -
  note m = hostD [OF h]
  show thesis
  proof (cases "first_ix (\<lambda>i. i_ref i > 0 \<and> i_dev i = dev \<and> i_inum i = inum) (inodes s)")
    case (Some ip)
    note f = first_ix_SomeD [OF Some]
    show thesis by (rule that [of ip]) (use m Some f in \<open>auto simp: iget_def upd_inode_def\<close>)
  next
    case None
    then obtain ip where ip: "first_ix (\<lambda>i. i_ref i = 0) (inodes s) = Some ip" using j
      by (cases "first_ix (\<lambda>i. i_ref i = 0) (inodes s)") (auto simp: first_ix_eq_None)
    note f = first_ix_SomeD [OF ip]
    show thesis by (rule that [of ip]) (use m None ip f in \<open>auto simp: iget_def upd_inode_def\<close>)
  qed
qed

definition found :: "(nat \<times> uint) option \<Rightarrow> kernel \<Rightarrow> uint option" where
  "found r s = map_option (\<lambda>(ip, off). i_inum (inodes s ! ip)) r"

lemma dirlookup_ok:
  assumes st: "dir_st p D C dp i nb s" and j: "j < length (inodes s)" "i_ref (inodes s ! j) = 0"
  shows "\<exists>r s'. dirlookup dp name s = Some (r, s') \<and> found r s' = dir_lookup C i name"
proof -
  note d = dir_stD [OF st]
  obtain s' where s': "dir_st p D C dp i nb s'" "fsys s' = (fsys s)\<lparr>bcache := bcache (fsys s')\<rparr>"
    "dirlookup_loop dp name (of_nat (16 * 0)) s = (case find_entry name (drop 0 (dir_entries C i)) of
        None \<Rightarrow> Some (None, s')
      | Some j \<Rightarrow> do { (ip, t) \<leftarrow> iget 1 (ucast (de_inum (dir_entries C i ! (0 + j)))) s'; Some (Some (ip, of_nat (16 * (0 + j))), t) })"
    using dirlookup_loop_ok [OF st le0] by blast
  have e: "dirlookup dp name s = dirlookup_loop dp name (of_nat (16 * 0)) s" using d(2,4) by (simp add: dirlookup_def)
  have "inodes s' = inodes s" by (subst s'(2)) simp
  then have j': "j < length (inodes s')" "i_ref (inodes s' ! j) = 0" using j by simp_all
  show ?thesis
  proof (cases "find_entry name (dir_entries C i)")
    case None
    then show ?thesis using e s'(3) by (simp add: found_def dir_lookup_def)
  next
    case (Some n)
    obtain ip t where "iget 1 (ucast (de_inum (dir_entries C i ! n))) s' = Some (ip, t)" "i_inum (inodes t ! ip) = ucast (de_inum (dir_entries C i ! n))"
      by (rule iget_ok [OF file_stD(1) [OF dir_stD(1) [OF s'(1)]] j'])
    then show ?thesis using e s'(3) Some by (simp add: found_def dir_lookup_def)
  qed
qed

section \<open>Linking\<close>

lemma dirlink_slot_ok:
  assumes "dir_st p D C dp i nb s" "k \<le> length (dir_entries C i)" "first_ix (\<lambda>e. de_inum e = 0) (drop k (dir_entries C i)) = Some j"
  shows "\<exists>s'. dir_st p D C dp i nb s' \<and> fsys s' = (fsys s)\<lparr>bcache := bcache (fsys s')\<rparr> \<and>
    dirlink_slot dp (of_nat (16 * k)) s = Some (of_nat (16 * (k + j)), s')"
  using assms
proof (induction j arbitrary: k s)
  case (0 k s)
  note d = dir_stD [OF 0(1)]
  have k: "k < length (dir_entries C i)" "de_inum (dir_entries C i ! k) = 0" using first_ix_SomeD [OF 0(3)] by auto
  obtain bs s1 where r: "readi dp (of_nat (16 * k)) 16 s = Some (16, bs, s1)" "get_dirent bs = dir_entries C i ! k"
    "dir_st p D C dp i nb s1" "fsys s1 = (fsys s)\<lparr>bcache := bcache (fsys s1)\<rparr>"
    by (rule read_entry_ok [OF 0(1) k(1)])
  have l: "(of_nat (16 * k) :: uint) < i_size i" using entry_in_range [OF 0(1,2)] k by simp
  show ?case using d(4) r l k(2) by (intro exI [of _ s1]) (subst dirlink_slot.simps, simp)
next
  case (Suc j k s)
  note d = dir_stD [OF Suc.prems(1)]
  have k: "k < length (dir_entries C i)" using first_ix_SomeD(1) [OF Suc.prems(3)] by simp
  have c: "drop k (dir_entries C i) = dir_entries C i ! k # drop (Suc k) (dir_entries C i)" using k by (simp add: Cons_nth_drop_Suc)
  have nz: "de_inum (dir_entries C i ! k) \<noteq> 0" "first_ix (\<lambda>e. de_inum e = 0) (drop (Suc k) (dir_entries C i)) = Some j"
    using Suc.prems(3) unfolding c by (auto split: if_splits)
  obtain bs s1 where r: "readi dp (of_nat (16 * k)) 16 s = Some (16, bs, s1)" "get_dirent bs = dir_entries C i ! k"
    "dir_st p D C dp i nb s1" "fsys s1 = (fsys s)\<lparr>bcache := bcache (fsys s1)\<rparr>"
    by (rule read_entry_ok [OF Suc.prems(1) k])
  have l: "(of_nat (16 * k) :: uint) < i_size i" using entry_in_range [OF Suc.prems(1,2)] k by simp
  obtain s' where s': "dir_st p D C dp i nb s'" "fsys s' = (fsys s1)\<lparr>bcache := bcache (fsys s')\<rparr>"
    "dirlink_slot dp (of_nat (16 * Suc k)) s1 = Some (of_nat (16 * (Suc k + j)), s')"
    using Suc.IH [OF r(3) _ nz(2)] k by auto
  have w: "(of_nat (16 * k) :: uint) + 16 = of_nat (16 * Suc k)" by simp
  have "dirlink_slot dp (of_nat (16 * k)) s = dirlink_slot dp (of_nat (16 * Suc k)) s1"
    using d(4) r(1,2) l nz(1) unfolding w [symmetric] by (subst dirlink_slot.simps) simp
  moreover have "fsys s' = (fsys s)\<lparr>bcache := bcache (fsys s')\<rparr>" using s'(2) r(4) by (metis fsys.update_convs(4) fsys.surjective)
  ultimately show ?case using s'(1,3) by (intro exI [of _ s']) (simp add: ac_simps)
qed

lemma written_entry:
  assumes w: "written C i nb (16 * k) (dirent_bytes e) C'" and e: "length (de_name e) = DIRSIZ" and sz: "unat (i_size i) \<le> nb * BSIZE"
  shows "dir_entries C' i = (dir_entries C i)[k := e]"
proof (rule nth_equalityI)
  show "length (dir_entries C' i) = length ((dir_entries C i)[k := e])" by (simp add: dir_entries_def)
  fix j assume "j < length (dir_entries C' i)"
  then have j: "j < unat (i_size i) div 16" by (simp add: dir_entries_def)
  then have jn: "16 * j + 16 \<le> nb * BSIZE" using sz by linarith
  have len: "length (dirent_bytes e) = 16" using e by (simp add: dirent_bytes_def)
  have "file_slice C' i (16 * j) 16 = (if j = k then dirent_bytes e else file_slice C i (16 * j) 16)"
  proof (cases "j = k")
    case True
    then show ?thesis using written_slice [OF w] jn unfolding len by simp
  next
    case False
    then have "\<not> (16 * k \<le> x \<and> x < 16 * k + 16)" if x: "16 * j \<le> x" "x < 16 * j + 16" for x using x by linarith
    then show ?thesis using False w jn unfolding written_def len file_slice_def by (auto intro!: map_cong)
  qed
  then show "dir_entries C' i ! j = (dir_entries C i)[k := e] ! j"
    using j e by (simp add: dir_entries_def get_dirent_bytes nth_list_update)
qed

text \<open>A new entry in a free slot is an update of the map.\<close>

lemma find_entry_update:
  assumes nw: "find_entry name es = None" and k: "k < length es" "de_inum (es ! k) = 0" and e: "de_inum e \<noteq> 0" "de_name e = strncpy_l 0 name DIRSIZ"
  shows "find_entry n (es[k := e]) = (if name_key n = name_key name then Some k else find_entry n es)"
proof -
  have c: "namecmp n x = namecmp name x" if "name_key n = name_key name" for x
    using that by (simp add: namecmp_def strneq_l_def name_key_def)
  show ?thesis
  proof (cases "name_key n = name_key name")
    case True
    then have "find_entry n (es[k := e]) = Some k"
      unfolding find_entry_def first_ix_eq_Some using nw k e c [OF True] namecmp_entry [of n name]
      by (auto simp: find_entry_def first_ix_eq_None_nth nth_list_update)
    then show ?thesis using True by simp
  next
    case False
    have "find_entry n (es[k := e]) = find_entry n es"
      unfolding find_entry_def using k e False namecmp_entry [of n name]
      by (intro first_ix_cong_nth) (auto simp: nth_list_update)
    then show ?thesis using False by simp
  qed
qed

lemma dirlink_ok:
  assumes st: "dir_st p (set bs) C dp i nb s" and room: "log_room p s bs 2" and nw: "dir_lookup C i name = None"
    and slot: "first_ix (\<lambda>e. de_inum e = 0) (dir_entries C i) = Some k" and inum: "0 < unat inum" "unat inum < 2 ^ 16"
  obtains s' bs' C' where "dirlink dp name inum s = Some (0, s')" "dir_st p (set bs') C' dp i nb s'" "inodes s' = inodes s"
    "\<forall>n. dir_lookup C' i n = (if name_key n = name_key name then Some inum else dir_lookup C i n)"
proof -
  have ne: "find_entry name (dir_entries C i) = None" using nw by (simp add: dir_lookup_def)
  obtain s1 where s1: "dir_st p (set bs) C dp i nb s1" "fsys s1 = (fsys s)\<lparr>bcache := bcache (fsys s1)\<rparr>"
    "dirlookup_loop dp name (of_nat (16 * 0)) s = Some (None, s1)"
    using dirlookup_loop_ok [OF st le0, of name] ne by auto
  obtain s2 where s2: "dir_st p (set bs) C dp i nb s2" "fsys s2 = (fsys s1)\<lparr>bcache := bcache (fsys s2)\<rparr>"
    "dirlink_slot dp (of_nat (16 * 0)) s1 = Some (of_nat (16 * (0 + k)), s2)"
    using dirlink_slot_ok [OF s1(1) le0, of k] slot by auto
  note d = dir_stD [OF st] and d2 = dir_stD [OF s2(1)]
  have f2: "fsys s2 = (fsys s)\<lparr>bcache := bcache (fsys s2)\<rparr>" using s2(2) s1(2) by (metis fsys.update_convs(4) fsys.surjective)
  have k: "k < length (dir_entries C i)" "de_inum (dir_entries C i ! k) = 0" using first_ix_SomeD [OF slot] by auto
  define e where "e = \<lparr>de_inum = ucast inum, de_name = strncpy_l 0 name DIRSIZ\<rparr>"
  have e: "length (de_name e) = DIRSIZ" "length (dirent_bytes e) = 16" "ucast (de_inum e) = inum" "de_inum e \<noteq> 0"
  proof -
    show u: "ucast (de_inum e) = inum" using inum by (simp add: e_def word_unat_eq_iff unsigned_ucast_eq unsigned_take_bit_eq take_bit_nat_eq_self)
    show "de_inum e \<noteq> 0" using u inum by auto
  qed (simp_all add: e_def dirent_bytes_def)
  have "log_room p s2 bs (Suc 1)" using room bcache_frame [OF f2] by (simp add: log_room_def)
  moreover have "16 * k + length (dirent_bytes e) \<le> unat (i_size i)" using k(1) d(3) unfolding e(2) by simp
  moreover have "16 * k mod BSIZE + length (dirent_bytes e) \<le> 1 * BSIZE"
  proof -
    have "16 * k mod BSIZE = 16 * (k mod 64)" using mult_mod_right [of 16 k 64] by simp
    then show ?thesis unfolding e(2) using mod_less_divisor [of 64 k] by simp
  qed
  ultimately obtain s' bs' C' where s': "writei dp (dirent_bytes e) (of_nat (16 * k)) (of_nat (length (dirent_bytes e))) s2 = Some (int (length (dirent_bytes e)), s')"
    "file_st p (set bs') C' dp i nb s'" "written C i nb (16 * k) (dirent_bytes e) C'"
    "fsys s' = (fsys s2)\<lparr>bcache := bcache (fsys s'), log := (log (fsys s2))\<lparr>lg_lh := lg_lh (log (fsys s'))\<rparr>\<rparr>"
    using writei_ok [OF d2(1)] by metis
  have en: "dir_entries C' i = (dir_entries C i)[k := e]"
    by (rule written_entry [OF s'(3) e(1) file_okD(5) [OF file_stD(6) [OF d(1)]]])
  have "dirlink dp name inum s = Some (0, s')"
    using s1(3) s2(3) s'(1) d(2,4) unfolding e(2) by (simp add: dirlink_def dirlookup_def Let_def e_def)
  moreover have "dir_st p (set bs') C' dp i nb s'" using s'(2) st by (simp add: dir_st_def)
  moreover have "inodes s' = inodes s" by (subst s'(4), subst f2) simp
  moreover have "\<forall>n. dir_lookup C' i n = (if name_key n = name_key name then Some inum else dir_lookup C i n)"
  proof
    fix n
    have "find_entry n (dir_entries C i) \<noteq> Some k" using k(2) by (auto simp: find_entry_def dest: first_ix_SomeD)
    moreover have "find_entry n (dir_entries C' i) = (if name_key n = name_key name then Some k else find_entry n (dir_entries C i))"
      unfolding en by (rule find_entry_update [OF ne k e(4)]) (simp add: e_def)
    ultimately show "dir_lookup C' i n = (if name_key n = name_key name then Some inum else dir_lookup C i n)"
      using e(3) k(1) en unfolding dir_lookup_def
      by (cases "find_entry n (dir_entries C i)") (auto simp: nth_list_update)
  qed
  ultimately show thesis by (rule that)
qed



end
