(* ===== verification/Mkfs.thy ===== *)
theory Mkfs
  imports DirContent
begin

text \<open>
  The program that builds the initial file system image (\<open>mkfs.c\<close>).  \<open>mk_img\<close> is the image file
  as a list of its sectors; the other fields are the global variables.  The result \<open>None\<close> is a run
  that ends with an error: a read past the end of the image, a failed assertion, or a file that
  cannot be opened.  The functions that share their name with one of the kernel have a prefix.
\<close>

abbreviation (input) FSSIZE :: nat where "FSSIZE \<equiv> 1000"
abbreviation (input) NINODES :: nat where "NINODES \<equiv> 200"
abbreviation (input) nbitmap :: nat where "nbitmap \<equiv> FSSIZE div (BSIZE * 8) + 1"
abbreviation (input) ninodeblocks :: nat where "ninodeblocks \<equiv> NINODES div IPB + 1"
abbreviation (input) nlog :: nat where "nlog \<equiv> LOGSIZE"
abbreviation (input) nmeta :: nat where "nmeta \<equiv> 2 + nlog + ninodeblocks + nbitmap"

record mkfs =
  mk_img :: "block list"
  mk_sb :: superblock
  mk_freeinode :: uint
  mk_freeblock :: uint

section \<open>Byte order\<close>

text \<open>
  The value of the integer whose bytes are those of \<open>x\<close>, least significant first, on the
  little-endian host that runs the program.
\<close>

definition xshort :: "16 word \<Rightarrow> 16 word" where
  "xshort x = get_u16 (bytes16 x) 0"

definition xint :: "uint \<Rightarrow> uint" where
  "xint x = get_u32 (bytes32 x) 0"

section \<open>Sectors\<close>

text \<open>The sector at offset \<open>sec * BSIZE\<close> of the image.\<close>

definition sect :: "uint \<Rightarrow> nat" where
  "sect sec = unat (sec * of_nat BSIZE) div BSIZE"

definition wsect :: "uint \<Rightarrow> block \<Rightarrow> mkfs \<Rightarrow> mkfs" where
  "wsect sec buf s = s\<lparr>mk_img :=
     (if sect sec < length (mk_img s) then (mk_img s)[sect sec := buf]
      else mk_img s @ replicate (sect sec - length (mk_img s)) (replicate BSIZE 0) @ [buf])\<rparr>"

definition rsect :: "uint \<Rightarrow> mkfs \<Rightarrow> block option" where
  "rsect sec s = nth_opt (mk_img s) (sect sec)"

section \<open>Inodes\<close>

definition winode :: "uint \<Rightarrow> dinode \<Rightarrow> mkfs \<Rightarrow> mkfs option" where
  "winode inum ip s = do {
     let bn = IBLOCK inum (mk_sb s);
     buf \<leftarrow> rsect bn s;
     Some (wsect bn (put_at buf (dinode_off inum) (dinode_bytes ip)) s)
   }"

definition rinode :: "uint \<Rightarrow> mkfs \<Rightarrow> dinode option" where
  "rinode inum s = do {
     let bn = IBLOCK inum (mk_sb s);
     buf \<leftarrow> rsect bn s;
     Some (get_dinode buf (dinode_off inum))
   }"

definition mk_ialloc :: "16 word \<Rightarrow> mkfs \<Rightarrow> (uint \<times> mkfs) option" where
  "mk_ialloc ty s = do {
     let inum = mk_freeinode s;
     let s = s\<lparr>mk_freeinode := inum + 1\<rparr>;
     let din = \<lparr>di_type = xshort ty, di_major = 0, di_minor = 0, di_nlink = xshort 1, di_size = xint 0,
       di_addrs = replicate (NDIRECT + 1) 0\<rparr>;
     s \<leftarrow> winode inum din s;
     Some (inum, s)
   }"

definition mk_balloc :: "int \<Rightarrow> mkfs \<Rightarrow> mkfs option" where
  "mk_balloc used s =
     (if used < int (BSIZE * 8) then do {
        let buf = foldl (\<lambda>buf i. buf[i div 8 := buf ! (i div 8) OR bit_mask i]) (replicate BSIZE 0) [0..<nat used];
        Some (wsect (sb_bmapstart (mk_sb s)) buf s)
      } else None)"

section \<open>Appending to a file\<close>

definition take_block :: "mkfs \<Rightarrow> uint \<times> mkfs" where
  "take_block s = (mk_freeblock s, s\<lparr>mk_freeblock := mk_freeblock s + 1\<rparr>)"

text \<open>The block of the image that holds block \<open>fbn\<close> of the file, allocated when there is none.\<close>

definition file_block :: "nat \<Rightarrow> dinode \<Rightarrow> mkfs \<Rightarrow> (uint \<times> dinode \<times> mkfs) option" where
  "file_block fbn din s =
     (if fbn < NDIRECT then
        let (din, s) =
          (if xint (di_addrs din ! fbn) = 0 then
             let (b, s) = take_block s in (din\<lparr>di_addrs := (di_addrs din)[fbn := xint b]\<rparr>, s)
           else (din, s))
        in Some (xint (di_addrs din ! fbn), din, s)
      else do {
        let (din, s) =
          (if xint (di_addrs din ! NDIRECT) = 0 then
             let (b, s) = take_block s in (din\<lparr>di_addrs := (di_addrs din)[NDIRECT := xint b]\<rparr>, s)
           else (din, s));
        indirect \<leftarrow> rsect (xint (di_addrs din ! NDIRECT)) s;
        let (indirect, s) =
          (if get_u32 indirect (4 * (fbn - NDIRECT)) = 0 then
             let (b, s) = take_block s;
                 indirect = put_u32 indirect (4 * (fbn - NDIRECT)) (xint b)
             in (indirect, wsect (xint (di_addrs din ! NDIRECT)) indirect s)
           else (indirect, s));
        Some (xint (get_u32 indirect (4 * (fbn - NDIRECT))), din, s)
      })"

text \<open>\<open>p\<close> are the bytes that are left; \<open>n\<close> of the source is their number.\<close>

partial_function (option) iappend_loop :: "uint \<Rightarrow> dinode \<Rightarrow> byte list \<Rightarrow> mkfs \<Rightarrow> (uint \<times> dinode \<times> mkfs) option" where
  "iappend_loop off din p s =
     (if p = [] then Some (off, din, s)
      else do {
        let fbn = unat off div BSIZE;
        if fbn < MAXFILE then do {
          (x, din, s) \<leftarrow> file_block fbn din s;
          let n1 = min (length p) ((fbn + 1) * BSIZE - unat off);
          buf \<leftarrow> rsect x s;
          let s = wsect x (put_at buf (unat off - fbn * BSIZE) (take n1 p)) s;
          iappend_loop (off + of_nat n1) din (drop n1 p) s
        } else None
      })"

definition iappend :: "uint \<Rightarrow> byte list \<Rightarrow> mkfs \<Rightarrow> mkfs option" where
  "iappend inum p s = do {
     din \<leftarrow> rinode inum s;
     (off, din, s) \<leftarrow> iappend_loop (xint (di_size din)) din p s;
     winode inum (din\<lparr>di_size := xint off\<rparr>) s
   }"

section \<open>The program\<close>

definition superblock_bytes :: "superblock \<Rightarrow> byte list" where
  "superblock_bytes su = bytes32 (sb_size su) @ bytes32 (sb_nblocks su) @ bytes32 (sb_ninodes su) @ bytes32 (sb_nlog su) @
     bytes32 (sb_logstart su) @ bytes32 (sb_inodestart su) @ bytes32 (sb_bmapstart su)"

definition mk_super :: superblock where
  "mk_super = \<lparr>sb_size = xint (of_nat FSSIZE), sb_nblocks = xint (of_nat (FSSIZE - nmeta)), sb_ninodes = xint (of_nat NINODES),
     sb_nlog = xint (of_nat nlog), sb_logstart = xint 2, sb_inodestart = xint (of_nat (2 + nlog)),
     sb_bmapstart = xint (of_nat (2 + nlog + ninodeblocks))\<rparr>"

text \<open>The image with zero sectors and the super block, before the first inode.\<close>

definition mk_start :: mkfs where
  "mk_start =
     (let s = \<lparr>mk_img = [], mk_sb = mk_super, mk_freeinode = 1, mk_freeblock = of_nat nmeta\<rparr>;
          s = foldl (\<lambda>s i. wsect (of_nat i) (replicate BSIZE 0) s) s [0..<FSSIZE];
          buf = put_at (replicate BSIZE 0) 0 (superblock_bytes mk_super)
      in wsect 1 buf s)"

definition mk_link :: "uint \<Rightarrow> uint \<Rightarrow> byte list \<Rightarrow> mkfs \<Rightarrow> mkfs option" where
  "mk_link rootino inum name s = iappend rootino (dirent_bytes \<lparr>de_inum = xshort (ucast inum), de_name = strncpy_l 0 name DIRSIZ\<rparr>) s"

text \<open>What the calls of \<open>read\<close> return, one after the other, until one returns nothing.\<close>

fun copy_file :: "uint \<Rightarrow> byte list list \<Rightarrow> mkfs \<Rightarrow> mkfs option" where
  "copy_file inum [] s = Some s"
| "copy_file inum (buf # rds) s =
     (if buf = [] then Some s
      else do {
        s \<leftarrow> iappend inum buf s;
        copy_file inum rds s
      })"

text \<open>The arguments: the name of each file, and what is read from it or \<open>None\<close> when it does not open.\<close>

type_synonym mkfile = "byte list \<times> byte list list option"

definition add_file :: "uint \<Rightarrow> mkfile \<Rightarrow> mkfs \<Rightarrow> mkfs option" where
  "add_file rootino f s =
     (let (name, data) = f
      in if 47 \<in> set name then None
         else do {
           rds \<leftarrow> data;
           let name = (if name \<noteq> [] \<and> hd name = 95 then tl name else name);
           (inum, s) \<leftarrow> mk_ialloc T_FILE s;
           s \<leftarrow> mk_link rootino inum name s;
           copy_file inum rds s
         })"

fun add_files :: "uint \<Rightarrow> mkfile list \<Rightarrow> mkfs \<Rightarrow> mkfs option" where
  "add_files rootino [] s = Some s"
| "add_files rootino (f # fs) s = do {
     s \<leftarrow> add_file rootino f s;
     add_files rootino fs s
   }"

definition mkfs_main :: "mkfile list \<Rightarrow> mkfs option" where
  "mkfs_main files = do {
     (rootino, s) \<leftarrow> mk_ialloc T_DIR mk_start;
     if rootino \<noteq> ROOTINO then None
     else do {
       s \<leftarrow> mk_link rootino rootino [46] s;
       s \<leftarrow> mk_link rootino rootino [46, 46] s;
       s \<leftarrow> add_files rootino files s;
       din \<leftarrow> rinode rootino s;
       let off = xint (di_size din);
       let off = ((off div of_nat BSIZE) + 1) * of_nat BSIZE;
       s \<leftarrow> winode rootino (din\<lparr>di_size := xint off\<rparr>) s;
       mk_balloc (sint (mk_freeblock s)) s
     }
   }"

end
