(* ===== verification/MkfsImage.thy ===== *)
theory MkfsImage
  imports Mkfs
begin

text \<open>
  The image that \<open>mkfs\<close> builds.  \<open>mk_disk s\<close> are the contents of its blocks, as the kernel sees them;
  \<open>fs_img s L\<close> says that inode \<open>j + 1\<close> of the image is a file of the type and with the bytes that \<open>L ! j\<close>
  gives, in blocks of its own.
\<close>

section \<open>Sectors and inodes\<close>

lemma xint [simp]: "xint x = x"
  using get_bytes32 [of "[]" x "[]"] by (simp add: xint_def)

lemma xshort [simp]: "xshort x = x"
  using get_bytes16 [of "[]" x "[]"] by (simp add: xshort_def)

lemma sect: "unat x < FSSIZE \<Longrightarrow> sect x = unat x"
  by (simp add: sect_def unat_word_ariths)

definition mk_disk :: "mkfs \<Rightarrow> nat \<Rightarrow> block" where
  "mk_disk s n = (if n < length (mk_img s) then mk_img s ! n else replicate BSIZE 0)"

definition img_ok :: "mkfs \<Rightarrow> bool" where
  "img_ok s \<longleftrightarrow> length (mk_img s) = FSSIZE \<and> (\<forall>n. length (mk_disk s n) = BSIZE)"

lemma rsect_ok: "img_ok s \<Longrightarrow> unat x < FSSIZE \<Longrightarrow> rsect x s = Some (mk_disk s (unat x))"
  by (simp add: rsect_def sect img_ok_def mk_disk_def)

lemma wsect_ok:
  assumes "img_ok s" "unat x < FSSIZE" "length d = BSIZE"
  shows "img_ok (wsect x d s)" "mk_disk (wsect x d s) = (mk_disk s)(unat x := d)"
proof -
  show "mk_disk (wsect x d s) = (mk_disk s)(unat x := d)"
    using assms by (auto simp: mk_disk_def wsect_def sect img_ok_def fun_eq_iff)
  then show "img_ok (wsect x d s)" using assms by (simp add: img_ok_def wsect_def sect)
qed

lemma wsect_frame [simp]:
  "mk_sb (wsect x d s) = mk_sb s" "mk_freeinode (wsect x d s) = mk_freeinode s" "mk_freeblock (wsect x d s) = mk_freeblock s"
  by (simp_all add: wsect_def)

lemma mk_disk_frame [simp]: "mk_disk (s\<lparr>mk_freeinode := a\<rparr>) = mk_disk s" "mk_disk (s\<lparr>mk_freeblock := a\<rparr>) = mk_disk s"
  by (simp_all add: mk_disk_def fun_eq_iff)

lemma img_ok_frame [simp]: "img_ok (s\<lparr>mk_freeinode := a\<rparr>) = img_ok s" "img_ok (s\<lparr>mk_freeblock := a\<rparr>) = img_ok s"
  by (simp_all add: img_ok_def)

text \<open>Reading integers back from what \<open>put_at\<close> has stored.\<close>

lemma get_put_at:
  assumes "k + length src \<le> length d" "o' + 2 \<le> length src"
  shows "get_u16 (put_at d k src) (k + o') = get_u16 src o'"
  using assms by (simp add: get_u16_def nth_put_at)

lemma get32_put_at:
  assumes "k + length src \<le> length d" "o' + 4 \<le> length src"
  shows "get_u32 (put_at d k src) (k + o') = get_u32 src o'"
  using assms by (simp add: get_u32_def nth_put_at)

lemma get_words: "j < length ws \<Longrightarrow> get_u32 (pre @ concat (map bytes32 ws) @ post) (length pre + 4 * j) = ws ! j"
proof (induction ws arbitrary: pre j)
  case (Cons w ws)
  show ?case
  proof (cases j)
    case 0
    then show ?thesis using get_bytes32 [of pre w "concat (map bytes32 ws) @ post"] by simp
  next
    case (Suc i)
    then show ?thesis using Cons.IH [of i "pre @ bytes32 w"] Cons.prems by (simp add: algebra_simps)
  qed
qed simp

lemma length_words: "length (concat (map bytes32 ws)) = 4 * length ws"
  by (induction ws) simp_all

lemma length_dinode_bytes: "length (di_addrs di) = 13 \<Longrightarrow> length (dinode_bytes di) = 64"
  by (simp add: dinode_bytes_def length_words)

lemma get_dinode_bytes:
  assumes "length (di_addrs di) = 13"
  shows "get_dinode (dinode_bytes di) 0 = di"
proof -
  let ?t = "bytes16 (di_type di)" and ?ma = "bytes16 (di_major di)" and ?mi = "bytes16 (di_minor di)" and ?nl = "bytes16 (di_nlink di)"
    and ?sz = "bytes32 (di_size di)" and ?as = "concat (map bytes32 (di_addrs di))"
  have "get_u16 (dinode_bytes di) 0 = di_type di" "get_u16 (dinode_bytes di) 2 = di_major di" "get_u16 (dinode_bytes di) 4 = di_minor di"
    "get_u16 (dinode_bytes di) 6 = di_nlink di" "get_u32 (dinode_bytes di) 8 = di_size di"
    using get_bytes16 [of "[]" "di_type di" "?ma @ ?mi @ ?nl @ ?sz @ ?as"] get_bytes16 [of ?t "di_major di" "?mi @ ?nl @ ?sz @ ?as"]
      get_bytes16 [of "?t @ ?ma" "di_minor di" "?nl @ ?sz @ ?as"] get_bytes16 [of "?t @ ?ma @ ?mi" "di_nlink di" "?sz @ ?as"]
      get_bytes32 [of "?t @ ?ma @ ?mi @ ?nl" "di_size di" ?as] by (simp_all add: dinode_bytes_def)
  moreover have "map (\<lambda>j. get_u32 (dinode_bytes di) (12 + 4 * j)) [0..<13] = di_addrs di"
    using get_words [of _ "di_addrs di" "?t @ ?ma @ ?mi @ ?nl @ ?sz" "[]"] assms
    by (intro nth_equalityI) (simp_all add: dinode_bytes_def)
  ultimately show ?thesis by (simp add: get_dinode_def flip: numeral_2_eq_2)
qed

lemma dinode_put:
  assumes "length d = BSIZE" "length (di_addrs di) = 13" "k < 16" "j < 16"
  shows "get_dinode (put_at d (64 * k) (dinode_bytes di)) (64 * j) = (if j = k then di else get_dinode d (64 * j))"
proof (cases "j = k")
  case True
  have b: "64 * k + length (dinode_bytes di) \<le> length d" using assms by (simp add: length_dinode_bytes)
  have "get_dinode (put_at d (64 * k) (dinode_bytes di)) (64 * k) = get_dinode (dinode_bytes di) 0"
    using get_put_at [OF b, of 0] get_put_at [OF b, of 2] get_put_at [OF b, of 4] get_put_at [OF b, of 6] get32_put_at [OF b] assms(2)
    by (simp add: get_dinode_def length_dinode_bytes add.assoc numeral_2_eq_2)
  then show ?thesis using True get_dinode_bytes [OF assms(2)] by simp
next
  case False
  have n: "put_at d (64 * k) (dinode_bytes di) ! x = d ! x" if "x < 64 * k \<or> 64 * k + 64 \<le> x" for x
    using nth_put_at [of "64 * k" "dinode_bytes di" d x] assms that by (auto simp: length_dinode_bytes)
  have "64 * j + 64 \<le> 64 * k \<or> 64 * k + 64 \<le> 64 * j" using False by linarith
  then have e: "put_at d (64 * k) (dinode_bytes di) ! y = d ! y" if "64 * j \<le> y" "y < 64 * j + 64" for y using n that by auto
  have "get_u16 (put_at d (64 * k) (dinode_bytes di)) y = get_u16 d y" if "64 * j \<le> y" "y + 2 \<le> 64 * j + 64" for y
    using e [of y] e [of "y + 1"] that by (simp add: get_u16_def)
  moreover have "get_u32 (put_at d (64 * k) (dinode_bytes di)) y = get_u32 d y" if "64 * j \<le> y" "y + 4 \<le> 64 * j + 64" for y
    using e [of y] e [of "y + 1"] e [of "y + 2"] e [of "y + 3"] that by (simp add: get_u32_def)
  ultimately show ?thesis using False by (simp add: get_dinode_def)
qed

section \<open>The blocks of a file\<close>

text \<open>The value of \<open>nmeta\<close>.\<close>

abbreviation (input) first_data :: nat where "first_data \<equiv> 46"

text \<open>An inode with the block addresses \<open>a\<close>; the other fields do not matter for its blocks.\<close>

definition adr :: "uint list \<Rightarrow> inode" where
  "adr a = inode0\<lparr>i_dev := 1, i_addrs := a\<rparr>"

lemma adr_simps [simp]: "i_addrs (adr a) = a" "i_dev (adr a) = 1" "i_type (adr a) = 0" "i_size (adr a) = 0"
  by (simp_all add: adr_def inode0_def)

lemma baddr_adr: "baddr C i bn = baddr C (adr (i_addrs i)) bn"
  by (simp add: baddr_def)

text \<open>
  Blocks \<open>0\<close> to \<open>nb - 1\<close> of the file are allocated between the metadata and \<open>fb\<close>, the others are
  not; \<open>m\<close> says whether there is an indirect block.
\<close>

definition blocks_ok :: "(nat \<Rightarrow> block) \<Rightarrow> nat \<Rightarrow> uint list \<Rightarrow> nat \<Rightarrow> bool \<Rightarrow> bool" where
  "blocks_ok C fb a nb m \<longleftrightarrow> length a = NDIRECT + 1 \<and> nb \<le> MAXFILE \<and> fb \<le> FSSIZE \<and> (NDIRECT < nb \<longrightarrow> m) \<and>
     (\<forall>bn<nb. first_data \<le> baddr C (adr a) bn \<and> baddr C (adr a) bn < fb) \<and> inj_on (baddr C (adr a)) {..<nb} \<and>
     (\<forall>bn<NDIRECT. nb \<le> bn \<longrightarrow> a ! bn = 0) \<and>
     (if m then first_data \<le> unat (a ! NDIRECT) \<and> unat (a ! NDIRECT) < fb \<and> unat (a ! NDIRECT) \<notin> baddr C (adr a) ` {..<nb} \<and>
        (\<forall>e<NINDIRECT. nb \<le> NDIRECT + e \<longrightarrow> get_u32 (C (unat (a ! NDIRECT))) (4 * e) = 0)
      else a ! NDIRECT = 0)"

lemma blocks_okD:
  assumes "blocks_ok C fb a nb m"
  shows "length a = NDIRECT + 1" "nb \<le> MAXFILE" "fb \<le> FSSIZE" "NDIRECT < nb \<Longrightarrow> m"
    "\<And>bn. bn < nb \<Longrightarrow> first_data \<le> baddr C (adr a) bn" "\<And>bn. bn < nb \<Longrightarrow> baddr C (adr a) bn < fb" "inj_on (baddr C (adr a)) {..<nb}"
    "\<And>bn. bn < NDIRECT \<Longrightarrow> nb \<le> bn \<Longrightarrow> a ! bn = 0" "\<not> m \<Longrightarrow> a ! NDIRECT = 0"
    "m \<Longrightarrow> first_data \<le> unat (a ! NDIRECT)" "m \<Longrightarrow> unat (a ! NDIRECT) < fb" "m \<Longrightarrow> unat (a ! NDIRECT) \<notin> baddr C (adr a) ` {..<nb}"
    "\<And>e. m \<Longrightarrow> e < NINDIRECT \<Longrightarrow> nb \<le> NDIRECT + e \<Longrightarrow> get_u32 (C (unat (a ! NDIRECT))) (4 * e) = 0"
  using assms by (simp_all add: blocks_ok_def)

definition owned :: "(nat \<Rightarrow> block) \<Rightarrow> uint list \<Rightarrow> nat \<Rightarrow> bool \<Rightarrow> nat set" where
  "owned C a nb m = baddr C (adr a) ` {..<nb} \<union> (if m then {unat (a ! NDIRECT)} else {})"

text \<open>Such a file is a file for the kernel.\<close>

lemma blocks_file_ok:
  assumes "blocks_ok C fb a nb m" "i_addrs i = a" "i_dev i = 1" "i_type i \<noteq> T_DEV" "unat (i_size i) \<le> nb * BSIZE"
  shows "file_ok FSSIZE 2 C i nb"
proof -
  note d = blocks_okD [OF assms(1)]
  have "baddr C i = baddr C (adr a)" using baddr_adr [of C i] assms(2) by (simp add: fun_eq_iff)
  moreover have "0 < x \<and> x < FSSIZE \<and> outside_log 2 x" if "first_data \<le> x" "x < fb" for x using that d(3) by (auto simp: outside_log_def)
  then have "\<forall>bn<nb. 0 < baddr C (adr a) bn \<and> baddr C (adr a) bn < FSSIZE \<and> outside_log 2 (baddr C (adr a) bn)"
    "NDIRECT < nb \<longrightarrow> 0 < unat (a ! NDIRECT) \<and> unat (a ! NDIRECT) < FSSIZE" using d(4-6,10,11) by blast+
  ultimately show ?thesis using d(1,2,4,7,12) assms(2-5) by (simp add: file_ok_def)
qed

section \<open>Allocating a block\<close>

text \<open>A file only depends on its indirect block and its addresses.\<close>

lemma baddr_cong:
  assumes "bn < NDIRECT \<or> C' (unat (a ! NDIRECT)) = C (unat (a ! NDIRECT))"
  shows "baddr C' (adr a) bn = baddr C (adr a) bn"
  using assms by (auto simp: baddr_def)

text \<open>A new block at the end of the file, at the address \<open>fb\<close>.\<close>

lemma add_direct:
  assumes b: "blocks_ok C fb a nb m" and n: "nb < NDIRECT" "\<not> m" and f: "first_data \<le> fb" "fb < FSSIZE"
  defines "a' \<equiv> a[nb := of_nat fb]"
  shows "blocks_ok C (fb + 1) a' (nb + 1) m" "baddr C (adr a') nb = fb" "\<And>bn. bn < nb \<Longrightarrow> baddr C (adr a') bn = baddr C (adr a) bn"
    "owned C a' (nb + 1) m = insert fb (owned C a nb m)"
proof -
  note d = blocks_okD [OF b]
  have u: "unat (of_nat fb :: uint) = fb" using f by (simp add: unat_of_nat)
  show new: "baddr C (adr a') nb = fb" using n d(1) u by (simp add: baddr_def a'_def)
  show old: "baddr C (adr a') bn = baddr C (adr a) bn" if "bn < nb" for bn using that n by (simp add: baddr_def a'_def)
  have im: "baddr C (adr a') ` {..<nb + 1} = insert fb (baddr C (adr a) ` {..<nb})"
    using new old by (auto simp: lessThan_Suc)
  have "inj_on (baddr C (adr a')) {..<nb + 1}"
    using d(6,7) new old by (fastforce simp: lessThan_Suc inj_on_def)
  then show "blocks_ok C (fb + 1) a' (nb + 1) m"
    using d n f new old unfolding blocks_ok_def by (auto simp: less_Suc_eq a'_def intro: less_SucI)
  show "owned C a' (nb + 1) m = insert fb (owned C a nb m)" using im n by (simp add: owned_def)
qed

lemma add_indirect_block:
  assumes b: "blocks_ok C fb a NDIRECT False" and f: "first_data \<le> fb" "fb < FSSIZE" and z: "C fb = replicate BSIZE 0"
  defines "a' \<equiv> a[NDIRECT := of_nat fb]"
  shows "blocks_ok C (fb + 1) a' NDIRECT True" "\<And>bn. bn < NDIRECT \<Longrightarrow> baddr C (adr a') bn = baddr C (adr a) bn"
    "owned C a' NDIRECT True = insert fb (owned C a NDIRECT False)"
proof -
  note d = blocks_okD [OF b]
  have u: "unat (of_nat fb :: uint) = fb" "unat (a' ! NDIRECT) = fb" using f d(1) by (simp_all add: unat_of_nat a'_def)
  show old: "baddr C (adr a') bn = baddr C (adr a) bn" if "bn < NDIRECT" for bn using that by (simp add: baddr_def a'_def)
  have im: "baddr C (adr a') ` {..<NDIRECT} = baddr C (adr a) ` {..<NDIRECT}" using old by (intro image_cong) simp_all
  have "inj_on (baddr C (adr a')) {..<NDIRECT}" using d(7) old by (simp add: inj_on_def)
  moreover have "get_u32 (C fb) (4 * e) = 0" if "e < NINDIRECT" for e using that z by (simp add: get_u32_def)
  moreover have "fb \<notin> baddr C (adr a) ` {..<NDIRECT}" using d(6) by fastforce
  moreover have "length a' = NDIRECT + 1" using d(1) by (simp add: a'_def)
  ultimately show "blocks_ok C (fb + 1) a' NDIRECT True"
    using d(5,6) f old u(2) im unfolding blocks_ok_def by (auto intro: less_SucI)
  show "owned C a' NDIRECT True = insert fb (owned C a NDIRECT False)" using im u(2) by (simp add: owned_def)
qed

lemma add_indirect:
  assumes b: "blocks_ok C fb a nb True" and n: "NDIRECT \<le> nb" "nb < MAXFILE" and f: "first_data \<le> fb" "fb < FSSIZE"
    and len: "\<And>n. length (C n) = BSIZE"
  defines "ind \<equiv> unat (a ! NDIRECT)"
  defines "C' \<equiv> C(ind := put_u32 (C ind) (4 * (nb - NDIRECT)) (of_nat fb))"
  shows "blocks_ok C' (fb + 1) a (nb + 1) True" "baddr C' (adr a) nb = fb" "\<And>bn. bn < nb \<Longrightarrow> baddr C' (adr a) bn = baddr C (adr a) bn"
    "owned C' a (nb + 1) True = insert fb (owned C a nb True)" "\<And>n. length (C' n) = BSIZE"
proof -
  note d = blocks_okD [OF b]
  have u: "unat (of_nat fb :: uint) = fb" using f by (simp add: unat_of_nat)
  have rng: "4 * (nb - NDIRECT) + 4 \<le> length (C ind)" using n len by simp
  show len': "length (C' n) = BSIZE" for n using len rng by (simp add: C'_def put_u32_def)
  show new: "baddr C' (adr a) nb = fb" using n u get_put_u32 [OF rng] by (simp add: baddr_def C'_def ind_def)
  show old: "baddr C' (adr a) bn = baddr C (adr a) bn" if "bn < nb" for bn
  proof (cases "bn < NDIRECT")
    case False
    then have "4 * (bn - NDIRECT) + 4 \<le> 4 * (nb - NDIRECT)" using that by simp
    then show ?thesis using False get_put_u32_other [OF rng, of "4 * (bn - NDIRECT)"] by (simp add: baddr_def C'_def ind_def)
  qed (simp add: baddr_def)
  have rest: "get_u32 (C' ind) (4 * e) = 0" if "e < NINDIRECT" "nb + 1 \<le> NDIRECT + e" for e
  proof -
    have "4 * (nb - NDIRECT) + 4 \<le> 4 * e" using that n by linarith
    then show ?thesis using d(13) [of e] that get_put_u32_other [OF rng, of "4 * e"] by (simp add: C'_def ind_def)
  qed
  have im: "baddr C' (adr a) ` {..<nb + 1} = insert fb (baddr C (adr a) ` {..<nb})" using new old by (auto simp: lessThan_Suc)
  have inj: "inj_on (baddr C' (adr a)) {..<nb + 1}" using d(6,7) new old by (fastforce simp: lessThan_Suc inj_on_def)
  have "ind \<noteq> fb" "ind \<notin> baddr C (adr a) ` {..<nb}" using d(11,12) by (auto simp: ind_def)
  then have "ind \<notin> baddr C' (adr a) ` {..<nb + 1}" unfolding im by simp
  moreover have "first_data \<le> baddr C' (adr a) bn \<and> baddr C' (adr a) bn < fb + 1" if "bn < nb + 1" for bn
    using that new old [of bn] d(5,6) [of bn] f by (cases "bn = nb") auto
  ultimately show "blocks_ok C' (fb + 1) a (nb + 1) True"
    using d(1,8,10,11) n f inj rest by (simp add: blocks_ok_def ind_def)
  show "owned C' a (nb + 1) True = insert fb (owned C a nb True)" using im by (simp add: owned_def insert_commute)
qed

section \<open>One block of a file\<close>

definition blocks_for :: "nat \<Rightarrow> nat" where
  "blocks_for nb = nb + (if NDIRECT < nb then 1 else 0)"

text \<open>The image between two steps: the blocks from \<open>mk_freeblock\<close> on are unused and zero.\<close>

definition img_st :: "mkfs \<Rightarrow> nat \<Rightarrow> bool" where
  "img_st s fb \<longleftrightarrow> img_ok s \<and> mk_freeblock s = of_nat fb \<and> first_data \<le> fb \<and> fb \<le> FSSIZE \<and>
     (\<forall>n. fb \<le> n \<longrightarrow> mk_disk s n = replicate BSIZE 0)"

lemma img_stD:
  assumes "img_st s fb"
  shows "img_ok s" "mk_freeblock s = of_nat fb" "first_data \<le> fb" "fb \<le> FSSIZE" "\<And>n. fb \<le> n \<Longrightarrow> mk_disk s n = replicate BSIZE 0"
    "\<And>n. length (mk_disk s n) = BSIZE"
  using assms by (simp_all add: img_st_def img_ok_def)

text \<open>
  A file has grown from \<open>nb\<close> to \<open>nb'\<close> blocks, and nothing but its indirect block has been written;
  the new blocks come from those that were unused.
\<close>

definition grows :: "(nat \<Rightarrow> block) \<Rightarrow> nat \<Rightarrow> uint list \<Rightarrow> nat \<Rightarrow> (nat \<Rightarrow> block) \<Rightarrow> nat \<Rightarrow> uint list \<Rightarrow> nat \<Rightarrow> bool" where
  "grows C fb a nb C' fb' a' nb' \<longleftrightarrow> blocks_ok C' fb' a' nb' (NDIRECT < nb') \<and> fb \<le> fb' \<and> fb' + blocks_for nb = fb + blocks_for nb' \<and>
     (\<forall>bn<nb. baddr C' (adr a') bn = baddr C (adr a) bn) \<and> (\<forall>bn<nb'. nb \<le> bn \<longrightarrow> fb \<le> baddr C' (adr a') bn) \<and>
     (\<forall>bn<nb'. C' (baddr C' (adr a') bn) = C (baddr C' (adr a') bn)) \<and>
     owned C' a' nb' (NDIRECT < nb') \<subseteq> owned C a nb (NDIRECT < nb) \<union> {fb..<fb'} \<and>
     (\<forall>n. n \<notin> owned C a nb (NDIRECT < nb) \<union> {fb..<fb'} \<longrightarrow> C' n = C n)"

lemma growsD:
  assumes "grows C fb a nb C' fb' a' nb'"
  shows "blocks_ok C' fb' a' nb' (NDIRECT < nb')" "fb \<le> fb'" "fb' + blocks_for nb = fb + blocks_for nb'"
    "\<And>bn. bn < nb \<Longrightarrow> baddr C' (adr a') bn = baddr C (adr a) bn" "\<And>bn. bn < nb' \<Longrightarrow> nb \<le> bn \<Longrightarrow> fb \<le> baddr C' (adr a') bn"
    "\<And>bn. bn < nb' \<Longrightarrow> C' (baddr C' (adr a') bn) = C (baddr C' (adr a') bn)"
    "owned C' a' nb' (NDIRECT < nb') \<subseteq> owned C a nb (NDIRECT < nb) \<union> {fb..<fb'}"
    "\<And>n. n \<notin> owned C a nb (NDIRECT < nb) \<union> {fb..<fb'} \<Longrightarrow> C' n = C n"
  using assms unfolding grows_def by blast+

lemma grows_refl: "blocks_ok C fb a nb (NDIRECT < nb) \<Longrightarrow> grows C fb a nb C fb a nb"
  by (simp add: grows_def)

lemma grows_direct:
  assumes b: "blocks_ok C fb a nb (NDIRECT < nb)" and n: "nb < NDIRECT" and f: "first_data \<le> fb" "fb < FSSIZE"
  shows "grows C fb a nb C (fb + 1) (a[nb := of_nat fb]) (nb + 1)"
proof -
  have m: "(NDIRECT < nb) = False" "(NDIRECT < nb + 1) = False" using n by auto
  note g = add_direct [OF b [unfolded m] n _ f, simplified]
  have "owned C (a[nb := of_nat fb]) (nb + 1) False \<subseteq> owned C a nb False \<union> {fb..<fb + 1}" using g(4) by auto
  moreover have "\<forall>bn<nb + 1. nb \<le> bn \<longrightarrow> fb \<le> baddr C (adr (a[nb := of_nat fb])) bn" using g(2) by (auto simp: less_Suc_eq)
  ultimately show ?thesis using g(1,3) n unfolding grows_def m blocks_for_def by auto
qed

lemma grows_indirect:
  assumes b: "blocks_ok C fb a nb True" and n: "NDIRECT \<le> nb" "nb < MAXFILE" and f: "first_data \<le> fb" "fb < FSSIZE"
    and len: "\<And>n. length (C n) = BSIZE"
  defines "C' \<equiv> C(unat (a ! NDIRECT) := put_u32 (C (unat (a ! NDIRECT))) (4 * (nb - NDIRECT)) (of_nat fb))"
  shows "blocks_ok C' (fb + 1) a (nb + 1) True" "\<forall>bn<nb. baddr C' (adr a) bn = baddr C (adr a) bn" "baddr C' (adr a) nb = fb"
    "\<forall>bn<nb + 1. C' (baddr C' (adr a) bn) = C (baddr C' (adr a) bn)" "owned C' a (nb + 1) True = insert fb (owned C a nb True)"
    "\<forall>n. n \<notin> owned C a nb True \<longrightarrow> C' n = C n" "\<And>n. length (C' n) = BSIZE"
proof -
  note g = add_indirect [OF b n f len, folded C'_def]
  show "blocks_ok C' (fb + 1) a (nb + 1) True" "baddr C' (adr a) nb = fb" "\<forall>bn<nb. baddr C' (adr a) bn = baddr C (adr a) bn"
    "owned C' a (nb + 1) True = insert fb (owned C a nb True)" "\<And>n. length (C' n) = BSIZE" using g by simp_all
  have "unat (a ! NDIRECT) \<notin> baddr C' (adr a) ` {..<nb + 1}" using blocks_okD(12) [OF g(1)] by simp
  then show "\<forall>bn<nb + 1. C' (baddr C' (adr a) bn) = C (baddr C' (adr a) bn)" unfolding C'_def by (metis fun_upd_apply image_eqI lessThan_iff)
  show "\<forall>n. n \<notin> owned C a nb True \<longrightarrow> C' n = C n" by (auto simp: C'_def owned_def)
qed

lemma take_block_st:
  assumes "img_st s fb" "fb < FSSIZE"
  shows "img_st (s\<lparr>mk_freeblock := mk_freeblock s + 1\<rparr>) (fb + 1)"
  using assms by (simp add: img_st_def)

lemma new_entry_ok:
  assumes st: "img_st s fb" and b: "blocks_ok (mk_disk s) fb a nb True" and n: "NDIRECT \<le> nb" "nb < MAXFILE" and f: "fb < FSSIZE"
  defines "ind \<equiv> mk_disk s (unat (a ! NDIRECT))"
  defines "ind' \<equiv> put_u32 ind (4 * (nb - NDIRECT)) (of_nat fb)"
  defines "s' \<equiv> wsect (a ! NDIRECT) ind' (s\<lparr>mk_freeblock := mk_freeblock s + 1\<rparr>)"
  shows "rsect (a ! NDIRECT) s = Some ind" "get_u32 ind (4 * (nb - NDIRECT)) = 0" "get_u32 ind' (4 * (nb - NDIRECT)) = of_nat fb"
    "a ! NDIRECT \<noteq> 0" "img_st s' (fb + 1)" "mk_disk s' = (mk_disk s)(unat (a ! NDIRECT) := ind')"
proof -
  note d = blocks_okD [OF b] and i = img_stD [OF st]
  have lt: "unat (a ! NDIRECT) < fb" "unat (a ! NDIRECT) < FSSIZE" using d(3,11) by auto
  show "rsect (a ! NDIRECT) s = Some ind" using rsect_ok [OF i(1) lt(2)] by (simp add: ind_def)
  have "nb - NDIRECT < NINDIRECT" "nb \<le> NDIRECT + (nb - NDIRECT)" using n by linarith+
  then show "get_u32 ind (4 * (nb - NDIRECT)) = 0" unfolding ind_def by (rule d(13) [OF TrueI])
  have len: "4 * (nb - NDIRECT) + 4 \<le> length ind" using n i(6) by (simp add: ind_def)
  show "get_u32 ind' (4 * (nb - NDIRECT)) = of_nat fb" unfolding ind'_def by (rule get_put_u32 [OF len])
  show "a ! NDIRECT \<noteq> 0" using d(10) by auto
  have "length ind' = BSIZE" using len i(6) by (simp add: ind'_def put_u32_def ind_def)
  note w = wsect_ok [OF img_stD(1) [OF take_block_st [OF st f]] lt(2) this]
  show md: "mk_disk s' = (mk_disk s)(unat (a ! NDIRECT) := ind')" using w(2) by (simp add: s'_def)
  show "img_st s' (fb + 1)" using w(1) lt(1) i f unfolding img_st_def md by (simp add: s'_def)
qed

text \<open>The two cases in which the new block is not a direct one.\<close>

lemma file_block_indirect:
  assumes st: "img_st s fb" and b: "blocks_ok (mk_disk s) fb (di_addrs din) nb True"
    and n: "NDIRECT < nb" "nb < MAXFILE" and f: "fb < FSSIZE"
  obtains x s' where "file_block nb din s = Some (x, din, s')" "img_st s' (fb + 1)" "mk_sb s' = mk_sb s"
    "mk_freeinode s' = mk_freeinode s" "grows (mk_disk s) fb (di_addrs din) nb (mk_disk s') (fb + 1) (di_addrs din) (nb + 1)"
    "unat x = baddr (mk_disk s') (adr (di_addrs din)) nb"
proof -
  let ?a = "di_addrs din"
  have n': "NDIRECT \<le> nb" using n by simp
  note i = img_stD [OF st] and e = new_entry_ok [OF st b n' n(2) f] and g = grows_indirect [OF b n' n(2) img_stD(3) [OF st] f img_stD(6) [OF st]]
  let ?ind = "mk_disk s (unat (?a ! NDIRECT))"
  let ?s' = "wsect (?a ! NDIRECT) (put_u32 ?ind (4 * (nb - NDIRECT)) (of_nat fb)) (s\<lparr>mk_freeblock := mk_freeblock s + 1\<rparr>)"
  have "file_block nb din s = Some (of_nat fb, din, ?s')"
    using n e(1-4) i(2) by (simp add: file_block_def take_block_def Let_def)
  moreover have "grows (mk_disk s) fb ?a nb (mk_disk ?s') (fb + 1) ?a (nb + 1)"
  proof -
    have m: "(NDIRECT < nb) = True" "(NDIRECT < nb + 1) = True" using n by auto
    show ?thesis using g n unfolding grows_def e(6) m blocks_for_def by (auto simp: less_Suc_eq)
  qed
  moreover have "unat (of_nat fb :: uint) = baddr (mk_disk ?s') (adr ?a) nb" using g(3) f unfolding e(6) by (simp add: unat_of_nat)
  ultimately show thesis using that e(5) by simp
qed

lemma file_block_first:
  assumes st: "img_st s fb" and b: "blocks_ok (mk_disk s) fb (di_addrs din) NDIRECT False" and f: "fb + 1 < FSSIZE"
  obtains x a s' where "file_block NDIRECT din s = Some (x, din\<lparr>di_addrs := a\<rparr>, s')" "img_st s' (fb + 2)" "mk_sb s' = mk_sb s"
    "mk_freeinode s' = mk_freeinode s" "grows (mk_disk s) fb (di_addrs din) NDIRECT (mk_disk s') (fb + 2) a (NDIRECT + 1)"
    "unat x = baddr (mk_disk s') (adr a) NDIRECT"
proof -
  have f': "fb < FSSIZE" using f by simp
  let ?a = "(di_addrs din)[NDIRECT := of_nat fb]" and ?s = "s\<lparr>mk_freeblock := mk_freeblock s + 1\<rparr>"
  note i = img_stD [OF st] and st1 = take_block_st [OF st f'] and d = blocks_okD [OF b]
  note h = add_indirect_block [OF b i(3) f' i(5) [OF order_refl]]
  have b1: "blocks_ok (mk_disk ?s) (fb + 1) ?a NDIRECT True" using h(1) by simp
  have fd: "first_data \<le> fb + 1" and mx: "NDIRECT < MAXFILE" using i(3) by simp_all
  note e = new_entry_ok [OF st1 b1 order_refl mx f] and g = grows_indirect [OF b1 order_refl mx fd f img_stD(6) [OF st1]]
  let ?ind = "mk_disk ?s (unat (?a ! NDIRECT))"
  let ?s' = "wsect (?a ! NDIRECT) (put_u32 ?ind (4 * (NDIRECT - NDIRECT)) (of_nat (fb + 1))) (?s\<lparr>mk_freeblock := mk_freeblock ?s + 1\<rparr>)"
  have a: "di_addrs din ! NDIRECT = 0" "?a ! NDIRECT = of_nat fb" using d(1,9) by simp_all
  have "file_block NDIRECT din s = Some (of_nat (fb + 1), din\<lparr>di_addrs := ?a\<rparr>, ?s')"
    using a(1) d(1) e(1-4) i(2) by (simp add: file_block_def take_block_def Let_def ac_simps)
  moreover have "grows (mk_disk s) fb (di_addrs din) NDIRECT (mk_disk ?s') (fb + 2) ?a (NDIRECT + 1)"
  proof -
    have m: "(NDIRECT < NDIRECT) = False" "(NDIRECT < NDIRECT + 1) = True" by auto
    have o: "owned (mk_disk ?s) ?a NDIRECT True = insert fb (owned (mk_disk s) (di_addrs din) NDIRECT False)" using h(3) by simp
    have "\<forall>bn<NDIRECT. baddr (mk_disk ?s') (adr ?a) bn = baddr (mk_disk s) (adr (di_addrs din)) bn"
      using g(2) h(2) unfolding e(6) by simp
    moreover have "\<forall>bn<NDIRECT + 1. mk_disk ?s' (baddr (mk_disk ?s') (adr ?a) bn) = mk_disk s (baddr (mk_disk ?s') (adr ?a) bn)"
      using g(4) unfolding e(6) by simp
    moreover have "\<forall>n. n \<notin> owned (mk_disk s) (di_addrs din) NDIRECT False \<union> {fb..<fb + 2} \<longrightarrow> mk_disk ?s' n = mk_disk s n"
      using a(2) f unfolding e(6) by (auto simp: unat_of_nat)
    moreover have "owned (mk_disk ?s') ?a (NDIRECT + 1) True \<subseteq> owned (mk_disk s) (di_addrs din) NDIRECT False \<union> {fb..<fb + 2}"
      using g(5) o unfolding e(6) by auto
    moreover have "\<forall>bn<NDIRECT + 1. NDIRECT \<le> bn \<longrightarrow> fb \<le> baddr (mk_disk ?s') (adr ?a) bn"
    proof (intro allI impI)
      fix bn assume "bn < NDIRECT + 1" "NDIRECT \<le> bn"
      then have "bn = NDIRECT" by linarith
      then show "fb \<le> baddr (mk_disk ?s') (adr ?a) bn" using g(3) unfolding e(6) by simp
    qed
    moreover have "blocks_ok (mk_disk ?s') (fb + 2) ?a (NDIRECT + 1) True" using g(1) unfolding e(6) by simp
    ultimately show ?thesis unfolding grows_def m blocks_for_def by simp
  qed
  moreover have "unat (of_nat (fb + 1) :: uint) = baddr (mk_disk ?s') (adr ?a) NDIRECT" using g(3) f unfolding e(6)
    by (simp only: unat_of_nat) simp
  ultimately show thesis using that e(5) by simp
qed

lemma file_block_ok:
  assumes st: "img_st s fb" and b: "blocks_ok (mk_disk s) fb (di_addrs din) nb (NDIRECT < nb)"
    and n: "fbn = nb \<or> Suc fbn = nb" "fbn < MAXFILE" and room: "fb + blocks_for (fbn + 1) \<le> FSSIZE + blocks_for nb"
  obtains x a s' fb' where "file_block fbn din s = Some (x, din\<lparr>di_addrs := a\<rparr>, s')" "img_st s' fb'" "mk_sb s' = mk_sb s"
    "mk_freeinode s' = mk_freeinode s" "grows (mk_disk s) fb (di_addrs din) nb (mk_disk s') fb' a (fbn + 1)"
    "unat x = baddr (mk_disk s') (adr a) fbn"
proof -
  note d = blocks_okD [OF b] and i = img_stD [OF st]
  let ?a = "di_addrs din"
  have u: "unat (of_nat fb :: uint) = fb" "unat (of_nat (fb + 1) :: uint) = fb + 1" using i(4) by (simp_all only: unat_of_nat) simp_all
  show thesis
  proof (cases "fbn = nb")
    case False
    then have nb: "nb = fbn + 1" using n by simp
    have g: "grows (mk_disk s) fb ?a nb (mk_disk s) fb ?a (fbn + 1)" using grows_refl [OF b] nb by simp
    have nz: "0 < baddr (mk_disk s) (adr ?a) fbn" using d(5) [of fbn] nb by simp
    have "file_block fbn din s = Some (of_nat (baddr (mk_disk s) (adr ?a) fbn), din, s)"
    proof (cases "fbn < NDIRECT")
      case True
      then show ?thesis using nz by (auto simp: file_block_def baddr_def)
    next
      case ge: False
      then have "NDIRECT < nb" using nb by simp
      then have "?a ! NDIRECT \<noteq> 0" "unat (?a ! NDIRECT) < FSSIZE" using d(3,10,11) by auto
      then show ?thesis using ge nz rsect_ok [OF i(1)] by (auto simp: file_block_def baddr_def)
    qed
    moreover have "unat (of_nat (baddr (mk_disk s) (adr ?a) fbn) :: uint) = baddr (mk_disk s) (adr ?a) fbn"
      by (simp add: baddr_def)
    moreover have "din = din\<lparr>di_addrs := ?a\<rparr>" by simp
    ultimately show thesis using that st g by metis
  next
    case True
    have room': "fb + 1 + (if fbn = NDIRECT then 1 else 0) \<le> FSSIZE" using room True by (auto simp: blocks_for_def split: if_splits)
    then have f: "fb < FSSIZE" by simp
    show thesis
    proof (cases "fbn < NDIRECT")
      case lt: True
      have "?a ! nb = 0" using d(8) [of nb] lt True by simp
      then have "file_block fbn din s = Some (of_nat fb, din\<lparr>di_addrs := ?a[nb := of_nat fb]\<rparr>, s\<lparr>mk_freeblock := mk_freeblock s + 1\<rparr>)"
        using lt True d(1) i(2) by (simp add: file_block_def take_block_def Let_def)
      moreover have "grows (mk_disk s) fb ?a nb (mk_disk (s\<lparr>mk_freeblock := mk_freeblock s + 1\<rparr>)) (fb + 1) (?a[nb := of_nat fb]) (fbn + 1)"
        using grows_direct [OF b _ i(3) f] lt True by simp
      moreover have "unat (of_nat fb :: uint) = baddr (mk_disk s) (adr (?a[nb := of_nat fb])) fbn" using lt True d(1) u by (simp add: baddr_def)
      ultimately show thesis using that take_block_st [OF st f] by auto
    next
      case ge: False
      show thesis
      proof (cases "nb = NDIRECT")
        case ne: True
        have "blocks_ok (mk_disk s) fb ?a NDIRECT False" "fb + 1 < FSSIZE" using b room' True ne by auto
        from file_block_first [OF st this] show thesis using that True ne by metis
      next
        case ne: False
        then have "blocks_ok (mk_disk s) fb ?a nb True" "NDIRECT < nb" "nb < MAXFILE" using b ge True n(2) by auto
        moreover have "din = din\<lparr>di_addrs := ?a\<rparr>" by simp
        ultimately show thesis using file_block_indirect [OF st _ _ _ f] that True by metis
      qed
    qed
  qed
qed

section \<open>Appending\<close>

definition nblk :: "nat \<Rightarrow> nat" where
  "nblk n = (n + (BSIZE - 1)) div BSIZE"

text \<open>How many blocks a file of \<open>n\<close> bytes takes, the indirect block included.\<close>

definition need :: "nat \<Rightarrow> nat" where
  "need n = blocks_for (nblk n)"

lemma nblk_mono: "m \<le> n \<Longrightarrow> nblk m \<le> nblk n"
  by (simp add: nblk_def div_le_mono)

lemma need_mono: "m \<le> n \<Longrightarrow> need m \<le> need n"
  using nblk_mono [of m n] by (auto simp: need_def blocks_for_def)

lemma nblk_eqI: "n \<le> q * BSIZE \<Longrightarrow> q * BSIZE < n + BSIZE \<Longrightarrow> nblk n = q"
  unfolding nblk_def by (rule div_nat_eqI) simp_all

lemma nblk_cases: "nblk n = (if n mod BSIZE = 0 then n div BSIZE else n div BSIZE + 1)"
proof -
  define q r where "q = n div BSIZE" and "r = n mod BSIZE"
  have n: "n = BSIZE * q + r" "r < BSIZE" by (simp_all add: q_def r_def)
  have "nblk n = (if r = 0 then q else q + 1)" by (rule nblk_eqI) (use n in auto)
  then show ?thesis by (simp add: q_def r_def)
qed

lemma nblk_bound: "n \<le> nblk n * BSIZE"
proof -
  define q r where "q = n div BSIZE" and "r = n mod BSIZE"
  have n: "n = BSIZE * q + r" "r < BSIZE" by (simp_all add: q_def r_def)
  have "nblk n = (if r = 0 then q else q + 1)" by (simp add: nblk_cases q_def r_def)
  then show ?thesis using n by auto
qed

text \<open>The file with the addresses \<open>a\<close> has the bytes \<open>c\<close>, and zeros in the rest of its last block.\<close>

definition file_img :: "(nat \<Rightarrow> block) \<Rightarrow> nat \<Rightarrow> uint list \<Rightarrow> byte list \<Rightarrow> bool" where
  "file_img C fb a c \<longleftrightarrow> blocks_ok C fb a (nblk (length c)) (NDIRECT < nblk (length c)) \<and>
     (\<forall>k<nblk (length c) * BSIZE. file_byte C (adr a) k = (if k < length c then c ! k else 0))"

definition file_owns :: "(nat \<Rightarrow> block) \<Rightarrow> uint list \<Rightarrow> byte list \<Rightarrow> nat set" where
  "file_owns C a c = owned C a (nblk (length c)) (NDIRECT < nblk (length c))"

text \<open>What one append changes: the file, its blocks and unused blocks.\<close>

definition appended :: "mkfs \<Rightarrow> nat \<Rightarrow> uint list \<Rightarrow> byte list \<Rightarrow> mkfs \<Rightarrow> nat \<Rightarrow> uint list \<Rightarrow> byte list \<Rightarrow> bool" where
  "appended s fb a c s' fb' a' c' \<longleftrightarrow> img_st s' fb' \<and> mk_sb s' = mk_sb s \<and> mk_freeinode s' = mk_freeinode s \<and> fb \<le> fb' \<and>
     fb' + need (length c) = fb + need (length c') \<and> file_img (mk_disk s') fb' a' c' \<and>
     file_owns (mk_disk s') a' c' \<subseteq> file_owns (mk_disk s) a c \<union> {fb..<fb'} \<and>
     (\<forall>n. n \<notin> file_owns (mk_disk s) a c \<union> {fb..<fb'} \<longrightarrow> mk_disk s' n = mk_disk s n)"

lemma appendedD:
  assumes "appended s fb a c s' fb' a' c'"
  shows "img_st s' fb'" "mk_sb s' = mk_sb s" "mk_freeinode s' = mk_freeinode s" "fb \<le> fb'" "fb' + need (length c) = fb + need (length c')"
    "file_img (mk_disk s') fb' a' c'" "file_owns (mk_disk s') a' c' \<subseteq> file_owns (mk_disk s) a c \<union> {fb..<fb'}"
    "\<And>n. n \<notin> file_owns (mk_disk s) a c \<union> {fb..<fb'} \<Longrightarrow> mk_disk s' n = mk_disk s n"
  using assms unfolding appended_def by blast+

lemma appended_trans:
  assumes "appended s fb a c s1 fb1 a1 c1" "appended s1 fb1 a1 c1 s2 fb2 a2 c2"
  shows "appended s fb a c s2 fb2 a2 c2"
proof -
  note x = appendedD [OF assms(1)] and y = appendedD [OF assms(2)]
  have "{fb..<fb1} \<union> {fb1..<fb2} = {fb..<fb2}" using x(4) y(4) by auto
  then have "file_owns (mk_disk s2) a2 c2 \<subseteq> file_owns (mk_disk s) a c \<union> {fb..<fb2}"
    "file_owns (mk_disk s1) a1 c1 \<union> {fb1..<fb2} \<subseteq> file_owns (mk_disk s) a c \<union> {fb..<fb2}" using x(7) y(7) by blast+
  moreover from this have "mk_disk s2 n = mk_disk s n" if "n \<notin> file_owns (mk_disk s) a c \<union> {fb..<fb2}" for n
  proof -
    have "n \<notin> file_owns (mk_disk s1) a1 c1 \<union> {fb1..<fb2}" "n \<notin> file_owns (mk_disk s) a c \<union> {fb..<fb1}" using that calculation y(4) by auto
    then show ?thesis using x(8) y(8) by simp
  qed
  ultimately show ?thesis using x y unfolding appended_def by auto
qed

lemma blocks_ok_upd:
  assumes b: "blocks_ok C fb a nb m" and n: "bn < nb"
  shows "blocks_ok (C(baddr C (adr a) bn := e)) fb a nb m" "owned (C(baddr C (adr a) bn := e)) a nb m = owned C a nb m"
proof -
  have f: "file_ok FSSIZE 2 C (adr a) nb" by (rule blocks_file_ok [OF b]) simp_all
  have eq: "baddr (C(baddr C (adr a) bn := e)) (adr a) k = baddr C (adr a) k" if "k < nb" for k by (rule baddr_upd [OF f n that])
  then have im: "baddr (C(baddr C (adr a) bn := e)) (adr a) ` {..<nb} = baddr C (adr a) ` {..<nb}"
    "inj_on (baddr (C(baddr C (adr a) bn := e)) (adr a)) {..<nb} = inj_on (baddr C (adr a)) {..<nb}"
    by (auto intro!: image_cong inj_on_cong)
  have "unat (a ! NDIRECT) \<noteq> baddr C (adr a) bn" if m using blocks_okD(12) [OF b that] n by auto
  then show "blocks_ok (C(baddr C (adr a) bn := e)) fb a nb m" using b eq im unfolding blocks_ok_def by auto
  show "owned (C(baddr C (adr a) bn := e)) a nb m = owned C a nb m" using im by (simp add: owned_def)
qed

text \<open>The bytes of a file that has grown: those it had, and zeros in the new blocks.\<close>

lemma grows_bytes:
  assumes img: "file_img C fb a c" and g: "grows C fb a (nblk (length c)) C' fb' a' nb'" and z: "\<And>n. fb \<le> n \<Longrightarrow> C n = replicate BSIZE 0"
    and k: "k < nb' * BSIZE"
  shows "file_byte C' (adr a') k = (if k < length c then c ! k else 0)"
proof -
  note g = growsD [OF g]
  have kb: "k div BSIZE < nb'" using k by (simp add: less_mult_imp_div_less)
  show ?thesis
  proof (cases "k div BSIZE < nblk (length c)")
    case True
    then have "k < nblk (length c) * BSIZE" by (simp add: div_less_iff_less_mult)
    then have "file_byte C (adr a) k = (if k < length c then c ! k else 0)" using img by (simp add: file_img_def)
    moreover have "file_byte C' (adr a') k = file_byte C (adr a) k" using g(4) [OF True] g(6) [OF kb] by (simp add: file_byte_def)
    ultimately show ?thesis by simp
  next
    case False
    then have "nblk (length c) * BSIZE \<le> k" by (simp add: div_less_iff_less_mult)
    then have "\<not> k < length c" using nblk_bound [of "length c"] by linarith
    moreover have "file_byte C' (adr a') k = 0" using g(5) [OF kb] g(6) [OF kb] z False by (simp add: file_byte_def)
    ultimately show ?thesis by simp
  qed
qed

lemma append_round:
  assumes st: "img_st s fb" and img: "file_img (mk_disk s) fb (di_addrs din) c" and xs: "xs \<noteq> []" "length c mod BSIZE + length xs \<le> BSIZE"
    and lim: "length c div BSIZE < MAXFILE" and room: "fb + need (length c + length xs) \<le> FSSIZE + need (length c)"
  obtains x a s1 fb' where "file_block (length c div BSIZE) din s = Some (x, din\<lparr>di_addrs := a\<rparr>, s1)" "rsect x s1 = Some (mk_disk s1 (unat x))"
    "appended s fb (di_addrs din) c (wsect x (put_at (mk_disk s1 (unat x)) (length c mod BSIZE) xs) s1) fb' a (c @ xs)"
proof -
  let ?off = "length c" and ?fbn = "length c div BSIZE" and ?a = "di_addrs din" and ?nb = "nblk (length c)"
  have b: "blocks_ok (mk_disk s) fb ?a ?nb (NDIRECT < ?nb)" using img by (simp add: file_img_def)
  have n: "?fbn = ?nb \<or> Suc ?fbn = ?nb" by (auto simp: nblk_cases)
  have nb': "nblk (?off + length xs) = ?fbn + 1"
  proof -
    define q r where "q = ?fbn" and "r = ?off mod BSIZE"
    have "?off = BSIZE * q + r" "r + length xs \<le> BSIZE" "0 < length xs" using xs by (simp_all add: q_def r_def)
    then have "nblk (?off + length xs) = q + 1" by (intro nblk_eqI) auto
    then show ?thesis by (simp add: q_def)
  qed
  have "fb + blocks_for (?fbn + 1) \<le> FSSIZE + blocks_for ?nb" using room nb' by (simp add: need_def)
  from file_block_ok [OF st b n lim this] obtain x a s1 fb' where r: "file_block ?fbn din s = Some (x, din\<lparr>di_addrs := a\<rparr>, s1)" "img_st s1 fb'"
    "mk_sb s1 = mk_sb s" "mk_freeinode s1 = mk_freeinode s" "grows (mk_disk s) fb ?a ?nb (mk_disk s1) fb' a (?fbn + 1)"
    "unat x = baddr (mk_disk s1) (adr a) ?fbn" by blast
  note g = growsD [OF r(5)] and i = img_stD [OF r(2)] and d = blocks_okD [OF growsD(1) [OF r(5)]]
  let ?C = "mk_disk s1" and ?e = "put_at (mk_disk s1 (unat x)) (?off mod BSIZE) xs"
  have x: "unat x < fb'" "unat x < FSSIZE" using d(3) d(6) [of ?fbn] r(6) by auto
  have le: "length ?e = BSIZE" using xs(2) i(6) by simp
  note w = wsect_ok [OF i(1) x(2) le]
  have C2: "mk_disk (wsect x ?e s1) = ?C(baddr ?C (adr a) ?fbn := put_at (?C (baddr ?C (adr a) ?fbn)) (?off mod BSIZE) xs)"
    using w(2) r(6) by simp
  have lt: "?fbn < ?fbn + 1" by simp
  note u = blocks_ok_upd [OF g(1) lt, where e = "put_at (?C (baddr ?C (adr a) ?fbn)) (?off mod BSIZE) xs", folded C2]
  have "file_ok FSSIZE 2 ?C (adr a) (?fbn + 1)" by (rule blocks_file_ok [OF g(1)]) simp_all
  from written_put [OF this _ xs(2) lt] have wr: "written ?C (adr a) (?fbn + 1) ?off xs (mk_disk (wsect x ?e s1))"
    using i(6) unfolding C2 by simp
  have "file_byte (mk_disk (wsect x ?e s1)) (adr a) k = (if k < length (c @ xs) then (c @ xs) ! k else 0)" if k: "k < (?fbn + 1) * BSIZE" for k
    using wr k grows_bytes [OF img r(5) img_stD(5) [OF st] k] by (auto simp: written_def nth_append)
  then have img': "file_img (mk_disk (wsect x ?e s1)) fb' a (c @ xs)" using u(1) nb' by (simp add: file_img_def)
  have own: "file_owns (mk_disk (wsect x ?e s1)) a (c @ xs) \<subseteq> file_owns (mk_disk s) ?a c \<union> {fb..<fb'}"
    using g(7) u(2) nb' by (simp add: file_owns_def)
  have "unat x \<in> owned ?C a (?fbn + 1) (NDIRECT < ?fbn + 1)" using r(6) by (simp add: owned_def)
  then have fr: "mk_disk (wsect x ?e s1) n = mk_disk s n" if "n \<notin> file_owns (mk_disk s) ?a c \<union> {fb..<fb'}" for n
    using that g(7) g(8) [of n] w(2) unfolding file_owns_def by auto
  have "img_st (wsect x ?e s1) fb'" using i w x(1) unfolding img_st_def by auto
  then have "appended s fb ?a c (wsect x ?e s1) fb' a (c @ xs)"
    using r(3,4) g(2,3) img' own fr nb' unfolding appended_def need_def by auto
  then show thesis using that r(1) rsect_ok [OF i(1) x(2)] by blast
qed

lemma appended_refl: "img_st s fb \<Longrightarrow> file_img (mk_disk s) fb a c \<Longrightarrow> appended s fb a c s fb a c"
  by (simp add: appended_def)

lemma iappend_loop_ok:
  assumes "img_st s fb" "file_img (mk_disk s) fb (di_addrs din) c" "length c + length p \<le> MAXFILE * BSIZE"
    "fb + need (length c + length p) \<le> FSSIZE + need (length c)"
  shows "\<exists>a s' fb'. iappend_loop (of_nat (length c)) din p s = Some (of_nat (length c + length p), din\<lparr>di_addrs := a\<rparr>, s') \<and>
    appended s fb (di_addrs din) c s' fb' a (c @ p)"
  using assms
proof (induction "length p" arbitrary: p c din s fb rule: less_induct)
  case less
  show ?case
  proof (cases "p = []")
    case True
    then have "iappend_loop (of_nat (length c)) din p s = Some (of_nat (length c + length p), din\<lparr>di_addrs := di_addrs din\<rparr>, s)"
      by (subst iappend_loop.simps) simp
    then show ?thesis using appended_refl [OF less.prems(1,2)] True append_Nil2 by metis
  next
    case False
    let ?off = "length c" and ?fbn = "length c div BSIZE"
    define n1 where "n1 = chunk ?off (length p)"
    have n1: "n1 \<le> length p" "n1 \<le> BSIZE - ?off mod BSIZE" "0 < n1" using chunk_facts [of ?off "length p"] chunk_facts(3) [of "length p" ?off] False by (auto simp: n1_def)
    define xs ys where "xs = take n1 p" and "ys = drop n1 p"
    have l: "length xs = n1" "p = xs @ ys" "length ys < length p" "length p = length xs + length ys" using n1 by (auto simp: xs_def ys_def)
    have xs: "xs \<noteq> []" "?off mod BSIZE + length xs \<le> BSIZE" using l(1) n1 mod_less_divisor [of BSIZE ?off] by auto
    have "?off < MAXFILE * BSIZE" using less.prems(3) False by (cases p) auto
    then have lim: "?fbn < MAXFILE" "?off < 2 ^ 32" by (auto simp: less_mult_imp_div_less)
    have "need (?off + length xs) \<le> need (?off + length p)" using l(4) by (intro need_mono) simp
    then have room: "fb + need (?off + length xs) \<le> FSSIZE + need ?off" using less.prems(4) by simp
    obtain x a s1 fb1 where r: "file_block ?fbn din s = Some (x, din\<lparr>di_addrs := a\<rparr>, s1)" "rsect x s1 = Some (mk_disk s1 (unat x))"
      "appended s fb (di_addrs din) c (wsect x (put_at (mk_disk s1 (unat x)) (?off mod BSIZE) xs) s1) fb1 a (c @ xs)"
      by (rule append_round [OF less.prems(1,2) xs lim(1) room])
    let ?s2 = "wsect x (put_at (mk_disk s1 (unat x)) (?off mod BSIZE) xs) s1"
    note ap = appendedD [OF r(3)]
    have "length (c @ xs) + length ys \<le> MAXFILE * BSIZE" "fb1 + need (length (c @ xs) + length ys) \<le> FSSIZE + need (length (c @ xs))"
      using less.prems(3,4) l(4) ap(5) by (simp_all add: add.assoc)
    then obtain a' s' fb' where s': "iappend_loop (of_nat (length (c @ xs))) (din\<lparr>di_addrs := a\<rparr>) ys ?s2 =
        Some (of_nat (length (c @ xs) + length ys), din\<lparr>di_addrs := a'\<rparr>, s')" "appended ?s2 fb1 a (c @ xs) s' fb' a' ((c @ xs) @ ys)"
      using less.hyps [OF l(3) ap(1), of "din\<lparr>di_addrs := a\<rparr>" "c @ xs"] ap(6) by auto
    have u: "unat (of_nat ?off :: uint) = ?off" using lim(2) by (simp add: unat_of_nat)
    have m: "min (length p) ((?fbn + 1) * BSIZE - ?off) = n1" "?off - ?fbn * BSIZE = ?off mod BSIZE"
    proof -
      define q r where "q = ?fbn" and "r = ?off mod BSIZE"
      have "?off = q * BSIZE + r" by (simp add: q_def r_def)
      then have "(q + 1) * BSIZE - ?off = BSIZE - r" by (simp add: add_mult_distrib)
      then have "(?fbn + 1) * BSIZE - ?off = BSIZE - ?off mod BSIZE" by (simp only: q_def r_def)
      then show "min (length p) ((?fbn + 1) * BSIZE - ?off) = n1" by (simp add: n1_def chunk_def)
      show "?off - ?fbn * BSIZE = ?off mod BSIZE" by (rule minus_div_mult_eq_mod)
    qed
    have "iappend_loop (of_nat ?off) din p s = iappend_loop (of_nat (length (c @ xs))) (din\<lparr>di_addrs := a\<rparr>) ys ?s2"
      using False lim(1) r(1,2) unfolding xs_def [symmetric] ys_def [symmetric]
      by (subst iappend_loop.simps) (simp add: u m(2) m(1) [simplified] Let_def l(1) flip: xs_def ys_def)
    then show ?thesis using s' appended_trans [OF r(3) s'(2)] l(2,4) by (auto simp: add.assoc)
  qed
qed

section \<open>The inodes of the image\<close>

definition inode_at :: "(nat \<Rightarrow> block) \<Rightarrow> nat \<Rightarrow> dinode" where
  "inode_at C n = get_dinode (C (32 + n div IPB)) (64 * (n mod IPB))"

lemma iblock:
  assumes "n < NINODES"
  shows "unat (IBLOCK (of_nat n) mk_super) = 32 + n div IPB" "dinode_off (of_nat n) = 64 * (n mod IPB)" "32 + n div IPB < first_data - 1"
proof -
  have u: "unat (of_nat n :: uint) = n" using assms by (simp add: unat_of_nat)
  have q: "n div IPB < 13" using assms by (simp add: less_mult_imp_div_less)
  have "unat ((of_nat n :: uint) div of_nat IPB) = n div IPB" using u by (simp add: unat_div)
  then show "unat (IBLOCK (of_nat n) mk_super) = 32 + n div IPB"
    using q by (simp add: IBLOCK_def mk_super_def unat_word_ariths)
  show "dinode_off (of_nat n) = 64 * (n mod IPB)" using u by (simp add: dinode_off_def)
  show "32 + n div IPB < first_data - 1" using q by simp
qed

lemma rinode_ok:
  assumes "img_ok s" "mk_sb s = mk_super" "n < NINODES"
  shows "rinode (of_nat n) s = Some (inode_at (mk_disk s) n)"
  using rsect_ok [OF assms(1), of "IBLOCK (of_nat n) mk_super"] iblock [OF assms(3)] assms(2)
  by (simp add: rinode_def inode_at_def Let_def)

lemma winode_ok:
  assumes "img_ok s" "mk_sb s = mk_super" "n < NINODES" "length (di_addrs di) = 13"
  obtains s' where "winode (of_nat n) di s = Some s'" "img_ok s'" "mk_sb s' = mk_sb s" "mk_freeinode s' = mk_freeinode s"
    "mk_freeblock s' = mk_freeblock s" "\<And>k. k < NINODES \<Longrightarrow> inode_at (mk_disk s') k = (if k = n then di else inode_at (mk_disk s) k)"
    "\<And>b. b < 32 \<or> first_data - 1 \<le> b \<Longrightarrow> mk_disk s' b = mk_disk s b"
proof -
  note b = iblock [OF assms(3)]
  let ?b = "IBLOCK (of_nat n) mk_super" and ?C = "mk_disk s"
  let ?d = "put_at (?C (32 + n div IPB)) (64 * (n mod IPB)) (dinode_bytes di)"
  have lt: "unat ?b < FSSIZE" using b by simp
  have len: "length (?C k) = BSIZE" for k using assms(1) by (simp add: img_ok_def)
  have ld: "length ?d = BSIZE" using len length_dinode_bytes [OF assms(4)] mod_less_divisor [of IPB n] by simp
  note w = wsect_ok [OF assms(1) lt ld]
  have "winode (of_nat n) di s = Some (wsect ?b ?d s)"
    using rsect_ok [OF assms(1) lt] b assms(2) by (simp add: winode_def Let_def)
  moreover have "inode_at (mk_disk (wsect ?b ?d s)) k = (if k = n then di else inode_at ?C k)" if "k < NINODES" for k
  proof (cases "k div IPB = n div IPB")
    case True
    then have "k = n \<longleftrightarrow> k mod IPB = n mod IPB" by (metis div_mult_mod_eq)
    moreover have "n mod IPB < 16" "k mod IPB < 16" by simp_all
    ultimately show ?thesis using True w(2) b(1) dinode_put [OF len assms(4), of "n mod IPB" "k mod IPB"] by (simp add: inode_at_def)
  next
    case False
    then show ?thesis using w(2) b(1) by (auto simp: inode_at_def)
  qed
  moreover have "mk_disk (wsect ?b ?d s) k = ?C k" if "k < 32 \<or> first_data - 1 \<le> k" for k using that w(2) b by auto
  ultimately show thesis using that [of "wsect ?b ?d s"] w(1) by auto
qed

text \<open>A file stays as it is when its blocks do.\<close>

lemma file_img_frame:
  assumes img: "file_img C fb a c" and eq: "\<And>n. n \<in> file_owns C a c \<Longrightarrow> C' n = C n" and fb: "fb \<le> fb'" "fb' \<le> FSSIZE"
  shows "file_img C' fb' a c" "file_owns C' a c = file_owns C a c"
proof -
  let ?nb = "nblk (length c)"
  have b: "blocks_ok C fb a ?nb (NDIRECT < ?nb)" using img by (simp add: file_img_def)
  note d = blocks_okD [OF b]
  have ind: "C' (unat (a ! NDIRECT)) = C (unat (a ! NDIRECT))" if "NDIRECT < ?nb" using eq that by (simp add: file_owns_def owned_def)
  have ad: "baddr C' (adr a) bn = baddr C (adr a) bn" if "bn < ?nb" for bn
  proof (cases "NDIRECT < ?nb")
    case True
    then show ?thesis using ind by (intro baddr_cong) simp
  next
    case False
    then show ?thesis using that by (intro baddr_cong) simp
  qed
  then have im: "baddr C' (adr a) ` {..<?nb} = baddr C (adr a) ` {..<?nb}" "inj_on (baddr C' (adr a)) {..<?nb} = inj_on (baddr C (adr a)) {..<?nb}"
    by (auto intro!: image_cong inj_on_cong)
  show "file_owns C' a c = file_owns C a c" using im by (simp add: file_owns_def owned_def)
  have "\<forall>bn<?nb. first_data \<le> baddr C' (adr a) bn \<and> baddr C' (adr a) bn < fb'" using ad d(5,6) fb(1) by (auto intro: less_le_trans)
  moreover have "if NDIRECT < ?nb then first_data \<le> unat (a ! NDIRECT) \<and> unat (a ! NDIRECT) < fb' \<and> unat (a ! NDIRECT) \<notin> baddr C' (adr a) ` {..<?nb} \<and>
        (\<forall>e<NINDIRECT. ?nb \<le> NDIRECT + e \<longrightarrow> get_u32 (C' (unat (a ! NDIRECT))) (4 * e) = 0) else a ! NDIRECT = 0"
    using d(9-13) im(1) ind fb(1) by auto
  ultimately have "blocks_ok C' fb' a ?nb (NDIRECT < ?nb)" using d(1,2,7,8) im(2) fb(2) unfolding blocks_ok_def by auto
  moreover have "file_byte C' (adr a) k = file_byte C (adr a) k" if "k < ?nb * BSIZE" for k
  proof -
    have "k div BSIZE < ?nb" using that by (simp add: less_mult_imp_div_less)
    then show ?thesis using ad eq by (simp add: file_byte_def file_owns_def owned_def)
  qed
  ultimately show "file_img C' fb' a c" using img by (simp add: file_img_def)
qed

section \<open>The invariant of the image\<close>

text \<open>Inode \<open>n\<close> of the image is a file of type \<open>fst x\<close> with the bytes \<open>snd x\<close>.\<close>

definition inode_img :: "(nat \<Rightarrow> block) \<Rightarrow> nat \<Rightarrow> nat \<Rightarrow> 16 word \<times> byte list \<Rightarrow> bool" where
  "inode_img C fb n x \<longleftrightarrow> di_type (inode_at C n) = fst x \<and> di_size (inode_at C n) = of_nat (length (snd x)) \<and>
     file_img C fb (di_addrs (inode_at C n)) (snd x)"

definition inode_owns :: "(nat \<Rightarrow> block) \<Rightarrow> nat \<Rightarrow> 16 word \<times> byte list \<Rightarrow> nat set" where
  "inode_owns C n x = file_owns C (di_addrs (inode_at C n)) (snd x)"

definition fs_img :: "mkfs \<Rightarrow> nat \<Rightarrow> (16 word \<times> byte list) list \<Rightarrow> bool" where
  "fs_img s fb L \<longleftrightarrow> img_st s fb \<and> mk_sb s = mk_super \<and> mk_freeinode s = of_nat (length L + 1) \<and> length L < NINODES \<and>
     (\<forall>j<length L. inode_img (mk_disk s) fb (j + 1) (L ! j)) \<and>
     (\<forall>j<length L. \<forall>k<length L. j \<noteq> k \<longrightarrow> inode_owns (mk_disk s) (j + 1) (L ! j) \<inter> inode_owns (mk_disk s) (k + 1) (L ! k) = {}) \<and>
     (\<forall>n<32. n \<noteq> 1 \<longrightarrow> mk_disk s n = replicate BSIZE 0)"

lemma fs_imgD:
  assumes "fs_img s fb L"
  shows "img_st s fb" "mk_sb s = mk_super" "mk_freeinode s = of_nat (length L + 1)" "length L < NINODES"
    "\<And>j. j < length L \<Longrightarrow> inode_img (mk_disk s) fb (j + 1) (L ! j)"
    "\<And>j k. j < length L \<Longrightarrow> k < length L \<Longrightarrow> j \<noteq> k \<Longrightarrow> inode_owns (mk_disk s) (j + 1) (L ! j) \<inter> inode_owns (mk_disk s) (k + 1) (L ! k) = {}"
    "\<And>n. n < 32 \<Longrightarrow> n \<noteq> 1 \<Longrightarrow> mk_disk s n = replicate BSIZE 0"
  using assms unfolding fs_img_def by blast+

lemma owns_range:
  assumes "file_img C fb a c"
  shows "file_owns C a c \<subseteq> {first_data..<fb}"
proof -
  have "blocks_ok C fb a (nblk (length c)) (NDIRECT < nblk (length c))" using assms by (simp add: file_img_def)
  note d = blocks_okD [OF this]
  show ?thesis using d(5,6,10,11) by (auto simp: file_owns_def owned_def)
qed

text \<open>Another inode keeps its file when only blocks that it does not own and inodes other than it change.\<close>

lemma inode_img_frame:
  assumes i: "inode_img C fb n x" and same: "inode_at C' n = inode_at C n" and eq: "\<And>b. b \<in> inode_owns C n x \<Longrightarrow> C' b = C b"
    and fb: "fb \<le> fb'" "fb' \<le> FSSIZE"
  shows "inode_img C' fb' n x" "inode_owns C' n x = inode_owns C n x"
proof -
  have img: "file_img C fb (di_addrs (inode_at C n)) (snd x)" using i by (simp add: inode_img_def)
  note f = file_img_frame [OF img eq [unfolded inode_owns_def] fb]
  show "inode_img C' fb' n x" "inode_owns C' n x = inode_owns C n x" using i f same by (simp_all add: inode_img_def inode_owns_def)
qed

lemma file_img_len: "file_img C fb a c \<Longrightarrow> length c \<le> MAXFILE * BSIZE \<and> length a = 13"
  using nblk_bound [of "length c"] blocks_okD(1,2) [of C fb a "nblk (length c)" "NDIRECT < nblk (length c)"] by (auto simp: file_img_def)

lemma iappend_ok:
  assumes fs: "fs_img s fb L" and j: "j < length L" and len: "length (snd (L ! j)) + length p \<le> MAXFILE * BSIZE"
    and room: "fb + need (length (snd (L ! j)) + length p) \<le> FSSIZE + need (length (snd (L ! j)))"
  obtains s' fb' where "iappend (of_nat (j + 1)) p s = Some s'" "fs_img s' fb' (L[j := (fst (L ! j), snd (L ! j) @ p)])"
    "fb' + need (length (snd (L ! j))) = fb + need (length (snd (L ! j)) + length p)" "mk_disk s' 1 = mk_disk s 1"
proof -
  note d = fs_imgD [OF fs] and i = img_stD [OF fs_imgD(1) [OF fs]]
  let ?C = "mk_disk s" and ?c = "snd (L ! j)" and ?din = "inode_at (mk_disk s) (j + 1)" and ?n = "j + 1"
  have n: "?n < NINODES" using j d(4) by simp
  have im: "di_type ?din = fst (L ! j)" "di_size ?din = of_nat (length ?c)" "file_img ?C fb (di_addrs ?din) ?c"
    using d(5) [OF j] by (simp_all add: inode_img_def)
  obtain a s1 fb' where r: "iappend_loop (of_nat (length ?c)) ?din p s = Some (of_nat (length ?c + length p), ?din\<lparr>di_addrs := a\<rparr>, s1)"
    "appended s fb (di_addrs ?din) ?c s1 fb' a (?c @ p)"
    using iappend_loop_ok [OF d(1) im(3) len room] by blast
  note ap = appendedD [OF r(2)] and i1 = img_stD [OF appendedD(1) [OF r(2)]]
  let ?di = "?din\<lparr>di_addrs := a, di_size := of_nat (length ?c + length p)\<rparr>"
  have la: "length (di_addrs ?di) = 13" using file_img_len [OF ap(6)] by simp
  have sb: "mk_sb s1 = mk_super" using ap(2) d(2) by simp
  obtain s' where w: "winode (of_nat ?n) ?di s1 = Some s'" "img_ok s'" "mk_sb s' = mk_sb s1" "mk_freeinode s' = mk_freeinode s1"
    "mk_freeblock s' = mk_freeblock s1" "\<And>k. k < NINODES \<Longrightarrow> inode_at (mk_disk s') k = (if k = ?n then ?di else inode_at (mk_disk s1) k)"
    "\<And>b. b < 32 \<or> first_data - 1 \<le> b \<Longrightarrow> mk_disk s' b = mk_disk s1 b"
    using winode_ok [OF i1(1) sb n la] by blast
  let ?C' = "mk_disk s'" and ?L = "L[j := (fst (L ! j), ?c @ p)]"
  have own: "file_owns ?C (di_addrs ?din) ?c \<subseteq> {first_data..<fb}" by (rule owns_range [OF im(3)])
  have low: "mk_disk s1 b = ?C b" if "b < first_data" for b
  proof (rule ap(8))
    show "b \<notin> file_owns ?C (di_addrs ?din) ?c \<union> {fb..<fb'}" using that own i(3) by auto
  qed
  have ino: "inode_at ?C' k = (if k = ?n then ?di else inode_at ?C k)" if "k < NINODES" for k
    using w(6) [OF that] low [of "32 + k div IPB"] iblock(3) [OF that] by (simp add: inode_at_def)
  have st': "img_st s' fb'" using w(2,5,7) i1 unfolding img_st_def by auto
  have oj: "file_owns (mk_disk s1) a (?c @ p) \<subseteq> {first_data..<fb'}" by (rule owns_range [OF ap(6)])
  have eq: "?C' b = mk_disk s1 b" if "b \<in> file_owns (mk_disk s1) a (?c @ p)" for b using that oj w(7) by auto
  note fj = file_img_frame [OF ap(6) eq order_refl i1(4)]
  have img_j: "inode_img ?C' fb' ?n (?L ! j)" "inode_owns ?C' ?n (?L ! j) \<subseteq> inode_owns ?C ?n (L ! j) \<union> {fb..<fb'}"
    using j ino [OF n] im(1) fj ap(7) by (simp_all add: inode_img_def inode_owns_def)
  have img_k: "inode_img ?C' fb' (k + 1) (?L ! k) \<and> inode_owns ?C' (k + 1) (?L ! k) = inode_owns ?C (k + 1) (L ! k) \<and>
      inode_owns ?C (k + 1) (L ! k) \<subseteq> {first_data..<fb}" if k: "k < length L" "k \<noteq> j" for k
  proof -
    have ok: "inode_img ?C fb (k + 1) (L ! k)" by (rule d(5) [OF k(1)])
    have rng: "inode_owns ?C (k + 1) (L ! k) \<subseteq> {first_data..<fb}" using ok owns_range by (simp add: inode_img_def inode_owns_def)
    have "?C' b = ?C b" if b: "b \<in> inode_owns ?C (k + 1) (L ! k)" for b
    proof -
      have "b \<notin> inode_owns ?C ?n (L ! j)" using d(6) [OF k(1) j k(2)] b by blast
      then have "b \<notin> file_owns ?C (di_addrs ?din) ?c \<union> {fb..<fb'}" using b rng by (auto simp: inode_owns_def)
      then show ?thesis using ap(8) [of b] w(7) [of b] b rng by auto
    qed
    moreover have "inode_at ?C' (k + 1) = inode_at ?C (k + 1)" using ino [of "k + 1"] k d(4) by simp
    ultimately show ?thesis using inode_img_frame [OF ok _ _ ap(4) i1(4), of ?C'] rng k by auto
  qed
  have "fs_img s' fb' ?L"
    unfolding fs_img_def
  proof (intro conjI allI impI)
    show "inode_img ?C' fb' (k + 1) (?L ! k)" if "k < length ?L" for k using that img_j(1) img_k [of k] by (cases "k = j") auto
    show "inode_owns ?C' (x + 1) (?L ! x) \<inter> inode_owns ?C' (y + 1) (?L ! y) = {}" if xy: "x < length ?L" "y < length ?L" "x \<noteq> y" for x y
    proof -
      have o: "inode_owns ?C (x + 1) (L ! x) \<inter> inode_owns ?C (y + 1) (L ! y) = {}" using d(6) xy by simp
      consider "x = j" "y \<noteq> j" | "y = j" "x \<noteq> j" | "x \<noteq> j" "y \<noteq> j" using xy by blast
      then show ?thesis
      proof cases
        case 1
        then show ?thesis using o img_j(2) img_k [of y] xy by fastforce
      next
        case 2
        then show ?thesis using o img_j(2) img_k [of x] xy by fastforce
      next
        case 3
        then show ?thesis using o img_k [of x] img_k [of y] xy by simp
      qed
    qed
    show "?C' n = replicate BSIZE 0" if "n < 32" "n \<noteq> 1" for n using that w(7) [of n] low [of n] d(7) [of n] by simp
  qed (use st' w(3,4) sb ap(3) d(3,4) in simp_all)
  moreover have "iappend (of_nat ?n) p s = Some s'"
    using rinode_ok [OF i(1) d(2) n] r(1) w(1) im(2) by (simp add: iappend_def)
  moreover have "?C' 1 = ?C 1" using w(7) [of 1] low [of 1] by simp
  ultimately show thesis using that ap(5) by auto
qed

end
