(* ===== verification/MkfsRun.thy ===== *)
theory MkfsRun
  imports MkfsImage
begin

text \<open>
  \<open>mkfs\<close> as a whole: what the image holds when it ends, and what a kernel that is started on the
  image reads from it.
\<close>

section \<open>Allocation\<close>

definition used :: "(16 word \<times> byte list) list \<Rightarrow> nat" where
  "used L = sum_list (map (\<lambda>x. need (length (snd x))) L)"

lemma used_simps [simp]: "used [] = 0" "used (x # L) = need (length (snd x)) + used L" "used (L @ M) = used L + used M"
  by (simp_all add: used_def)

lemma used_update: "j < length L \<Longrightarrow> used (L[j := y]) + need (length (snd (L ! j))) = used L + need (length (snd y))"
  by (induction L arbitrary: j) (auto simp: less_Suc_eq_0_disj)

lemma need_0 [simp]: "need 0 = 0"
  by (simp add: need_def nblk_def blocks_for_def)

text \<open>The files of the image are \<open>L\<close> and the blocks are taken one after the other.\<close>

definition fs_ok :: "mkfs \<Rightarrow> (16 word \<times> byte list) list \<Rightarrow> bool" where
  "fs_ok s L \<longleftrightarrow> fs_img s (first_data + used L) L \<and> mk_disk s 1 = put_at (replicate BSIZE 0) 0 (superblock_bytes mk_super)"

lemma append_ok:
  assumes fs: "fs_ok s L" and j: "j < length L" and len: "length (snd (L ! j)) + length p \<le> MAXFILE * BSIZE"
  defines "L' \<equiv> L[j := (fst (L ! j), snd (L ! j) @ p)]"
  assumes cap: "first_data + used L' \<le> FSSIZE"
  obtains s' where "iappend (of_nat (j + 1)) p s = Some s'" "fs_ok s' L'"
proof -
  have u: "used L' + need (length (snd (L ! j))) = used L + need (length (snd (L ! j)) + length p)"
    using used_update [OF j, of "(fst (L ! j), snd (L ! j) @ p)"] by (simp add: L'_def)
  have "fs_img s (first_data + used L) L" using fs by (simp add: fs_ok_def)
  moreover have "first_data + used L + need (length (snd (L ! j)) + length p) \<le> FSSIZE + need (length (snd (L ! j)))" using u cap by linarith
  ultimately obtain s' fb' where r: "iappend (of_nat (j + 1)) p s = Some s'" "fs_img s' fb' L'"
    "fb' + need (length (snd (L ! j))) = first_data + used L + need (length (snd (L ! j)) + length p)" "mk_disk s' 1 = mk_disk s 1"
    using iappend_ok [OF _ j len] unfolding L'_def by metis
  have "fb' = first_data + used L'" using r(3) u by linarith
  then show thesis using that r fs by (simp add: fs_ok_def)
qed

lemma ialloc_ok:
  assumes fs: "fs_ok s L" and n: "length L + 1 < NINODES"
  obtains s' where "mk_ialloc ty s = Some (of_nat (length L + 1), s')" "fs_ok s' (L @ [(ty, [])])"
proof -
  have img: "fs_img s (first_data + used L) L" using fs by (simp add: fs_ok_def)
  note d = fs_imgD [OF img] and i = img_stD [OF fs_imgD(1) [OF img]]
  let ?fb = "first_data + used L" and ?L = "L @ [(ty, [])]" and ?s = "s\<lparr>mk_freeinode := mk_freeinode s + 1\<rparr>"
  let ?di = "\<lparr>di_type = ty, di_major = 0, di_minor = 0, di_nlink = 1, di_size = 0, di_addrs = replicate (NDIRECT + 1) 0\<rparr>"
  have pre: "img_ok ?s" "mk_sb ?s = mk_super" "length (di_addrs ?di) = 13" using i(1) d(2) by simp_all
  obtain s' where w: "winode (of_nat (length L + 1)) ?di ?s = Some s'" "img_ok s'" "mk_sb s' = mk_sb ?s" "mk_freeinode s' = mk_freeinode ?s"
    "mk_freeblock s' = mk_freeblock ?s" "\<And>k. k < NINODES \<Longrightarrow> inode_at (mk_disk s') k = (if k = length L + 1 then ?di else inode_at (mk_disk ?s) k)"
    "\<And>b. b < 32 \<or> first_data - 1 \<le> b \<Longrightarrow> mk_disk s' b = mk_disk ?s b"
    using winode_ok [OF pre(1,2) n pre(3)] by blast
  let ?C = "mk_disk s" and ?C' = "mk_disk s'"
  have new: "inode_img ?C' ?fb (length L + 1) (ty, [])" "inode_owns ?C' (length L + 1) (ty, []) = {}"
    using w(6) [OF n] i(4) by (auto simp: inode_img_def inode_owns_def file_img_def file_owns_def owned_def nblk_def blocks_ok_def nth_Cons')
  have old: "inode_img ?C' ?fb (k + 1) (L ! k) \<and> inode_owns ?C' (k + 1) (L ! k) = inode_owns ?C (k + 1) (L ! k)" if k: "k < length L" for k
  proof -
    have ok: "inode_img ?C ?fb (k + 1) (L ! k)" by (rule d(5) [OF k])
    have "inode_owns ?C (k + 1) (L ! k) \<subseteq> {first_data..<?fb}" using ok owns_range by (simp add: inode_img_def inode_owns_def)
    then have "?C' b = ?C b" if "b \<in> inode_owns ?C (k + 1) (L ! k)" for b using that w(7) [of b] by auto
    moreover have "inode_at ?C' (k + 1) = inode_at ?C (k + 1)" using w(6) [of "k + 1"] k d(4) by simp
    ultimately show ?thesis using inode_img_frame [OF ok _ _ order_refl i(4), of ?C'] by auto
  qed
  have st': "img_st s' ?fb" using i w(2,5,7) unfolding img_st_def by auto
  have "fs_img s' ?fb ?L"
    unfolding fs_img_def
  proof (intro conjI allI impI)
    show "inode_img ?C' ?fb (k + 1) (?L ! k)" if "k < length ?L" for k
      using that new(1) old [of k] by (cases "k = length L") (auto simp: nth_append)
    show "inode_owns ?C' (x + 1) (?L ! x) \<inter> inode_owns ?C' (y + 1) (?L ! y) = {}" if xy: "x < length ?L" "y < length ?L" "x \<noteq> y" for x y
    proof (cases "x = length L \<or> y = length L")
      case True
      then show ?thesis using new(2) by auto
    next
      case False
      then show ?thesis using xy d(6) [of x y] old [of x] old [of y] by (simp add: nth_append)
    qed
    show "?C' n = replicate BSIZE 0" if "n < 32" "n \<noteq> 1" for n using that w(7) [of n] d(7) [of n] by simp
  qed (use st' w(3,4) d(2,3) n in \<open>simp_all add: ac_simps\<close>)
  moreover have "?C' 1 = ?C 1" using w(7) [of 1] by simp
  ultimately have "fs_ok s' ?L" using fs by (simp add: fs_ok_def)
  moreover have "mk_ialloc ty s = Some (of_nat (length L + 1), s')" using w(1) d(3) by (simp add: mk_ialloc_def Let_def)
  ultimately show thesis using that by blast
qed

section \<open>The steps of the program\<close>

lemma zero_sectors:
  assumes "n \<le> FSSIZE" "mk_img s = []"
  shows "foldl (\<lambda>s i. wsect (of_nat i) (replicate BSIZE 0) s) s [0..<n] = s\<lparr>mk_img := replicate n (replicate BSIZE 0)\<rparr>"
  using assms(1)
proof (induction n)
  case (Suc n)
  have "sect (of_nat n) = n" using Suc.prems sect [of "of_nat n"] by (simp add: unat_of_nat)
  then show ?case using Suc by (simp add: wsect_def replicate_append_same)
qed (use assms(2) in simp)

lemma start_ok: "fs_ok mk_start []"
proof -
  let ?s = "\<lparr>mk_img = replicate FSSIZE (replicate BSIZE 0), mk_sb = mk_super, mk_freeinode = 1, mk_freeblock = 46\<rparr> :: mkfs"
  let ?b = "put_at (replicate BSIZE 0) 0 (superblock_bytes mk_super)"
  have s: "mk_start = wsect 1 ?b ?s"
    unfolding mk_start_def Let_def by (subst zero_sectors) simp_all
  have img: "img_ok ?s" and md: "mk_disk ?s n = replicate BSIZE 0" for n by (simp_all add: img_ok_def mk_disk_def)
  have len: "length ?b = BSIZE" by (simp add: superblock_bytes_def)
  have one: "unat (1 :: uint) < FSSIZE" by simp
  note w = wsect_ok [OF img one len, folded s]
  have "mk_disk mk_start = (\<lambda>n. if n = 1 then ?b else replicate BSIZE 0)" using w(2) md by auto
  then show ?thesis using w(1) by (simp add: fs_ok_def fs_img_def img_st_def s)
qed

lemma copy_file_ok:
  assumes "fs_ok s L" "j < length L" "\<forall>rd\<in>set rds. rd \<noteq> []" "length (snd (L ! j)) + length (concat rds) \<le> MAXFILE * BSIZE"
    "first_data + used (L[j := (fst (L ! j), snd (L ! j) @ concat rds)]) \<le> FSSIZE"
  shows "\<exists>s'. copy_file (of_nat (j + 1)) rds s = Some s' \<and> fs_ok s' (L[j := (fst (L ! j), snd (L ! j) @ concat rds)])"
  using assms
proof (induction rds arbitrary: s L)
  case (Cons rd rds)
  let ?x = "(fst (L ! j), snd (L ! j) @ rd)"
  have u: "used (L[j := ?x]) + need (length (snd (L ! j))) = used L + need (length (snd ?x))"
    "used (L[j := (fst (L ! j), snd (L ! j) @ rd @ concat rds)]) + need (length (snd (L ! j))) = used L + need (length (snd (L ! j)) + length rd + length (concat rds))"
    using used_update [OF Cons.prems(2), of ?x] used_update [OF Cons.prems(2), of "(fst (L ! j), snd (L ! j) @ rd @ concat rds)"]
    by (simp_all add: add.assoc)
  have "need (length (snd ?x)) \<le> need (length (snd (L ! j)) + length rd + length (concat rds))" by (intro need_mono) simp
  then have cap: "first_data + used (L[j := ?x]) \<le> FSSIZE" using u Cons.prems(5) by simp
  obtain s1 where s1: "iappend (of_nat (j + 1)) rd s = Some s1" "fs_ok s1 (L[j := ?x])"
    using append_ok [OF Cons.prems(1,2) _ cap] Cons.prems(4) by auto
  have "j < length (L[j := ?x])" using Cons.prems(2) by simp
  then have "\<exists>s'. copy_file (of_nat (j + 1)) rds s1 = Some s' \<and> fs_ok s' ((L[j := ?x])[j := (fst (L[j := ?x] ! j), snd (L[j := ?x] ! j) @ concat rds)])"
    using Cons.prems by (intro Cons.IH [OF s1(2)]) (simp_all add: add.assoc)
  then show ?case using s1(1) Cons.prems(2,3) by simp
qed simp

text \<open>What the arguments stand for: the entries of the root directory and the contents of the files.\<close>

definition mk_name :: "byte list \<Rightarrow> byte list" where
  "mk_name name = (if name \<noteq> [] \<and> hd name = 95 then tl name else name)"

definition mk_entry :: "nat \<Rightarrow> byte list \<Rightarrow> dirent" where
  "mk_entry n name = \<lparr>de_inum = of_nat n, de_name = strncpy_l 0 name DIRSIZ\<rparr>"

fun file_entries :: "nat \<Rightarrow> mkfile list \<Rightarrow> dirent list" where
  "file_entries n [] = []"
| "file_entries n (f # fs) = mk_entry n (mk_name (fst f)) # file_entries (Suc n) fs"

definition mk_data :: "mkfile \<Rightarrow> byte list" where
  "mk_data f = (case snd f of Some rds \<Rightarrow> concat rds | None \<Rightarrow> [])"

definition good_file :: "mkfile \<Rightarrow> bool" where
  "good_file f \<longleftrightarrow> 47 \<notin> set (fst f) \<and> length (mk_data f) \<le> MAXFILE * BSIZE \<and>
     (case snd f of Some rds \<Rightarrow> \<forall>rd\<in>set rds. rd \<noteq> [] | None \<Rightarrow> False)"

abbreviation entry_bytes :: "dirent list \<Rightarrow> byte list" where
  "entry_bytes es \<equiv> concat (map dirent_bytes es)"

lemma length_entry [simp]: "length (dirent_bytes (mk_entry n name)) = 16"
  by (simp add: dirent_bytes_def mk_entry_def)

lemma mk_link_ok:
  assumes fs: "fs_ok s ((T_DIR, r) # L)" and n: "n < 2 ^ 16" and len: "length r + 16 \<le> MAXFILE * BSIZE"
    and cap: "first_data + used ((T_DIR, r @ dirent_bytes (mk_entry n name)) # L) \<le> FSSIZE"
  obtains s' where "mk_link 1 (of_nat n) name s = Some s'" "fs_ok s' ((T_DIR, r @ dirent_bytes (mk_entry n name)) # L)"
proof -
  have e: "\<lparr>de_inum = xshort (ucast (of_nat n :: uint)), de_name = strncpy_l 0 name DIRSIZ\<rparr> = mk_entry n name"
    using n by (simp add: mk_entry_def word_unat_eq_iff unsigned_ucast_eq unat_of_nat take_bit_nat_eq_self)
  obtain s' where "iappend (of_nat (0 + 1)) (dirent_bytes (mk_entry n name)) s = Some s'"
    "fs_ok s' (((T_DIR, r) # L)[0 := (fst (((T_DIR, r) # L) ! 0), snd (((T_DIR, r) # L) ! 0) @ dirent_bytes (mk_entry n name))])"
    using append_ok [OF fs, of 0 "dirent_bytes (mk_entry n name)"] len cap by auto
  then show thesis using that e by (simp add: mk_link_def)
qed

lemma add_file_ok:
  assumes fs: "fs_ok s ((T_DIR, r) # L)" and f: "good_file f" and n: "length L + 2 < NINODES" and len: "length r + 16 \<le> MAXFILE * BSIZE"
  defines "r' \<equiv> r @ dirent_bytes (mk_entry (length L + 2) (mk_name (fst f)))"
  assumes cap: "first_data + used ((T_DIR, r') # L @ [(T_FILE, mk_data f)]) \<le> FSSIZE"
  obtains s' where "add_file 1 f s = Some s'" "fs_ok s' ((T_DIR, r') # L @ [(T_FILE, mk_data f)])"
proof -
  obtain name rds where ff: "f = (name, Some rds)" "47 \<notin> set name" "\<forall>rd\<in>set rds. rd \<noteq> []" "length (concat rds) \<le> MAXFILE * BSIZE"
    using f by (cases f) (auto simp: good_file_def mk_data_def split: option.splits)
  let ?inum = "of_nat (length L + 2) :: uint"
  have n1: "length ((T_DIR, r) # L) + 1 < NINODES" using n by simp
  obtain s1 where s1: "mk_ialloc T_FILE s = Some (of_nat (length ((T_DIR, r) # L) + 1), s1)" "fs_ok s1 (((T_DIR, r) # L) @ [(T_FILE, [])])"
    using ialloc_ok [OF fs n1] by blast
  have f1: "fs_ok s1 ((T_DIR, r) # L @ [(T_FILE, [])])" using s1(2) by simp
  have n2: "length L + 2 < 2 ^ 16" using n by simp
  have c2: "first_data + used ((T_DIR, r @ dirent_bytes (mk_entry (length L + 2) (mk_name (fst f)))) # L @ [(T_FILE, [])]) \<le> FSSIZE"
    using cap by (simp add: r'_def)
  obtain s2 where s2: "mk_link 1 (of_nat (length L + 2)) (mk_name (fst f)) s1 = Some s2" "fs_ok s2 ((T_DIR, r') # L @ [(T_FILE, [])])"
    unfolding r'_def by (rule mk_link_ok [OF f1 n2 len c2])
  let ?L2 = "(T_DIR, r') # L @ [(T_FILE, [])]" and ?j = "length L + 1"
  have j: "?j < length ?L2" "?L2 ! ?j = (T_FILE, [])" by simp_all
  have up: "?L2[?j := (fst (?L2 ! ?j), snd (?L2 ! ?j) @ concat rds)] = (T_DIR, r') # L @ [(T_FILE, mk_data f)]"
    using ff(1) by (simp add: mk_data_def list_update_append)
  have "length (snd (?L2 ! ?j)) + length (concat rds) \<le> MAXFILE * BSIZE" using ff(4) j(2) by simp
  from copy_file_ok [OF s2(2) j(1) ff(3) this] obtain s' where "copy_file (of_nat (?j + 1)) rds s2 = Some s'"
    "fs_ok s' ((T_DIR, r') # L @ [(T_FILE, mk_data f)])"
    using cap unfolding up by auto
  then show thesis using that s1(1) s2(1) ff(1,2) by (simp add: add_file_def mk_name_def Let_def)
qed

lemma length_entries [simp]: "length (file_entries n fs) = length fs"
  by (induction fs arbitrary: n) simp_all

lemma length_entry_bytes: "length (entry_bytes (file_entries n fs)) = 16 * length fs"
  by (induction fs arbitrary: n) simp_all

lemma add_files_ok:
  assumes "fs_ok s ((T_DIR, r) # L)" "\<forall>f\<in>set fs. good_file f" "length L + length fs + 1 < NINODES" "length r + 16 * length fs \<le> MAXFILE * BSIZE"
    "first_data + used ((T_DIR, r @ entry_bytes (file_entries (length L + 2) fs)) # L @ map (\<lambda>f. (T_FILE, mk_data f)) fs) \<le> FSSIZE"
  shows "\<exists>s'. add_files 1 fs s = Some s' \<and>
    fs_ok s' ((T_DIR, r @ entry_bytes (file_entries (length L + 2) fs)) # L @ map (\<lambda>f. (T_FILE, mk_data f)) fs)"
  using assms
proof (induction fs arbitrary: s r L)
  case (Cons f fs)
  let ?e = "dirent_bytes (mk_entry (length L + 2) (mk_name (fst f)))"
  let ?r = "r @ ?e" and ?L = "L @ [(T_FILE, mk_data f)]"
  have "need (length ?r) \<le> need (length (?r @ entry_bytes (file_entries (length L + 3) fs)))" by (intro need_mono) simp
  then have cap: "first_data + used ((T_DIR, ?r) # ?L) \<le> FSSIZE" using Cons.prems(5) by (simp add: eval_nat_numeral)
  have pre: "good_file f" "length L + 2 < NINODES" "length r + 16 \<le> MAXFILE * BSIZE" using Cons.prems by simp_all
  obtain s1 where s1: "add_file 1 f s = Some s1" "fs_ok s1 ((T_DIR, ?r) # ?L)"
    by (rule add_file_ok [OF Cons.prems(1) pre cap])
  have "length ?L + 2 = Suc (length L + 2)" by simp
  then have "\<exists>s'. add_files 1 fs s1 = Some s' \<and>
      fs_ok s' ((T_DIR, ?r @ entry_bytes (file_entries (length ?L + 2) fs)) # ?L @ map (\<lambda>f. (T_FILE, mk_data f)) fs)"
    using Cons.prems by (intro Cons.IH [OF s1(2)]) simp_all
  then show ?case using s1(1) by simp
qed simp

text \<open>All files of the image, the root directory first, before its size is rounded up.\<close>

definition root_entries :: "mkfile list \<Rightarrow> dirent list" where
  "root_entries files = mk_entry 1 [46] # mk_entry 1 [46, 46] # file_entries 2 files"

definition mk_files :: "mkfile list \<Rightarrow> (16 word \<times> byte list) list" where
  "mk_files files = (T_DIR, entry_bytes (root_entries files)) # map (\<lambda>f. (T_FILE, mk_data f)) files"

text \<open>The files can be read, and there is room for them.\<close>

definition mk_input :: "mkfile list \<Rightarrow> bool" where
  "mk_input files \<longleftrightarrow> (\<forall>f\<in>set files. good_file f) \<and> length files + 1 < NINODES \<and> first_data + used (mk_files files) \<le> FSSIZE"

lemma length_root: "length (entry_bytes (root_entries files)) = 16 * (length files + 2)"
  by (simp add: root_entries_def length_entry_bytes)

lemma files_ok:
  assumes "mk_input files"
  obtains s s1 s2 s3 where "mk_ialloc T_DIR mk_start = Some (1, s)" "mk_link 1 1 [46] s = Some s1" "mk_link 1 1 [46, 46] s1 = Some s2"
    "add_files 1 files s2 = Some s3" "fs_ok s3 (mk_files files)"
proof -
  have g: "\<forall>f\<in>set files. good_file f" "length files + 1 < NINODES" "first_data + used (mk_files files) \<le> FSSIZE" using assms by (simp_all add: mk_input_def)
  let ?e = "dirent_bytes (mk_entry 1 [46])" and ?e2 = "dirent_bytes (mk_entry 1 [46, 46])"
  obtain s where s: "mk_ialloc T_DIR mk_start = Some (1, s)" "fs_ok s [(T_DIR, [])]"
    using ialloc_ok [OF start_ok, of T_DIR] by auto
  have small: "need k \<le> 1" if "k \<le> BSIZE" for k
  proof -
    have "nblk k \<le> nblk BSIZE" using that by (rule nblk_mono)
    then show ?thesis by (simp add: need_def blocks_for_def nblk_def)
  qed
  have 1: "(1 :: nat) < 2 ^ 16" by simp
  obtain s1 where s1: "mk_link 1 (of_nat 1) [46] s = Some s1" "fs_ok s1 [(T_DIR, [] @ ?e)]"
    by (rule mk_link_ok [OF s(2) 1]) (use small [of 16] in simp_all)
  have f1: "fs_ok s1 [(T_DIR, ?e)]" using s1(2) by simp
  obtain s2 where s2: "mk_link 1 (of_nat 1) [46, 46] s1 = Some s2" "fs_ok s2 [(T_DIR, ?e @ ?e2)]"
    by (rule mk_link_ok [OF f1 1]) (use small [of 32] in simp_all)
  have r: "(?e @ ?e2) @ entry_bytes (file_entries (length ([] :: (16 word \<times> byte list) list) + 2) files) = entry_bytes (root_entries files)"
    by (simp add: root_entries_def numeral_2_eq_2)
  obtain s3 where "add_files 1 files s2 = Some s3" "fs_ok s3 (mk_files files)"
    using add_files_ok [OF s2(2) g(1)] g(2,3) unfolding r mk_files_def by auto
  then show thesis using that s(1) s1(1) s2(1) by simp
qed

section \<open>The bitmap and the end of the program\<close>

lemma and_bit: "w AND push_bit k 1 = 0 \<longleftrightarrow> \<not> bit w k" if "k < 8" for w :: byte
proof -
  have "bit (w AND push_bit k 1) n \<longleftrightarrow> n = k \<and> bit w k" for n using that by (auto simp: bit_simps)
  moreover have "x = 0 \<longleftrightarrow> (\<forall>n. \<not> bit x n)" for x :: byte by (auto intro!: bit_word_eqI)
  ultimately show ?thesis by metis
qed

lemma bit_free_iff: "bit_free d bi \<longleftrightarrow> \<not> bit (d ! (bi div 8)) (bi mod 8)"
  using and_bit [of "bi mod 8" "d ! (bi div 8)"] by (simp add: bit_free_def bit_mask_def)

lemma bitmap_ok:
  assumes "n \<le> 8 * BSIZE"
  defines "d \<equiv> foldl (\<lambda>buf i. buf[i div 8 := buf ! (i div 8) OR bit_mask i]) (replicate BSIZE 0) [0..<n]"
  shows "length d = BSIZE" "\<And>bi. bi < 8 * BSIZE \<Longrightarrow> bit_free d bi \<longleftrightarrow> n \<le> bi"
proof -
  have "length d = BSIZE \<and> (\<forall>bi<8 * BSIZE. bit_free d bi \<longleftrightarrow> n \<le> bi)"
    using assms(1) unfolding d_def
  proof (induction n)
    case 0
    have "(replicate BSIZE 0 :: byte list) ! (bi div 8) = 0" if "bi < 8 * BSIZE" for bi using that by (simp add: less_mult_imp_div_less)
    then show ?case by (simp add: bit_free_iff)
  next
    case (Suc n)
    let ?d = "foldl (\<lambda>buf i. buf[i div 8 := buf ! (i div 8) OR bit_mask i]) (replicate BSIZE 0) [0..<n]"
    have ih: "length ?d = BSIZE" "\<And>bi. bi < 8 * BSIZE \<Longrightarrow> bit_free ?d bi \<longleftrightarrow> n \<le> bi" using Suc by simp_all
    have lt: "n div 8 < length ?d" using Suc.prems ih(1) by (simp add: less_mult_imp_div_less)
    have "bit_free (?d[n div 8 := ?d ! (n div 8) OR bit_mask n]) bi \<longleftrightarrow> bit_free ?d bi \<and> bi \<noteq> n" for bi
    proof (cases "bi div 8 = n div 8")
      case True
      then have "bi = n \<longleftrightarrow> bi mod 8 = n mod 8" by (metis div_mult_mod_eq)
      moreover have "bit (bit_mask n) (bi mod 8) \<longleftrightarrow> bi mod 8 = n mod 8" by (auto simp: bit_mask_def bit_simps)
      ultimately show ?thesis using True lt by (auto simp: bit_free_iff bit_or_iff)
    next
      case False
      then show ?thesis by (auto simp: bit_free_iff)
    qed
    then show ?case using ih by auto
  qed
  then show "length d = BSIZE" "\<And>bi. bi < 8 * BSIZE \<Longrightarrow> bit_free d bi \<longleftrightarrow> n \<le> bi" by auto
qed

text \<open>The image in the end: the files, the directory with its size rounded up, the map of the blocks in use.\<close>

definition root_size :: "mkfile list \<Rightarrow> nat" where
  "root_size files = (16 * (length files + 2) div BSIZE + 1) * BSIZE"

definition image_of :: "mkfs \<Rightarrow> mkfile list \<Rightarrow> bool" where
  "image_of s files \<longleftrightarrow> (let C = mk_disk s; fb = first_data + used (mk_files files) in
     img_ok s \<and> (\<forall>k<length files. inode_img C fb (k + 2) (T_FILE, mk_data (files ! k))) \<and>
     di_type (inode_at C 1) = T_DIR \<and> di_size (inode_at C 1) = of_nat (root_size files) \<and>
     file_img C fb (di_addrs (inode_at C 1)) (entry_bytes (root_entries files)) \<and>
     C 1 = put_at (replicate BSIZE 0) 0 (superblock_bytes mk_super) \<and> C 2 = replicate BSIZE 0 \<and>
     (\<forall>b<FSSIZE. bit_free (C 45) b \<longleftrightarrow> fb \<le> b))"

lemma mkfs_main_ok:
  assumes "mk_input files"
  obtains s where "mkfs_main files = Some s" "image_of s files"
proof -
  obtain s0 s1 s2 s3 where r: "mk_ialloc T_DIR mk_start = Some (1, s0)" "mk_link 1 1 [46] s0 = Some s1" "mk_link 1 1 [46, 46] s1 = Some s2"
    "add_files 1 files s2 = Some s3" "fs_ok s3 (mk_files files)"
    by (rule files_ok [OF assms])
  let ?L = "mk_files files" and ?fb = "first_data + used (mk_files files)" and ?C = "mk_disk s3"
  have img: "fs_img s3 ?fb ?L" and c1: "?C 1 = put_at (replicate BSIZE 0) 0 (superblock_bytes mk_super)" using r(5) by (simp_all add: fs_ok_def)
  note d = fs_imgD [OF img] and i = img_stD [OF fs_imgD(1) [OF img]]
  have L: "length ?L = length files + 1" "?L ! 0 = (T_DIR, entry_bytes (root_entries files))" "\<And>k. k < length files \<Longrightarrow> ?L ! (k + 1) = (T_FILE, mk_data (files ! k))"
    by (simp_all add: mk_files_def)
  have root: "inode_img ?C ?fb 1 (T_DIR, entry_bytes (root_entries files))" using d(5) [of 0] L by simp
  let ?din = "inode_at ?C 1" and ?di = "(inode_at ?C 1)\<lparr>di_size := of_nat (root_size files)\<rparr>"
  have sz: "di_size ?din = of_nat (16 * (length files + 2))" "length (di_addrs ?di) = 13"
    using root file_img_len by (auto simp: inode_img_def length_root)
  have off: "(di_size ?din div of_nat BSIZE + 1) * of_nat BSIZE = (of_nat (root_size files) :: uint)"
  proof -
    define x where "x = 16 * (length files + 2)"
    have "x < 2 ^ 32" using assms by (simp add: x_def mk_input_def)
    then have "unat (of_nat x :: uint) = x" "unat (of_nat (x div BSIZE) :: uint) = x div BSIZE"
      by (simp_all add: unat_of_nat less_le_trans [OF le_less_trans [OF div_le_dividend]])
    then have "(of_nat x :: uint) div of_nat BSIZE = of_nat (x div BSIZE)" by (simp add: word_unat_eq_iff unat_div)
    then show ?thesis unfolding sz(1) root_size_def x_def [symmetric] by simp
  qed
  have one: "(1 :: nat) < NINODES" by simp
  obtain s4 where w: "winode (of_nat 1) ?di s3 = Some s4" "img_ok s4" "mk_sb s4 = mk_sb s3" "mk_freeblock s4 = mk_freeblock s3"
    "\<And>k. k < NINODES \<Longrightarrow> inode_at (mk_disk s4) k = (if k = 1 then ?di else inode_at ?C k)"
    "\<And>b. b < 32 \<or> first_data - 1 \<le> b \<Longrightarrow> mk_disk s4 b = ?C b"
    using winode_ok [OF i(1) d(2) one sz(2)] by metis
  have fb: "sint (mk_freeblock s4) = int ?fb" using w(4) i(2,4) sint_of_nat_small [of ?fb] by simp
  define bm where "bm = foldl (\<lambda>buf i. buf[i div 8 := buf ! (i div 8) OR bit_mask i]) (replicate BSIZE 0) [0..<?fb]"
  have le: "?fb \<le> 8 * BSIZE" using i(4) by simp
  note bm = bitmap_ok [OF le, folded bm_def]
  have bs: "sb_bmapstart (mk_sb s4) = 45" "unat (45 :: uint) < FSSIZE" using w(3) d(2) by (simp_all add: mk_super_def)
  let ?s = "wsect 45 bm s4" and ?C' = "mk_disk (wsect 45 bm s4)"
  note ws = wsect_ok [OF w(2) bs(2) bm(1)]
  have "mk_balloc (sint (mk_freeblock s4)) s4 = Some ?s"
    using i(4) bs(1) unfolding fb mk_balloc_def bm_def by (simp add: Let_def del: of_nat_add)
  then have "mkfs_main files = Some ?s"
    using r(1-4) w(1) off rinode_ok [OF i(1) d(2) one] by (simp add: mkfs_main_def Let_def)
  moreover have "image_of ?s files"
  proof -
    have ino: "inode_at ?C' k = (if k = 1 then ?di else inode_at ?C k)" if "k < NINODES" for k
      using w(5) [OF that] ws(2) iblock(3) [OF that] by (simp add: inode_at_def)
    have blk: "?C' b = ?C b" if "first_data \<le> b \<or> b < 32" for b using that ws(2) w(6) [of b] by auto
    have fr: "file_img ?C' ?fb a c" if "file_img ?C ?fb a c" for a c
      by (rule file_img_frame(1) [OF that _ order_refl i(4)]) (use owns_range [OF that] blk in auto)
    have "inode_img ?C' ?fb (k + 2) (T_FILE, mk_data (files ! k))" if k: "k < length files" for k
      using d(5) [of "k + 1"] k L ino [of "k + 2"] d(4) fr by (simp add: inode_img_def)
    moreover have "bit_free (?C' 45) b \<longleftrightarrow> ?fb \<le> b" if "b < FSSIZE" for b using bm(2) [of b] that ws(2) by simp
    moreover have "?C' 1 = put_at (replicate BSIZE 0) 0 (superblock_bytes mk_super)" "?C' 2 = replicate BSIZE 0" using blk [of 1] blk [of 2] c1 d(7) by simp_all
    ultimately show ?thesis using ws(1) ino [OF one] root fr by (simp add: image_of_def Let_def inode_img_def)
  qed
  ultimately show thesis by (rule that)
qed

end
