(* ===== verification/MkfsBoot.thy ===== *)
theory MkfsBoot
  imports MkfsRun
begin

text \<open>A kernel on an image of \<open>mkfs\<close>: loading an inode, reading a file, searching the root directory.\<close>

section \<open>Loading an inode\<close>

lemma acquiresleep_inode:
  assumes h: "host s" and b: "nth_opt (inodes s) ip = Some i" "slk_locked (i_lock i) = 0"
  obtains s' l where "acquiresleep (SlInode ip) s = Some s'" "host s'" "s' = (upd_inode ip (\<lambda>i. i\<lparr>i_lock := l\<rparr>) s)\<lparr>mach := settle (mach s)\<rparr>"
proof -
  note d = hostD [OF h]
  obtain p where p: "c_proc (here_cpu (mach s)) = Some p" "p < length (proc (ptable s))" using h by (auto simp: host_def sched_ok_def)
  let ?l = "(i_lock i)\<lparr>slk_locked := 1, slk_pid := p_pid (proc (ptable s) ! p)\<rparr>"
  let ?s = "(upd_inode ip (\<lambda>i. i\<lparr>i_lock := ?l\<rparr>) s)\<lparr>mach := settle (mach s)\<rparr>"
  have my: "myproc (s\<lparr>mach := acq (InodeSlk ip) (mach s)\<rparr>) = Some (Some p, s\<lparr>mach := acq (InodeSlk ip) (mach s)\<rparr>)"
    using d(2) p(1) by simp
  have lt: "ip < length (inodes s)" "inodes s ! ip = i" using b(1) by (auto simp: nth_opt_def split: if_splits)
  have "acquiresleep (SlInode ip) s = Some ?s"
    using d b p(2) my lt by (simp add: acquiresleep_def acquiresleep_enter_def acquiresleep_loop_def upd_inode_def del: myproc_wf)
  moreover have "host ?s" by (rule host_frame [OF h]) (simp_all add: upd_inode_def)
  ultimately show thesis using that by blast
qed

lemma bio_ok_inode:
  assumes "bcache fs' = bcache fs" "disksize fs' = disksize fs" "memdisk fs' = memdisk fs"
  shows "bio_ok fs' H D C \<longleftrightarrow> bio_ok fs H D C"
  using assms by (simp add: bio_ok_def buf_of_def)

text \<open>A kernel that runs on the disk \<open>C\<close>, with the super block of it in memory and clean buffers.\<close>

definition runs_on :: "(nat \<Rightarrow> block) \<Rightarrow> kernel \<Rightarrow> bool" where
  "runs_on C t \<longleftrightarrow> host t \<and> bio_ok (fsys t) {} {} C \<and> disksize (fsys t) = FSSIZE \<and> sb (fsys t) = get_superblock (C 1)"

text \<open>Inode \<open>n\<close> has an entry in the inode cache that is in use, not locked and not loaded yet.\<close>

definition unread_inode :: "nat \<Rightarrow> nat \<Rightarrow> kernel \<Rightarrow> bool" where
  "unread_inode ip n t \<longleftrightarrow> (case nth_opt (inodes t) ip of None \<Rightarrow> False
     | Some i \<Rightarrow> i_dev i = 1 \<and> i_inum i = of_nat n \<and> 1 \<le> i_ref i \<and> i_valid i = 0 \<and> slk_locked (i_lock i) = 0)"

lemma superblock_back:
  "get_superblock (put_at (replicate BSIZE 0) 0 (superblock_bytes mk_super)) = mk_super"
proof -
  have len: "0 + length (superblock_bytes mk_super) \<le> length (replicate BSIZE 0 :: byte list)" by (simp add: superblock_bytes_def)
  let ?a = "bytes32 (sb_size mk_super)" and ?b = "bytes32 (sb_nblocks mk_super)" and ?c = "bytes32 (sb_ninodes mk_super)" and ?d = "bytes32 (sb_nlog mk_super)"
    and ?e = "bytes32 (sb_logstart mk_super)" and ?f = "bytes32 (sb_inodestart mk_super)" and ?g = "bytes32 (sb_bmapstart mk_super)"
  have "get_u32 (superblock_bytes mk_super) 0 = sb_size mk_super" "get_u32 (superblock_bytes mk_super) 4 = sb_nblocks mk_super"
    "get_u32 (superblock_bytes mk_super) 8 = sb_ninodes mk_super" "get_u32 (superblock_bytes mk_super) 12 = sb_nlog mk_super"
    "get_u32 (superblock_bytes mk_super) 16 = sb_logstart mk_super" "get_u32 (superblock_bytes mk_super) 20 = sb_inodestart mk_super"
    "get_u32 (superblock_bytes mk_super) 24 = sb_bmapstart mk_super"
    using get_bytes32 [of "[]" "sb_size mk_super" "?b @ ?c @ ?d @ ?e @ ?f @ ?g"] get_bytes32 [of ?a "sb_nblocks mk_super" "?c @ ?d @ ?e @ ?f @ ?g"]
      get_bytes32 [of "?a @ ?b" "sb_ninodes mk_super" "?d @ ?e @ ?f @ ?g"] get_bytes32 [of "?a @ ?b @ ?c" "sb_nlog mk_super" "?e @ ?f @ ?g"]
      get_bytes32 [of "?a @ ?b @ ?c @ ?d" "sb_logstart mk_super" "?f @ ?g"] get_bytes32 [of "?a @ ?b @ ?c @ ?d @ ?e" "sb_inodestart mk_super" ?g]
      get_bytes32 [of "?a @ ?b @ ?c @ ?d @ ?e @ ?f" "sb_bmapstart mk_super" "[]"] by (simp_all add: superblock_bytes_def)
  then show ?thesis using get32_put_at [OF len] by (simp add: get_superblock_def superblock_bytes_def)
qed

lemma ilock_ok:
  assumes on: "runs_on C s" and sb1: "get_superblock (C 1) = mk_super" and un: "unread_inode ip n s" and n: "n < NINODES" "di_type (inode_at C n) \<noteq> 0"
  obtains s' i' where "ilock (Some ip) s = Some s'" "host s'" "bio_ok (fsys s') {} {} C" "disksize (fsys s') = FSSIZE" "nth_opt (inodes s') ip = Some i'"
    "i_dev i' = 1" "i_type i' = di_type (inode_at C n)" "i_size i' = di_size (inode_at C n)" "i_addrs i' = di_addrs (inode_at C n)"
    "length (inodes s') = length (inodes s)" "\<And>j. j \<noteq> ip \<Longrightarrow> inodes s' ! j = inodes s ! j"
proof -
  obtain i where i: "nth_opt (inodes s) ip = Some i" "i_dev i = 1" "i_inum i = of_nat n" "1 \<le> i_ref i" "i_valid i = 0" "slk_locked (i_lock i) = 0"
    using un by (auto simp: unread_inode_def split: option.splits)
  have lt: "ip < length (inodes s)" "inodes s ! ip = i" using i(1) by (auto simp: nth_opt_def split: if_splits)
  have o: "host s" "bio_ok (fsys s) {} {} C" "disksize (fsys s) = FSSIZE" "sb (fsys s) = mk_super" using on sb1 by (simp_all add: runs_on_def)
  obtain s1 l where s1: "acquiresleep (SlInode ip) s = Some s1" "host s1" "s1 = (upd_inode ip (\<lambda>i. i\<lparr>i_lock := l\<rparr>) s)\<lparr>mach := settle (mach s)\<rparr>"
    by (rule acquiresleep_inode [OF o(1) i(1,6)])
  have f1: "bcache (fsys s1) = bcache (fsys s)" "disksize (fsys s1) = disksize (fsys s)" "memdisk (fsys s1) = memdisk (fsys s)" "sb (fsys s1) = sb (fsys s)"
    "inodes s1 = (inodes s)[ip := i\<lparr>i_lock := l\<rparr>]" using lt by (simp_all add: s1(3) upd_inode_def)
  have ok1: "bio_ok (fsys s1) {} {} C" using o(2) bio_ok_inode [OF f1(1-3)] by simp
  let ?bn = "32 + n div IPB"
  have bn: "?bn < disksize (fsys s1)" "IBLOCK (of_nat n) mk_super = of_nat ?bn" "dinode_off (of_nat n) = 64 * (n mod IPB)"
  proof -
    show "?bn < disksize (fsys s1)" "dinode_off (of_nat n) = 64 * (n mod IPB)" using iblock [OF n(1)] f1(2) o(3) by auto
    have "of_nat (unat (IBLOCK (of_nat n) mk_super)) = IBLOCK (of_nat n) mk_super" by simp
    then show "IBLOCK (of_nat n) mk_super = of_nat ?bn" unfolding iblock(1) [OF n(1)] by simp
  qed
  obtain b s2 where s2: "bread 1 (of_nat ?bn) s1 = Some (b, s2)" "host s2" "bio_ok (fsys s2) (insert b {}) {} C" "buf_of (fsys s2) ?bn b"
    "fsys s2 = (fsys s1)\<lparr>bcache := bcache (fsys s2)\<rparr>"
    by (rule bread_ok [OF s1(2) ok1 bn(1)]) auto
  have dat: "bdata b s2 = Some (C ?bn)" by (rule bdata_ok [OF s2(3,4)])
  let ?di = "inode_at C n"
  let ?f = "\<lambda>i. i\<lparr>i_type := di_type ?di, i_major := di_major ?di, i_minor := di_minor ?di, i_nlink := di_nlink ?di,
    i_size := di_size ?di, i_addrs := di_addrs ?di\<rparr>"
  let ?s2 = "upd_inode ip ?f s2"
  have in2: "inodes s2 = inodes s1" by (subst s2(5)) simp
  have h2: "host ?s2" using s2(2) by (simp add: host_def sched_ok_def upd_inode_def)
  have ok2: "bio_ok (fsys ?s2) {b} {} C" using s2(3) bio_ok_inode [of "fsys ?s2" "fsys s2"] by (simp add: upd_inode_def)
  obtain s3 where s3: "brelse b ?s2 = Some s3" "host s3" "bio_ok (fsys s3) ({b} - {b}) {} C" "fsys s3 = (fsys ?s2)\<lparr>bcache := bcache (fsys s3)\<rparr>"
    by (rule brelse_ok [OF h2 ok2]) auto
  let ?s = "upd_inode ip (\<lambda>i. i\<lparr>i_valid := 1\<rparr>) s3"
  have in3: "inodes s3 = (inodes s)[ip := ?f (i\<lparr>i_lock := l\<rparr>)]" by (subst s3(4)) (use lt in2 f1(5) in \<open>simp add: upd_inode_def\<close>)
  have "ilock (Some ip) s = Some ?s"
    using i lt s1(1) f1(4,5) s2(1) dat s3(1) n(2) o(4) bn(2,3) by (simp add: ilock_def Let_def inode_at_def)
  moreover have "host ?s" using s3(2) by (simp add: host_def sched_ok_def upd_inode_def)
  moreover have "bio_ok (fsys ?s) {} {} C" using s3(3) bio_ok_inode [of "fsys ?s" "fsys s3"] by (simp add: upd_inode_def)
  moreover have "disksize (fsys ?s) = FSSIZE" using bcache_frame(2) [OF s3(4)] bcache_frame(2) [OF s2(5)] f1(2) o(3) by (simp add: upd_inode_def)
  moreover have "nth_opt (inodes ?s) ip = Some ((?f (i\<lparr>i_lock := l\<rparr>))\<lparr>i_valid := 1\<rparr>)" using in3 lt by (simp add: upd_inode_def)
  ultimately show thesis by (rule that) (use i(2) in3 in \<open>simp_all add: upd_inode_def\<close>)
qed

section \<open>Files\<close>

text \<open>A loaded inode of the image is a file for the operations of the kernel.\<close>

lemma loaded_file:
  assumes h: "host t" "bio_ok (fsys t) {} {} C" "disksize (fsys t) = FSSIZE" "nth_opt (inodes t) ip = Some i"
    and i: "i_dev i = 1" "i_type i \<noteq> T_DEV" "unat (i_size i) \<le> nblk (length c) * BSIZE" and img: "file_img C fb (i_addrs i) c"
  shows "file_st 2 {} C ip i (nblk (length c)) t" "\<And>off n. off + n \<le> length c \<Longrightarrow> file_slice C i off n = take n (drop off c)"
proof -
  have b: "blocks_ok C fb (i_addrs i) (nblk (length c)) (NDIRECT < nblk (length c))" using img by (simp add: file_img_def)
  show "file_st 2 {} C ip i (nblk (length c)) t" using h blocks_file_ok [OF b refl i] by (simp add: file_st_def)
  have eq: "file_byte C i k = c ! k" if "k < length c" for k
  proof -
    have "k < nblk (length c) * BSIZE" using that nblk_bound [of "length c"] by linarith
    then have "file_byte C (adr (i_addrs i)) k = c ! k" using img that by (simp add: file_img_def)
    then show ?thesis using baddr_adr [of C i] by (simp add: file_byte_def)
  qed
  show "file_slice C i off n = take n (drop off c)" if "off + n \<le> length c" for off n
    using that eq by (auto intro!: nth_equalityI simp: file_slice_def)
qed

text \<open>
  Property C7.  What \<open>mkfs\<close> puts into the image is what the kernel reads.  For every list of files
  that can be read and that there is room for, \<open>mkfs\<close> ends without an error; on a kernel that runs
  on the image, \<open>ilock\<close> of inode \<open>k + 2\<close> followed by \<open>readi\<close> returns exactly the bytes of file \<open>k\<close>.
\<close>

theorem mkfs_files_readable:
  assumes "mk_input files"
  shows "\<exists>s. mkfs_main files = Some s \<and> (\<forall>t ip k. runs_on (mk_disk s) t \<and> k < length files \<and> unread_inode ip (k + 2) t \<longrightarrow>
    (\<exists>t1 t2. ilock (Some ip) t = Some t1 \<and>
       readi ip 0 (of_nat (length (mk_data (files ! k)))) t1 = Some (int (length (mk_data (files ! k))), mk_data (files ! k), t2)))"
proof -
  obtain s where s: "mkfs_main files = Some s" "image_of s files" by (rule mkfs_main_ok [OF assms])
  let ?C = "mk_disk s" and ?fb = "first_data + used (mk_files files)"
  have sb: "get_superblock (?C 1) = mk_super" using s(2) superblock_back by (simp add: image_of_def Let_def)
  have "\<exists>t1 t2. ilock (Some ip) t = Some t1 \<and>
       readi ip 0 (of_nat (length (mk_data (files ! k)))) t1 = Some (int (length (mk_data (files ! k))), mk_data (files ! k), t2)"
    if a: "runs_on ?C t" "k < length files" "unread_inode ip (k + 2) t" for t ip k
  proof -
    let ?c = "mk_data (files ! k)"
    have im: "di_type (inode_at ?C (k + 2)) = T_FILE" "di_size (inode_at ?C (k + 2)) = of_nat (length ?c)" "file_img ?C ?fb (di_addrs (inode_at ?C (k + 2))) ?c"
      using s(2) a(2) by (simp_all add: image_of_def Let_def inode_img_def)
    have n: "k + 2 < NINODES" using assms a(2) by (simp add: mk_input_def)
    have ty: "di_type (inode_at ?C (k + 2)) \<noteq> 0" using im(1) by simp
    obtain t1 i where t1: "ilock (Some ip) t = Some t1" "host t1" "bio_ok (fsys t1) {} {} ?C" "disksize (fsys t1) = FSSIZE" "nth_opt (inodes t1) ip = Some i"
      "i_dev i = 1" "i_type i = di_type (inode_at ?C (k + 2))" "i_size i = di_size (inode_at ?C (k + 2))" "i_addrs i = di_addrs (inode_at ?C (k + 2))"
      by (rule ilock_ok [OF a(1) sb a(3) n ty])
    have len: "length ?c \<le> MAXFILE * BSIZE" using file_img_len [OF im(3)] by simp
    have sz: "unat (i_size i) = length ?c" unfolding t1(8) im(2) by (subst unat_of_nat) (use len in simp)
    have lf: "file_st 2 {} ?C ip i (nblk (length ?c)) t1" "file_slice ?C i 0 (length ?c) = take (length ?c) (drop 0 ?c)"
      using loaded_file [OF t1(2-6)] t1(7,9) im(1,3) sz nblk_bound [of "length ?c"] by simp_all
    have o: "0 \<le> unat (i_size i)" "0 + length ?c < 2 ^ 32" "min (length ?c) (unat (i_size i) - 0) = length ?c" using len sz by simp_all
    obtain t2 where "readi ip (of_nat 0) (of_nat (length ?c)) t1 =
        Some (int (min (length ?c) (unat (i_size i) - 0)), file_slice ?C i 0 (min (length ?c) (unat (i_size i) - 0)), t2)"
      by (rule readi_ok [OF lf(1) o(1,2)])
    then have "readi ip 0 (of_nat (length ?c)) t1 = Some (int (length ?c), ?c, t2)" unfolding o(3) lf(2) by simp
    then show ?thesis using t1(1) by blast
  qed
  then show ?thesis using s(1) by blast
qed

text \<open>One file, \<open>_ab\<close>, of three bytes; a kernel with inode \<open>n\<close> in the first entry of the inode cache.\<close>

definition files_ab :: "mkfile list" where
  "files_ab = [([95, 97, 98], Some [[1, 2], [3]])]"

definition kernel_on :: "(nat \<Rightarrow> block) \<Rightarrow> nat \<Rightarrow> kernel" where
  "kernel_on C n = (demo RUNNING None (Some 0))\<lparr>fsys := fsys0\<lparr>disksize := FSSIZE, memdisk := C,
     bcache := \<lparr>bc_buf = replicate NBUF buf0, bc_list = [0..<NBUF]\<rparr>, sb := get_superblock (C 1),
     icache := inode0\<lparr>i_dev := 1, i_inum := of_nat n, i_ref := 1\<rparr> # replicate 49 inode0\<rparr>\<rparr>"

lemma input_ab: "mk_input files_ab"
proof -
  have "need 48 = 1" "need 3 = 1" by (simp_all add: need_def nblk_def blocks_for_def)
  then show ?thesis
    by (simp add: mk_input_def files_ab_def mk_files_def length_root [simplified] good_file_def mk_data_def numeral_3_eq_3)
qed

lemma kernel_on_runs:
  assumes "\<And>n. length (C n) = BSIZE"
  shows "runs_on C (kernel_on C n)" "unread_inode 0 n (kernel_on C n)"
proof -
  have "host (kernel_on C n)" unfolding kernel_on_def by (rule host_demo)
  moreover have "bio_ok (fsys (kernel_on C n)) {} {} C"
  proof -
    have "\<not> buf_of (fsys (kernel_on C n)) m b" for m b by (auto simp: buf_of_def kernel_on_def buf0_def)
    moreover have "\<forall>b<NBUF. buf_ok {} {} C FSSIZE b (bufs (kernel_on C n) ! b)"
      by (simp add: kernel_on_def buf_ok_def buf0_def sleeplock0_def)
    ultimately show ?thesis using assms by (auto simp: bio_ok_def kernel_on_def)
  qed
  ultimately show "runs_on C (kernel_on C n)" by (simp add: runs_on_def) (simp add: kernel_on_def)
  show "unread_inode 0 n (kernel_on C n)" by (simp add: unread_inode_def kernel_on_def inode0_def sleeplock0_def)
qed

theorem mkfs_files_readable_witness:
  "\<exists>s t1 t2. mkfs_main files_ab = Some s \<and> ilock (Some 0) (kernel_on (mk_disk s) 2) = Some t1 \<and> readi 0 0 3 t1 = Some (3, [1, 2, 3], t2)"
proof -
  obtain s where s: "mkfs_main files_ab = Some s" "\<forall>t ip k. runs_on (mk_disk s) t \<and> k < length files_ab \<and> unread_inode ip (k + 2) t \<longrightarrow>
    (\<exists>t1 t2. ilock (Some ip) t = Some t1 \<and> readi ip 0 (of_nat (length (mk_data (files_ab ! k)))) t1 =
       Some (int (length (mk_data (files_ab ! k))), mk_data (files_ab ! k), t2))"
    using mkfs_files_readable [OF input_ab] by blast
  obtain s' where "mkfs_main files_ab = Some s'" "image_of s' files_ab" by (rule mkfs_main_ok [OF input_ab])
  then have "length (mk_disk s n) = BSIZE" for n using s(1) by (simp add: image_of_def Let_def img_ok_def)
  note k = kernel_on_runs [of "mk_disk s", OF this]
  have "0 < length files_ab" "mk_data (files_ab ! 0) = [1, 2, 3]" by (simp_all add: files_ab_def mk_data_def)
  then show ?thesis using s(2) [rule_format, of "kernel_on (mk_disk s) 2" 0 0] k [of 2] s(1) by (auto simp: numeral_2_eq_2)
qed

section \<open>The root directory\<close>

lemma entry_slice: "\<forall>e\<in>set es. length (dirent_bytes e) = 16 \<Longrightarrow> m < length es \<Longrightarrow> take 16 (drop (16 * m) (entry_bytes es)) = dirent_bytes (es ! m)"
proof (induction es arbitrary: m)
  case (Cons e es)
  then show ?case by (cases m) simp_all
qed simp

lemma nth_file_entries: "k < length fs \<Longrightarrow> file_entries n fs ! k = mk_entry (n + k) (mk_name (fst (fs ! k)))"
proof (induction fs arbitrary: n k)
  case (Cons f fs)
  then show ?case by (cases k) simp_all
qed simp

definition root_names :: "mkfile list \<Rightarrow> byte list list" where
  "root_names files = [46] # [46, 46] # map (\<lambda>f. mk_name (fst f)) files"

lemma nth_root_entries:
  assumes "m < length files + 2"
  shows "root_entries files ! m = mk_entry (max 1 m) (root_names files ! m)"
proof -
  consider "m = 0" | "m = 1" | k where "m = k + 2" "k < length files" using assms by (metis One_nat_def add_2_eq_Suc' add_less_cancel_right not0_implies_Suc)
  then show ?thesis by cases (simp_all add: root_entries_def root_names_def nth_file_entries)
qed

text \<open>No two entries of the root directory have the same name, and the last block of it is not full.\<close>

definition root_good :: "mkfile list \<Rightarrow> bool" where
  "root_good files \<longleftrightarrow> distinct (map name_key (root_names files)) \<and> (length files + 2) mod 64 \<noteq> 0"

lemma root_size_eq:
  assumes "root_good files"
  shows "root_size files = nblk (16 * (length files + 2)) * BSIZE"
proof -
  have "16 * (length files + 2) mod BSIZE = 16 * ((length files + 2) mod 64)" using mult_mod_right [of 16 "length files + 2" 64] by simp
  then show ?thesis using assms by (simp add: root_size_def root_good_def nblk_cases)
qed

lemma root_lookup:
  assumes inp: "mk_input files" and good: "root_good files" and k: "k < length files + 2"
    and sz: "unat (i_size i) = root_size files" and sl: "\<And>off n. off + n \<le> 16 * (length files + 2) \<Longrightarrow> file_slice C i off n = take n (drop off (entry_bytes (root_entries files)))"
  shows "dir_lookup C i (root_names files ! k) = Some (of_nat (max 1 k))"
proof -
  let ?es = "dir_entries C i"
  have "16 * (length files + 2) \<le> root_size files" using root_size_eq [OF good] nblk_bound [of "16 * (length files + 2)"] by simp
  then have len: "length files + 2 \<le> length ?es" using sz by (simp add: dir_entries_def)
  have e16: "\<forall>e\<in>set (root_entries files). length (dirent_bytes e) = 16"
    using nth_root_entries [of _ files] by (auto simp: in_set_conv_nth root_entries_def [of files, THEN arg_cong [where f = length]])
  have en: "?es ! m = mk_entry (max 1 m) (root_names files ! m)" if m: "m < length files + 2" for m
  proof -
    have "file_slice C i (16 * m) 16 = dirent_bytes (root_entries files ! m)"
      using sl [of "16 * m" 16] m entry_slice [OF e16, of m] by (simp add: root_entries_def)
    then have "?es ! m = get_dirent (dirent_bytes (root_entries files ! m))" using len m by (simp add: dir_entries_def)
    then show ?thesis unfolding nth_root_entries [OF m] by (subst (asm) get_dirent_bytes) (simp_all add: mk_entry_def)
  qed
  have nm: "length (root_names files) = length files + 2" by (simp add: root_names_def)
  have small: "max 1 k < 2 ^ 16" using inp k by (simp add: mk_input_def)
  have "find_entry (root_names files ! k) ?es = Some k"
    unfolding find_entry_def first_ix_eq_Some
  proof (intro conjI allI impI)
    show "k < length ?es" using len k by simp
    have "of_nat (max 1 k) \<noteq> (0 :: 16 word)" using small by (simp add: word_unat_eq_iff unat_of_nat)
    then show "de_inum (?es ! k) \<noteq> 0" unfolding en [OF k] by (simp add: mk_entry_def)
    show "namecmp (root_names files ! k) (de_name (?es ! k))" unfolding en [OF k] using namecmp_entry by (simp add: mk_entry_def)
    show "\<not> (de_inum (?es ! j) \<noteq> 0 \<and> namecmp (root_names files ! k) (de_name (?es ! j)))" if j: "j < k" for j
    proof -
      have "name_key (root_names files ! k) \<noteq> name_key (root_names files ! j)"
        using good j k nm nth_eq_iff_index_eq [of "map name_key (root_names files)" k j] by (simp add: root_good_def)
      then show ?thesis using en [of j] j k namecmp_entry by (simp add: mk_entry_def)
    qed
  qed
  moreover have "ucast (of_nat (max 1 k) :: 16 word) = (of_nat (max 1 k) :: uint)"
    using small by (simp add: word_unat_eq_iff unsigned_ucast_eq unat_of_nat take_bit_nat_eq_self)
  ultimately show ?thesis using en [OF k] by (simp add: dir_lookup_def mk_entry_def)
qed

text \<open>
  Property C11.  The names that \<open>mkfs\<close> puts into the root directory are those the kernel finds: on a
  kernel that runs on the image, after \<open>ilock\<close> of the root inode, \<open>dirlookup\<close> of the name of file
  \<open>k\<close>, without a leading underscore, returns inode \<open>k + 2\<close>.  The names have to be different and the
  number of entries no multiple of 64.
\<close>

theorem mkfs_root_lists_files:
  assumes "mk_input files" "root_good files"
  shows "\<exists>s. mkfs_main files = Some s \<and>
    (\<forall>t ip k j. runs_on (mk_disk s) t \<and> unread_inode ip 1 t \<and> k < length files \<and> j \<noteq> ip \<and> j < length (inodes t) \<and> i_ref (inodes t ! j) = 0 \<longrightarrow>
      (\<exists>t1 r t2. ilock (Some ip) t = Some t1 \<and> dirlookup ip (mk_name (fst (files ! k))) t1 = Some (r, t2) \<and> found r t2 = Some (of_nat (k + 2))))"
proof -
  obtain s where s: "mkfs_main files = Some s" "image_of s files" by (rule mkfs_main_ok [OF assms(1)])
  let ?C = "mk_disk s" and ?c = "entry_bytes (root_entries files)" and ?fb = "first_data + used (mk_files files)"
  have im: "get_superblock (?C 1) = mk_super" "di_type (inode_at ?C 1) = T_DIR" "di_size (inode_at ?C 1) = of_nat (root_size files)"
    "file_img ?C ?fb (di_addrs (inode_at ?C 1)) ?c" using s(2) superblock_back by (simp_all add: image_of_def Let_def)
  have rs: "root_size files = nblk (length ?c) * BSIZE" using root_size_eq [OF assms(2)] by (simp add: length_root)
  have "nblk (length ?c) \<le> MAXFILE" using im(4) by (simp add: file_img_def blocks_ok_def)
  then have small: "root_size files < 2 ^ 32" using rs by simp
  have "\<exists>t1 r t2. ilock (Some ip) t = Some t1 \<and> dirlookup ip (mk_name (fst (files ! k))) t1 = Some (r, t2) \<and> found r t2 = Some (of_nat (k + 2))"
    if a: "runs_on ?C t" "unread_inode ip 1 t" "k < length files" "j \<noteq> ip" "j < length (inodes t)" "i_ref (inodes t ! j) = 0" for t ip k j
  proof -
    have pre: "(1 :: nat) < NINODES" "di_type (inode_at ?C 1) \<noteq> 0" using im(2) by simp_all
    obtain t1 i where t1: "ilock (Some ip) t = Some t1" "host t1" "bio_ok (fsys t1) {} {} ?C" "disksize (fsys t1) = FSSIZE" "nth_opt (inodes t1) ip = Some i"
      "i_dev i = 1" "i_type i = di_type (inode_at ?C 1)" "i_size i = di_size (inode_at ?C 1)" "i_addrs i = di_addrs (inode_at ?C 1)"
      "length (inodes t1) = length (inodes t)" "inodes t1 ! j = inodes t ! j"
      using ilock_ok [OF a(1) im(1) a(2) pre] a(4) by metis
    have sz: "unat (i_size i) = root_size files" unfolding t1(8) im(3) by (subst unat_of_nat) (use small in simp)
    have lf: "file_st 2 {} ?C ip i (nblk (length ?c)) t1" "\<And>off n. off + n \<le> length ?c \<Longrightarrow> file_slice ?C i off n = take n (drop off ?c)"
      using loaded_file [OF t1(2-6), of ?c ?fb] t1(7,9) im(2,4) sz rs by simp_all
    have "16 dvd root_size files" by (simp add: root_size_def)
    then have dst: "dir_st 2 {} ?C ip i (nblk (length ?c)) t1" using lf(1) t1(7) im(2) sz by (simp add: dir_st_def)
    have lk: "dir_lookup ?C i (root_names files ! (k + 2)) = Some (of_nat (max 1 (k + 2)))"
      by (rule root_lookup [OF assms _ sz]) (use a(3) lf(2) in \<open>simp_all add: length_root [simplified]\<close>)
    have j: "j < length (inodes t1)" "i_ref (inodes t1 ! j) = 0" using a(5,6) t1(10,11) by simp_all
    obtain r t2 where "dirlookup ip (mk_name (fst (files ! k))) t1 = Some (r, t2)" "found r t2 = dir_lookup ?C i (mk_name (fst (files ! k)))"
      using dirlookup_ok [OF dst j] by blast
    moreover have "root_names files ! (k + 2) = mk_name (fst (files ! k))" using a(3) by (simp add: root_names_def)
    ultimately show ?thesis using t1(1) lk by (simp add: max_def)
  qed
  then show ?thesis using s(1) by blast
qed

theorem mkfs_root_lists_files_witness:
  "\<exists>s t1 r t2. mkfs_main files_ab = Some s \<and> ilock (Some 0) (kernel_on (mk_disk s) 1) = Some t1 \<and>
    dirlookup 0 [97, 98] t1 = Some (r, t2) \<and> found r t2 = Some 2"
proof -
  have good: "root_good files_ab" by (simp add: root_good_def root_names_def files_ab_def name_key_def mk_name_def)
  obtain s where s: "mkfs_main files_ab = Some s"
    "\<forall>t ip k j. runs_on (mk_disk s) t \<and> unread_inode ip 1 t \<and> k < length files_ab \<and> j \<noteq> ip \<and> j < length (inodes t) \<and> i_ref (inodes t ! j) = 0 \<longrightarrow>
      (\<exists>t1 r t2. ilock (Some ip) t = Some t1 \<and> dirlookup ip (mk_name (fst (files_ab ! k))) t1 = Some (r, t2) \<and> found r t2 = Some (of_nat (k + 2)))"
    using mkfs_root_lists_files [OF input_ab good] by blast
  obtain s' where "mkfs_main files_ab = Some s'" "image_of s' files_ab" by (rule mkfs_main_ok [OF input_ab])
  then have "length (mk_disk s n) = BSIZE" for n using s(1) by (simp add: image_of_def Let_def img_ok_def)
  note k = kernel_on_runs [of "mk_disk s", OF this]
  have f: "0 < length files_ab" "mk_name (fst (files_ab ! 0)) = [97, 98]" by (simp_all add: files_ab_def mk_name_def)
  have j: "1 < length (inodes (kernel_on (mk_disk s) 1))" "i_ref (inodes (kernel_on (mk_disk s) 1) ! 1) = 0"
    by (simp_all add: kernel_on_def inode0_def)
  have "\<exists>t1 r t2. ilock (Some 0) (kernel_on (mk_disk s) 1) = Some t1 \<and> dirlookup 0 (mk_name (fst (files_ab ! 0))) t1 = Some (r, t2) \<and> found r t2 = Some (of_nat (0 + 2))"
    using s(2) [rule_format, of "kernel_on (mk_disk s) 1" 0 0 1] k [of 1] f(1) j by simp
  then show ?thesis using s(1) unfolding f(2) by auto
qed

end
