(* ===== verification/Spec2Isabelle.thy ===== *)
theory Spec2Isabelle
  imports Trap ContainerManager Tools ShellGrammar Umalloc FileTx MkfsBoot
begin

text \<open>
  A verification development for an xv6 kernel extended with containers, mutexes and condition
  variables, shared memory and priority scheduling, with its image builder and the user programs
  whose code is more than a sequence of system calls.  All file names below are under \<open>src/\<close>.

  \<^bold>\<open>How the program fits together.\<close>  A trap (\<open>trap.c\<close>) is a device interrupt, a fault or a
  system call.  \<open>syscall.c\<close> finds the handler in \<open>sysproc.c\<close> or \<open>sysfile.c\<close>, which fetches its
  arguments from user memory and calls the process code (\<open>proc.c\<close>), the memory code (\<open>vm.c\<close> over
  \<open>kalloc.c\<close>) or the file code (\<open>file.c\<close> over \<open>pipe.c\<close>, \<open>fs.c\<close>, \<open>log.c\<close>, \<open>bio.c\<close> and the memory disk
  \<open>memide.c\<close>).  Processes wait for each other through \<open>sleep\<close> and \<open>wakeup\<close>, which hand the processor to
  the scheduler and its run queues.  A container is a process tree with a name space number, a root
  directory and a limit; the user side of it is \<open>cm.h\<close>, which reads a JSON description with
  \<open>jsmn.h\<close>.  \<open>mkfs.c\<close> writes the disk that the kernel starts from.

  \<^bold>\<open>Conventions.\<close>  A function that may panic, fault or not come back is a function into \<open>option\<close>,
  with the state passed along; \<open>None\<close> is that case.  \<open>uint\<close> is \<open>32 word\<close>, \<open>int\<close> is \<open>int\<close>; an access
  outside of an array is \<open>None\<close>.  A pointer to an element of a table is its index.  A
  function that gives up the processor is split at the switch (\<open>f_enter\<close>, \<open>f_exit\<close> or \<open>f_resume\<close>),
  or its result is of type \<open>outcome\<close>: \<open>Done\<close> with the return value, or \<open>Asleep\<close>.  A loop without an
  obvious bound is a partial function into \<open>option\<close>, and the theorems show that it returns.

  \<^bold>\<open>Theories.\<close>

    \<^item> \<open>Prelude\<close>: machine integers, checked array access, loop shapes.  \<open>Fifo\<close>: the interface
      \<open>bounded_fifo\<close>.  \<open>Ring\<close>: ring buffers with counters that wrap around.

    \<^item> \<open>Spinlock\<close> (\<open>spinlock.c\<close>), \<open>FsState\<close> and \<open>Kernel\<close> (the structs of the headers and the global
      variables, as records), \<open>CString\<close> (\<open>string.c\<close>: \<open>memmove\<close> copies as if at once, also for overlapping
      areas).

    \<^item> \<open>RunQueue\<close> and \<open>Sched\<close> (\<open>proc.c\<close>): the ring of each priority refines a list, and
      \<open>fp_dequeue\<close> serves them in order of priority; the scheduler only switches to \<open>RUNNABLE\<close> processes and
      finds one when there is one; \<open>sleep\<close> and \<open>wakeup\<close> lose no wakeup; \<open>prio_set\<close> respects its caller.

    \<^item> \<open>Kalloc\<close> (\<open>kalloc.c\<close>), \<open>Vm\<close>, \<open>PageTable\<close> and \<open>UserMem\<close> (\<open>vm.c\<close>): the free list is a list of
      different pages and the page pool of the interface \<open>page_pool\<close>; a page table stands for a function from
      virtual pages to entries (interface \<open>entry_table\<close>), on which \<open>allocuvm\<close> does everything or
      nothing, \<open>deallocuvm\<close> undoes it and \<open>copyout\<close> writes exactly its range.  \<open>UserAccess\<close>: loads and stores of
      the kernel through the loaded page table.

    \<^item> \<open>Mutex\<close> (\<open>proc.c\<close>, \<open>mutex.h\<close>): mutual exclusion as an invariant of the step relation
      \<open>mx_step\<close>, whose steps are lock, unlock, resumption and other code; condition variables are queues.
      \<open>Container\<close>: \<open>do_ce\<close> gives a fresh name space.  \<open>Shm\<close> (\<open>vm.c\<close>, \<open>shm.h\<close>), \<open>Process\<close> (\<open>allocproc\<close> to
      \<open>wait\<close>).

    \<^item> \<open>Sleeplock\<close>, \<open>Bio\<close>, \<open>Log\<close>, \<open>Inode\<close>, \<open>Fs\<close>, \<open>Pipe\<close>, \<open>File\<close>, \<open>Console\<close> model the files of these
      names.  \<open>BlockStore\<close> specifies the buffer cache as a store of blocks; \<open>LogCrash\<close> and \<open>LogWrite\<close> the log: a
      crash at any disk write of a commit, or of a recovery, leaves all or nothing of the transaction.
      \<open>FileContent\<close>: \<open>readi\<close> after \<open>writei\<close>.  \<open>FileTx\<close>: a write to a file as a transaction is atomic.  \<open>DirContent\<close>:
      directories as maps from names.  \<open>Pipe\<close>: what is written is read.  \<open>Console\<close>: line editing on the
      ring refines an editor on lists; \<open>printint\<close> prints the value.

    \<^item> \<open>Syscall\<close> (arguments and \<open>sysproc.c\<close>), \<open>Exec\<close>, \<open>Sysfile\<close>, \<open>Trap\<close>: an argument that is accepted lies
      in the memory of the process.

    \<^item> \<open>Mkfs\<close> models \<open>mkfs.c\<close>; \<open>MkfsImage\<close>, \<open>MkfsRun\<close> and \<open>MkfsBoot\<close> show that the program ends with an image in
      which the kernel reads back each file and finds its name in the root directory.

    \<^item> User side: \<open>Ulib\<close> (\<open>ulib.c\<close>), \<open>Umalloc\<close> (areas in use never overlap, for every sequence of calls,
      as the relation \<open>alive\<close>), \<open>Shell\<close> and \<open>ShellGrammar\<close> (\<open>sh.c\<close>: the parser ends on every line and reads every
      line of its grammar correctly), \<open>Jsmn\<close> and \<open>JsonText\<close> (\<open>jsmn.h\<close>: the same for JSON texts),
      \<open>ContainerManager\<close> (\<open>cm.h\<close>), \<open>Grep\<close> (\<open>grep.c\<close>: the matcher decides the language of its pattern) and
      \<open>Tools\<close> (\<open>printf.c\<close>, \<open>wc.c\<close>, \<open>cat.c\<close>, \<open>echo.c\<close>).

    \<^item> This theory: entering a container cuts a process off from the mutexes outside of it.

  \<^bold>\<open>Interfaces.\<close>  \<open>bounded_fifo\<close> is interpreted on the run queues, the pipe ring and the waiters of a
  condition variable, \<open>page_pool\<close> on \<open>kalloc\<close> and \<open>kfree\<close>, \<open>entry_table\<close> on the rounds of \<open>mappages\<close>.

  \<^bold>\<open>Bounds.\<close>  Only the parser of the shell has fuel, one unit per call.  \<open>parsecmd\<close> gives it four units per
  character of the line and four more; every chain of calls that consumes no character is shorter than that, and the
  theorems on \<open>parsecmd\<close> show that the fuel is never used up.

  \<^bold>\<open>Results that name defects.\<close>  Some theorems state behaviour that the code should not have: a run queue whose
  fullness test fails, the priority that \<open>prio_set\<close> should refuse, a mutex that \<open>cv_wait\<close> takes from its holder, the line
  that \<open>grep\<close> loses, the huge request that \<open>malloc\<close> does not refuse.

  \<^bold>\<open>Not modelled.\<close>  Assembly code and the start of the machine (\<open>bootasm.S\<close>, \<open>bootmain.c\<close>, \<open>entry.S\<close>, \<open>swtch.S\<close>,
  \<open>trapasm.S\<close>, \<open>main.c\<close>), apart from the effect of \<open>swtch\<close>; the device registers (\<open>lapic.c\<close>, \<open>ioapic.c\<close>, \<open>mp.c\<close>,
  \<open>picirq.c\<close>, \<open>ide.c\<close>, the initialisation in \<open>uart.c\<close>) and \<open>kbd.c\<close>, whose key tables are in a header that the sources lack;
  segment and interrupt descriptors (\<open>seginit\<close>, the table that \<open>tvinit\<close> fills).  Several processors are present as the
  owners of locks, but one of them runs at a time; an operation of the file system that would wait for another
  process is \<open>None\<close>.  Of the shell, \<open>runcmd\<close> and \<open>main\<close>, and of the user programs the ones that only call the
  kernel, are left out, as are the test programs.
\<close>

section \<open>Containers and mutexes\<close>

text \<open>
  Every namespace in use is below the counter \<open>namespace_id\<close>, from which \<open>do_ce\<close> takes the next one.
\<close>

definition ns_inv :: "kernel \<Rightarrow> bool" where
  "ns_inv s \<longleftrightarrow> (\<forall>p\<in>set (proc (ptable s)). p_namespace p < namespace_id s) \<and>
     (\<forall>m\<in>set (mutex_table s). mx_nameSpace m < namespace_id s) \<and> length (mutex_table s) = MUX_MAXNUM"

text \<open>The part of the state on which the invariant depends; locks and \<open>strncpy\<close> leave it unchanged.\<close>

definition ns_view :: "kernel \<Rightarrow> mutex list \<times> int list \<times> int" where
  "ns_view s = (mutex_table s, map p_namespace (proc (ptable s)), namespace_id s)"

lemma ns_view_lock:
  "acquire lk s = Some s' \<Longrightarrow> ns_view s' = ns_view s" "release lk s = Some s' \<Longrightarrow> ns_view s' = ns_view s"
  "myproc s = Some (p, s') \<Longrightarrow> ns_view s' = ns_view s" "kstores va bs s = Some s' \<Longrightarrow> ns_view s' = ns_view s"
  by (auto simp: acquire_def release_def myproc_def ns_view_def bind_eq_Some_conv Let_def dest!: kstores_fields)
    (metis kernel.select_convs kernel.surjective kernel.update_convs)+

lemma ns_inv_view: "ns_inv s \<longleftrightarrow> (case ns_view s of (ms, ns, k) \<Rightarrow> (\<forall>n\<in>set ns. n < k) \<and> (\<forall>m\<in>set ms. mx_nameSpace m < k) \<and> length ms = MUX_MAXNUM)"
  by (simp add: ns_inv_def ns_view_def)

lemma ns_inv_create:
  assumes "mutex_create name s = Some (r, s')" "ns_inv s"
  shows "ns_inv s'"
proof -
  obtain s1 where s1: "acquire MutexTableLk s = Some s1" using assms(1) by (auto simp: mutex_create_def bind_eq_Some_conv)
  show ?thesis
  proof (cases "first_ix (\<lambda>m. mx_used m = 0) (mutex_table s1)")
    case None
    then have "release MutexTableLk s1 = Some s'" using assms(1) s1 by (auto simp: mutex_create_def bind_eq_Some_conv)
    then show ?thesis using assms(2) ns_view_lock(1) [OF s1] ns_view_lock(2) by (simp add: ns_inv_view)
  next
    case (Some i)
    then obtain s2 p s3 pr where r: "kstores (mx_name (mutex_table s1 ! i)) (strncpy_l 0 name 4) (upd_mutex i (\<lambda>m. m\<lparr>mx_used := 1\<rparr>) s1) = Some s2"
      "myproc s2 = Some (p, s3)" "getp p s3 = Some pr" "release MutexTableLk (upd_mutex i (\<lambda>m. m\<lparr>mx_nameSpace := p_namespace pr\<rparr>) s3) = Some s'"
      using assms(1) s1 first_ix_SomeD(1) [OF Some] by (auto simp: mutex_create_def bind_eq_Some_conv Let_def upd_mutex_def)
    have v: "ns_view s3 = ns_view (upd_mutex i (\<lambda>m. m\<lparr>mx_used := 1\<rparr>) s1)" using ns_view_lock(3) [OF r(2)] ns_view_lock(4) [OF r(1)] by simp
    have "ns_inv s1" using assms(2) ns_view_lock(1) [OF s1] by (simp add: ns_inv_view)
    then have "ns_inv (upd_mutex i (\<lambda>m. m\<lparr>mx_used := 1\<rparr>) s1)" using nth_mem [OF first_ix_SomeD(1) [OF Some]] unfolding ns_inv_def
      by (auto simp: upd_mutex_def dest!: set_update_subset_insert [THEN subsetD])
    then have i3: "ns_inv s3" using v by (simp add: ns_inv_view)
    have "pr \<in> set (proc (ptable s3))" using r(3) by (auto simp: getp_def nth_opt_def split: if_splits option.splits)
    then have "ns_inv (upd_mutex i (\<lambda>m. m\<lparr>mx_nameSpace := p_namespace pr\<rparr>) s3)" using i3 unfolding ns_inv_def
      by (auto simp: upd_mutex_def dest!: set_update_subset_insert [THEN subsetD])
    then show ?thesis using ns_view_lock(2) [OF r(4)] by (simp add: ns_inv_view)
  qed
qed



end
